(* ===== verification/Ngx_Prelude.thy ===== *)
theory Ngx_Prelude
  imports Main "HOL-Library.Word"
begin

text \<open>
  Shared vocabulary of the development: bytes, C character constants, the integer limits of the
  configured build (\<^verbatim>\<open>nginx-1.25.0/objs/ngx_auto_config.h\<close>, a 64-bit little-endian Unix), the
  NGINX return codes, and the generic lemmas the component theories use.

  A \<^verbatim>\<open>u_char *\<close> with a length is the list of the bytes it points to.  A null-terminated
  string is the list of the bytes before the terminator; reading at the end of the list reads
  the terminator, the byte 0.
\<close>

unbundle bit_operations_syntax

named_theorems ngx_defs \<open>definitions of the C operations that proofs unfold\<close>
named_theorems ngx_consts \<open>numeric constants of the configuration\<close>

type_synonym u_char = "8 word"
type_synonym u_int32 = "32 word"
type_synonym u_int64 = "64 word"

text \<open>A pointer is an address, or \<^verbatim>\<open>NULL\<close>.\<close>

type_synonym ptr = "nat option"

abbreviation (input) NULL :: ptr where "NULL \<equiv> None"

abbreviation ch :: "char \<Rightarrow> u_char" where
  "ch c \<equiv> of_char c"

definition bytes :: "string \<Rightarrow> u_char list" where
  "bytes s = map of_char s"

abbreviation (input) LF :: u_char where "LF \<equiv> 10"
abbreviation (input) CR :: u_char where "CR \<equiv> 13"

abbreviation (input) NGX_OK :: int where "NGX_OK \<equiv> 0"
abbreviation (input) NGX_ERROR :: int where "NGX_ERROR \<equiv> - 1"
abbreviation (input) NGX_AGAIN :: int where "NGX_AGAIN \<equiv> - 2"
abbreviation (input) NGX_BUSY :: int where "NGX_BUSY \<equiv> - 3"
abbreviation (input) NGX_DONE :: int where "NGX_DONE \<equiv> - 4"
abbreviation (input) NGX_DECLINED :: int where "NGX_DECLINED \<equiv> - 5"

definition NGX_MAX_INT_T_VALUE :: int where
  "NGX_MAX_INT_T_VALUE = 9223372036854775807"

definition NGX_MAX_SIZE_T_VALUE :: int where
  "NGX_MAX_SIZE_T_VALUE = 9223372036854775807"

definition NGX_MAX_OFF_T_VALUE :: int where
  "NGX_MAX_OFF_T_VALUE = 9223372036854775807"

definition NGX_MAX_TIME_T_VALUE :: int where
  "NGX_MAX_TIME_T_VALUE = 9223372036854775807"

declare NGX_MAX_INT_T_VALUE_def [ngx_consts] NGX_MAX_SIZE_T_VALUE_def [ngx_consts]
  NGX_MAX_OFF_T_VALUE_def [ngx_consts] NGX_MAX_TIME_T_VALUE_def [ngx_consts]

section \<open>Finite case analysis on bytes\<close>

lemma unat_byte_less [simp]: "unat (c :: u_char) < 256"
  using unsigned_less [of c] by simp

lemma uint_byte_bounds: "0 \<le> uint (c :: u_char) \<and> uint c < 256"
  using unsigned_less [of c] by simp

lemma byte_exhaust:
  assumes "\<And>n. n < 256 \<Longrightarrow> P (word_of_nat n :: u_char)"
  shows "P c"
proof -
  have "word_of_nat (unat c) = c" by simp
  with assms [of "unat c"] show ?thesis by simp
qed

text \<open>A property of all bytes is decided by evaluating it on each of the 256 of them.\<close>

definition all_bytes :: "u_char list" where
  "all_bytes = [
    0, 1, 2, 3, 4, 5, 6, 7, 8, 9, 10, 11, 12, 13, 14, 15,
    16, 17, 18, 19, 20, 21, 22, 23, 24, 25, 26, 27, 28, 29, 30, 31,
    32, 33, 34, 35, 36, 37, 38, 39, 40, 41, 42, 43, 44, 45, 46, 47,
    48, 49, 50, 51, 52, 53, 54, 55, 56, 57, 58, 59, 60, 61, 62, 63,
    64, 65, 66, 67, 68, 69, 70, 71, 72, 73, 74, 75, 76, 77, 78, 79,
    80, 81, 82, 83, 84, 85, 86, 87, 88, 89, 90, 91, 92, 93, 94, 95,
    96, 97, 98, 99, 100, 101, 102, 103, 104, 105, 106, 107, 108, 109, 110, 111,
    112, 113, 114, 115, 116, 117, 118, 119, 120, 121, 122, 123, 124, 125, 126, 127,
    128, 129, 130, 131, 132, 133, 134, 135, 136, 137, 138, 139, 140, 141, 142, 143,
    144, 145, 146, 147, 148, 149, 150, 151, 152, 153, 154, 155, 156, 157, 158, 159,
    160, 161, 162, 163, 164, 165, 166, 167, 168, 169, 170, 171, 172, 173, 174, 175,
    176, 177, 178, 179, 180, 181, 182, 183, 184, 185, 186, 187, 188, 189, 190, 191,
    192, 193, 194, 195, 196, 197, 198, 199, 200, 201, 202, 203, 204, 205, 206, 207,
    208, 209, 210, 211, 212, 213, 214, 215, 216, 217, 218, 219, 220, 221, 222, 223,
    224, 225, 226, 227, 228, 229, 230, 231, 232, 233, 234, 235, 236, 237, 238, 239,
    240, 241, 242, 243, 244, 245, 246, 247, 248, 249, 250, 251, 252, 253, 254, 255]"

lemma all_bytes_eq: "map word_of_nat [0..<256] = all_bytes"
  by (simp add: all_bytes_def upt_rec)

lemma byte_all: "list_all P all_bytes \<Longrightarrow> P c"
  by (rule byte_exhaust)
     (auto simp: all_bytes_eq [symmetric] list_all_iff simp del: upt_rec_numeral)

lemma byte_bitI:
  fixes a b :: u_char
  assumes "bit a 0 = bit b 0" "bit a 1 = bit b 1" "bit a 2 = bit b 2" "bit a 3 = bit b 3"
    "bit a 4 = bit b 4" "bit a 5 = bit b 5" "bit a 6 = bit b 6" "bit a 7 = bit b 7"
  shows "a = b"
proof (rule bit_word_eqI)
  fix n assume "n < LENGTH(8)"
  then have "n < 8" by simp
  then consider "n = 0" | "n = 1" | "n = 2" | "n = 3" | "n = 4" | "n = 5" | "n = 6" | "n = 7"
    by linarith
  then show "bit a n = bit b n" using assms by cases simp_all
qed

section \<open>ASCII classes\<close>

definition is_digit :: "u_char \<Rightarrow> bool" where
  "is_digit c \<longleftrightarrow> ch CHR ''0'' \<le> c \<and> c \<le> ch CHR ''9''"

definition digit_val :: "u_char \<Rightarrow> int" where
  "digit_val c = uint c - 48"

lemma digit_val_bounds: "is_digit c \<Longrightarrow> 0 \<le> digit_val c \<and> digit_val c \<le> 9"
  by (simp add: is_digit_def digit_val_def word_le_def)

lemma is_digit_not_dot [simp]: "is_digit c \<Longrightarrow> c \<noteq> 46"
  by (auto simp: is_digit_def)

lemma not_digit: "\<not> is_digit c \<longleftrightarrow> c < ch CHR ''0'' \<or> c > ch CHR ''9''"
  by (auto simp: is_digit_def)

section \<open>Lists\<close>

lemma list_all_append_iff [simp]: "list_all P (xs @ ys) \<longleftrightarrow> list_all P xs \<and> list_all P ys"
  by (induction xs) auto

text \<open>\<^verbatim>\<open>memcpy(&buf[i], xs, n)\<close> on a buffer kept as a list.\<close>

definition memcpy_at :: "'a list \<Rightarrow> nat \<Rightarrow> 'a list \<Rightarrow> 'a list" where
  "memcpy_at buf i xs = take i buf @ xs @ drop (i + length xs) buf"

lemma length_memcpy_at [simp]:
  "i + length xs \<le> length buf \<Longrightarrow> length (memcpy_at buf i xs) = length buf"
  by (simp add: memcpy_at_def)

lemma take_memcpy_at [simp]:
  "i \<le> length buf \<Longrightarrow> take i (memcpy_at buf i xs) = take i buf"
  "i \<le> length buf \<Longrightarrow> take (i + length xs) (memcpy_at buf i xs) = take i buf @ xs"
  by (simp_all add: memcpy_at_def)

lemma memcpy_at_full:
  "i + length xs = length buf \<Longrightarrow> memcpy_at buf i xs = take i buf @ xs"
  by (simp add: memcpy_at_def)

section \<open>32-bit words\<close>

lemma and_0xffffffff [simp]: "x AND 0xffffffff = (x :: u_int32)"
proof -
  have "(0xffffffff :: u_int32) = - 1" by simp
  then show ?thesis by (simp only: and.right_neutral)
qed

text \<open>The rotation that compilers recognise in \<^verbatim>\<open>(a << s) | (a >> (32 - s))\<close>.\<close>

lemma rotl32:
  fixes a :: u_int32
  assumes "0 < s" "s < 32"
  shows "push_bit s a OR drop_bit (32 - s) a = word_rotl s a"
proof (rule bit_word_eqI)
  fix n assume n: "n < LENGTH(32)"
  have "(n + (32 - s)) mod 32 = (if s \<le> n then n - s else n + (32 - s))"
    using n assms by (auto simp: mod_if)
  moreover have "32 + n - s = n + 32 - s" by simp
  ultimately show "bit (push_bit s a OR drop_bit (32 - s) a) n = bit (word_rotl s a) n"
    using n assms by (auto simp: bit_simps bit_word_rotl_iff dest: bit_imp_le_length)
qed

section \<open>Masks and widening\<close>

lemma and_mask_take_bit:
  "x AND 0xff = take_bit 8 x" "x AND 0x3f = take_bit 6 x" "x AND 0x1f = take_bit 5 x"
  "x AND 0x0f = take_bit 4 x" "x AND 0x07 = take_bit 3 x" "x AND 0x03 = take_bit 2 x"
  for x :: "'a :: len word"
  using take_bit_eq_mask [of 8 x] take_bit_eq_mask [of 6 x] take_bit_eq_mask [of 5 x]
    take_bit_eq_mask [of 4 x] take_bit_eq_mask [of 3 x] take_bit_eq_mask [of 2 x]
  by (simp_all add: mask_eq_exp_minus_1)

lemma unat_take_bit: "unat (take_bit n x) = unat x mod 2 ^ n"
  by (simp add: unsigned_take_bit_eq flip: take_bit_eq_mod)

lemma unat_u32_of_byte [simp]: "unat (ucast (c :: u_char) :: u_int32) = unat c"
  by (simp add: unsigned_ucast_eq take_bit_nat_eq_self_iff less_trans [OF unat_byte_less])

lemma unat_byte_of_nat [simp]: "n < 256 \<Longrightarrow> unat (of_nat n :: u_char) = n"
  by (simp add: unsigned_of_nat take_bit_nat_eq_self)

section \<open>Pieces of a buffer\<close>

definition piece :: "'a list \<Rightarrow> nat \<Rightarrow> nat \<Rightarrow> 'a list" where
  "piece m i j = take (j - i) (drop i m)"

lemma length_piece [simp]: "j \<le> length m \<Longrightarrow> length (piece m i j) = j - i"
  by (simp add: piece_def)

lemma nth_piece [simp]: "i + k < j \<Longrightarrow> j \<le> length m \<Longrightarrow> piece m i j ! k = m ! (i + k)"
  by (simp add: piece_def)

lemma take_drop_Suc:
  "i < length m \<Longrightarrow> take (Suc n) (drop i m) = m ! i # take n (drop (Suc i) m)"
  by (metis Cons_nth_drop_Suc take_Suc_Cons)

lemma piece_Suc: "i \<le> j \<Longrightarrow> j < length m \<Longrightarrow> piece m i (Suc j) = piece m i j @ [m ! j]"
  by (simp add: piece_def Suc_diff_le take_Suc_conv_app_nth)

lemma piece_self [simp]: "piece m i i = []"
  by (simp add: piece_def)

lemma set_pieceD:
  assumes "c \<in> set (piece m i j)" "j \<le> length m"
  shows "\<exists>k. i \<le> k \<and> k < j \<and> c = m ! k"
proof -
  from assms obtain n where "n < j - i" "c = piece m i j ! n"
    by (auto simp: in_set_conv_nth)
  then show ?thesis using assms(2) by (intro exI [of _ "i + n"]) auto
qed

lemma piece_append [simp]: "j \<le> length m \<Longrightarrow> piece (m @ w) i j = piece m i j"
  by (cases "i \<le> length m") (auto simp: piece_def)

end
