(* ===== verification/Ngx_Stream.thy ===== *)
theory Ngx_Stream
  imports Ngx_Prelude
begin

text \<open>
  The buffering scheme that \<^verbatim>\<open>src/core/ngx_md5.c\<close> and \<^verbatim>\<open>src/core/ngx_sha1.c\<close> share: a context
  with a 64-bit byte counter, the chaining value and a 64-byte buffer; an update that tops up
  the buffer, hands whole blocks to the compression loop and keeps the rest; a final step that
  appends \<open>0x80\<close>, zeros and the bit length.

  The locale \<open>block_hash\<close> states what a concrete hash provides (its compression loop handles a
  whole number of blocks, its operations act on the context as the scheme says); its lemmas
  show once that any sequence of updates followed by the final step computes the hash of the
  padded concatenation.  \<open>Ngx_Md5\<close> and \<open>Ngx_Sha1\<close> interpret it.
\<close>

section \<open>The scheme\<close>

text \<open>A view of a context: bytes counted so far, chaining value, buffer.\<close>

type_synonym 'h stream = "u_int64 \<times> 'h \<times> u_char list"

definition stream_tail ::
  "('h \<Rightarrow> u_char list \<Rightarrow> 'h) \<Rightarrow> 'h stream \<Rightarrow> u_char list \<Rightarrow> 'h stream" where
  "stream_tail body s data =
     (case s of (n, h, buf) \<Rightarrow>
        let m = length data div 64 * 64 in
        if 64 \<le> length data then (n, body h (take m data), memcpy_at buf 0 (drop m data))
        else (n, h, memcpy_at buf 0 data))"

definition stream_update ::
  "('h \<Rightarrow> u_char list \<Rightarrow> 'h) \<Rightarrow> 'h stream \<Rightarrow> u_char list \<Rightarrow> 'h stream" where
  "stream_update body s data =
     (case s of (n, h, buf) \<Rightarrow>
        let used = unat (n AND 0x3f); n' = n + of_nat (length data); free = 64 - used in
        if used \<noteq> 0 then
          if length data < free then (n', h, memcpy_at buf used data)
          else let buf' = memcpy_at buf used (take free data) in
               stream_tail body (n', body h buf', buf') (drop free data)
        else stream_tail body (n', h, buf) data)"

definition stream_final ::
  "('h \<Rightarrow> u_char list \<Rightarrow> 'h) \<Rightarrow> (u_int64 \<Rightarrow> u_char list) \<Rightarrow> 'h stream \<Rightarrow> 'h" where
  "stream_final body lenbytes s =
     (case s of (n, h, buf) \<Rightarrow>
        let used = unat (n AND 0x3f);
            buf = buf[used := 0x80];
            used = used + 1;
            free = 64 - used;
            (h, buf, used, free) =
              (if free < 8 then
                 let buf = memcpy_at buf used (replicate free 0) in (body h buf, buf, 0, 64)
               else (h, buf, used, free));
            buf = memcpy_at buf used (replicate (free - 8) 0);
            buf = memcpy_at buf 56 (lenbytes (push_bit 3 n))
        in body h buf)"

section \<open>Byte order\<close>

text \<open>
  Numbers as bytes, least significant byte first, and back, as the standards describe them; the digests are stated with these and not with the shifts of the code.
\<close>

fun le_bytes :: "nat \<Rightarrow> nat \<Rightarrow> u_char list" where
  "le_bytes 0 n = []"
| "le_bytes (Suc k) n = of_nat (n mod 256) # le_bytes k (n div 256)"

fun le_num :: "u_char list \<Rightarrow> nat" where
  "le_num [] = 0"
| "le_num (b # bs) = unat b + 256 * le_num bs"

lemma byte_mod: "(of_nat (n mod 256) :: u_char) = of_nat n"
  by (simp add: word_of_nat_eq_iff take_bit_eq_mod)

lemma byte_drop: "(ucast (drop_bit k w) :: u_char) = of_nat (unat w div 2 ^ k)" for w :: "'a::len word"
proof -
  have "(ucast (drop_bit k w) :: u_char) = of_nat (unat (drop_bit k w))" by simp
  also have "unat (drop_bit k w) = unat w div 2 ^ k" by (simp only: unat_drop_bit_eq) (simp add: drop_bit_eq_div)
  finally show ?thesis .
qed

lemma le_bytes_map: "le_bytes k n = map (\<lambda>i. of_nat (n div 2 ^ (8 * i))) [0..<k]"
proof (induction k arbitrary: n)
  case (Suc k)
  have "(n div 256) div 2 ^ (8 * i) = n div 2 ^ (8 * Suc i)" for i
    by (simp add: div_mult2_eq [symmetric] power_add)
  then show ?case using Suc by (simp add: byte_mod upt_conv_Cons map_Suc_upt [symmetric] del: upt_Suc)
qed simp

lemma le_bytes_word: "le_bytes k (unat w) = map (\<lambda>i. ucast (drop_bit (8 * i) w)) [0..<k]" for w :: "'a::len word"
  by (simp add: le_bytes_map byte_drop)

lemma le_bytes_4: "le_bytes 4 (unat w) = [ucast w, ucast (drop_bit 8 w), ucast (drop_bit 16 w), ucast (drop_bit 24 w)]" for w :: "'a::len word"
  by (simp add: le_bytes_word upt_conv_Cons)

lemma le_bytes_8: "le_bytes 8 (unat w) = [ucast w, ucast (drop_bit 8 w), ucast (drop_bit 16 w), ucast (drop_bit 24 w),
   ucast (drop_bit 32 w), ucast (drop_bit 40 w), ucast (drop_bit 48 w), ucast (drop_bit 56 w)]" for w :: "'a::len word"
  by (simp add: le_bytes_word upt_conv_Cons)

lemma le_bytes_mod: "le_bytes k (n mod 256 ^ k) = le_bytes k n"
  by (induction k arbitrary: n) (simp_all add: mod_mult2_eq)

lemma le_num_4:
  "(of_nat (le_num [a, b, c, d]) :: u_int32) = ucast a OR push_bit 8 (ucast b) OR push_bit 16 (ucast c) OR push_bit 24 (ucast d)"
proof -
  have "ucast a OR (push_bit 8 (ucast b) OR (push_bit 16 (ucast c) OR push_bit 24 (ucast d))) =
    (ucast a + (push_bit 8 (ucast b) + (push_bit 16 (ucast c) + push_bit 24 (ucast d))) :: u_int32)"
    by (subst (1 2 3) disjunctive_add) (auto simp: bit_simps not_le not_less dest: bit_imp_le_length)
  also have "\<dots> = of_nat (le_num [a, b, c, d])"
    by (simp add: push_bit_eq_mult algebra_simps)
  finally show ?thesis by (simp add: or.assoc)
qed

text \<open>The length in bits, modulo \<open>2 ^ 64\<close>.\<close>

lemma le_bytes_length: "le_bytes 8 (unat (push_bit 3 (of_nat n) :: u_int64)) = le_bytes 8 (8 * n)"
proof -
  have "unat (push_bit 3 (of_nat n) :: u_int64) = 8 * n mod 256 ^ 8"
    by (simp add: push_bit_eq_mult unat_word_ariths unat_of_nat mult.commute mod_mult_right_eq)
  then show ?thesis by (simp only: le_bytes_mod)
qed

section \<open>The reference: padding and iterated compression\<close>

function hash_blocks :: "('h \<Rightarrow> u_char list \<Rightarrow> 'h) \<Rightarrow> 'h \<Rightarrow> u_char list \<Rightarrow> 'h" where
  "hash_blocks compress h m =
     (if length m < 64 then h
      else hash_blocks compress (compress h (take 64 m)) (drop 64 m))"
  by pat_completeness auto
termination
  by (relation "measure (\<lambda>(c, h, m). length m)") auto

declare hash_blocks.simps [simp del]

text \<open>
  Padding: the bit 1, then zeros up to a length of 56 modulo 64 bytes, then the length in the bytes the hash writes it with; \<open>std_pad\<close> has the length as a number.
\<close>

definition std_pad :: "(nat \<Rightarrow> u_char list) \<Rightarrow> u_char list \<Rightarrow> u_char list" where
  "std_pad enc m = m @ 0x80 # replicate ((119 - length m mod 64) mod 64) 0 @ enc (8 * length m)"

definition md_pad :: "(u_int64 \<Rightarrow> u_char list) \<Rightarrow> u_char list \<Rightarrow> u_char list" where
  "md_pad lenbytes m =
     m @ 0x80 # replicate ((119 - length m mod 64) mod 64) 0
       @ lenbytes (push_bit 3 (of_nat (length m)))"

lemma hash_blocks_short [simp]: "length m < 64 \<Longrightarrow> hash_blocks c h m = h"
  by (subst hash_blocks.simps) simp

lemma hash_blocks_block [simp]:
  "length b = 64 \<Longrightarrow> hash_blocks c h (b @ m) = hash_blocks c (c h b) m"
  by (subst hash_blocks.simps) simp

lemma hash_blocks_append:
  "64 dvd length a \<Longrightarrow> hash_blocks c h (a @ b) = hash_blocks c (hash_blocks c h a) b"
proof (induction c h a rule: hash_blocks.induct)
  case (1 c h a)
  show ?case
  proof (cases "length a < 64")
    case True
    with "1.prems" have "a = []" by (auto elim: dvdE)
    then show ?thesis by simp
  next
    case False
    have split: "a = take 64 a @ drop 64 a" by simp
    from "1.prems" False have "64 dvd length (drop 64 a)" by (simp add: dvd_diff_nat)
    with "1.IH" False
    have "hash_blocks c (c h (take 64 a)) (drop 64 a @ b) =
        hash_blocks c (hash_blocks c (c h (take 64 a)) (drop 64 a)) b" by blast
    then show ?thesis
      using False split hash_blocks_block [of "take 64 a" c h] by (metis append.assoc length_take
          min.absorb2 not_le_imp_less order_less_imp_le not_less)
  qed
qed

text \<open>Bytes after the last full block do not matter.\<close>

lemma hash_blocks_full:
  "hash_blocks c h (take (length m div 64 * 64) m) = hash_blocks c h m"
proof -
  let ?n = "length m div 64 * 64"
  have "length (drop ?n m) < 64" by (simp add: minus_div_mult_eq_mod)
  moreover have "64 dvd length (take ?n m)" by (simp add: min_absorb2)
  ultimately show ?thesis
    using hash_blocks_append [of "take ?n m" c h "drop ?n m"] by simp
qed

lemma used_eq: "unat ((of_nat k :: u_int64) AND 0x3f) = k mod 64"
proof -
  have "(of_nat k :: u_int64) AND 0x3f = take_bit 6 (of_nat k)"
    using take_bit_eq_mask [of 6 "of_nat k :: u_int64"] by (simp add: mask_eq_exp_minus_1)
  then have "unat ((of_nat k :: u_int64) AND 0x3f) = take_bit 6 (take_bit 64 k)"
    by (simp only: unsigned_take_bit_eq unsigned_of_nat) simp
  then show ?thesis by (simp add: take_bit_eq_mod mod_mod_cancel)
qed

lemma div_mod_64: obtains q r where "(a :: nat) = q * 64 + r" "r < 64" "a div 64 = q" "a mod 64 = r"
  by (rule that [of "a div 64" "a mod 64"]) simp_all

lemma div_mod_small:
  fixes a b :: nat
  assumes "a mod 64 + b < 64"
  shows "(a + b) div 64 = a div 64 \<and> (a + b) mod 64 = a mod 64 + b"
proof -
  obtain q r where a: "a = q * 64 + r" and q: "a div 64 = q" and r: "a mod 64 = r"
    by (rule div_mod_64 [of a])
  have "a + b = q * 64 + (r + b)" using a by simp
  moreover have "r + b < 64" using assms r by simp
  ultimately show ?thesis by (simp only: q r) simp
qed

lemma dvd_fill: "64 dvd a + (64 - a mod 64)" for a :: nat
proof -
  obtain q r where a: "a = q * 64 + r" "r < 64" and r: "a mod 64 = r"
    by (rule div_mod_64 [of a])
  then have "a + (64 - r) = 64 * (q + 1)" by simp
  then show ?thesis unfolding r by (metis dvd_triv_left)
qed

text \<open>The three ways through an update.\<close>

lemma stream_update_cases:
  assumes "unat (n AND 0x3f) = used"
  shows "used = 0 \<Longrightarrow>
      stream_update body (n, h, buf) data =
        stream_tail body (n + of_nat (length data), h, buf) data"
    and "used \<noteq> 0 \<Longrightarrow> length data < 64 - used \<Longrightarrow>
      stream_update body (n, h, buf) data =
        (n + of_nat (length data), h, memcpy_at buf used data)"
    and "used \<noteq> 0 \<Longrightarrow> 64 - used \<le> length data \<Longrightarrow>
      stream_update body (n, h, buf) data =
        (let buf' = memcpy_at buf used (take (64 - used) data) in
         stream_tail body (n + of_nat (length data), body h buf', buf') (drop (64 - used) data))"
  using assms by (auto simp: stream_update_def Let_def)

section \<open>The contract and what it gives\<close>

locale block_hash =
  fixes compress :: "'h \<Rightarrow> u_char list \<Rightarrow> 'h"
    and body :: "'h \<Rightarrow> u_char list \<Rightarrow> 'h"
    and iv :: 'h
    and lenbytes :: "u_int64 \<Rightarrow> u_char list"
    and view :: "'c \<Rightarrow> 'h stream"
    and init :: "'c \<Rightarrow> 'c"
    and update :: "'c \<Rightarrow> u_char list \<Rightarrow> 'c"
    and final :: "'c \<Rightarrow> u_char list"
    and out :: "'h \<Rightarrow> u_char list"
  assumes body_blocks:
      "data \<noteq> [] \<Longrightarrow> 64 dvd length data \<Longrightarrow> body h data = hash_blocks compress h data"
    and lenbytes_length: "length (lenbytes n) = 8"
    and view_init: "view (init c) = (0, iv, snd (snd (view c)))"
    and view_update: "view (update c data) = stream_update body (view c) data"
    and final_eq: "final c = out (stream_final body lenbytes (view c))"
begin

definition stream_rep :: "'h stream \<Rightarrow> u_char list \<Rightarrow> bool" where
  "stream_rep s m \<longleftrightarrow>
     (case s of (n, h, buf) \<Rightarrow>
        n = of_nat (length m) \<and> length buf = 64 \<and> h = hash_blocks compress iv m \<and>
        take (length m mod 64) buf = drop (length m div 64 * 64) m)"

definition represents :: "'c \<Rightarrow> u_char list \<Rightarrow> bool" where
  "represents c m \<longleftrightarrow> stream_rep (view c) m"

lemma represents_init:
  "length (snd (snd (view c))) = 64 \<Longrightarrow> represents (init c) []"
  by (simp add: represents_def stream_rep_def view_init)

lemma stream_rep_tail:
  assumes "length buf = 64" "64 dvd length m" "h = hash_blocks compress iv m"
    and "n = of_nat (length (m @ data))"
  shows "stream_rep (stream_tail body (n, h, buf) data) (m @ data)"
proof -
  let ?k = "length data div 64 * 64"
  from assms(2) obtain q where q: "length m = 64 * q" by (auto elim: dvdE)
  have r: "length (drop ?k data) = length data mod 64" by (simp add: minus_div_mult_eq_mod)
  have idx: "(length m + length data) mod 64 = length data mod 64"
    "(length m + length data) div 64 * 64 = length m + ?k"
    by (simp_all add: q)
  have h: "hash_blocks compress iv (m @ data) = hash_blocks compress h data"
    using assms hash_blocks_append by simp
  have b: "body h (take ?k data) = hash_blocks compress h data" if "64 \<le> length data"
  proof -
    have "take ?k data \<noteq> []" using that by (auto simp: div_greater_zero_iff)
    then show ?thesis using body_blocks [of "take ?k data" h] by (simp add: hash_blocks_full min_absorb2)
  qed
  have t: "take (length data mod 64) (memcpy_at buf 0 (drop ?k data)) = drop ?k data"
    using take_memcpy_at(2) [of 0 buf "drop ?k data"] r by simp
  have l: "length (memcpy_at buf 0 (drop ?k data)) = 64"
    using r assms(1) by (subst length_memcpy_at) auto
  show ?thesis
  proof (cases "64 \<le> length data")
    case True
    then show ?thesis
      using b h t l idx assms(4) by (simp add: stream_rep_def stream_tail_def Let_def)
  next
    case False
    then have "?k = 0" by simp
    with False show ?thesis
      using t h l idx assms(4) by (simp add: stream_rep_def stream_tail_def Let_def)
  qed
qed

lemma stream_rep_small:
  assumes "stream_rep (n, h, buf) m" "length m mod 64 + length data < 64"
  shows "stream_rep (n + of_nat (length data), h, memcpy_at buf (length m mod 64) data) (m @ data)"
proof -
  let ?used = "length m mod 64"
  have div: "(length m + length data) div 64 = length m div 64"
    and md: "(length m + length data) mod 64 = ?used + length data"
    using div_mod_small [OF assms(2)] by simp_all
  have le: "length m div 64 * 64 \<le> length m" by simp
  from assms(1) have n: "n = of_nat (length m)" and len: "length buf = 64"
    and h: "h = hash_blocks compress iv m"
    and part: "take ?used buf = drop (length m div 64 * 64) m"
    by (auto simp: stream_rep_def)
  have "hash_blocks compress iv (m @ data) = hash_blocks compress iv m"
    using hash_blocks_full [of compress iv "m @ data"] hash_blocks_full [of compress iv m] div le
    by simp
  moreover have "take (?used + length data) (memcpy_at buf ?used data) =
      drop (length m div 64 * 64) m @ data"
    using take_memcpy_at(2) [of ?used buf data] len part by simp
  ultimately show ?thesis
    using assms(2) div md len le n h by (simp add: stream_rep_def)
qed

lemma stream_rep_fill:
  assumes "stream_rep (n, h, buf) m" "length xs = 64 - length m mod 64"
  shows "length (memcpy_at buf (length m mod 64) xs) = 64"
    and "64 dvd length (m @ xs)"
    and "body h (memcpy_at buf (length m mod 64) xs) = hash_blocks compress iv (m @ xs)"
proof -
  let ?used = "length m mod 64" and ?full = "take (length m div 64 * 64) m"
  let ?blk = "take ?used buf @ xs"
  from assms(1) have len: "length buf = 64" and h: "h = hash_blocks compress iv m"
    and part: "take ?used buf = drop (length m div 64 * 64) m"
    by (auto simp: stream_rep_def)
  have used: "?used < 64" by simp
  have blk: "memcpy_at buf ?used xs = ?blk" and lblk: "length ?blk = 64"
    using memcpy_at_full [of ?used xs buf] assms(2) len used by auto
  show "length (memcpy_at buf ?used xs) = 64" using blk lblk by simp
  show "64 dvd length (m @ xs)" using dvd_fill [of "length m"] assms(2) by simp
  have one: "hash_blocks compress g ?blk = compress g ?blk" for g
    using hash_blocks_block [OF lblk, of compress g "[]"] by simp
  have "m @ xs = ?full @ ?blk" by (simp add: part)
  moreover have "hash_blocks compress iv (?full @ ?blk) =
      compress (hash_blocks compress iv ?full) ?blk"
    using hash_blocks_append [of ?full compress iv ?blk] one by (simp add: min_absorb2)
  ultimately have "hash_blocks compress iv (m @ xs) =
      compress (hash_blocks compress iv ?full) ?blk" by (simp only:)
  moreover have "body h ?blk = compress h ?blk"
    using body_blocks [of ?blk h] lblk one by force
  ultimately show "body h (memcpy_at buf ?used xs) = hash_blocks compress iv (m @ xs)"
    by (simp add: blk h hash_blocks_full)
qed

lemma represents_update:
  assumes "represents c m"
  shows "represents (update c data) (m @ data)"
proof -
  obtain n h buf where v: "view c = (n, h, buf)" by (cases "view c") auto
  let ?used = "length m mod 64"
  let ?free = "64 - ?used"
  from assms v have rep: "stream_rep (n, h, buf) m" by (simp add: represents_def)
  then have n: "n = of_nat (length m)" and len: "length buf = 64"
    and h: "h = hash_blocks compress iv m"
    by (auto simp: stream_rep_def)
  have used: "unat (n AND 0x3f) = ?used" by (simp add: n used_eq)
  note up = stream_update_cases [OF used, where body = body and h = h and buf = buf and data = data]
  consider (zero) "?used = 0" | (small) "?used \<noteq> 0" "length data < ?free"
    | (fill) "?used \<noteq> 0" "?free \<le> length data" by linarith
  then have "stream_rep (stream_update body (n, h, buf) data) (m @ data)"
  proof cases
    case zero
    then have "64 dvd length m" by auto
    from stream_rep_tail [OF len this h, of "n + of_nat (length data)"] show ?thesis
      by (simp add: up(1) zero) (simp add: n)
  next
    case small
    then show ?thesis using stream_rep_small [OF rep, of data] by (simp add: up(2))
  next
    case fill
    let ?xs = "take ?free data"
    have "length ?xs = ?free" using fill by simp
    note f = stream_rep_fill [OF rep this]
    have "of_nat (length (m @ data)) = n + of_nat (length data)" by (simp add: n)
    with stream_rep_tail [OF f, of "n + of_nat (length data)" "drop ?free data"] fill
    show ?thesis by (simp add: up(3) Let_def)
  qed
  then show ?thesis by (simp add: represents_def view_update v)
qed

lemma represents_updates:
  "represents c m \<Longrightarrow> represents (foldl update c ds) (m @ concat ds)"
proof (induction ds arbitrary: c m)
  case (Cons d ds)
  from Cons.IH [OF represents_update [OF Cons.prems, of d]] show ?case by simp
qed simp

lemma compress_block:
  "length b = 64 \<Longrightarrow> body h b = compress h b"
  using body_blocks [of b h] hash_blocks_block [of b compress h "[]"] by force

text \<open>The final step pads the buffered rest; two cases, by whether the length still fits.\<close>

lemma final_small:
  assumes "u < 56" "length buf = 64" "length ls = 8"
  shows "memcpy_at (memcpy_at (buf[u := 0x80]) (Suc u) (replicate (55 - u) 0)) 56 ls =
    take u buf @ 0x80 # replicate (55 - u) 0 @ ls"
proof -
  let ?b = "memcpy_at (buf[u := 0x80]) (Suc u) (replicate (55 - u) 0)"
  have "take (Suc u) (buf[u := 0x80]) = take u buf @ [0x80]"
    using assms by (simp add: take_Suc_conv_app_nth)
  moreover have "Suc u + length (replicate (55 - u) (0 :: u_char)) = 56" using assms by simp
  ultimately have "take 56 ?b = take u buf @ 0x80 # replicate (55 - u) 0"
    using take_memcpy_at(2) [of "Suc u" "buf[u := 0x80]" "replicate (55 - u) 0"] assms by simp
  then show ?thesis
    using memcpy_at_full [of 56 ls ?b] assms by simp
qed

lemma final_large:
  assumes "u < 64" "length buf = 64" "length ls = 8"
  defines "b \<equiv> memcpy_at (buf[u := 0x80]) (Suc u) (replicate (63 - u) 0)"
  shows "b = take u buf @ 0x80 # replicate (63 - u) 0" "length b = 64"
    and "memcpy_at (memcpy_at b 0 (replicate 56 0)) 56 ls = replicate 56 0 @ ls"
proof -
  have "take (Suc u) (buf[u := 0x80]) = take u buf @ [0x80]"
    using assms by (simp add: take_Suc_conv_app_nth)
  then show b: "b = take u buf @ 0x80 # replicate (63 - u) 0"
    using memcpy_at_full [of "Suc u" "replicate (63 - u) 0" "buf[u := 0x80]"] assms
    by (simp add: b_def)
  then show l: "length b = 64" using assms(1,2) by simp
  have "take 56 (memcpy_at b 0 (replicate 56 0)) = replicate 56 0"
    using take_memcpy_at(2) [of 0 b "replicate 56 0"] l by simp
  then show "memcpy_at (memcpy_at b 0 (replicate 56 0)) 56 ls = replicate 56 0 @ ls"
    using memcpy_at_full [of 56 ls "memcpy_at b 0 (replicate 56 0)"] l assms(3) by simp
qed

lemma stream_final_cases:
  assumes "unat (n AND 0x3f) = u" "u < 64" "length buf = 64"
  shows "stream_final body lenbytes (n, h, buf) =
    hash_blocks compress h (take u buf @ 0x80 # replicate ((119 - u) mod 64) 0
      @ lenbytes (push_bit 3 n))"
proof (cases "u < 56")
  case True
  let ?m = "take u buf @ 0x80 # replicate (55 - u) 0 @ lenbytes (push_bit 3 n)"
  have e: "119 - u = 64 + (55 - u)" using True by simp
  have z: "(119 - u) mod 64 = 55 - u" unfolding e mod_add_self1 by (rule mod_less) simp
  have l: "length ?m = 64" using True assms(3) by (simp add: lenbytes_length)
  have "\<not> 63 - u < 8" using True by linarith
  then have "stream_final body lenbytes (n, h, buf) = body h ?m"
    using final_small [OF True assms(3) lenbytes_length]
    by (simp add: stream_final_def Let_def assms(1))
  then show ?thesis
    using hash_blocks_block [OF l, of compress h "[]"] compress_block [OF l] z by simp
next
  case False
  let ?b = "memcpy_at (buf[u := 0x80]) (Suc u) (replicate (63 - u) 0)"
  let ?r = "replicate 56 0 @ lenbytes (push_bit 3 n)"
  have z: "(119 - u) mod 64 = (63 - u) + 56" using False assms(2) by simp
  note f = final_large [OF assms(2,3) lenbytes_length [of "push_bit 3 n"]]
  have l: "length ?r = 64" by (simp add: lenbytes_length)
  have "63 - u < 8" using False by linarith
  then have "stream_final body lenbytes (n, h, buf) = body (body h ?b) ?r"
    using f by (simp add: stream_final_def Let_def assms(1))
  also have "\<dots> = hash_blocks compress h (?b @ ?r)"
    using hash_blocks_block [OF f(2), of compress h ?r] compress_block [OF f(2)]
      hash_blocks_block [OF l, of compress "body h ?b" "[]"] compress_block [OF l] by simp
  finally show ?thesis by (simp add: f(1) z replicate_add)
qed

lemma stream_final_rep:
  assumes "stream_rep (n, h, buf) m"
  shows "stream_final body lenbytes (n, h, buf) = hash_blocks compress iv (md_pad lenbytes m)"
proof -
  let ?full = "take (length m div 64 * 64) m"
  from assms have n: "n = of_nat (length m)" and len: "length buf = 64"
    and h: "h = hash_blocks compress iv m"
    and part: "take (length m mod 64) buf = drop (length m div 64 * 64) m"
    by (auto simp: stream_rep_def)
  have used: "unat (n AND 0x3f) = length m mod 64" by (simp add: n used_eq)
  have "md_pad lenbytes m = ?full @ take (length m mod 64) buf
      @ 0x80 # replicate ((119 - length m mod 64) mod 64) 0 @ lenbytes (push_bit 3 n)"
    by (simp add: md_pad_def part n)
  then show ?thesis
    using stream_final_cases [OF used _ len, of h] hash_blocks_append [of ?full compress iv]
    by (simp add: h hash_blocks_full min_absorb2)
qed

text \<open>Any way of cutting the message into updates gives the hash of the padded message.\<close>

lemma final_updates:
  assumes "length (snd (snd (view c))) = 64"
  shows "final (foldl update (init c) ds) =
    out (hash_blocks compress iv (md_pad lenbytes (concat ds)))"
proof -
  let ?c = "foldl update (init c) ds"
  obtain n h buf where v: "view ?c = (n, h, buf)" by (cases "view ?c") auto
  have "represents ?c (concat ds)"
    using represents_updates [OF represents_init [OF assms], of ds] by simp
  then have "stream_rep (n, h, buf) (concat ds)" by (simp add: represents_def v)
  then show ?thesis by (simp add: final_eq v stream_final_rep)
qed

end

end
