(* ===== verification/Ngx_Md5.thy ===== *)
theory Ngx_Md5
  imports Ngx_Stream
begin

text \<open>
  \<^verbatim>\<open>src/core/ngx_md5.c\<close>: the context, \<^verbatim>\<open>ngx_md5_init\<close>, \<^verbatim>\<open>ngx_md5_update\<close>, \<^verbatim>\<open>ngx_md5_final\<close>
  and the compression loop \<^verbatim>\<open>ngx_md5_body\<close> with its 64 unrolled \<^verbatim>\<open>STEP\<close> macro calls, kept as the
  instruction list of the source (function, the four registers, block word, constant, shift).
  The compression is compared with the loop form of RFC 1321, and the buffering with the
  scheme of \<open>Ngx_Stream\<close>.
\<close>

section \<open>The code\<close>

record ngx_md5_t =
  md5_bytes :: u_int64
  md5_a :: u_int32
  md5_b :: u_int32
  md5_c :: u_int32
  md5_d :: u_int32
  md5_buffer :: "u_char list"

definition md5_F :: "u_int32 \<Rightarrow> u_int32 \<Rightarrow> u_int32 \<Rightarrow> u_int32" where
  "md5_F x y z = z XOR (x AND (y XOR z))"

definition md5_G :: "u_int32 \<Rightarrow> u_int32 \<Rightarrow> u_int32 \<Rightarrow> u_int32" where
  "md5_G x y z = y XOR (z AND (x XOR y))"

definition md5_H :: "u_int32 \<Rightarrow> u_int32 \<Rightarrow> u_int32 \<Rightarrow> u_int32" where
  "md5_H x y z = x XOR y XOR z"

definition md5_I :: "u_int32 \<Rightarrow> u_int32 \<Rightarrow> u_int32 \<Rightarrow> u_int32" where
  "md5_I x y z = y XOR (x OR NOT z)"

datatype md5_fn = FnF | FnG | FnH | FnI

fun md5_fun :: "md5_fn \<Rightarrow> u_int32 \<Rightarrow> u_int32 \<Rightarrow> u_int32 \<Rightarrow> u_int32" where
  "md5_fun FnF = md5_F"
| "md5_fun FnG = md5_G"
| "md5_fun FnH = md5_H"
| "md5_fun FnI = md5_I"

text \<open>The local variables \<open>a\<close>, \<open>b\<close>, \<open>c\<close>, \<open>d\<close> of the loop.\<close>

datatype md5_reg = Ra | Rb | Rc | Rd

type_synonym md5_regs = "u_int32 \<times> u_int32 \<times> u_int32 \<times> u_int32"

fun get_reg :: "md5_regs \<Rightarrow> md5_reg \<Rightarrow> u_int32" where
  "get_reg (a, b, c, d) Ra = a"
| "get_reg (a, b, c, d) Rb = b"
| "get_reg (a, b, c, d) Rc = c"
| "get_reg (a, b, c, d) Rd = d"

fun set_reg :: "md5_regs \<Rightarrow> md5_reg \<Rightarrow> u_int32 \<Rightarrow> md5_regs" where
  "set_reg (a, b, c, d) Ra x = (x, b, c, d)"
| "set_reg (a, b, c, d) Rb x = (a, x, c, d)"
| "set_reg (a, b, c, d) Rc x = (a, b, x, d)"
| "set_reg (a, b, c, d) Rd x = (a, b, c, x)"

type_synonym md5_instr =
  "md5_fn \<times> md5_reg \<times> md5_reg \<times> md5_reg \<times> md5_reg \<times> nat \<times> u_int32 \<times> nat"

text \<open>\<^verbatim>\<open>SET(n)\<close> and \<^verbatim>\<open>GET(n)\<close>: the little-endian 32-bit word at \<open>p[4 * n]\<close>.\<close>

definition md5_get :: "u_char list \<Rightarrow> nat \<Rightarrow> u_int32" where
  "md5_get p n =
     ucast (p ! (n * 4)) OR push_bit 8 (ucast (p ! (n * 4 + 1)))
     OR push_bit 16 (ucast (p ! (n * 4 + 2))) OR push_bit 24 (ucast (p ! (n * 4 + 3)))"

text \<open>The macro \<^verbatim>\<open>STEP(f, a, b, c, d, x, t, s)\<close>.\<close>

definition md5_step :: "u_char list \<Rightarrow> md5_regs \<Rightarrow> md5_instr \<Rightarrow> md5_regs" where
  "md5_step p r i =
     (case i of (f, ra, rb, rc, rd, n, t, s) \<Rightarrow>
        let a = get_reg r ra
                  + (md5_fun f (get_reg r rb) (get_reg r rc) (get_reg r rd) + md5_get p n + t);
            a = push_bit s a OR drop_bit (32 - s) (a AND 0xffffffff);
            a = a + get_reg r rb
        in set_reg r ra a)"

definition md5_round1 :: "md5_instr list" where
  "md5_round1 = [
     (FnF, Ra, Rb, Rc, Rd, 0, 0xd76aa478, 7),
     (FnF, Rd, Ra, Rb, Rc, 1, 0xe8c7b756, 12),
     (FnF, Rc, Rd, Ra, Rb, 2, 0x242070db, 17),
     (FnF, Rb, Rc, Rd, Ra, 3, 0xc1bdceee, 22),
     (FnF, Ra, Rb, Rc, Rd, 4, 0xf57c0faf, 7),
     (FnF, Rd, Ra, Rb, Rc, 5, 0x4787c62a, 12),
     (FnF, Rc, Rd, Ra, Rb, 6, 0xa8304613, 17),
     (FnF, Rb, Rc, Rd, Ra, 7, 0xfd469501, 22),
     (FnF, Ra, Rb, Rc, Rd, 8, 0x698098d8, 7),
     (FnF, Rd, Ra, Rb, Rc, 9, 0x8b44f7af, 12),
     (FnF, Rc, Rd, Ra, Rb, 10, 0xffff5bb1, 17),
     (FnF, Rb, Rc, Rd, Ra, 11, 0x895cd7be, 22),
     (FnF, Ra, Rb, Rc, Rd, 12, 0x6b901122, 7),
     (FnF, Rd, Ra, Rb, Rc, 13, 0xfd987193, 12),
     (FnF, Rc, Rd, Ra, Rb, 14, 0xa679438e, 17),
     (FnF, Rb, Rc, Rd, Ra, 15, 0x49b40821, 22)]"

definition md5_round2 :: "md5_instr list" where
  "md5_round2 = [
     (FnG, Ra, Rb, Rc, Rd, 1, 0xf61e2562, 5),
     (FnG, Rd, Ra, Rb, Rc, 6, 0xc040b340, 9),
     (FnG, Rc, Rd, Ra, Rb, 11, 0x265e5a51, 14),
     (FnG, Rb, Rc, Rd, Ra, 0, 0xe9b6c7aa, 20),
     (FnG, Ra, Rb, Rc, Rd, 5, 0xd62f105d, 5),
     (FnG, Rd, Ra, Rb, Rc, 10, 0x02441453, 9),
     (FnG, Rc, Rd, Ra, Rb, 15, 0xd8a1e681, 14),
     (FnG, Rb, Rc, Rd, Ra, 4, 0xe7d3fbc8, 20),
     (FnG, Ra, Rb, Rc, Rd, 9, 0x21e1cde6, 5),
     (FnG, Rd, Ra, Rb, Rc, 14, 0xc33707d6, 9),
     (FnG, Rc, Rd, Ra, Rb, 3, 0xf4d50d87, 14),
     (FnG, Rb, Rc, Rd, Ra, 8, 0x455a14ed, 20),
     (FnG, Ra, Rb, Rc, Rd, 13, 0xa9e3e905, 5),
     (FnG, Rd, Ra, Rb, Rc, 2, 0xfcefa3f8, 9),
     (FnG, Rc, Rd, Ra, Rb, 7, 0x676f02d9, 14),
     (FnG, Rb, Rc, Rd, Ra, 12, 0x8d2a4c8a, 20)]"

definition md5_round3 :: "md5_instr list" where
  "md5_round3 = [
     (FnH, Ra, Rb, Rc, Rd, 5, 0xfffa3942, 4),
     (FnH, Rd, Ra, Rb, Rc, 8, 0x8771f681, 11),
     (FnH, Rc, Rd, Ra, Rb, 11, 0x6d9d6122, 16),
     (FnH, Rb, Rc, Rd, Ra, 14, 0xfde5380c, 23),
     (FnH, Ra, Rb, Rc, Rd, 1, 0xa4beea44, 4),
     (FnH, Rd, Ra, Rb, Rc, 4, 0x4bdecfa9, 11),
     (FnH, Rc, Rd, Ra, Rb, 7, 0xf6bb4b60, 16),
     (FnH, Rb, Rc, Rd, Ra, 10, 0xbebfbc70, 23),
     (FnH, Ra, Rb, Rc, Rd, 13, 0x289b7ec6, 4),
     (FnH, Rd, Ra, Rb, Rc, 0, 0xeaa127fa, 11),
     (FnH, Rc, Rd, Ra, Rb, 3, 0xd4ef3085, 16),
     (FnH, Rb, Rc, Rd, Ra, 6, 0x04881d05, 23),
     (FnH, Ra, Rb, Rc, Rd, 9, 0xd9d4d039, 4),
     (FnH, Rd, Ra, Rb, Rc, 12, 0xe6db99e5, 11),
     (FnH, Rc, Rd, Ra, Rb, 15, 0x1fa27cf8, 16),
     (FnH, Rb, Rc, Rd, Ra, 2, 0xc4ac5665, 23)]"

definition md5_round4 :: "md5_instr list" where
  "md5_round4 = [
     (FnI, Ra, Rb, Rc, Rd, 0, 0xf4292244, 6),
     (FnI, Rd, Ra, Rb, Rc, 7, 0x432aff97, 10),
     (FnI, Rc, Rd, Ra, Rb, 14, 0xab9423a7, 15),
     (FnI, Rb, Rc, Rd, Ra, 5, 0xfc93a039, 21),
     (FnI, Ra, Rb, Rc, Rd, 12, 0x655b59c3, 6),
     (FnI, Rd, Ra, Rb, Rc, 3, 0x8f0ccc92, 10),
     (FnI, Rc, Rd, Ra, Rb, 10, 0xffeff47d, 15),
     (FnI, Rb, Rc, Rd, Ra, 1, 0x85845dd1, 21),
     (FnI, Ra, Rb, Rc, Rd, 8, 0x6fa87e4f, 6),
     (FnI, Rd, Ra, Rb, Rc, 15, 0xfe2ce6e0, 10),
     (FnI, Rc, Rd, Ra, Rb, 6, 0xa3014314, 15),
     (FnI, Rb, Rc, Rd, Ra, 13, 0x4e0811a1, 21),
     (FnI, Ra, Rb, Rc, Rd, 4, 0xf7537e82, 6),
     (FnI, Rd, Ra, Rb, Rc, 11, 0xbd3af235, 10),
     (FnI, Rc, Rd, Ra, Rb, 2, 0x2ad7d2bb, 15),
     (FnI, Rb, Rc, Rd, Ra, 9, 0xeb86d391, 21)]"

definition md5_program :: "md5_instr list" where
  "md5_program = md5_round1 @ md5_round2 @ md5_round3 @ md5_round4"

text \<open>One turn of the \<^verbatim>\<open>do\<close> loop of \<^verbatim>\<open>ngx_md5_body\<close>, on the 64 bytes at \<open>p\<close>.\<close>

definition md5_block :: "md5_regs \<Rightarrow> u_char list \<Rightarrow> md5_regs" where
  "md5_block saved p =
     (case (saved, foldl (md5_step p) saved md5_program) of
        ((sa, sb, sc, sd), (a, b, c, d)) \<Rightarrow> (a + sa, b + sb, c + sc, d + sd))"

function md5_body_loop :: "md5_regs \<Rightarrow> u_char list \<Rightarrow> md5_regs" where
  "md5_body_loop r data =
     (let r' = md5_block r (take 64 data) in
      if length data \<le> 64 then r' else md5_body_loop r' (drop 64 data))"
  by pat_completeness auto
termination
  by (relation "measure (\<lambda>(r, data). length data)") auto

declare md5_body_loop.simps [simp del]

definition md5_regs :: "ngx_md5_t \<Rightarrow> md5_regs" where
  "md5_regs ctx = (md5_a ctx, md5_b ctx, md5_c ctx, md5_d ctx)"

text \<open>\<open>data\<close> is the \<open>size\<close> bytes handed over, a whole positive number of blocks.\<close>

definition ngx_md5_body :: "ngx_md5_t \<Rightarrow> u_char list \<Rightarrow> ngx_md5_t" where
  "ngx_md5_body ctx data =
     (case md5_body_loop (md5_regs ctx) data of (a, b, c, d) \<Rightarrow>
        ctx\<lparr>md5_a := a, md5_b := b, md5_c := c, md5_d := d\<rparr>)"

definition ngx_md5_init :: "ngx_md5_t \<Rightarrow> ngx_md5_t" where
  "ngx_md5_init ctx = ctx\<lparr>md5_a := 0x67452301, md5_b := 0xefcdab89,
     md5_c := 0x98badcfe, md5_d := 0x10325476, md5_bytes := 0\<rparr>"

definition md5_update_rest :: "ngx_md5_t \<Rightarrow> u_char list \<Rightarrow> ngx_md5_t" where
  "md5_update_rest ctx data =
     (if length data \<ge> 64 then
        let n = length data div 64 * 64;
            ctx = ngx_md5_body ctx (take n data)
        in ctx\<lparr>md5_buffer := memcpy_at (md5_buffer ctx) 0 (drop n data)\<rparr>
      else ctx\<lparr>md5_buffer := memcpy_at (md5_buffer ctx) 0 data\<rparr>)"

definition ngx_md5_update :: "ngx_md5_t \<Rightarrow> u_char list \<Rightarrow> ngx_md5_t" where
  "ngx_md5_update ctx data =
     (let used = unat (md5_bytes ctx AND 0x3f);
          ctx = ctx\<lparr>md5_bytes := md5_bytes ctx + of_nat (length data)\<rparr> in
      if used \<noteq> 0 then
        let free = 64 - used in
        if length data < free then ctx\<lparr>md5_buffer := memcpy_at (md5_buffer ctx) used data\<rparr>
        else
          let ctx = ctx\<lparr>md5_buffer := memcpy_at (md5_buffer ctx) used (take free data)\<rparr>;
              ctx = ngx_md5_body ctx (md5_buffer ctx)
          in md5_update_rest ctx (drop free data)
      else md5_update_rest ctx data)"

definition md5_lenbytes :: "u_int64 \<Rightarrow> u_char list" where
  "md5_lenbytes n =
     [ucast n, ucast (drop_bit 8 n), ucast (drop_bit 16 n), ucast (drop_bit 24 n),
      ucast (drop_bit 32 n), ucast (drop_bit 40 n), ucast (drop_bit 48 n), ucast (drop_bit 56 n)]"

definition md5_result :: "md5_regs \<Rightarrow> u_char list" where
  "md5_result r =
     (case r of (a, b, c, d) \<Rightarrow>
       [ucast a, ucast (drop_bit 8 a), ucast (drop_bit 16 a), ucast (drop_bit 24 a),
        ucast b, ucast (drop_bit 8 b), ucast (drop_bit 16 b), ucast (drop_bit 24 b),
        ucast c, ucast (drop_bit 8 c), ucast (drop_bit 16 c), ucast (drop_bit 24 c),
        ucast d, ucast (drop_bit 8 d), ucast (drop_bit 16 d), ucast (drop_bit 24 d)])"

text \<open>The result array; the context is cleared afterwards and returned as such.\<close>

definition md5_zero :: ngx_md5_t where
  "md5_zero = \<lparr>md5_bytes = 0, md5_a = 0, md5_b = 0, md5_c = 0, md5_d = 0, md5_buffer = replicate 64 0\<rparr>"

definition ngx_md5_final :: "ngx_md5_t \<Rightarrow> u_char list \<times> ngx_md5_t" where
  "ngx_md5_final ctx =
     (let used = unat (md5_bytes ctx AND 0x3f);
          ctx = ctx\<lparr>md5_buffer := (md5_buffer ctx)[used := 0x80]\<rparr>;
          used = used + 1;
          free = 64 - used;
          (ctx, used, free) =
            (if free < 8 then
               let ctx = ctx\<lparr>md5_buffer := memcpy_at (md5_buffer ctx) used (replicate free 0)\<rparr>
               in (ngx_md5_body ctx (md5_buffer ctx), 0, 64)
             else (ctx, used, free));
          ctx = ctx\<lparr>md5_buffer := memcpy_at (md5_buffer ctx) used (replicate (free - 8) 0)\<rparr>;
          ctx = ctx\<lparr>md5_bytes := push_bit 3 (md5_bytes ctx)\<rparr>;
          ctx = ctx\<lparr>md5_buffer := memcpy_at (md5_buffer ctx) 56 (md5_lenbytes (md5_bytes ctx))\<rparr>;
          ctx = ngx_md5_body ctx (md5_buffer ctx)
      in (md5_result (md5_regs ctx), md5_zero))"

section \<open>RFC 1321\<close>

text \<open>The round functions, table and loop of the RFC, on the registers in the order A, B, C, D.\<close>

definition rfc_fun :: "nat \<Rightarrow> u_int32 \<Rightarrow> u_int32 \<Rightarrow> u_int32 \<Rightarrow> u_int32" where
  "rfc_fun i x y z =
     (if i < 16 then (x AND y) OR (NOT x AND z)
      else if i < 32 then (x AND z) OR (y AND NOT z)
      else if i < 48 then x XOR y XOR z
      else y XOR (x OR NOT z))"

definition rfc_index :: "nat \<Rightarrow> nat" where
  "rfc_index i =
     (if i < 16 then i else if i < 32 then (5 * i + 1) mod 16
      else if i < 48 then (3 * i + 5) mod 16 else (7 * i) mod 16)"

definition rfc_shift :: "nat \<Rightarrow> nat" where
  "rfc_shift i =
     [[7, 12, 17, 22], [5, 9, 14, 20], [4, 11, 16, 23], [6, 10, 15, 21]] ! (i div 16) ! (i mod 4)"

definition rfc_T :: "u_int32 list" where
  "rfc_T = [
     0xd76aa478, 0xe8c7b756, 0x242070db, 0xc1bdceee,
     0xf57c0faf, 0x4787c62a, 0xa8304613, 0xfd469501,
     0x698098d8, 0x8b44f7af, 0xffff5bb1, 0x895cd7be,
     0x6b901122, 0xfd987193, 0xa679438e, 0x49b40821,
     0xf61e2562, 0xc040b340, 0x265e5a51, 0xe9b6c7aa,
     0xd62f105d, 0x02441453, 0xd8a1e681, 0xe7d3fbc8,
     0x21e1cde6, 0xc33707d6, 0xf4d50d87, 0x455a14ed,
     0xa9e3e905, 0xfcefa3f8, 0x676f02d9, 0x8d2a4c8a,
     0xfffa3942, 0x8771f681, 0x6d9d6122, 0xfde5380c,
     0xa4beea44, 0x4bdecfa9, 0xf6bb4b60, 0xbebfbc70,
     0x289b7ec6, 0xeaa127fa, 0xd4ef3085, 0x04881d05,
     0xd9d4d039, 0xe6db99e5, 0x1fa27cf8, 0xc4ac5665,
     0xf4292244, 0x432aff97, 0xab9423a7, 0xfc93a039,
     0x655b59c3, 0x8f0ccc92, 0xffeff47d, 0x85845dd1,
     0x6fa87e4f, 0xfe2ce6e0, 0xa3014314, 0x4e0811a1,
     0xf7537e82, 0xbd3af235, 0x2ad7d2bb, 0xeb86d391]"

text \<open>The word \<open>i\<close> of a block, least significant byte first.\<close>

definition rfc_word :: "u_char list \<Rightarrow> nat \<Rightarrow> u_int32" where
  "rfc_word X i = of_nat (le_num [X ! (4 * i), X ! (4 * i + 1), X ! (4 * i + 2), X ! (4 * i + 3)])"

definition rfc_op :: "u_char list \<Rightarrow> md5_regs \<Rightarrow> nat \<Rightarrow> md5_regs" where
  "rfc_op X r i =
     (case r of (a, b, c, d) \<Rightarrow>
        (d, b + word_rotl (rfc_shift i) (a + rfc_fun i b c d + rfc_word X (rfc_index i) + rfc_T ! i),
         b, c))"

definition rfc_block :: "md5_regs \<Rightarrow> u_char list \<Rightarrow> md5_regs" where
  "rfc_block saved X =
     (case (saved, foldl (rfc_op X) saved [0..<64]) of
        ((sa, sb, sc, sd), (a, b, c, d)) \<Rightarrow> (a + sa, b + sb, c + sc, d + sd))"

definition rfc_digest :: "md5_regs \<Rightarrow> u_char list" where
  "rfc_digest r = (case r of (a, b, c, d) \<Rightarrow> concat (map (\<lambda>w. le_bytes 4 (unat w)) [a, b, c, d]))"

definition rfc1321_md5 :: "u_char list \<Rightarrow> u_char list" where
  "rfc1321_md5 m =
     rfc_digest (hash_blocks rfc_block (0x67452301, 0xefcdab89, 0x98badcfe, 0x10325476)
       (std_pad (le_bytes 8) m))"

section \<open>The bytes are those of the RFC\<close>

lemma md5_get_rfc: "md5_get p n = rfc_word p n"
  by (simp add: md5_get_def rfc_word_def le_num_4 mult.commute del: le_num.simps)

lemma md5_result_rfc: "md5_result r = rfc_digest r"
  by (simp add: md5_result_def rfc_digest_def le_bytes_4 split: prod.split)

lemma md5_pad_rfc: "md_pad md5_lenbytes m = std_pad (le_bytes 8) m"
proof -
  have "md5_lenbytes w = le_bytes 8 (unat w)" for w by (simp add: md5_lenbytes_def le_bytes_8)
  then show ?thesis by (simp add: md_pad_def std_pad_def le_bytes_length)
qed

section \<open>The compression function is that of the RFC\<close>

lemma md5_F_rfc: "md5_F x y z = (x AND y) OR (NOT x AND z)"
  by (rule bit_word_eqI) (auto simp: md5_F_def bit_simps)

lemma md5_G_rfc: "md5_G x y z = (x AND z) OR (y AND NOT z)"
  by (rule bit_word_eqI) (auto simp: md5_G_def bit_simps)

definition fn_at :: "nat \<Rightarrow> md5_fn" where
  "fn_at i = (if i < 16 then FnF else if i < 32 then FnG else if i < 48 then FnH else FnI)"

text \<open>The register a step uses in the role \<open>k\<close> (0 to 3) rotates with the step number.\<close>

definition reg_at :: "nat \<Rightarrow> nat \<Rightarrow> md5_reg" where
  "reg_at i k = [Ra, Rb, Rc, Rd] ! ((k + 3 * i) mod 4)"

definition instr_at :: "nat \<Rightarrow> md5_instr" where
  "instr_at i = (fn_at i, reg_at i 0, reg_at i 1, reg_at i 2, reg_at i 3,
     rfc_index i, rfc_T ! i, rfc_shift i)"

lemma md5_program_eq: "md5_program = map instr_at [0..<64]"
  by code_simp

definition perm :: "nat \<Rightarrow> md5_regs \<Rightarrow> md5_regs" where
  "perm i r = (get_reg r (reg_at i 0), get_reg r (reg_at i 1),
     get_reg r (reg_at i 2), get_reg r (reg_at i 3))"

lemma rfc_shift_range: "i < 64 \<Longrightarrow> 0 < rfc_shift i \<and> rfc_shift i < 32"
proof -
  have "list_all (\<lambda>i. 0 < rfc_shift i \<and> rfc_shift i < 32) [0..<64]" by code_simp
  then show "i < 64 \<Longrightarrow> ?thesis" by (simp add: list_all_iff)
qed

lemma md5_fun_rfc: "md5_fun (fn_at i) x y z = rfc_fun i x y z"
  by (simp add: fn_at_def rfc_fun_def md5_F_rfc md5_G_rfc md5_H_def md5_I_def)

lemma reg_at_cases:
  obtains "i mod 4 = 0" "\<And>k. reg_at i k = [Ra, Rb, Rc, Rd] ! (k mod 4)"
      "\<And>k. reg_at (Suc i) k = [Ra, Rb, Rc, Rd] ! ((k + 3) mod 4)"
    | "i mod 4 = 1" "\<And>k. reg_at i k = [Ra, Rb, Rc, Rd] ! ((k + 3) mod 4)"
      "\<And>k. reg_at (Suc i) k = [Ra, Rb, Rc, Rd] ! ((k + 2) mod 4)"
    | "i mod 4 = 2" "\<And>k. reg_at i k = [Ra, Rb, Rc, Rd] ! ((k + 2) mod 4)"
      "\<And>k. reg_at (Suc i) k = [Ra, Rb, Rc, Rd] ! ((k + 1) mod 4)"
    | "i mod 4 = 3" "\<And>k. reg_at i k = [Ra, Rb, Rc, Rd] ! ((k + 1) mod 4)"
      "\<And>k. reg_at (Suc i) k = [Ra, Rb, Rc, Rd] ! (k mod 4)"
proof -
  have r: "reg_at i k = [Ra, Rb, Rc, Rd] ! ((k + 3 * (i mod 4)) mod 4)" for i k
    unfolding reg_at_def by (metis mod_add_right_eq mod_mult_right_eq)
  have "i mod 4 < 4" by simp
  then consider "i mod 4 = 0" | "i mod 4 = 1" | "i mod 4 = 2" | "i mod 4 = 3" by linarith
  then show ?thesis
  proof cases
    case 1
    then have "Suc i mod 4 = 1" by (simp add: mod_Suc)
    with 1 show ?thesis by (intro that(1)) (simp_all add: r)
  next
    case 2
    then have "Suc i mod 4 = 2" by (simp add: mod_Suc)
    moreover have "(k + 6) mod 4 = (k + 2) mod 4" for k :: nat by presburger
    ultimately show ?thesis using 2 by (intro that(2)) (simp_all add: r)
  next
    case 3
    then have "Suc i mod 4 = 3" by (simp add: mod_Suc)
    moreover have "(k + 6) mod 4 = (k + 2) mod 4" "(k + 9) mod 4 = (k + 1) mod 4" for k :: nat
      by presburger+
    ultimately show ?thesis using 3 by (intro that(3)) (simp_all add: r)
  next
    case 4
    then have "Suc i mod 4 = 0" by (simp add: mod_Suc)
    moreover have "(k + 9) mod 4 = (k + 1) mod 4" for k :: nat by presburger
    ultimately show ?thesis using 4 by (intro that(4)) (simp_all add: r)
  qed
qed

lemma md5_step_rfc:
  assumes "i < 64"
  shows "perm (Suc i) (md5_step p r (instr_at i)) = rfc_op p (perm i r) i"
proof -
  obtain a b c d where r: "r = (a, b, c, d)" by (cases r) auto
  have rot: "push_bit (rfc_shift i) x OR drop_bit (32 - rfc_shift i) x
      = word_rotl (rfc_shift i) x" for x :: u_int32
    using rotl32 rfc_shift_range [OF assms] by simp
  show ?thesis
    by (rule reg_at_cases [of i])
       (simp_all add: r perm_def md5_step_def instr_at_def rfc_op_def Let_def rot md5_fun_rfc md5_get_rfc
         add.assoc add.commute add.left_commute)
qed

lemma md5_program_rfc:
  "n \<le> 64 \<Longrightarrow> perm n (foldl (md5_step p) r (map instr_at [0..<n])) = foldl (rfc_op p) r [0..<n]"
proof (induction n)
  case 0
  have "perm 0 r = r" by (cases r) (simp add: perm_def reg_at_def)
  then show ?case by simp
next
  case (Suc n)
  then show ?case using md5_step_rfc [of n p] by simp
qed

lemma md5_block_rfc: "md5_block r p = rfc_block r p"
proof -
  have "perm 64 r' = r'" for r' by (cases r') (simp add: perm_def reg_at_def)
  then have "foldl (md5_step p) r md5_program = foldl (rfc_op p) r [0..<64]"
    using md5_program_rfc [of 64 p r] by (simp add: md5_program_eq)
  then show ?thesis by (simp add: md5_block_def rfc_block_def)
qed

section \<open>The buffering is the scheme of the stream theory\<close>

definition md5_view :: "ngx_md5_t \<Rightarrow> md5_regs stream" where
  "md5_view ctx = (md5_bytes ctx, md5_regs ctx, md5_buffer ctx)"

lemma md5_body_fields [simp]:
  "md5_regs (ngx_md5_body ctx data) = md5_body_loop (md5_regs ctx) data"
  "md5_bytes (ngx_md5_body ctx data) = md5_bytes ctx"
  "md5_buffer (ngx_md5_body ctx data) = md5_buffer ctx"
  by (auto simp: ngx_md5_body_def md5_regs_def split: prod.split)

lemma md5_regs_upd [simp]:
  "md5_regs (ctx\<lparr>md5_bytes := n\<rparr>) = md5_regs ctx"
  "md5_regs (ctx\<lparr>md5_buffer := b\<rparr>) = md5_regs ctx"
  by (simp_all add: md5_regs_def)

lemma md5_update_view:
  "md5_view (ngx_md5_update ctx data) = stream_update md5_body_loop (md5_view ctx) data"
  by (simp add: md5_view_def ngx_md5_update_def md5_update_rest_def stream_update_def
      stream_tail_def Let_def)

lemma md5_body_loop_blocks:
  "data \<noteq> [] \<Longrightarrow> 64 dvd length data \<Longrightarrow> md5_body_loop r data = hash_blocks rfc_block r data"
proof (induction r data rule: md5_body_loop.induct)
  case (1 r data)
  have l: "64 \<le> length data" using "1.prems" dvd_imp_le [of 64 "length data"] by simp
  have b: "hash_blocks rfc_block r data =
      hash_blocks rfc_block (rfc_block r (take 64 data)) (drop 64 data)"
    using l by (subst hash_blocks.simps) simp
  show ?case
  proof (cases "length data \<le> 64")
    case True
    with l b show ?thesis by (subst md5_body_loop.simps) (simp add: md5_block_rfc)
  next
    case False
    moreover have "64 dvd length (drop 64 data)" using "1.prems" by simp
    ultimately have "md5_body_loop (md5_block r (take 64 data)) (drop 64 data) =
        hash_blocks rfc_block (md5_block r (take 64 data)) (drop 64 data)"
      using "1.IH" [OF refl] by simp
    with False b show ?thesis by (subst md5_body_loop.simps) (simp add: md5_block_rfc)
  qed
qed

interpretation md5: block_hash rfc_block md5_body_loop
  "(0x67452301, 0xefcdab89, 0x98badcfe, 0x10325476)" md5_lenbytes md5_view
  ngx_md5_init ngx_md5_update "\<lambda>ctx. fst (ngx_md5_final ctx)" md5_result
proof unfold_locales
  show "fst (ngx_md5_final c) = md5_result (stream_final md5_body_loop md5_lenbytes (md5_view c))"
    for c
    by (simp add: ngx_md5_final_def stream_final_def md5_view_def Let_def)
  show "md5_view (ngx_md5_init c) =
      (0, (0x67452301, 0xefcdab89, 0x98badcfe, 0x10325476), snd (snd (md5_view c)))" for c
    by (simp add: md5_view_def ngx_md5_init_def md5_regs_def)
qed (simp_all add: md5_body_loop_blocks md5_lenbytes_def md5_update_view)

text \<open>
  C32: hashing a message piecewise with \<^verbatim>\<open>ngx_md5_init\<close>, any number of \<^verbatim>\<open>ngx_md5_update\<close> calls
  and \<^verbatim>\<open>ngx_md5_final\<close> gives the MD5 digest that RFC 1321 defines for the concatenation of
  the pieces, however the message is cut, whatever the 64-byte buffer held before.
\<close>

theorem ngx_md5_correct:
  assumes "length (md5_buffer ctx) = 64"
  shows "fst (ngx_md5_final (foldl ngx_md5_update (ngx_md5_init ctx) ds)) =
    rfc1321_md5 (concat ds)"
  using md5.final_updates [of ctx ds] assms by (simp add: md5_view_def rfc1321_md5_def md5_result_rfc md5_pad_rfc)

theorem ngx_md5_correct_witness:
  "length (md5_buffer md5_zero) = 64 \<and>
   fst (ngx_md5_final (foldl ngx_md5_update (ngx_md5_init md5_zero) [bytes ''a'', bytes ''bc''])) =
     rfc1321_md5 (bytes ''abc'')"
  using ngx_md5_correct [of md5_zero "[bytes ''a'', bytes ''bc'']"]
  by (simp add: md5_zero_def bytes_def)

end
