(* ===== verification/Ngx_Sha1.thy ===== *)
theory Ngx_Sha1
  imports Ngx_Stream
begin

text \<open>
  \<^verbatim>\<open>src/core/ngx_sha1.c\<close>: context, \<^verbatim>\<open>ngx_sha1_init\<close>, \<^verbatim>\<open>ngx_sha1_update\<close>, \<^verbatim>\<open>ngx_sha1_final\<close> and
  the compression loop \<^verbatim>\<open>ngx_sha1_body\<close> with its message schedule and its 80 unrolled \<^verbatim>\<open>STEP\<close>
  calls (kept as the list of function, word index and constant).  The compression is compared
  with FIPS 180-4, the buffering with the scheme of \<open>Ngx_Stream\<close>.
\<close>

section \<open>The code\<close>

record ngx_sha1_t =
  sha1_bytes :: u_int64
  sha1_a :: u_int32
  sha1_b :: u_int32
  sha1_c :: u_int32
  sha1_d :: u_int32
  sha1_e :: u_int32
  sha1_buffer :: "u_char list"

type_synonym sha1_regs = "u_int32 \<times> u_int32 \<times> u_int32 \<times> u_int32 \<times> u_int32"

definition ROTATE :: "nat \<Rightarrow> u_int32 \<Rightarrow> u_int32" where
  "ROTATE bits w = push_bit bits w OR drop_bit (32 - bits) w"

datatype sha1_fn = F1 | F2 | F3

fun sha1_fun :: "sha1_fn \<Rightarrow> u_int32 \<Rightarrow> u_int32 \<Rightarrow> u_int32 \<Rightarrow> u_int32" where
  "sha1_fun F1 b c d = (b AND c) OR (NOT b AND d)"
| "sha1_fun F2 b c d = b XOR c XOR d"
| "sha1_fun F3 b c d = (b AND c) OR (b AND d) OR (c AND d)"

text \<open>\<^verbatim>\<open>GET(n)\<close>: the big-endian 32-bit word at \<open>p[4 * n]\<close>.\<close>

definition sha1_get :: "u_char list \<Rightarrow> nat \<Rightarrow> u_int32" where
  "sha1_get p n =
     ucast (p ! (n * 4 + 3)) OR push_bit 8 (ucast (p ! (n * 4 + 2)))
     OR push_bit 16 (ucast (p ! (n * 4 + 1))) OR push_bit 24 (ucast (p ! (n * 4)))"

text \<open>The two loops that fill the array \<open>words\<close>.\<close>

definition sha1_words :: "u_char list \<Rightarrow> u_int32 list" where
  "sha1_words p =
     foldl (\<lambda>w i. w @ [ROTATE 1 (w ! (i - 3) XOR w ! (i - 8) XOR w ! (i - 14) XOR w ! (i - 16))])
       (map (sha1_get p) [0..<16]) [16..<80]"

text \<open>The macro \<^verbatim>\<open>STEP(f, a, b, c, d, e, w, t)\<close>.\<close>

definition sha1_step :: "u_int32 list \<Rightarrow> sha1_regs \<Rightarrow> sha1_fn \<times> nat \<times> u_int32 \<Rightarrow> sha1_regs" where
  "sha1_step words r i =
     (case (r, i) of ((a, b, c, d, e), (f, n, t)) \<Rightarrow>
        let temp = ROTATE 5 a + sha1_fun f b c d + e + words ! n + t
        in (temp, a, ROTATE 30 b, c, d))"

definition sha1_program :: "(sha1_fn \<times> nat \<times> u_int32) list" where
  "sha1_program = [
     (F1, 0, 0x5a827999), (F1, 1, 0x5a827999), (F1, 2, 0x5a827999), (F1, 3, 0x5a827999),
     (F1, 4, 0x5a827999), (F1, 5, 0x5a827999), (F1, 6, 0x5a827999), (F1, 7, 0x5a827999),
     (F1, 8, 0x5a827999), (F1, 9, 0x5a827999), (F1, 10, 0x5a827999), (F1, 11, 0x5a827999),
     (F1, 12, 0x5a827999), (F1, 13, 0x5a827999), (F1, 14, 0x5a827999), (F1, 15, 0x5a827999),
     (F1, 16, 0x5a827999), (F1, 17, 0x5a827999), (F1, 18, 0x5a827999), (F1, 19, 0x5a827999),
     (F2, 20, 0x6ed9eba1), (F2, 21, 0x6ed9eba1), (F2, 22, 0x6ed9eba1), (F2, 23, 0x6ed9eba1),
     (F2, 24, 0x6ed9eba1), (F2, 25, 0x6ed9eba1), (F2, 26, 0x6ed9eba1), (F2, 27, 0x6ed9eba1),
     (F2, 28, 0x6ed9eba1), (F2, 29, 0x6ed9eba1), (F2, 30, 0x6ed9eba1), (F2, 31, 0x6ed9eba1),
     (F2, 32, 0x6ed9eba1), (F2, 33, 0x6ed9eba1), (F2, 34, 0x6ed9eba1), (F2, 35, 0x6ed9eba1),
     (F2, 36, 0x6ed9eba1), (F2, 37, 0x6ed9eba1), (F2, 38, 0x6ed9eba1), (F2, 39, 0x6ed9eba1),
     (F3, 40, 0x8f1bbcdc), (F3, 41, 0x8f1bbcdc), (F3, 42, 0x8f1bbcdc), (F3, 43, 0x8f1bbcdc),
     (F3, 44, 0x8f1bbcdc), (F3, 45, 0x8f1bbcdc), (F3, 46, 0x8f1bbcdc), (F3, 47, 0x8f1bbcdc),
     (F3, 48, 0x8f1bbcdc), (F3, 49, 0x8f1bbcdc), (F3, 50, 0x8f1bbcdc), (F3, 51, 0x8f1bbcdc),
     (F3, 52, 0x8f1bbcdc), (F3, 53, 0x8f1bbcdc), (F3, 54, 0x8f1bbcdc), (F3, 55, 0x8f1bbcdc),
     (F3, 56, 0x8f1bbcdc), (F3, 57, 0x8f1bbcdc), (F3, 58, 0x8f1bbcdc), (F3, 59, 0x8f1bbcdc),
     (F2, 60, 0xca62c1d6), (F2, 61, 0xca62c1d6), (F2, 62, 0xca62c1d6), (F2, 63, 0xca62c1d6),
     (F2, 64, 0xca62c1d6), (F2, 65, 0xca62c1d6), (F2, 66, 0xca62c1d6), (F2, 67, 0xca62c1d6),
     (F2, 68, 0xca62c1d6), (F2, 69, 0xca62c1d6), (F2, 70, 0xca62c1d6), (F2, 71, 0xca62c1d6),
     (F2, 72, 0xca62c1d6), (F2, 73, 0xca62c1d6), (F2, 74, 0xca62c1d6), (F2, 75, 0xca62c1d6),
     (F2, 76, 0xca62c1d6), (F2, 77, 0xca62c1d6), (F2, 78, 0xca62c1d6), (F2, 79, 0xca62c1d6)]"

definition sha1_block :: "sha1_regs \<Rightarrow> u_char list \<Rightarrow> sha1_regs" where
  "sha1_block saved p =
     (case (saved, foldl (sha1_step (sha1_words p)) saved sha1_program) of
        ((sa, sb, sc, sd, se), (a, b, c, d, e)) \<Rightarrow> (a + sa, b + sb, c + sc, d + sd, e + se))"

function sha1_body_loop :: "sha1_regs \<Rightarrow> u_char list \<Rightarrow> sha1_regs" where
  "sha1_body_loop r data =
     (let r' = sha1_block r (take 64 data) in
      if length data \<le> 64 then r' else sha1_body_loop r' (drop 64 data))"
  by pat_completeness auto
termination
  by (relation "measure (\<lambda>(r, data). length data)") auto

declare sha1_body_loop.simps [simp del]

definition sha1_regs :: "ngx_sha1_t \<Rightarrow> sha1_regs" where
  "sha1_regs ctx = (sha1_a ctx, sha1_b ctx, sha1_c ctx, sha1_d ctx, sha1_e ctx)"

definition ngx_sha1_body :: "ngx_sha1_t \<Rightarrow> u_char list \<Rightarrow> ngx_sha1_t" where
  "ngx_sha1_body ctx data =
     (case sha1_body_loop (sha1_regs ctx) data of (a, b, c, d, e) \<Rightarrow>
        ctx\<lparr>sha1_a := a, sha1_b := b, sha1_c := c, sha1_d := d, sha1_e := e\<rparr>)"

definition ngx_sha1_init :: "ngx_sha1_t \<Rightarrow> ngx_sha1_t" where
  "ngx_sha1_init ctx = ctx\<lparr>sha1_a := 0x67452301, sha1_b := 0xefcdab89,
     sha1_c := 0x98badcfe, sha1_d := 0x10325476, sha1_e := 0xc3d2e1f0, sha1_bytes := 0\<rparr>"

definition sha1_update_rest :: "ngx_sha1_t \<Rightarrow> u_char list \<Rightarrow> ngx_sha1_t" where
  "sha1_update_rest ctx data =
     (if length data \<ge> 64 then
        let n = length data div 64 * 64;
            ctx = ngx_sha1_body ctx (take n data)
        in ctx\<lparr>sha1_buffer := memcpy_at (sha1_buffer ctx) 0 (drop n data)\<rparr>
      else ctx\<lparr>sha1_buffer := memcpy_at (sha1_buffer ctx) 0 data\<rparr>)"

definition ngx_sha1_update :: "ngx_sha1_t \<Rightarrow> u_char list \<Rightarrow> ngx_sha1_t" where
  "ngx_sha1_update ctx data =
     (let used = unat (sha1_bytes ctx AND 0x3f);
          ctx = ctx\<lparr>sha1_bytes := sha1_bytes ctx + of_nat (length data)\<rparr> in
      if used \<noteq> 0 then
        let free = 64 - used in
        if length data < free then ctx\<lparr>sha1_buffer := memcpy_at (sha1_buffer ctx) used data\<rparr>
        else
          let ctx = ctx\<lparr>sha1_buffer := memcpy_at (sha1_buffer ctx) used (take free data)\<rparr>;
              ctx = ngx_sha1_body ctx (sha1_buffer ctx)
          in sha1_update_rest ctx (drop free data)
      else sha1_update_rest ctx data)"

definition sha1_lenbytes :: "u_int64 \<Rightarrow> u_char list" where
  "sha1_lenbytes n =
     [ucast (drop_bit 56 n), ucast (drop_bit 48 n), ucast (drop_bit 40 n), ucast (drop_bit 32 n),
      ucast (drop_bit 24 n), ucast (drop_bit 16 n), ucast (drop_bit 8 n), ucast n]"

definition sha1_result :: "sha1_regs \<Rightarrow> u_char list" where
  "sha1_result r =
     (case r of (a, b, c, d, e) \<Rightarrow>
       [ucast (drop_bit 24 a), ucast (drop_bit 16 a), ucast (drop_bit 8 a), ucast a,
        ucast (drop_bit 24 b), ucast (drop_bit 16 b), ucast (drop_bit 8 b), ucast b,
        ucast (drop_bit 24 c), ucast (drop_bit 16 c), ucast (drop_bit 8 c), ucast c,
        ucast (drop_bit 24 d), ucast (drop_bit 16 d), ucast (drop_bit 8 d), ucast d,
        ucast (drop_bit 24 e), ucast (drop_bit 16 e), ucast (drop_bit 8 e), ucast e])"

definition sha1_zero :: ngx_sha1_t where
  "sha1_zero = \<lparr>sha1_bytes = 0, sha1_a = 0, sha1_b = 0, sha1_c = 0, sha1_d = 0, sha1_e = 0,
     sha1_buffer = replicate 64 0\<rparr>"

definition ngx_sha1_final :: "ngx_sha1_t \<Rightarrow> u_char list \<times> ngx_sha1_t" where
  "ngx_sha1_final ctx =
     (let used = unat (sha1_bytes ctx AND 0x3f);
          ctx = ctx\<lparr>sha1_buffer := (sha1_buffer ctx)[used := 0x80]\<rparr>;
          used = used + 1;
          free = 64 - used;
          (ctx, used, free) =
            (if free < 8 then
               let ctx = ctx\<lparr>sha1_buffer := memcpy_at (sha1_buffer ctx) used (replicate free 0)\<rparr>
               in (ngx_sha1_body ctx (sha1_buffer ctx), 0, 64)
             else (ctx, used, free));
          ctx = ctx\<lparr>sha1_buffer := memcpy_at (sha1_buffer ctx) used (replicate (free - 8) 0)\<rparr>;
          ctx = ctx\<lparr>sha1_bytes := push_bit 3 (sha1_bytes ctx)\<rparr>;
          ctx = ctx\<lparr>sha1_buffer := memcpy_at (sha1_buffer ctx) 56 (sha1_lenbytes (sha1_bytes ctx))\<rparr>;
          ctx = ngx_sha1_body ctx (sha1_buffer ctx)
      in (sha1_result (sha1_regs ctx), sha1_zero))"

section \<open>FIPS 180-4\<close>

definition fips_f :: "nat \<Rightarrow> u_int32 \<Rightarrow> u_int32 \<Rightarrow> u_int32 \<Rightarrow> u_int32" where
  "fips_f t x y z =
     (if t < 20 then (x AND y) XOR (NOT x AND z)
      else if t < 40 then x XOR y XOR z
      else if t < 60 then (x AND y) XOR (x AND z) XOR (y AND z)
      else x XOR y XOR z)"

definition fips_K :: "nat \<Rightarrow> u_int32" where
  "fips_K t = (if t < 20 then 0x5a827999 else if t < 40 then 0x6ed9eba1
     else if t < 60 then 0x8f1bbcdc else 0xca62c1d6)"

text \<open>The word \<open>t\<close> of a block, most significant byte first.\<close>

definition fips_word :: "u_char list \<Rightarrow> nat \<Rightarrow> u_int32" where
  "fips_word M t = of_nat (le_num (rev [M ! (4 * t), M ! (4 * t + 1), M ! (4 * t + 2), M ! (4 * t + 3)]))"

fun fips_W :: "u_char list \<Rightarrow> nat \<Rightarrow> u_int32" where
  "fips_W M t =
     (if t < 16 then fips_word M t
      else word_rotl 1 (fips_W M (t - 3) XOR fips_W M (t - 8) XOR fips_W M (t - 14)
             XOR fips_W M (t - 16)))"

declare fips_W.simps [simp del]

definition fips_op :: "u_char list \<Rightarrow> sha1_regs \<Rightarrow> nat \<Rightarrow> sha1_regs" where
  "fips_op M r t =
     (case r of (a, b, c, d, e) \<Rightarrow>
        (word_rotl 5 a + fips_f t b c d + e + fips_K t + fips_W M t, a, word_rotl 30 b, c, d))"

definition fips_block :: "sha1_regs \<Rightarrow> u_char list \<Rightarrow> sha1_regs" where
  "fips_block saved M =
     (case (saved, foldl (fips_op M) saved [0..<80]) of
        ((sa, sb, sc, sd, se), (a, b, c, d, e)) \<Rightarrow> (sa + a, sb + b, sc + c, sd + d, se + e))"

definition fips_digest :: "sha1_regs \<Rightarrow> u_char list" where
  "fips_digest r = (case r of (a, b, c, d, e) \<Rightarrow> concat (map (\<lambda>w. rev (le_bytes 4 (unat w))) [a, b, c, d, e]))"

definition fips180_sha1 :: "u_char list \<Rightarrow> u_char list" where
  "fips180_sha1 m =
     fips_digest (hash_blocks fips_block
       (0x67452301, 0xefcdab89, 0x98badcfe, 0x10325476, 0xc3d2e1f0) (std_pad (\<lambda>n. rev (le_bytes 8 n)) m))"

section \<open>The bytes are those of the standard\<close>

lemma sha1_get_fips: "sha1_get p n = fips_word p n"
  by (simp add: sha1_get_def fips_word_def le_num_4 mult.commute del: le_num.simps)

lemma sha1_result_fips: "sha1_result r = fips_digest r"
  by (simp add: sha1_result_def fips_digest_def le_bytes_4 split: prod.split)

lemma sha1_pad_fips: "md_pad sha1_lenbytes m = std_pad (\<lambda>n. rev (le_bytes 8 n)) m"
proof -
  have "sha1_lenbytes w = rev (le_bytes 8 (unat w))" for w by (simp add: sha1_lenbytes_def le_bytes_8)
  then show ?thesis by (simp add: md_pad_def std_pad_def le_bytes_length)
qed

section \<open>The compression function is that of the standard\<close>

lemma ROTATE_eq: "0 < s \<Longrightarrow> s < 32 \<Longrightarrow> ROTATE s w = word_rotl s w"
  by (simp add: ROTATE_def rotl32)

lemma sha1_fun_fips:
  "sha1_fun F1 x y z = (x AND y) XOR (NOT x AND z)"
  "sha1_fun F3 x y z = (x AND y) XOR (x AND z) XOR (y AND z)"
  by (rule bit_word_eqI, auto simp: bit_simps)+

definition sha1_fn_at :: "nat \<Rightarrow> sha1_fn" where
  "sha1_fn_at t = (if t < 20 then F1 else if t < 40 then F2 else if t < 60 then F3 else F2)"

lemma sha1_program_eq: "sha1_program = map (\<lambda>t. (sha1_fn_at t, t, fips_K t)) [0..<80]"
  by code_simp

lemma sha1_words_prefix:
  assumes "16 \<le> n"
  shows "foldl (\<lambda>w i. w @ [ROTATE 1 (w ! (i - 3) XOR w ! (i - 8) XOR w ! (i - 14) XOR w ! (i - 16))])
       (map (sha1_get p) [0..<16]) [16..<n] = map (fips_W p) [0..<n]"
  using assms
proof (induction n rule: dec_induct)
  case base
  have "map (sha1_get p) [0..<16] = map (fips_W p) [0..<16]"
    by (rule map_cong [OF refl]) (simp add: fips_W.simps sha1_get_fips del: upt_rec_numeral)
  then show ?case by (simp del: upt_rec_numeral)
next
  case (step n)
  have "fips_W p n = word_rotl 1 (fips_W p (n - 3) XOR fips_W p (n - 8) XOR fips_W p (n - 14)
      XOR fips_W p (n - 16))"
    using step.hyps by (subst fips_W.simps) simp
  with step show ?case by (simp add: ROTATE_eq)
qed

lemma sha1_words_eq: "sha1_words p = map (fips_W p) [0..<80]"
  unfolding sha1_words_def by (rule sha1_words_prefix) simp

lemma sha1_words_fips: "t < 80 \<Longrightarrow> sha1_words p ! t = fips_W p t"
  unfolding sha1_words_eq by (simp del: upt_rec_numeral)

lemma sha1_step_fips:
  "t < 80 \<Longrightarrow> sha1_step (sha1_words p) r (sha1_fn_at t, t, fips_K t) = fips_op p r t"
  by (cases r) (simp add: sha1_step_def fips_op_def Let_def ROTATE_eq sha1_words_fips
      sha1_fn_at_def fips_f_def sha1_fun_fips del: sha1_fun.simps(1,3))

lemma sha1_block_fips: "sha1_block r p = fips_block r p"
proof -
  have "foldl (sha1_step (sha1_words p)) r sha1_program = foldl (fips_op p) r [0..<80]"
    unfolding sha1_program_eq foldl_map
    by (rule foldl_cong) (simp_all add: sha1_step_fips del: upt_rec_numeral)
  then show ?thesis
    by (simp add: sha1_block_def fips_block_def add.commute split: prod.split del: upt_rec_numeral)
qed

section \<open>The buffering is the scheme of the stream theory\<close>

definition sha1_view :: "ngx_sha1_t \<Rightarrow> sha1_regs stream" where
  "sha1_view ctx = (sha1_bytes ctx, sha1_regs ctx, sha1_buffer ctx)"

lemma sha1_body_fields [simp]:
  "sha1_regs (ngx_sha1_body ctx data) = sha1_body_loop (sha1_regs ctx) data"
  "sha1_bytes (ngx_sha1_body ctx data) = sha1_bytes ctx"
  "sha1_buffer (ngx_sha1_body ctx data) = sha1_buffer ctx"
  by (auto simp: ngx_sha1_body_def sha1_regs_def split: prod.split)

lemma sha1_regs_upd [simp]:
  "sha1_regs (ctx\<lparr>sha1_bytes := n\<rparr>) = sha1_regs ctx"
  "sha1_regs (ctx\<lparr>sha1_buffer := b\<rparr>) = sha1_regs ctx"
  by (simp_all add: sha1_regs_def)

lemma sha1_update_view:
  "sha1_view (ngx_sha1_update ctx data) = stream_update sha1_body_loop (sha1_view ctx) data"
  by (simp add: sha1_view_def ngx_sha1_update_def sha1_update_rest_def stream_update_def
      stream_tail_def Let_def)

lemma sha1_body_loop_blocks:
  "data \<noteq> [] \<Longrightarrow> 64 dvd length data \<Longrightarrow> sha1_body_loop r data = hash_blocks fips_block r data"
proof (induction r data rule: sha1_body_loop.induct)
  case (1 r data)
  have l: "64 \<le> length data" using "1.prems" dvd_imp_le [of 64 "length data"] by simp
  have b: "hash_blocks fips_block r data =
      hash_blocks fips_block (fips_block r (take 64 data)) (drop 64 data)"
    using l by (subst hash_blocks.simps) simp
  show ?case
  proof (cases "length data \<le> 64")
    case True
    with l b show ?thesis by (subst sha1_body_loop.simps) (simp add: sha1_block_fips)
  next
    case False
    moreover have "64 dvd length (drop 64 data)" using "1.prems" by simp
    ultimately have "sha1_body_loop (sha1_block r (take 64 data)) (drop 64 data) =
        hash_blocks fips_block (sha1_block r (take 64 data)) (drop 64 data)"
      using "1.IH" [OF refl] by simp
    with False b show ?thesis by (subst sha1_body_loop.simps) (simp add: sha1_block_fips)
  qed
qed

interpretation sha1: block_hash fips_block sha1_body_loop
  "(0x67452301, 0xefcdab89, 0x98badcfe, 0x10325476, 0xc3d2e1f0)" sha1_lenbytes sha1_view
  ngx_sha1_init ngx_sha1_update "\<lambda>ctx. fst (ngx_sha1_final ctx)" sha1_result
proof unfold_locales
  show "fst (ngx_sha1_final c) =
      sha1_result (stream_final sha1_body_loop sha1_lenbytes (sha1_view c))" for c
    by (simp add: ngx_sha1_final_def stream_final_def sha1_view_def Let_def)
  show "sha1_view (ngx_sha1_init c) =
      (0, (0x67452301, 0xefcdab89, 0x98badcfe, 0x10325476, 0xc3d2e1f0),
       snd (snd (sha1_view c)))" for c
    by (simp add: sha1_view_def ngx_sha1_init_def sha1_regs_def)
qed (simp_all add: sha1_body_loop_blocks sha1_lenbytes_def sha1_update_view)

text \<open>
  C33: hashing a message piecewise with \<^verbatim>\<open>ngx_sha1_init\<close>, any number of \<^verbatim>\<open>ngx_sha1_update\<close> calls
  and \<^verbatim>\<open>ngx_sha1_final\<close> gives the SHA-1 digest that FIPS 180-4 defines for the concatenation
  of the pieces.
\<close>

theorem ngx_sha1_correct:
  assumes "length (sha1_buffer ctx) = 64"
  shows "fst (ngx_sha1_final (foldl ngx_sha1_update (ngx_sha1_init ctx) ds)) =
    fips180_sha1 (concat ds)"
  using sha1.final_updates [of ctx ds] assms by (simp add: sha1_view_def fips180_sha1_def sha1_result_fips sha1_pad_fips)

theorem ngx_sha1_correct_witness:
  "length (sha1_buffer sha1_zero) = 64 \<and>
   fst (ngx_sha1_final (foldl ngx_sha1_update (ngx_sha1_init sha1_zero) [bytes ''a'', bytes ''bc''])) =
     fips180_sha1 (bytes ''abc'')"
  using ngx_sha1_correct [of sha1_zero "[bytes ''a'', bytes ''bc'']"]
  by (simp add: sha1_zero_def bytes_def)

end
