(* ===== verification/Ngx_Crc32.thy ===== *)
theory Ngx_Crc32
  imports Ngx_Prelude
begin

text \<open>
  \<^verbatim>\<open>src/core/ngx_crc32.c\<close> and the inline functions of \<^verbatim>\<open>ngx_crc32.h\<close>: the 16-entry and the
  256-entry lookup tables, \<^verbatim>\<open>ngx_crc32_short\<close>, \<^verbatim>\<open>ngx_crc32_long\<close> and the incremental
  interface.  Both table-driven loops are shown to compute the bitwise CRC with the reflected
  polynomial \<open>0xedb88320\<close>, hence to agree.
\<close>

section \<open>The code\<close>

definition ngx_crc32_table16 :: "u_int32 list" where
  "ngx_crc32_table16 = [
     0x00000000, 0x1db71064, 0x3b6e20c8, 0x26d930ac,
     0x76dc4190, 0x6b6b51f4, 0x4db26158, 0x5005713c,
     0xedb88320, 0xf00f9344, 0xd6d6a3e8, 0xcb61b38c,
     0x9b64c2b0, 0x86d3d2d4, 0xa00ae278, 0xbdbdf21c]"

definition ngx_crc32_table256 :: "u_int32 list" where
  "ngx_crc32_table256 = [
     0x00000000, 0x77073096, 0xee0e612c, 0x990951ba,
     0x076dc419, 0x706af48f, 0xe963a535, 0x9e6495a3,
     0x0edb8832, 0x79dcb8a4, 0xe0d5e91e, 0x97d2d988,
     0x09b64c2b, 0x7eb17cbd, 0xe7b82d07, 0x90bf1d91,
     0x1db71064, 0x6ab020f2, 0xf3b97148, 0x84be41de,
     0x1adad47d, 0x6ddde4eb, 0xf4d4b551, 0x83d385c7,
     0x136c9856, 0x646ba8c0, 0xfd62f97a, 0x8a65c9ec,
     0x14015c4f, 0x63066cd9, 0xfa0f3d63, 0x8d080df5,
     0x3b6e20c8, 0x4c69105e, 0xd56041e4, 0xa2677172,
     0x3c03e4d1, 0x4b04d447, 0xd20d85fd, 0xa50ab56b,
     0x35b5a8fa, 0x42b2986c, 0xdbbbc9d6, 0xacbcf940,
     0x32d86ce3, 0x45df5c75, 0xdcd60dcf, 0xabd13d59,
     0x26d930ac, 0x51de003a, 0xc8d75180, 0xbfd06116,
     0x21b4f4b5, 0x56b3c423, 0xcfba9599, 0xb8bda50f,
     0x2802b89e, 0x5f058808, 0xc60cd9b2, 0xb10be924,
     0x2f6f7c87, 0x58684c11, 0xc1611dab, 0xb6662d3d,
     0x76dc4190, 0x01db7106, 0x98d220bc, 0xefd5102a,
     0x71b18589, 0x06b6b51f, 0x9fbfe4a5, 0xe8b8d433,
     0x7807c9a2, 0x0f00f934, 0x9609a88e, 0xe10e9818,
     0x7f6a0dbb, 0x086d3d2d, 0x91646c97, 0xe6635c01,
     0x6b6b51f4, 0x1c6c6162, 0x856530d8, 0xf262004e,
     0x6c0695ed, 0x1b01a57b, 0x8208f4c1, 0xf50fc457,
     0x65b0d9c6, 0x12b7e950, 0x8bbeb8ea, 0xfcb9887c,
     0x62dd1ddf, 0x15da2d49, 0x8cd37cf3, 0xfbd44c65,
     0x4db26158, 0x3ab551ce, 0xa3bc0074, 0xd4bb30e2,
     0x4adfa541, 0x3dd895d7, 0xa4d1c46d, 0xd3d6f4fb,
     0x4369e96a, 0x346ed9fc, 0xad678846, 0xda60b8d0,
     0x44042d73, 0x33031de5, 0xaa0a4c5f, 0xdd0d7cc9,
     0x5005713c, 0x270241aa, 0xbe0b1010, 0xc90c2086,
     0x5768b525, 0x206f85b3, 0xb966d409, 0xce61e49f,
     0x5edef90e, 0x29d9c998, 0xb0d09822, 0xc7d7a8b4,
     0x59b33d17, 0x2eb40d81, 0xb7bd5c3b, 0xc0ba6cad,
     0xedb88320, 0x9abfb3b6, 0x03b6e20c, 0x74b1d29a,
     0xead54739, 0x9dd277af, 0x04db2615, 0x73dc1683,
     0xe3630b12, 0x94643b84, 0x0d6d6a3e, 0x7a6a5aa8,
     0xe40ecf0b, 0x9309ff9d, 0x0a00ae27, 0x7d079eb1,
     0xf00f9344, 0x8708a3d2, 0x1e01f268, 0x6906c2fe,
     0xf762575d, 0x806567cb, 0x196c3671, 0x6e6b06e7,
     0xfed41b76, 0x89d32be0, 0x10da7a5a, 0x67dd4acc,
     0xf9b9df6f, 0x8ebeeff9, 0x17b7be43, 0x60b08ed5,
     0xd6d6a3e8, 0xa1d1937e, 0x38d8c2c4, 0x4fdff252,
     0xd1bb67f1, 0xa6bc5767, 0x3fb506dd, 0x48b2364b,
     0xd80d2bda, 0xaf0a1b4c, 0x36034af6, 0x41047a60,
     0xdf60efc3, 0xa867df55, 0x316e8eef, 0x4669be79,
     0xcb61b38c, 0xbc66831a, 0x256fd2a0, 0x5268e236,
     0xcc0c7795, 0xbb0b4703, 0x220216b9, 0x5505262f,
     0xc5ba3bbe, 0xb2bd0b28, 0x2bb45a92, 0x5cb36a04,
     0xc2d7ffa7, 0xb5d0cf31, 0x2cd99e8b, 0x5bdeae1d,
     0x9b64c2b0, 0xec63f226, 0x756aa39c, 0x026d930a,
     0x9c0906a9, 0xeb0e363f, 0x72076785, 0x05005713,
     0x95bf4a82, 0xe2b87a14, 0x7bb12bae, 0x0cb61b38,
     0x92d28e9b, 0xe5d5be0d, 0x7cdcefb7, 0x0bdbdf21,
     0x86d3d2d4, 0xf1d4e242, 0x68ddb3f8, 0x1fda836e,
     0x81be16cd, 0xf6b9265b, 0x6fb077e1, 0x18b74777,
     0x88085ae6, 0xff0f6a70, 0x66063bca, 0x11010b5c,
     0x8f659eff, 0xf862ae69, 0x616bffd3, 0x166ccf45,
     0xa00ae278, 0xd70dd2ee, 0x4e048354, 0x3903b3c2,
     0xa7672661, 0xd06016f7, 0x4969474d, 0x3e6e77db,
     0xaed16a4a, 0xd9d65adc, 0x40df0b66, 0x37d83bf0,
     0xa9bcae53, 0xdebb9ec5, 0x47b2cf7f, 0x30b5ffe9,
     0xbdbdf21c, 0xcabac28a, 0x53b39330, 0x24b4a3a6,
     0xbad03605, 0xcdd70693, 0x54de5729, 0x23d967bf,
     0xb3667a2e, 0xc4614ab8, 0x5d681b02, 0x2a6f2b94,
     0xb40bbe37, 0xc30c8ea1, 0x5a05df1b, 0x2d02ef8d]"

text \<open>
  \<^verbatim>\<open>ngx_crc32_table_init\<close> leaves \<^verbatim>\<open>ngx_crc32_table_short\<close> pointing to the static table when it is
  aligned to the cache line, and otherwise to an aligned copy of it, or fails when the
  allocation does.  \<open>alloc\<close> is the outcome of \<^verbatim>\<open>ngx_alloc\<close>: the memory it returns, or none.
\<close>

definition ngx_crc32_table_init ::
  "bool \<Rightarrow> u_int32 list option \<Rightarrow> u_int32 list \<Rightarrow> int \<times> u_int32 list" where
  "ngx_crc32_table_init aligned alloc table_short =
     (if aligned then (NGX_OK, table_short)
      else case alloc of
        None \<Rightarrow> (NGX_ERROR, table_short)
      | Some p \<Rightarrow> (NGX_OK, memcpy_at p 0 ngx_crc32_table16))"

fun crc32_short_loop :: "u_int32 list \<Rightarrow> u_int32 \<Rightarrow> u_char list \<Rightarrow> u_int32" where
  "crc32_short_loop tbl crc [] = crc"
| "crc32_short_loop tbl crc (c # p) =
     (let crc = tbl ! unat ((crc XOR ucast (c AND 0xf)) AND 0xf) XOR drop_bit 4 crc;
          crc = tbl ! unat ((crc XOR ucast (drop_bit 4 c)) AND 0xf) XOR drop_bit 4 crc
      in crc32_short_loop tbl crc p)"

definition ngx_crc32_short :: "u_int32 list \<Rightarrow> u_char list \<Rightarrow> u_int32" where
  "ngx_crc32_short tbl p = crc32_short_loop tbl 0xffffffff p XOR 0xffffffff"

fun ngx_crc32_update :: "u_int32 \<Rightarrow> u_char list \<Rightarrow> u_int32" where
  "ngx_crc32_update c [] = c"
| "ngx_crc32_update c (x # p) =
     ngx_crc32_update (ngx_crc32_table256 ! unat ((c XOR ucast x) AND 0xff) XOR drop_bit 8 c) p"

definition ngx_crc32_long :: "u_char list \<Rightarrow> u_int32" where
  "ngx_crc32_long p = ngx_crc32_update 0xffffffff p XOR 0xffffffff"

section \<open>The bitwise definition\<close>

definition crc_bit :: "u_int32 \<Rightarrow> u_int32" where
  "crc_bit c = (if bit c 0 then drop_bit 1 c XOR 0xedb88320 else drop_bit 1 c)"

definition crc_bits :: "nat \<Rightarrow> u_int32 \<Rightarrow> u_int32" where
  "crc_bits n = crc_bit ^^ n"

definition crc32 :: "u_char list \<Rightarrow> u_int32" where
  "crc32 p = foldl (\<lambda>c x. crc_bits 8 (c XOR ucast x)) 0xffffffff p XOR 0xffffffff"

lemma crc_bits_add: "crc_bits (m + n) c = crc_bits m (crc_bits n c)"
  by (simp add: crc_bits_def funpow_add)

text \<open>The CRC step is linear.\<close>

lemma crc_bit_xor: "crc_bit (a XOR b) = crc_bit a XOR crc_bit b"
  by (rule bit_word_eqI) (auto simp: crc_bit_def bit_simps)

lemma crc_bits_xor: "crc_bits n (a XOR b) = crc_bits n a XOR crc_bits n b"
  by (induction n) (simp_all add: crc_bits_def crc_bit_xor)

text \<open>Bits above the processed ones are only shifted.\<close>

lemma crc_bits_shift:
  assumes "\<And>k. k < n \<Longrightarrow> \<not> bit a k"
  shows "crc_bits n a = drop_bit n a"
  using assms
proof (induction n)
  case (Suc n)
  then have "crc_bits n a = drop_bit n a" by simp
  moreover have "\<not> bit (drop_bit n a) 0" using Suc.prems by (simp add: bit_simps)
  ultimately show ?case by (simp add: crc_bits_def crc_bit_def)
qed (simp add: crc_bits_def)

lemma crc_bits_mask:
  "crc_bits n a = crc_bits n (take_bit n a) XOR drop_bit n a"
proof -
  have "a = take_bit n a XOR push_bit n (drop_bit n a)"
    by (rule bit_word_eqI) (auto simp: bit_simps dest: bit_imp_le_length)
  then have "crc_bits n a = crc_bits n (take_bit n a) XOR crc_bits n (push_bit n (drop_bit n a))"
    by (metis crc_bits_xor)
  also have "crc_bits n (push_bit n (drop_bit n a)) = drop_bit n (push_bit n (drop_bit n a))"
    by (rule crc_bits_shift) (simp add: bit_simps)
  also have "\<dots> = drop_bit n a"
    by (rule bit_word_eqI) (auto simp: bit_simps dest: bit_imp_le_length)
  finally show ?thesis .
qed

section \<open>The tables\<close>

lemma table16_bits: "k < 16 \<Longrightarrow> ngx_crc32_table16 ! k = crc_bits 4 (of_nat k)"
proof -
  have "list_all (\<lambda>k. ngx_crc32_table16 ! k = crc_bits 4 (of_nat k)) [0..<16]" by code_simp
  then show "k < 16 \<Longrightarrow> ?thesis" by (simp add: list_all_iff del: upt_rec_numeral)
qed

lemma mask_take_bit:
  "(x :: u_int32) AND 0xf = take_bit 4 x" "(x :: u_int32) AND 0xff = take_bit 8 x"
  using take_bit_eq_mask [of 4 x] take_bit_eq_mask [of 8 x]
  by (simp_all add: mask_eq_exp_minus_1)

lemma unat_take_bit_less: "n < 32 \<Longrightarrow> unat (take_bit n (x :: u_int32)) < 2 ^ n"
  by (simp add: unsigned_take_bit_eq)

lemma table16_step:
  "ngx_crc32_table16 ! unat (a AND 0xf) XOR drop_bit 4 a = crc_bits 4 a"
  using crc_bits_mask [of 4 a] table16_bits [of "unat (take_bit 4 a)"] unat_take_bit_less [of 4 a]
  by (simp add: mask_take_bit)

text \<open>The large table follows from the small one, two nibbles at a time.\<close>

definition nibble :: "u_int32 \<Rightarrow> u_int32" where
  "nibble a = ngx_crc32_table16 ! unat (a AND 0xf) XOR drop_bit 4 a"

lemma nibble_bits: "nibble a = crc_bits 4 a"
  unfolding nibble_def by (rule table16_step)

lemma table256_nibbles: "ngx_crc32_table256 = map (\<lambda>c. nibble (nibble (ucast c))) all_bytes"
  by code_simp

lemma table256_eq: "ngx_crc32_table256 = map (\<lambda>c. crc_bits 8 (ucast c)) all_bytes"
  unfolding table256_nibbles nibble_bits using crc_bits_add [of 4 4] by simp

lemma table256_bits: "k < 256 \<Longrightarrow> ngx_crc32_table256 ! k = crc_bits 8 (of_nat k)"
  unfolding table256_eq all_bytes_eq [symmetric]
  by (simp add: unsigned_of_nat take_bit_nat_eq_self del: upt_rec_numeral)

lemma table256_step:
  "ngx_crc32_table256 ! unat (a AND 0xff) XOR drop_bit 8 a = crc_bits 8 a"
  using crc_bits_mask [of 8 a] table256_bits [of "unat (take_bit 8 a)"] unat_take_bit_less [of 8 a]
  by (simp add: mask_take_bit)

section \<open>Both loops compute the CRC\<close>

lemma drop_ucast [simp]:
  "drop_bit 8 (ucast (x :: u_char) :: u_int32) = 0"
  "drop_bit 4 (ucast (x AND 0xf) :: u_int32) = 0"
  "drop_bit 4 (ucast (drop_bit 4 x) :: u_int32) = 0"
proof -
  have "x AND 0xf = take_bit 4 x" using take_bit_eq_mask [of 4 x] by (simp add: mask_eq_exp_minus_1)
  then show "drop_bit 4 (ucast (x AND 0xf) :: u_int32) = 0"
    by (simp, intro bit_word_eqI) (auto simp: bit_simps dest: bit_imp_le_length)
qed (intro bit_word_eqI, auto simp: bit_simps dest: bit_imp_le_length)+

lemma long_step:
  "ngx_crc32_table256 ! unat ((c XOR ucast x) AND 0xff) XOR drop_bit 8 c =
     crc_bits 8 (c XOR ucast (x :: u_char))"
  using table256_step [of "c XOR ucast x"] by simp

lemma crc32_update_bits:
  "ngx_crc32_update c p = foldl (\<lambda>c x. crc_bits 8 (c XOR ucast x)) c p"
  by (induction p arbitrary: c) (simp_all add: long_step)

lemma short_step:
  fixes c :: u_int32 and x :: u_char
  defines "c1 \<equiv> ngx_crc32_table16 ! unat ((c XOR ucast (x AND 0xf)) AND 0xf) XOR drop_bit 4 c"
  shows "ngx_crc32_table16 ! unat ((c1 XOR ucast (drop_bit 4 x)) AND 0xf) XOR drop_bit 4 c1 =
    crc_bits 8 (c XOR ucast x)"
proof -
  let ?l = "ucast (x AND 0xf) :: u_int32" and ?h = "ucast (drop_bit 4 x) :: u_int32"
  have c1: "c1 = crc_bits 4 (c XOR ?l)"
    using table16_step [of "c XOR ?l"] by (simp add: c1_def)
  have "crc_bits 4 (push_bit 4 ?h) = drop_bit 4 (push_bit 4 ?h)"
    by (rule crc_bits_shift) (simp add: bit_simps)
  also have "\<dots> = ?h" by (rule bit_word_eqI) (auto simp: bit_simps dest: bit_imp_le_length)
  finally have h: "crc_bits 4 (push_bit 4 ?h) = ?h" .
  have x: "x AND 0xf = take_bit 4 x"
    using take_bit_eq_mask [of 4 x] by (simp add: mask_eq_exp_minus_1)
  have split: "?l XOR push_bit 4 ?h = ucast x"
    unfolding x by (rule bit_word_eqI) (auto simp: bit_simps dest: bit_imp_le_length)
  have "ngx_crc32_table16 ! unat ((c1 XOR ?h) AND 0xf) XOR drop_bit 4 c1 = crc_bits 4 (c1 XOR ?h)"
    using table16_step [of "c1 XOR ?h"] by simp
  moreover have "c1 XOR ?h = crc_bits 4 (c XOR ucast x)"
    unfolding split [symmetric] by (simp add: c1 crc_bits_xor h xor.assoc)
  ultimately show ?thesis using crc_bits_add [of 4 4] by simp
qed

lemma crc32_short_loop_Cons:
  "crc32_short_loop ngx_crc32_table16 c (x # p) =
     crc32_short_loop ngx_crc32_table16 (crc_bits 8 (c XOR ucast x)) p"
  by (simp only: crc32_short_loop.simps Let_def short_step)

lemma crc32_short_loop_bits:
  "crc32_short_loop ngx_crc32_table16 c p = foldl (\<lambda>c x. crc_bits 8 (c XOR ucast x)) c p"
  by (induction p arbitrary: c) (simp_all add: crc32_short_loop_Cons del: crc32_short_loop.simps(2))

text \<open>
  C39: the 4-bit table loop \<^verbatim>\<open>ngx_crc32_short\<close> and the 8-bit table loop \<^verbatim>\<open>ngx_crc32_long\<close> both
  compute the bitwise CRC-32 of their input, so callers may use either.
\<close>

theorem ngx_crc32_equiv:
  "ngx_crc32_short ngx_crc32_table16 p = crc32 p \<and> ngx_crc32_long p = crc32 p"
  by (simp add: ngx_crc32_short_def ngx_crc32_long_def crc32_def crc32_short_loop_bits
      crc32_update_bits)

text \<open>An update continues where the last one stopped.\<close>

lemma ngx_crc32_update_append:
  "ngx_crc32_update c (p @ q) = ngx_crc32_update (ngx_crc32_update c p) q"
  by (simp add: crc32_update_bits)

text \<open>The relocated table is the static one, so the result does not depend on alignment.\<close>

lemma ngx_crc32_table_init_ok:
  assumes "\<And>p. alloc = Some p \<Longrightarrow> length p = 16"
    and "ngx_crc32_table_init aligned alloc ngx_crc32_table16 = (NGX_OK, tbl)"
  shows "tbl = ngx_crc32_table16"
  using assms by (auto simp: ngx_crc32_table_init_def memcpy_at_def ngx_crc32_table16_def
      split: if_splits option.splits)

end
