(* ===== verification/Ngx_Base64.thy ===== *)
theory Ngx_Base64
  imports Ngx_Prelude
begin

text \<open>
  Base64 of \<^verbatim>\<open>src/core/ngx_string.c\<close>: the standard and the URL-safe alphabet, the encoder
  \<^verbatim>\<open>ngx_encode_base64_internal\<close> and the decoder \<^verbatim>\<open>ngx_decode_base64_internal\<close> with their
  tables.  The locale \<open>base64_tables\<close> states what a pair of tables must satisfy; the round trip
  and the output sizes are proved in it once and hold for both alphabets.
\<close>

section \<open>The code\<close>

fun ngx_encode_base64_internal :: "u_char list \<Rightarrow> bool \<Rightarrow> u_char list \<Rightarrow> u_char list" where
  "ngx_encode_base64_internal basis padding (s0 # s1 # s2 # s) =
     basis ! unat (drop_bit 2 s0 AND 0x3f)
     # basis ! unat (push_bit 4 (s0 AND 3) OR drop_bit 4 s1)
     # basis ! unat (push_bit 2 (s1 AND 0x0f) OR drop_bit 6 s2)
     # basis ! unat (s2 AND 0x3f)
     # ngx_encode_base64_internal basis padding s"
| "ngx_encode_base64_internal basis padding [s0, s1] =
     [basis ! unat (drop_bit 2 s0 AND 0x3f),
      basis ! unat (push_bit 4 (s0 AND 3) OR drop_bit 4 s1),
      basis ! unat (push_bit 2 (s1 AND 0x0f))]
     @ (if padding then [ch CHR ''='' ] else [])"
| "ngx_encode_base64_internal basis padding [s0] =
     [basis ! unat (drop_bit 2 s0 AND 0x3f),
      basis ! unat (push_bit 4 (s0 AND 3))]
     @ (if padding then [ch CHR ''='' ] else [])
     @ (if padding then [ch CHR ''='' ] else [])"
| "ngx_encode_base64_internal basis padding [] = []"

definition basis64_encode :: "u_char list" where
  "basis64_encode =
     bytes ''ABCDEFGHIJKLMNOPQRSTUVWXYZabcdefghijklmnopqrstuvwxyz0123456789+/''"

definition basis64url_encode :: "u_char list" where
  "basis64url_encode =
     bytes ''ABCDEFGHIJKLMNOPQRSTUVWXYZabcdefghijklmnopqrstuvwxyz0123456789-_''"

definition ngx_encode_base64 :: "u_char list \<Rightarrow> u_char list" where
  "ngx_encode_base64 src = ngx_encode_base64_internal basis64_encode True src"

definition ngx_encode_base64url :: "u_char list \<Rightarrow> u_char list" where
  "ngx_encode_base64url src = ngx_encode_base64_internal basis64url_encode False src"

text \<open>
  The decoder: a scan up to the first \<^verbatim>\<open>=\<close> that fails on a byte outside the alphabet
  (table entry 77), then groups of four, then the rest of two or three.
\<close>

fun decode_scan :: "u_char list \<Rightarrow> u_char list \<Rightarrow> nat option" where
  "decode_scan basis [] = Some 0"
| "decode_scan basis (c # src) =
     (if c = ch CHR ''='' then Some 0
      else if basis ! unat c = 77 then None
      else map_option Suc (decode_scan basis src))"

fun decode_loop :: "u_char list \<Rightarrow> u_char list \<Rightarrow> u_char list" where
  "decode_loop basis (s0 # s1 # s2 # s3 # s) =
     (push_bit 2 (basis ! unat s0) OR drop_bit 4 (basis ! unat s1))
     # (push_bit 4 (basis ! unat s1) OR drop_bit 2 (basis ! unat s2))
     # (push_bit 6 (basis ! unat s2) OR basis ! unat s3)
     # decode_loop basis s"
| "decode_loop basis [s0, s1, s2] =
     [push_bit 2 (basis ! unat s0) OR drop_bit 4 (basis ! unat s1),
      push_bit 4 (basis ! unat s1) OR drop_bit 2 (basis ! unat s2)]"
| "decode_loop basis [s0, s1] =
     [push_bit 2 (basis ! unat s0) OR drop_bit 4 (basis ! unat s1)]"
| "decode_loop basis [s0] = []"
| "decode_loop basis [] = []"

text \<open>\<open>None\<close> is \<^verbatim>\<open>NGX_ERROR\<close>, \<open>Some dst\<close> is \<^verbatim>\<open>NGX_OK\<close> with the destination string.\<close>

definition ngx_decode_base64_internal :: "u_char list \<Rightarrow> u_char list \<Rightarrow> u_char list option" where
  "ngx_decode_base64_internal basis src =
     (case decode_scan basis src of
        None \<Rightarrow> None
      | Some len \<Rightarrow> if len mod 4 = 1 then None else Some (decode_loop basis (take len src)))"

definition basis64_decode :: "u_char list" where
  "basis64_decode = [
     77, 77, 77, 77, 77, 77, 77, 77, 77, 77, 77, 77, 77, 77, 77, 77,
     77, 77, 77, 77, 77, 77, 77, 77, 77, 77, 77, 77, 77, 77, 77, 77,
     77, 77, 77, 77, 77, 77, 77, 77, 77, 77, 77, 62, 77, 77, 77, 63,
     52, 53, 54, 55, 56, 57, 58, 59, 60, 61, 77, 77, 77, 77, 77, 77,
     77, 0, 1, 2, 3, 4, 5, 6, 7, 8, 9, 10, 11, 12, 13, 14,
     15, 16, 17, 18, 19, 20, 21, 22, 23, 24, 25, 77, 77, 77, 77, 77,
     77, 26, 27, 28, 29, 30, 31, 32, 33, 34, 35, 36, 37, 38, 39, 40,
     41, 42, 43, 44, 45, 46, 47, 48, 49, 50, 51, 77, 77, 77, 77, 77,
     77, 77, 77, 77, 77, 77, 77, 77, 77, 77, 77, 77, 77, 77, 77, 77,
     77, 77, 77, 77, 77, 77, 77, 77, 77, 77, 77, 77, 77, 77, 77, 77,
     77, 77, 77, 77, 77, 77, 77, 77, 77, 77, 77, 77, 77, 77, 77, 77,
     77, 77, 77, 77, 77, 77, 77, 77, 77, 77, 77, 77, 77, 77, 77, 77,
     77, 77, 77, 77, 77, 77, 77, 77, 77, 77, 77, 77, 77, 77, 77, 77,
     77, 77, 77, 77, 77, 77, 77, 77, 77, 77, 77, 77, 77, 77, 77, 77,
     77, 77, 77, 77, 77, 77, 77, 77, 77, 77, 77, 77, 77, 77, 77, 77,
     77, 77, 77, 77, 77, 77, 77, 77, 77, 77, 77, 77, 77, 77, 77, 77]"

definition basis64url_decode :: "u_char list" where
  "basis64url_decode = [
     77, 77, 77, 77, 77, 77, 77, 77, 77, 77, 77, 77, 77, 77, 77, 77,
     77, 77, 77, 77, 77, 77, 77, 77, 77, 77, 77, 77, 77, 77, 77, 77,
     77, 77, 77, 77, 77, 77, 77, 77, 77, 77, 77, 77, 77, 62, 77, 77,
     52, 53, 54, 55, 56, 57, 58, 59, 60, 61, 77, 77, 77, 77, 77, 77,
     77, 0, 1, 2, 3, 4, 5, 6, 7, 8, 9, 10, 11, 12, 13, 14,
     15, 16, 17, 18, 19, 20, 21, 22, 23, 24, 25, 77, 77, 77, 77, 63,
     77, 26, 27, 28, 29, 30, 31, 32, 33, 34, 35, 36, 37, 38, 39, 40,
     41, 42, 43, 44, 45, 46, 47, 48, 49, 50, 51, 77, 77, 77, 77, 77,
     77, 77, 77, 77, 77, 77, 77, 77, 77, 77, 77, 77, 77, 77, 77, 77,
     77, 77, 77, 77, 77, 77, 77, 77, 77, 77, 77, 77, 77, 77, 77, 77,
     77, 77, 77, 77, 77, 77, 77, 77, 77, 77, 77, 77, 77, 77, 77, 77,
     77, 77, 77, 77, 77, 77, 77, 77, 77, 77, 77, 77, 77, 77, 77, 77,
     77, 77, 77, 77, 77, 77, 77, 77, 77, 77, 77, 77, 77, 77, 77, 77,
     77, 77, 77, 77, 77, 77, 77, 77, 77, 77, 77, 77, 77, 77, 77, 77,
     77, 77, 77, 77, 77, 77, 77, 77, 77, 77, 77, 77, 77, 77, 77, 77,
     77, 77, 77, 77, 77, 77, 77, 77, 77, 77, 77, 77, 77, 77, 77, 77]"

definition ngx_decode_base64 :: "u_char list \<Rightarrow> u_char list option" where
  "ngx_decode_base64 src = ngx_decode_base64_internal basis64_decode src"

definition ngx_decode_base64url :: "u_char list \<Rightarrow> u_char list option" where
  "ngx_decode_base64url src = ngx_decode_base64_internal basis64url_decode src"

text \<open>The macros that size the destination buffers.\<close>

definition ngx_base64_encoded_length :: "nat \<Rightarrow> nat" where
  "ngx_base64_encoded_length len = ((len + 2) div 3) * 4"

definition ngx_base64_decoded_length :: "nat \<Rightarrow> nat" where
  "ngx_base64_decoded_length len = ((len + 3) div 4) * 3"

section \<open>Sextets\<close>

lemma mask8:
  "(x :: u_char) AND 0x3f = take_bit 6 x" "x AND 3 = take_bit 2 x" "x AND 0x0f = take_bit 4 x"
  using take_bit_eq_mask [of 6 x] take_bit_eq_mask [of 2 x] take_bit_eq_mask [of 4 x]
  by (simp_all add: mask_eq_exp_minus_1)

lemma sextet_less:
  fixes x :: u_char
  assumes "take_bit 6 x = x"
  shows "unat x < 64"
proof -
  from assms have "unat x = take_bit 6 (unat x)" by (metis unsigned_take_bit_eq)
  also have "\<dots> < 2 ^ 6" by (rule take_bit_nat_less_exp)
  finally show ?thesis by simp
qed

text \<open>The four indices the encoder computes from three bytes.\<close>

definition sx0 :: "u_char \<Rightarrow> u_char" where "sx0 s0 = drop_bit 2 s0 AND 0x3f"
definition sx1 :: "u_char \<Rightarrow> u_char \<Rightarrow> u_char" where
  "sx1 s0 s1 = push_bit 4 (s0 AND 3) OR drop_bit 4 s1"
definition sx2 :: "u_char \<Rightarrow> u_char \<Rightarrow> u_char" where
  "sx2 s1 s2 = push_bit 2 (s1 AND 0x0f) OR drop_bit 6 s2"
definition sx3 :: "u_char \<Rightarrow> u_char" where "sx3 s2 = s2 AND 0x3f"

lemmas sx_defs = sx0_def sx1_def sx2_def sx3_def

lemma encode_sextets:
  "ngx_encode_base64_internal basis padding (s0 # s1 # s2 # s) =
     basis ! unat (sx0 s0) # basis ! unat (sx1 s0 s1) # basis ! unat (sx2 s1 s2)
     # basis ! unat (sx3 s2) # ngx_encode_base64_internal basis padding s"
  "ngx_encode_base64_internal basis padding [s0, s1] =
     [basis ! unat (sx0 s0), basis ! unat (sx1 s0 s1), basis ! unat (sx2 s1 0)]
     @ (if padding then [ch CHR ''='' ] else [])"
  "ngx_encode_base64_internal basis padding [s0] =
     [basis ! unat (sx0 s0), basis ! unat (sx1 s0 0)]
     @ (if padding then [ch CHR ''='', ch CHR ''='' ] else [])"
  "ngx_encode_base64_internal basis padding [] = []"
  by (simp_all add: sx_defs)

lemma sextets_range [simp]:
  "take_bit 6 (sx0 s0) = sx0 s0" "take_bit 6 (sx1 s0 s1) = sx1 s0 s1"
  "take_bit 6 (sx2 s1 s2) = sx2 s1 s2" "take_bit 6 (sx3 s2) = sx3 s2"
  unfolding sx_defs mask8 by (rule bit_word_eqI, auto simp: bit_simps dest: bit_imp_le_length)+

lemma sextets_join [simp]:
  "push_bit 2 (sx0 s0) OR drop_bit 4 (sx1 s0 s1) = s0"
  "push_bit 4 (sx1 s0 s1) OR drop_bit 2 (sx2 s1 s2) = s1"
  "push_bit 6 (sx2 s1 s2) OR sx3 s2 = s2"
  unfolding sx_defs mask8 by (rule byte_bitI; simp add: bit_simps)+

lemma triple_induct [case_names 3 2 1 0]:
  assumes "\<And>s0 s1 s2 s. P s \<Longrightarrow> P (s0 # s1 # s2 # s)" "\<And>s0 s1. P [s0, s1]" "\<And>s0. P [s0]" "P []"
  shows "P (s :: u_char list)"
  using assms by (rule ngx_encode_base64_internal.induct [where P = "\<lambda>_ _ s. P s"])

lemma scan_pad: "decode_scan basis (61 # s) = Some 0"
  by simp

section \<open>Round trip and sizes for any matching pair of tables\<close>

locale base64_tables =
  fixes enc dec :: "u_char list"
  assumes dec_enc: "i < 64 \<Longrightarrow> dec ! unat (enc ! i) = of_nat i"
    and enc_not_pad: "i < 64 \<Longrightarrow> enc ! i \<noteq> ch CHR ''='' "
begin

lemma dec_enc_sextet [simp]:
  "take_bit 6 x = x \<Longrightarrow> dec ! unat (enc ! unat x) = x" for x :: u_char
  using dec_enc [OF sextet_less] by simp

lemma scan_sextet [simp]:
  fixes x :: u_char
  assumes "take_bit 6 x = x"
  shows "decode_scan dec (enc ! unat x # s) = map_option Suc (decode_scan dec s)"
proof -
  have "unat x < 64" using assms by (rule sextet_less)
  moreover from this have "x \<noteq> 77" by auto
  ultimately show ?thesis using enc_not_pad by (simp add: dec_enc_sextet assms)
qed

text \<open>The scan consumes exactly the symbols before the padding, and those decode to the input.\<close>

lemma encode_decode:
  "\<exists>n. decode_scan dec (ngx_encode_base64_internal enc pad s) = Some n \<and> n mod 4 \<noteq> 1 \<and>
     decode_loop dec (take n (ngx_encode_base64_internal enc pad s)) = s"
proof (induction s rule: triple_induct)
  case (3 s0 s1 s2 s)
  then obtain n where n: "decode_scan dec (ngx_encode_base64_internal enc pad s) = Some n"
    "n mod 4 \<noteq> 1" "decode_loop dec (take n (ngx_encode_base64_internal enc pad s)) = s"
    by blast
  have "Suc (Suc (Suc (Suc n))) mod 4 = n mod 4" by presburger
  with n show ?case
    by (intro exI [of _ "Suc (Suc (Suc (Suc n)))"])
       (simp add: encode_sextets del: ngx_encode_base64_internal.simps decode_scan.simps(2))
qed (simp_all add: encode_sextets scan_pad
      del: ngx_encode_base64_internal.simps(1-3) decode_scan.simps(2))

lemma roundtrip: "ngx_decode_base64_internal dec (ngx_encode_base64_internal enc pad s) = Some s"
  using encode_decode [of pad s] by (auto simp: ngx_decode_base64_internal_def)

end

lemma decoded_length_step:
  "ngx_base64_decoded_length (Suc (Suc (Suc (Suc n)))) = ngx_base64_decoded_length n + 3"
  using div_add_self2 [of 4 "n + 3"] by (simp add: ngx_base64_decoded_length_def add.commute)

lemma encoded_length_step:
  "ngx_base64_encoded_length (Suc (Suc (Suc n))) = ngx_base64_encoded_length n + 4"
  using div_add_self2 [of 3 "n + 2"] by (simp add: ngx_base64_encoded_length_def add.commute)

lemma decode_loop_length: "length (decode_loop basis s) \<le> ngx_base64_decoded_length (length s)"
  by (induction basis s rule: decode_loop.induct)
     (simp_all add: decoded_length_step, simp_all add: ngx_base64_decoded_length_def)

lemma decode_length:
  assumes "ngx_decode_base64_internal basis src = Some dst"
  shows "length dst \<le> ngx_base64_decoded_length (length src)"
proof -
  obtain len where "dst = decode_loop basis (take len src)"
    using assms by (auto simp: ngx_decode_base64_internal_def split: option.splits if_splits)
  then have "length dst \<le> ngx_base64_decoded_length (length (take len src))"
    using decode_loop_length by blast
  also have "\<dots> \<le> ngx_base64_decoded_length (length src)"
    unfolding ngx_base64_decoded_length_def
    by (intro mult_le_mono1 div_le_mono add_le_mono1) simp
  finally show ?thesis .
qed

lemma encode_length:
  "length (ngx_encode_base64_internal basis True s) = ngx_base64_encoded_length (length s)"
  "length (ngx_encode_base64_internal basis False s) \<le> ngx_base64_encoded_length (length s)"
  by (induction s rule: triple_induct)
     (simp_all add: encoded_length_step, simp_all add: ngx_base64_encoded_length_def)

interpretation std: base64_tables basis64_encode basis64_decode
proof -
  have "list_all (\<lambda>i. basis64_decode ! unat (basis64_encode ! i) = of_nat i \<and>
      basis64_encode ! i \<noteq> ch CHR ''='') [0..<64]" by code_simp
  then show "base64_tables basis64_encode basis64_decode"
    by unfold_locales (auto simp: list_all_iff simp del: upt_rec_numeral)
qed

interpretation url: base64_tables basis64url_encode basis64url_decode
proof -
  have "list_all (\<lambda>i. basis64url_decode ! unat (basis64url_encode ! i) = of_nat i \<and>
      basis64url_encode ! i \<noteq> ch CHR ''='') [0..<64]" by code_simp
  then show "base64_tables basis64url_encode basis64url_decode"
    by unfold_locales (auto simp: list_all_iff simp del: upt_rec_numeral)
qed

text \<open>
  C37: decoding what \<^verbatim>\<open>ngx_encode_base64\<close> or \<^verbatim>\<open>ngx_encode_base64url\<close> wrote gives back the
  source string, for every byte string.
\<close>

theorem ngx_base64_roundtrip:
  "ngx_decode_base64 (ngx_encode_base64 s) = Some s \<and>
   ngx_decode_base64url (ngx_encode_base64url s) = Some s"
  unfolding ngx_decode_base64_def ngx_encode_base64_def ngx_decode_base64url_def
    ngx_encode_base64url_def
  using std.roundtrip url.roundtrip by blast

text \<open>
  the buffer sizes that callers compute with \<^verbatim>\<open>ngx_base64_encoded_length\<close> and
  \<^verbatim>\<open>ngx_base64_decoded_length\<close> are enough: the padded encoding has exactly the computed length,
  the URL encoding and every successful decoding are no longer than it.
\<close>

theorem ngx_base64_sizes:
  "length (ngx_encode_base64 s) = ngx_base64_encoded_length (length s) \<and>
   length (ngx_encode_base64url s) \<le> ngx_base64_encoded_length (length s) \<and>
   (case ngx_decode_base64 s of None \<Rightarrow> True
    | Some d \<Rightarrow> length d \<le> ngx_base64_decoded_length (length s)) \<and>
   (case ngx_decode_base64url s of None \<Rightarrow> True
    | Some d \<Rightarrow> length d \<le> ngx_base64_decoded_length (length s))"
  by (auto simp: ngx_encode_base64_def ngx_encode_base64url_def ngx_decode_base64_def
      ngx_decode_base64url_def encode_length decode_length split: option.split)

end
