(* ===== verification/Ngx_Utf8.thy ===== *)
theory Ngx_Utf8
  imports Ngx_Prelude
begin

text \<open>
  UTF-8 of \<^verbatim>\<open>src/core/ngx_string.c\<close>: \<^verbatim>\<open>ngx_utf8_decode\<close> and \<^verbatim>\<open>ngx_utf8_length\<close>.  The bytes at
  the pointer and the length \<open>n\<close> are one list; advancing the pointer drops bytes from it.
  A read past the \<open>n\<close> bytes is the result \<open>None\<close>, so the absence of such reads is a theorem.
\<close>

section \<open>The code\<close>

text \<open>The loop over the continuation bytes: an error code or the accumulated value.\<close>

fun utf8_loop :: "nat \<Rightarrow> u_int32 \<Rightarrow> u_char list \<Rightarrow> ((u_int32 + u_int32) \<times> u_char list) option" where
  "utf8_loop 0 u p = Some (Inr u, p)"
| "utf8_loop (Suc len) u [] = None"
| "utf8_loop (Suc len) u (i # p) =
     (if i < 0x80 then Some (Inl 0xffffffff, p)
      else utf8_loop len (push_bit 6 u OR (ucast i AND 0x3f)) p)"

definition utf8_finish ::
  "u_int32 \<Rightarrow> ((u_int32 + u_int32) \<times> u_char list) option \<Rightarrow> (u_int32 \<times> u_char list) option" where
  "utf8_finish valid r =
     (case r of None \<Rightarrow> None
      | Some (Inl e, p) \<Rightarrow> Some (e, p)
      | Some (Inr u, p) \<Rightarrow> if u > valid then Some (u, p) else Some (0xffffffff, p))"

definition ngx_utf8_decode :: "u_char list \<Rightarrow> (u_int32 \<times> u_char list) option" where
  "ngx_utf8_decode p =
     (case p of [] \<Rightarrow> None
      | c # q \<Rightarrow>
        let u = ucast c :: u_int32 in
        if u \<ge> 0xf8 then Some (0xffffffff, q)
        else if u \<ge> 0xf0 then
          (if length p - 1 < 3 then Some (0xfffffffe, p)
           else utf8_finish 0xffff (utf8_loop 3 (u AND 0x07) q))
        else if u \<ge> 0xe0 then
          (if length p - 1 < 2 then Some (0xfffffffe, p)
           else utf8_finish 0x7ff (utf8_loop 2 (u AND 0x0f) q))
        else if u \<ge> 0xc2 then
          (if length p - 1 < 1 then Some (0xfffffffe, p)
           else utf8_finish 0x7f (utf8_loop 1 (u AND 0x1f) q))
        else Some (0xffffffff, q))"

lemma utf8_loop_length: "utf8_loop k u p = Some (r, q) \<Longrightarrow> length q \<le> length p"
  by (induction k u p rule: utf8_loop.induct) (auto split: if_splits)

lemma utf8_decode_length:
  assumes "ngx_utf8_decode p = Some (u, q)" "u \<noteq> 0xfffffffe"
  shows "length q < length p"
proof -
  obtain c p' where p: "p = c # p'" using assms(1) by (cases p) (auto simp: ngx_utf8_decode_def)
  have "length q \<le> length p'"
    using assms unfolding p
    by (auto simp: ngx_utf8_decode_def utf8_finish_def Let_def split: if_splits option.splits
        sum.splits dest: utf8_loop_length)
  then show ?thesis by (simp add: p)
qed

text \<open>
  \<^verbatim>\<open>ngx_utf8_length(p, n)\<close>; \<open>n\<close> is also the answer for invalid input.  \<open>None\<close> is a read past
  the input.
\<close>

function utf8_length_loop :: "nat \<Rightarrow> u_char list \<Rightarrow> nat \<Rightarrow> nat option" where
  "utf8_length_loop n [] len = Some len"
| "utf8_length_loop n (c # p) len =
     (if c < 0x80 then utf8_length_loop n p (len + 1)
      else case ngx_utf8_decode (c # p) of
        None \<Rightarrow> None
      | Some (u, q) \<Rightarrow>
          if u > 0x10ffff then Some n else utf8_length_loop n q (len + 1))"
  by pat_completeness auto
termination
proof (relation "measure (\<lambda>(n, p, len). length p)")
  fix n c len x u q and p :: "u_char list"
  assume "ngx_utf8_decode (c # p) = Some x" "(u, q) = x" "\<not> 0x10ffff < u"
  moreover from this have "u \<noteq> 0xfffffffe" by auto
  ultimately show "((n, q, len + 1), (n, c # p, len)) \<in> measure (\<lambda>(n, p, len). length p)"
    using utf8_decode_length [of "c # p" u q] by simp
qed auto

definition ngx_utf8_length :: "u_char list \<Rightarrow> nat option" where
  "ngx_utf8_length p = utf8_length_loop (length p) p 0"

section \<open>The encoding of Unicode\<close>

text \<open>The UTF-8 encoding of a code point below \<open>0x110000\<close>.\<close>

definition utf8_encode :: "nat \<Rightarrow> u_char list" where
  "utf8_encode u =
     (if u < 0x80 then [of_nat u]
      else if u < 0x800 then [of_nat (0xc0 + u div 64), of_nat (0x80 + u mod 64)]
      else if u < 0x10000 then
        [of_nat (0xe0 + u div 4096), of_nat (0x80 + u div 64 mod 64), of_nat (0x80 + u mod 64)]
      else
        [of_nat (0xf0 + u div 262144), of_nat (0x80 + u div 4096 mod 64),
         of_nat (0x80 + u div 64 mod 64), of_nat (0x80 + u mod 64)])"

section \<open>Word arithmetic of the loop\<close>

lemma unat_and_mask:
  "unat (x AND 0x3f) = unat x mod 64" "unat (x AND 0x1f) = unat x mod 32"
  "unat (x AND 0x0f) = unat x mod 16" "unat (x AND 0x07) = unat x mod 8" for x :: u_int32
  unfolding and_mask_take_bit unat_take_bit by simp_all

lemma unat_utf8_step:
  fixes u :: u_int32 and i :: u_char
  assumes "unat u < 2 ^ 26"
  shows "unat (push_bit 6 u OR (ucast i AND 0x3f)) = unat u * 64 + unat i mod 64"
proof -
  let ?m = "ucast i AND 0x3f :: u_int32"
  have m: "?m = take_bit 6 (ucast i)" by (rule and_mask_take_bit)
  have "push_bit 6 u AND ?m = 0"
    unfolding m by (rule bit_word_eqI) (auto simp: bit_simps)
  then have "push_bit 6 u OR ?m = push_bit 6 u + ?m"
    by (rule disjunctive_add_eq_or [symmetric])
  moreover have "unat (push_bit 6 u) = unat u * 64"
  proof -
    have "unat (push_bit 6 u) = take_bit 32 (push_bit 6 (unat u))"
      using unsigned_push_bit_eq [of 6 u] by simp
    also have "\<dots> = unat u * 64"
      using assms by (simp add: push_bit_eq_mult take_bit_nat_eq_self)
    finally show ?thesis .
  qed
  moreover have "unat u * 64 + unat i mod 64 < 2 ^ 32"
    using assms mod_less_divisor [of 64 "unat i"] by simp
  ultimately show ?thesis
    by (simp add: unat_word_ariths unat_and_mask)
qed

lemma utf8_loop_cont:
  "\<not> i < 0x80 \<Longrightarrow> utf8_loop (Suc len) u (i # p) =
     utf8_loop len (push_bit 6 u OR (ucast i AND 0x3f)) p"
  by simp

lemma cont_byte: "m < 64 \<Longrightarrow> \<not> of_nat (0x80 + m) < (0x80 :: u_char)"
  by (simp add: word_less_nat_alt del: of_nat_add)

text \<open>What the loop computes on well-formed continuation bytes.\<close>

lemma utf8_loop_bytes:
  assumes "list_all (\<lambda>m. m < 64) ms" "unat u < 2 ^ (32 - 6 * length ms)" "length ms \<le> 3"
  shows "\<exists>v. utf8_loop (length ms) u (map (\<lambda>m. of_nat (0x80 + m)) ms @ p) = Some (Inr v, p) \<and>
     unat v = foldl (\<lambda>a m. a * 64 + m) (unat u) ms"
  using assms
proof (induction ms arbitrary: u)
  case (Cons m ms)
  let ?i = "of_nat (0x80 + m) :: u_char"
  let ?u = "push_bit 6 u OR (ucast ?i AND 0x3f)"
  have m: "m < 64" using Cons.prems by simp
  have "(2 :: nat) ^ (32 - 6 * length (m # ms)) \<le> 2 ^ 26" by (rule power_increasing) simp_all
  then have hu: "unat u < 2 ^ 26" using Cons.prems(2) by linarith
  have hm: "unat ?i mod 64 = m"
    using m mod_add_self1 [of 64 "64 + m"] mod_add_self1 [of 64 m] by (simp del: of_nat_add)
  have v: "unat ?u = unat u * 64 + m" using unat_utf8_step [OF hu, of ?i] hm by (simp only:)
  have "unat u + 1 \<le> 2 ^ (32 - 6 * length (m # ms))" using Cons.prems(2) by simp
  then have "(unat u + 1) * 64 \<le> 2 ^ (32 - 6 * length (m # ms)) * 2 ^ 6"
    by (simp add: mult_le_mono1)
  also have "\<dots> = 2 ^ (32 - 6 * length ms)"
  proof -
    have "32 - 6 * length ms = (32 - 6 * length (m # ms)) + 6" using Cons.prems(3) by simp
    then show ?thesis by (simp only: power_add)
  qed
  finally have "unat ?u < 2 ^ (32 - 6 * length ms)" using v m by simp
  then obtain w where w: "utf8_loop (length ms) ?u (map (\<lambda>m. of_nat (0x80 + m)) ms @ p) = Some (Inr w, p)"
    "unat w = foldl (\<lambda>a m. a * 64 + m) (unat ?u) ms"
    using Cons.IH [of ?u] Cons.prems by auto
  have "utf8_loop (length (m # ms)) u (map (\<lambda>m. of_nat (0x80 + m)) (m # ms) @ p) = Some (Inr w, p)"
    using w(1) utf8_loop_cont [OF cont_byte [OF m]] by (simp only: list.map append_Cons length_Cons)
  with w(2) v show ?case by (auto simp only: foldl_Cons)
qed simp

text \<open>Lead bytes.\<close>

lemma utf8_lead:
  assumes "n < 256"
  shows "ngx_utf8_decode (of_nat n # q) =
    (if n \<ge> 0xf8 then Some (0xffffffff, q)
     else if n \<ge> 0xf0 then
       (if length q < 3 then Some (0xfffffffe, of_nat n # q)
        else utf8_finish 0xffff (utf8_loop 3 (of_nat (n mod 8)) q))
     else if n \<ge> 0xe0 then
       (if length q < 2 then Some (0xfffffffe, of_nat n # q)
        else utf8_finish 0x7ff (utf8_loop 2 (of_nat (n mod 16)) q))
     else if n \<ge> 0xc2 then
       (if length q < 1 then Some (0xfffffffe, of_nat n # q)
        else utf8_finish 0x7f (utf8_loop 1 (of_nat (n mod 32)) q))
     else Some (0xffffffff, q))"
proof -
  let ?u = "ucast (of_nat n :: u_char) :: u_int32"
  have u: "unat ?u = n" using assms by simp
  have "?u AND 0x07 = of_nat (n mod 8)" "?u AND 0x0f = of_nat (n mod 16)"
    "?u AND 0x1f = of_nat (n mod 32)"
    unfolding word_unat_eq_iff unat_and_mask u
    using assms by (simp_all add: unsigned_of_nat take_bit_nat_eq_self)
  then show ?thesis
    using assms by (simp add: ngx_utf8_decode_def Let_def word_le_nat_alt u)
qed

lemma utf8_encode_eq:
  "u < 0x80 \<Longrightarrow> utf8_encode u = [of_nat u]"
  "0x80 \<le> u \<Longrightarrow> u < 0x800 \<Longrightarrow>
     utf8_encode u = of_nat (0xc0 + u div 64) # map (\<lambda>m. of_nat (0x80 + m)) [u mod 64]"
  "0x800 \<le> u \<Longrightarrow> u < 0x10000 \<Longrightarrow> utf8_encode u = of_nat (0xe0 + u div 4096) #
     map (\<lambda>m. of_nat (0x80 + m)) [u div 64 mod 64, u mod 64]"
  "0x10000 \<le> u \<Longrightarrow> utf8_encode u = of_nat (0xf0 + u div 262144) #
     map (\<lambda>m. of_nat (0x80 + m)) [u div 4096 mod 64, u div 64 mod 64, u mod 64]"
  by (simp_all add: utf8_encode_def)

lemma utf8_finish_ok:
  "unat valid < unat v \<Longrightarrow> utf8_finish valid (Some (Inr v, p)) = Some (v, p)"
  by (simp add: utf8_finish_def word_less_nat_alt)

lemma decode_encode_aux:
  assumes "utf8_loop k w q = Some (Inr v, p)" "unat v = u" "unat valid < u" "u < 2 ^ 32"
  shows "utf8_finish valid (utf8_loop k w q) = Some (of_nat u, p)"
  using assms utf8_finish_ok [of valid v p] by auto

lemma sextets:
  "(u div 4096 * 64 + u div 64 mod 64) * 64 + u mod 64 = u"
  "((u div 262144 * 64 + u div 4096 mod 64) * 64 + u div 64 mod 64) * 64 + u mod 64 = u" for u :: nat
proof -
  have d: "u div 4096 = u div 64 div 64" "u div 262144 = u div 64 div 64 div 64"
    by (simp_all add: div_mult2_eq [symmetric])
  show "(u div 4096 * 64 + u div 64 mod 64) * 64 + u mod 64 = u"
    unfolding d by (simp only: div_mult_mod_eq)
  show "((u div 262144 * 64 + u div 4096 mod 64) * 64 + u div 64 mod 64) * 64 + u mod 64 = u"
    unfolding d by (simp only: div_mult_mod_eq)
qed

lemma unat_u32_of_nat [simp]: "n < 4294967296 \<Longrightarrow> unat (of_nat n :: u_int32) = n"
  by (simp add: unsigned_of_nat take_bit_nat_eq_self)

lemma utf8_decode_encode:
  assumes "0x80 \<le> u" "u < 0x110000"
  shows "ngx_utf8_decode (utf8_encode u @ p) = Some (of_nat u, p)"
proof -
  consider (2) "u < 0x800" | (3) "0x800 \<le> u" "u < 0x10000" | (4) "0x10000 \<le> u" by linarith
  then show ?thesis
  proof cases
    case 2
    have b: "u div 64 < 32" "2 \<le> u div 64" using 2 assms(1) by simp_all
    have m: "(0xc0 + u div 64) mod 32 = u div 64"
      using mod_mult_self2 [of "u div 64" 32 6] b by (simp add: add.commute)
    obtain v where "utf8_loop 1 (of_nat (u div 64)) (of_nat (0x80 + u mod 64) # p) = Some (Inr v, p)"
      "unat v = u"
      using utf8_loop_bytes [of "[u mod 64]" "of_nat (u div 64)" p] b by (auto simp del: of_nat_add)
    from decode_encode_aux [OF this, where valid = "0x7f"] assms show ?thesis
      using b m by (simp add: utf8_encode_eq 2 utf8_lead del: of_nat_add)
  next
    case 3
    have b: "u div 4096 < 16" using 3 by simp
    have m: "(0xe0 + u div 4096) mod 16 = u div 4096"
      using mod_mult_self2 [of "u div 4096" 16 14] b by (simp add: add.commute)
    have "foldl (\<lambda>a m. a * 64 + m) (u div 4096) [u div 64 mod 64, u mod 64] = u"
      by (simp only: foldl_Cons foldl_Nil sextets)
    then obtain v where "utf8_loop 2 (of_nat (u div 4096))
        (of_nat (0x80 + u div 64 mod 64) # of_nat (0x80 + u mod 64) # p) = Some (Inr v, p)"
      "unat v = u"
      using utf8_loop_bytes [of "[u div 64 mod 64, u mod 64]" "of_nat (u div 4096)" p] b
      by (auto simp flip: numeral_2_eq_2 simp del: of_nat_add foldl_Cons utf8_loop.simps)
    from decode_encode_aux [OF this, where valid = "0x7ff"] 3 show ?thesis
      using b m by (simp add: utf8_encode_eq utf8_lead del: of_nat_add)
  next
    case 4
    have b: "u div 262144 < 5" using assms(2) by simp
    then have m: "(0xf0 + u div 262144) mod 8 = u div 262144"
      using mod_mult_self2 [of "u div 262144" 8 30] by (simp add: add.commute)
    have "foldl (\<lambda>a m. a * 64 + m) (u div 262144)
        [u div 4096 mod 64, u div 64 mod 64, u mod 64] = u"
      by (simp only: foldl_Cons foldl_Nil sextets)
    then obtain v where "utf8_loop 3 (of_nat (u div 262144))
        (of_nat (0x80 + u div 4096 mod 64) # of_nat (0x80 + u div 64 mod 64)
         # of_nat (0x80 + u mod 64) # p) = Some (Inr v, p)"
      "unat v = u"
      using utf8_loop_bytes [of "[u div 4096 mod 64, u div 64 mod 64, u mod 64]"
          "of_nat (u div 262144)" p] b
      by (auto simp flip: numeral_3_eq_3 simp del: of_nat_add foldl_Cons utf8_loop.simps)
    from decode_encode_aux [OF this, where valid = "0xffff"] 4 assms show ?thesis
      using b m by (simp add: utf8_encode_eq utf8_lead del: of_nat_add)
  qed
qed

section \<open>Counting characters\<close>

lemma utf8_encode_ascii: "u < 0x80 \<Longrightarrow> utf8_encode u = [of_nat u] \<and> (of_nat u :: u_char) < 0x80"
  by (simp add: utf8_encode_eq word_less_nat_alt)

lemma utf8_encode_lead:
  assumes "0x80 \<le> u" "u < 0x110000"
  obtains c q where "utf8_encode u = c # q" "\<not> c < 0x80"
proof -
  have "u div 262144 \<le> 4" using assms(2) by simp
  then show ?thesis using that assms
    by (cases "u < 0x800"; cases "u < 0x10000")
      (auto simp: utf8_encode_def word_less_nat_alt simp del: of_nat_add)
qed

lemma utf8_length_loop_encode:
  assumes "u < 0x110000"
  shows "utf8_length_loop n (utf8_encode u @ p) len = utf8_length_loop n p (len + 1)"
proof (cases "u < 0x80")
  case False
  then obtain c q where e: "utf8_encode u = c # q" "\<not> c < 0x80"
    using utf8_encode_lead [of u] assms by auto
  have "ngx_utf8_decode (c # q @ p) = Some (of_nat u, p)"
    using utf8_decode_encode [of u p] False assms e by simp
  moreover have "\<not> (0x10ffff :: u_int32) < of_nat u"
    using assms by (simp add: word_less_nat_alt)
  ultimately show ?thesis using e by simp
qed (simp add: utf8_encode_ascii)

lemma utf8_length_loop_encodes:
  "list_all (\<lambda>u. u < 0x110000) us \<Longrightarrow>
   utf8_length_loop n (concat (map utf8_encode us)) len = Some (len + length us)"
  by (induction us arbitrary: len) (simp_all add: utf8_length_loop_encode)

lemma utf8_loop_no_overrun: "k \<le> length p \<Longrightarrow> \<exists>r q. utf8_loop k u p = Some (r, q)"
proof (induction k arbitrary: u p)
  case (Suc k)
  then show ?case by (cases p) auto
qed simp

lemma utf8_finish_some:
  assumes "k \<le> length p"
  shows "\<exists>r q. utf8_finish valid (utf8_loop k u p) = Some (r, q)"
proof -
  obtain r q where rq: "utf8_loop k u p = Some (r, q)"
    using utf8_loop_no_overrun [OF assms] by blast
  then show ?thesis by (cases r) (simp_all add: utf8_finish_def)
qed

lemma utf8_decode_no_overrun:
  assumes "p \<noteq> []" shows "\<exists>u q. ngx_utf8_decode p = Some (u, q)"
proof -
  obtain c p' where p: "p = c # p'" using assms by (cases p) auto
  show ?thesis
    unfolding p using utf8_finish_some [of 3 p'] utf8_finish_some [of 2 p'] utf8_finish_some [of 1 p']
    by (auto simp: ngx_utf8_decode_def Let_def not_less Suc_le_eq)
qed

lemma utf8_length_no_overrun: "\<exists>k. utf8_length_loop n p len = Some k"
proof (induction n p len rule: utf8_length_loop.induct)
  case (2 n c p len)
  obtain u q where "ngx_utf8_decode (c # p) = Some (u, q)"
    using utf8_decode_no_overrun [of "c # p"] by auto
  with 2 show ?case by simp
qed simp

section \<open>Properties\<close>

text \<open>
  Decoding the UTF-8 encoding of any non-ASCII code point up to \<open>0x10ffff\<close>, whatever follows
  it, returns that code point and leaves the pointer right after its encoding.
\<close>

theorem ngx_utf8_decode_encode:
  assumes "0x80 \<le> u" "u < 0x110000"
  shows "ngx_utf8_decode (utf8_encode u @ p) = Some (of_nat u, p)"
  using assms by (rule utf8_decode_encode)

theorem ngx_utf8_decode_encode_witness:
  "ngx_utf8_decode (utf8_encode 0x20ac @ [1]) = Some (0x20ac, [1])"
  using ngx_utf8_decode_encode [where u = "0x20ac" and p = "[1]"] by simp

text \<open>
  \<^verbatim>\<open>ngx_utf8_length\<close> returns on every input without reading past its \<open>n\<close> bytes, and for the
  encoding of a sequence of code points it returns their number.
\<close>

theorem ngx_utf8_length_correct:
  "(\<exists>k. ngx_utf8_length p = Some k) \<and>
   (list_all (\<lambda>u. u < 0x110000) us \<longrightarrow>
      ngx_utf8_length (concat (map utf8_encode us)) = Some (length us))"
  unfolding ngx_utf8_length_def
  using utf8_length_no_overrun utf8_length_loop_encodes by simp

theorem ngx_utf8_length_correct_witness:
  "ngx_utf8_length (concat (map utf8_encode [0x41, 0x20ac, 0x10ffff])) = Some 3"
proof -
  have "list_all (\<lambda>u. u < 0x110000) [0x41, 0x20ac, 0x10ffff :: nat]" by simp
  with ngx_utf8_length_correct [where us = "[0x41, 0x20ac, 0x10ffff]"]
  show ?thesis by simp
qed

end
