(* ===== verification/Ngx_Escape.thy ===== *)
theory Ngx_Escape
  imports Ngx_Prelude
begin

text \<open>
  Escaping of \<^verbatim>\<open>src/core/ngx_string.c\<close>: \<^verbatim>\<open>ngx_escape_uri\<close> with its bitmap tables,
  \<^verbatim>\<open>ngx_unescape_uri\<close>, \<^verbatim>\<open>ngx_escape_html\<close> and \<^verbatim>\<open>ngx_escape_json\<close>.

  The escape functions are called twice: with \<^verbatim>\<open>dst == NULL\<close> they only count, and the caller
  allocates the destination from that count; then they write.  The first argument \<open>null\<close> says
  whether the destination is \<^verbatim>\<open>NULL\<close>, and the result is \<open>Inl\<close> of the count or \<open>Inr\<close> of the bytes
  written (the returned pointer is the destination plus their number).
\<close>

section \<open>\<^verbatim>\<open>ngx_escape_uri\<close>\<close>

definition escape_uri_tbl :: "u_int32 list" where
  "escape_uri_tbl = [0xffffffff, 0xd000002d, 0x50000000, 0xb8000001,
     0xffffffff, 0xffffffff, 0xffffffff, 0xffffffff]"

definition escape_args_tbl :: "u_int32 list" where
  "escape_args_tbl = [0xffffffff, 0xd800086d, 0x50000000, 0xb8000001,
     0xffffffff, 0xffffffff, 0xffffffff, 0xffffffff]"

definition escape_uri_component_tbl :: "u_int32 list" where
  "escape_uri_component_tbl = [0xffffffff, 0xfc009fff, 0x78000001, 0xb8000001,
     0xffffffff, 0xffffffff, 0xffffffff, 0xffffffff]"

definition escape_html_tbl :: "u_int32 list" where
  "escape_html_tbl = [0xffffffff, 0x500000ad, 0x50000000, 0xb8000001,
     0xffffffff, 0xffffffff, 0xffffffff, 0xffffffff]"

definition escape_refresh_tbl :: "u_int32 list" where
  "escape_refresh_tbl = [0xffffffff, 0x50000085, 0x50000000, 0xd8000001,
     0xffffffff, 0xffffffff, 0xffffffff, 0xffffffff]"

definition escape_memcached_tbl :: "u_int32 list" where
  "escape_memcached_tbl = [0xffffffff, 0x00000021, 0x00000000, 0x00000000,
     0x00000000, 0x00000000, 0x00000000, 0x00000000]"

text \<open>The array \<^verbatim>\<open>map\<close>, indexed by the \<^verbatim>\<open>NGX_ESCAPE_...\<close> constants 0 to 6.\<close>

definition escape_map :: "u_int32 list list" where
  "escape_map = [escape_uri_tbl, escape_args_tbl, escape_uri_component_tbl, escape_html_tbl,
     escape_refresh_tbl, escape_memcached_tbl, escape_memcached_tbl]"

definition escaped :: "u_int32 list \<Rightarrow> u_char \<Rightarrow> bool" where
  "escaped escape c \<longleftrightarrow>
     escape ! unat (drop_bit 5 c) AND push_bit (unat (c AND 0x1f)) 1 \<noteq> 0"

definition escape_hex :: "u_char list" where
  "escape_hex = bytes ''0123456789ABCDEF''"

fun escape_uri_count :: "u_int32 list \<Rightarrow> u_char list \<Rightarrow> nat \<Rightarrow> nat" where
  "escape_uri_count escape [] n = n"
| "escape_uri_count escape (c # src) n =
     escape_uri_count escape src (if escaped escape c then n + 1 else n)"

fun escape_uri_write :: "u_int32 list \<Rightarrow> u_char list \<Rightarrow> u_char list \<Rightarrow> u_char list" where
  "escape_uri_write escape [] dst = dst"
| "escape_uri_write escape (c # src) dst =
     (if escaped escape c
      then escape_uri_write escape src
        (dst @ [ch CHR ''%'', escape_hex ! unat (drop_bit 4 c), escape_hex ! unat (c AND 0xf)])
      else escape_uri_write escape src (dst @ [c]))"

definition ngx_escape_uri :: "bool \<Rightarrow> u_char list \<Rightarrow> nat \<Rightarrow> nat + u_char list" where
  "ngx_escape_uri null src type =
     (let escape = escape_map ! type in
      if null then Inl (escape_uri_count escape src 0)
      else Inr (escape_uri_write escape src []))"

section \<open>\<^verbatim>\<open>ngx_unescape_uri\<close>\<close>

datatype unescape_state = sw_usual | sw_quoted | sw_quoted_second

definition NGX_UNESCAPE_URI :: nat where "NGX_UNESCAPE_URI = 1"
definition NGX_UNESCAPE_REDIRECT :: nat where "NGX_UNESCAPE_REDIRECT = 2"

definition type_has :: "nat \<Rightarrow> nat \<Rightarrow> bool" where
  "type_has type flags \<longleftrightarrow> type AND flags \<noteq> 0"

text \<open>
  One iteration: the bytes written, and the next state (with \<open>decoded\<close>) or \<open>None\<close> for the jump
  to \<^verbatim>\<open>done\<close>.  \<open>prev\<close> is \<^verbatim>\<open>*(s - 2)\<close>, the byte before the one just read.
\<close>

definition unescape_step ::
  "nat \<Rightarrow> unescape_state \<Rightarrow> u_char \<Rightarrow> u_char \<Rightarrow> u_char \<Rightarrow>
   u_char list \<times> (unescape_state \<times> u_char) option" where
  "unescape_step type state decoded prev c =
     (case state of
        sw_usual \<Rightarrow>
          if c = ch CHR ''?'' \<and> type_has type (NGX_UNESCAPE_URI OR NGX_UNESCAPE_REDIRECT)
          then ([c], None)
          else if c = ch CHR ''%'' then ([], Some (sw_quoted, decoded))
          else ([c], Some (sw_usual, decoded))
      | sw_quoted \<Rightarrow>
          if c \<ge> ch CHR ''0'' \<and> c \<le> ch CHR ''9''
          then ([], Some (sw_quoted_second, c - ch CHR ''0''))
          else
            let l = c OR 0x20 in
            if l \<ge> ch CHR ''a'' \<and> l \<le> ch CHR ''f''
            then ([], Some (sw_quoted_second, l - ch CHR ''a'' + 10))
            else ([c], Some (sw_usual, decoded))
      | sw_quoted_second \<Rightarrow>
          if c \<ge> ch CHR ''0'' \<and> c \<le> ch CHR ''9'' then
            let d = push_bit 4 decoded + (c - ch CHR ''0'') in
            if type_has type NGX_UNESCAPE_REDIRECT then
              if d > ch CHR ''%'' \<and> d < 0x7f then ([d], Some (sw_usual, decoded))
              else ([ch CHR ''%'', prev, c], Some (sw_usual, decoded))
            else ([d], Some (sw_usual, decoded))
          else
            let l = c OR 0x20 in
            if l \<ge> ch CHR ''a'' \<and> l \<le> ch CHR ''f'' then
              let d = push_bit 4 decoded + (l - ch CHR ''a'') + 10 in
              if type_has type NGX_UNESCAPE_URI then
                if d = ch CHR ''?'' then ([d], None)
                else ([d], Some (sw_usual, decoded))
              else if type_has type NGX_UNESCAPE_REDIRECT then
                if d = ch CHR ''?'' then ([d], None)
                else if d > ch CHR ''%'' \<and> d < 0x7f then ([d], Some (sw_usual, decoded))
                else ([ch CHR ''%'', prev, c], Some (sw_usual, decoded))
              else ([d], Some (sw_usual, decoded))
            else ([], Some (sw_usual, decoded)))"

text \<open>The loop: the bytes written to \<^verbatim>\<open>*dst\<close>, and the source left when it returns.\<close>

fun unescape_loop ::
  "nat \<Rightarrow> unescape_state \<Rightarrow> u_char \<Rightarrow> u_char \<Rightarrow> u_char list \<Rightarrow> u_char list \<Rightarrow>
   u_char list \<times> u_char list" where
  "unescape_loop type state decoded prev [] d = (d, [])"
| "unescape_loop type state decoded prev (c # s) d =
     (case unescape_step type state decoded prev c of
        (w, None) \<Rightarrow> (d @ w, s)
      | (w, Some (state', decoded')) \<Rightarrow> unescape_loop type state' decoded' c s (d @ w))"

definition ngx_unescape_uri :: "u_char list \<Rightarrow> nat \<Rightarrow> u_char list \<times> u_char list" where
  "ngx_unescape_uri src type = unescape_loop type sw_usual 0 0 src []"

section \<open>\<^verbatim>\<open>ngx_escape_html\<close>\<close>

fun escape_html_count :: "u_char list \<Rightarrow> nat \<Rightarrow> nat" where
  "escape_html_count [] len = len"
| "escape_html_count (c # src) len = escape_html_count src
     (if c = ch CHR ''<'' then len + (length ''&lt;'' - 1)
      else if c = ch CHR ''>'' then len + (length ''&gt;'' - 1)
      else if c = ch CHR ''&'' then len + (length ''&amp;'' - 1)
      else if c = 0x22 then len + (length ''&quot;'' - 1)
      else len)"

fun escape_html_write :: "u_char list \<Rightarrow> u_char list \<Rightarrow> u_char list" where
  "escape_html_write [] dst = dst"
| "escape_html_write (c # src) dst = escape_html_write src
     (if c = ch CHR ''<'' then dst @ bytes ''&lt;''
      else if c = ch CHR ''>'' then dst @ bytes ''&gt;''
      else if c = ch CHR ''&'' then dst @ bytes ''&amp;''
      else if c = 0x22 then dst @ bytes ''&quot;''
      else dst @ [c])"

definition ngx_escape_html :: "bool \<Rightarrow> u_char list \<Rightarrow> nat + u_char list" where
  "ngx_escape_html null src =
     (if null then Inl (escape_html_count src 0) else Inr (escape_html_write src []))"

section \<open>\<^verbatim>\<open>ngx_escape_json\<close>\<close>

fun escape_json_count :: "u_char list \<Rightarrow> nat \<Rightarrow> nat" where
  "escape_json_count [] len = len"
| "escape_json_count (c # src) len = escape_json_count src
     (if c = 0x5c \<or> c = 0x22 then len + 1
      else if c \<le> 0x1f then
        if c = 10 \<or> c = 13 \<or> c = 9 \<or> c = 8 \<or> c = 12 then len + 1
        else len + (6 - 1)
      else len)"

definition json_char :: "u_char \<Rightarrow> u_char list" where
  "json_char c =
     (if c > 0x1f then (if c = 0x5c \<or> c = 0x22 then [0x5c] else []) @ [c]
      else 0x5c #
        (if c = 10 then [ch CHR ''n'']
         else if c = 13 then [ch CHR ''r'']
         else if c = 9 then [ch CHR ''t'']
         else if c = 8 then [ch CHR ''b'']
         else if c = 12 then [ch CHR ''f'']
         else [ch CHR ''u'', ch CHR ''0'', ch CHR ''0'', ch CHR ''0'' + drop_bit 4 c,
               let l = c AND 0xf in
               if l < 10 then ch CHR ''0'' + l else ch CHR ''A'' + l - 10]))"

fun escape_json_write :: "u_char list \<Rightarrow> u_char list \<Rightarrow> u_char list" where
  "escape_json_write [] dst = dst"
| "escape_json_write (c # src) dst = escape_json_write src (dst @ json_char c)"

definition ngx_escape_json :: "bool \<Rightarrow> u_char list \<Rightarrow> nat + u_char list" where
  "ngx_escape_json null src =
     (if null then Inl (escape_json_count src 0) else Inr (escape_json_write src []))"

section \<open>Two-pass encoders\<close>

text \<open>
  The contract of the three escape functions: the first pass counts the extra bytes (in units of
  \<open>k\<close>), the second writes one code per byte.
\<close>

locale two_pass_escaper =
  fixes cnt :: "'a list \<Rightarrow> nat \<Rightarrow> nat" and wr :: "'a list \<Rightarrow> 'a list \<Rightarrow> 'a list"
    and extra :: "'a \<Rightarrow> nat" and code :: "'a \<Rightarrow> 'a list" and k :: nat
  assumes cnt_Nil: "cnt [] n = n"
    and cnt_Cons: "cnt (c # s) n = cnt s (n + extra c)"
    and wr_Nil: "wr [] d = d"
    and wr_Cons: "wr (c # s) d = wr s (d @ code c)"
    and code_length: "length (code c) = 1 + k * extra c"
begin

lemma wr_eq: "wr s d = d @ concat (map code s)"
  by (induction s arbitrary: d) (simp_all add: wr_Nil wr_Cons)

lemma cnt_eq: "cnt s n = n + sum_list (map extra s)"
  by (induction s arbitrary: n) (simp_all add: cnt_Nil cnt_Cons)

lemma size_exact: "length (wr s []) = length s + k * cnt s 0"
  by (induction s) (simp_all add: wr_eq cnt_eq code_length algebra_simps)

end

text \<open>A decoder that takes back one code at a time inverts the second pass.\<close>

locale decodable_escaper = two_pass_escaper +
  fixes dec :: "'a list \<Rightarrow> 'a list option"
  assumes dec_Nil: "dec [] = Some []"
    and dec_code: "dec (code c @ s) = map_option (Cons c) (dec s)"
begin

lemma dec_wr: "dec (wr s []) = Some s"
  by (induction s) (simp_all add: wr_eq dec_Nil dec_code)

end

section \<open>URI escaping\<close>

definition uri_code :: "u_int32 list \<Rightarrow> u_char \<Rightarrow> u_char list" where
  "uri_code escape c =
     (if escaped escape c
      then [ch CHR ''%'', escape_hex ! unat (drop_bit 4 c), escape_hex ! unat (c AND 0xf)]
      else [c])"

interpretation uri: two_pass_escaper "escape_uri_count t" "escape_uri_write t"
  "\<lambda>c. if escaped t c then 1 else 0" "uri_code t" 2
  by unfold_locales (simp_all add: uri_code_def)

lemma quoted_first:
  "unescape_step type sw_quoted d p (escape_hex ! unat (drop_bit 4 c)) =
     ([], Some (sw_quoted_second, drop_bit 4 c))"
  by (rule byte_all [of _ c]) code_simp

lemma quoted_second:
  "unescape_step 0 sw_quoted_second (drop_bit 4 c) p (escape_hex ! unat (c AND 0xf)) =
     ([c], Some (sw_usual, drop_bit 4 c))"
  by (rule byte_all [of _ c]) code_simp

lemma usual_percent: "unescape_step type sw_usual d p 37 = ([], Some (sw_quoted, d))"
  by (simp add: unescape_step_def)

lemma usual_other:
  "c \<noteq> 37 \<Longrightarrow> unescape_step 0 sw_usual d p c = ([c], Some (sw_usual, d))"
  by (simp add: unescape_step_def type_has_def)

lemma unescape_loop_code:
  assumes "escaped t 37"
  shows "\<exists>d' p'. unescape_loop 0 sw_usual d p (uri_code t c @ s) acc =
     unescape_loop 0 sw_usual d' p' s (acc @ [c])"
proof (cases "escaped t c")
  case True
  then show ?thesis
    by (auto simp: uri_code_def usual_percent quoted_first quoted_second)
next
  case False
  with assms have "c \<noteq> 37" by auto
  with False show ?thesis by (auto simp: uri_code_def usual_other)
qed

lemma unescape_loop_codes:
  assumes "escaped t 37"
  shows "unescape_loop 0 sw_usual d p (concat (map (uri_code t) s)) acc = (acc @ s, [])"
proof (induction s arbitrary: d p acc)
  case (Cons c s)
  obtain d' p' where "unescape_loop 0 sw_usual d p (concat (map (uri_code t) (c # s))) acc =
      unescape_loop 0 sw_usual d' p' (concat (map (uri_code t) s)) (acc @ [c])"
    using unescape_loop_code [OF assms] by (simp del: unescape_loop.simps) blast
  with Cons show ?case by simp
qed simp

section \<open>HTML and JSON escaping\<close>

definition html_code :: "u_char \<Rightarrow> u_char list" where
  "html_code c =
     (if c = ch CHR ''<'' then bytes ''&lt;''
      else if c = ch CHR ''>'' then bytes ''&gt;''
      else if c = ch CHR ''&'' then bytes ''&amp;''
      else if c = 0x22 then bytes ''&quot;''
      else [c])"

text \<open>What an HTML reader does with these entities.\<close>

fun html_unescape :: "u_char list \<Rightarrow> u_char list option" where
  "html_unescape [] = Some []"
| "html_unescape (c # s) =
     (if c \<noteq> ch CHR ''&'' then map_option (Cons c) (html_unescape s)
      else if take 3 s = bytes ''lt;'' then map_option (Cons (ch CHR ''<'')) (html_unescape (drop 3 s))
      else if take 3 s = bytes ''gt;'' then map_option (Cons (ch CHR ''>'')) (html_unescape (drop 3 s))
      else if take 4 s = bytes ''amp;'' then map_option (Cons (ch CHR ''&'')) (html_unescape (drop 4 s))
      else if take 5 s = bytes ''quot;'' then map_option (Cons 0x22) (html_unescape (drop 5 s))
      else None)"

interpretation html: decodable_escaper escape_html_count escape_html_write
  "\<lambda>c. length (html_code c) - 1" html_code 1 html_unescape
  by unfold_locales (auto simp: html_code_def bytes_def)

text \<open>What a JSON reader (RFC 8259) does with the inside of a string literal.\<close>

fun json_hex :: "u_char \<Rightarrow> nat option" where
  "json_hex c =
     (if ch CHR ''0'' \<le> c \<and> c \<le> ch CHR ''9'' then Some (unat c - 48)
      else if ch CHR ''A'' \<le> c \<and> c \<le> ch CHR ''F'' then Some (unat c - 55)
      else if ch CHR ''a'' \<le> c \<and> c \<le> ch CHR ''f'' then Some (unat c - 87)
      else None)"

definition json_u00 :: "u_char list \<Rightarrow> u_char option" where
  "json_u00 h =
     (case h of
        [a, b, c, d] \<Rightarrow>
          (case (json_hex a, json_hex b, json_hex c, json_hex d) of
             (Some 0, Some 0, Some x, Some y) \<Rightarrow> Some (of_nat (x * 16 + y))
           | _ \<Rightarrow> None)
      | _ \<Rightarrow> None)"

definition json_short :: "u_char \<Rightarrow> u_char option" where
  "json_short e =
     (if e = 0x22 \<or> e = 0x5c \<or> e = ch CHR ''/'' then Some e
      else if e = ch CHR ''n'' then Some 10
      else if e = ch CHR ''r'' then Some 13
      else if e = ch CHR ''t'' then Some 9
      else if e = ch CHR ''b'' then Some 8
      else if e = ch CHR ''f'' then Some 12
      else None)"

fun json_unescape :: "u_char list \<Rightarrow> u_char list option" where
  "json_unescape [] = Some []"
| "json_unescape [c] = (if c < 0x20 \<or> c = 0x22 \<or> c = 0x5c then None else Some [c])"
| "json_unescape (c # e # s) =
     (if c < 0x20 \<or> c = 0x22 then None
      else if c \<noteq> 0x5c then map_option (Cons c) (json_unescape (e # s))
      else if e = ch CHR ''u'' then
        (case json_u00 (take 4 s) of
           None \<Rightarrow> None
         | Some b \<Rightarrow> map_option (Cons b) (json_unescape (drop 4 s)))
      else case json_short e of
        None \<Rightarrow> None
      | Some b \<Rightarrow> map_option (Cons b) (json_unescape s))"

lemma json_u_escape:
  "c \<le> 0x1f \<longrightarrow> json_u00 [ch CHR ''0'', ch CHR ''0'', ch CHR ''0'' + drop_bit 4 c,
     let l = c AND 0xf in if l < 10 then ch CHR ''0'' + l else ch CHR ''A'' + l - 10] = Some c"
  by (rule byte_all [of _ c]) code_simp

lemma json_control: "c \<le> 0x1f \<Longrightarrow> c < 0x20" for c :: u_char
  by (simp add: word_le_nat_alt word_less_nat_alt)

lemma json_unescape_plain:
  assumes "\<not> c \<le> 0x1f" "c \<noteq> 0x22" "c \<noteq> 0x5c"
  shows "json_unescape (c # s) = map_option (Cons c) (json_unescape s)"
proof -
  have "\<not> c < 0x20" using assms(1) by (simp add: word_le_nat_alt word_less_nat_alt)
  with assms show ?thesis by (cases s) simp_all
qed

lemma json_unescape_short:
  "json_short e = Some b \<Longrightarrow> json_unescape (0x5c # e # s) = map_option (Cons b) (json_unescape s)"
  by (auto simp: json_short_def)

lemma json_unescape_u:
  "json_u00 [h1, h2, h3, h4] = Some b \<Longrightarrow>
   json_unescape (0x5c # ch CHR ''u'' # h1 # h2 # h3 # h4 # s) = map_option (Cons b) (json_unescape s)"
  by simp

lemma json_unescape_char: "json_unescape (json_char c @ s) = map_option (Cons c) (json_unescape s)"
proof (cases "c \<le> 0x1f")
  case True
  then have n: "\<not> c > 0x1f" by simp
  show ?thesis
    using n json_unescape_u [OF json_u_escape [THEN mp, OF True], of s]
    by (simp add: json_char_def json_unescape_short json_short_def
        del: json_unescape.simps)
next
  case False
  then show ?thesis
    by (auto simp: json_char_def json_unescape_plain json_unescape_short json_short_def
        simp del: json_unescape.simps)
qed

lemma json_count_Cons:
  "escape_json_count (c # s) n = escape_json_count s (n + (length (json_char c) - 1))"
proof -
  have "n + 5 = Suc (Suc (Suc (Suc (Suc n))))" by simp
  then show ?thesis using json_control [of c] by (auto simp: json_char_def not_less
        intro!: arg_cong [where f = "escape_json_count s"])
qed

lemma json_char_length: "length (json_char c) = 1 + 1 * (length (json_char c) - 1)"
  by (simp add: json_char_def)

interpretation json: decodable_escaper escape_json_count escape_json_write
  "\<lambda>c. length (json_char c) - 1" json_char 1 json_unescape
  by unfold_locales (rule escape_json_count.simps(1) json_count_Cons escape_json_write.simps
      json_char_length json_unescape.simps(1) json_unescape_char)+

section \<open>The unescape machine\<close>

text \<open>The bytes of an escape sequence that have been read but not written.\<close>

fun unescape_owed :: "unescape_state \<Rightarrow> nat" where
  "unescape_owed sw_usual = 0"
| "unescape_owed sw_quoted = 1"
| "unescape_owed sw_quoted_second = 2"

lemma unescape_step_length:
  "unescape_step type state d p c = (w, r) \<Longrightarrow>
   length w + (case r of None \<Rightarrow> 0 | Some (st, _) \<Rightarrow> unescape_owed st) \<le> unescape_owed state + 1"
  by (auto simp: unescape_step_def Let_def split: unescape_state.splits if_splits)

lemma unescape_loop_length:
  "unescape_loop type state d p s acc = (w, r) \<Longrightarrow>
   length w + length r \<le> length acc + length s + unescape_owed state"
proof (induction type state d p s acc rule: unescape_loop.induct)
  case (2 type state d p c s acc)
  obtain v n where st: "unescape_step type state d p c = (v, n)" by fastforce
  show ?case
  proof (cases n)
    case None
    with 2 st unescape_step_length [OF st] show ?thesis by auto
  next
    case (Some q)
    obtain st' d' where q: "q = (st', d')" by fastforce
    have "length w + length r \<le> length (acc @ v) + length s + unescape_owed st'"
      using 2 st Some q by simp
    with unescape_step_length [OF st] Some q show ?thesis by simp
  qed
qed simp

text \<open>Where the bytes written under \<^verbatim>\<open>NGX_UNESCAPE_REDIRECT\<close> come from.\<close>

definition printable :: "u_char set" where
  "printable = {c. ch CHR ''%'' < c \<and> c < 0x7f}"

fun unescape_read :: "unescape_state \<Rightarrow> u_char \<Rightarrow> u_char set" where
  "unescape_read sw_usual p = {}"
| "unescape_read sw_quoted p = {ch CHR ''%''}"
| "unescape_read sw_quoted_second p = {ch CHR ''%'', p}"

lemma redirect_flags: "type_has 2 NGX_UNESCAPE_REDIRECT" "\<not> type_has 2 NGX_UNESCAPE_URI"
  by (simp_all add: type_has_def NGX_UNESCAPE_REDIRECT_def NGX_UNESCAPE_URI_def)

lemma unescape_step_redirect:
  "unescape_step 2 state d p c = (w, r) \<Longrightarrow>
   set w \<union> (case r of None \<Rightarrow> {} | Some (st, _) \<Rightarrow> unescape_read st c)
     \<subseteq> unescape_read state p \<union> {c} \<union> printable"
  by (auto simp: unescape_step_def Let_def printable_def redirect_flags
      split: unescape_state.splits if_splits)

lemma unescape_loop_redirect:
  "unescape_loop 2 state d p s acc = (w, r) \<Longrightarrow>
   set w \<subseteq> set acc \<union> set s \<union> unescape_read state p \<union> printable"
proof (induction "2 :: nat" state d p s acc rule: unescape_loop.induct)
  case (2 state d p c s acc)
  obtain v n where st: "unescape_step 2 state d p c = (v, n)" by fastforce
  show ?case
  proof (cases n)
    case None
    with 2 st unescape_step_redirect [OF st] show ?thesis by auto
  next
    case (Some q)
    obtain st' d' where q: "q = (st', d')" by fastforce
    have "set w \<subseteq> set (acc @ v) \<union> set s \<union> unescape_read st' c \<union> printable"
      using 2 st Some q by simp
    with unescape_step_redirect [OF st] Some q show ?thesis by auto
  qed
qed auto

section \<open>Properties\<close>

text \<open>
  The size the first pass of each escape function reports is exactly what the second pass
  writes: \<^verbatim>\<open>size + 2 * n\<close> bytes for \<^verbatim>\<open>ngx_escape_uri\<close> and \<^verbatim>\<open>size + n\<close> for the other two, so a
  destination allocated from it is neither overrun nor short.
\<close>

theorem ngx_escape_sizes:
  "(\<exists>n w. ngx_escape_uri True src type = Inl n \<and> ngx_escape_uri False src type = Inr w \<and>
      length w = length src + 2 * n) \<and>
   (\<exists>n w. ngx_escape_html True src = Inl n \<and> ngx_escape_html False src = Inr w \<and>
      length w = length src + n) \<and>
   (\<exists>n w. ngx_escape_json True src = Inl n \<and> ngx_escape_json False src = Inr w \<and>
      length w = length src + n)"
  by (simp add: ngx_escape_uri_def ngx_escape_html_def ngx_escape_json_def Let_def
      uri.size_exact html.size_exact json.size_exact)

text \<open>
  C38: unescaping what \<^verbatim>\<open>ngx_escape_uri\<close> wrote gives the source back, for every escape type but
  \<^verbatim>\<open>NGX_ESCAPE_REFRESH\<close>, whose table leaves the percent sign alone.
\<close>

theorem ngx_escape_uri_roundtrip:
  assumes "type \<in> {0, 1, 2, 3, 5, 6}"
  shows "\<exists>w. ngx_escape_uri False src type = Inr w \<and> ngx_unescape_uri w 0 = (src, [])"
proof -
  have "list_all (\<lambda>t. escaped (escape_map ! t) 37) [0, 1, 2, 3, 5, 6]" by code_simp
  with assms have "escaped (escape_map ! type) 37" by (auto simp: list_all_iff)
  from unescape_loop_codes [OF this] show ?thesis
    by (simp add: ngx_escape_uri_def ngx_unescape_uri_def Let_def uri.wr_eq)
qed

theorem ngx_escape_uri_roundtrip_witness:
  "\<exists>w. ngx_escape_uri False (bytes ''a b%'') 2 = Inr w \<and> ngx_unescape_uri w 0 = (bytes ''a b%'', [])"
  by (rule ngx_escape_uri_roundtrip) simp

text \<open>The characters RFC 3986 does not allow in a URI, as the comment of the code lists them.\<close>

definition rfc3986_forbidden :: "u_char \<Rightarrow> bool" where
  "rfc3986_forbidden c \<longleftrightarrow> c \<le> 0x1f \<or> c \<ge> 0x7f \<or>
     List.member (0x22 # 0x5c # bytes '' <>^`{|}'') c"

definition rfc3986_unreserved :: "u_char \<Rightarrow> bool" where
  "rfc3986_unreserved c \<longleftrightarrow>
     ch CHR ''a'' \<le> c \<and> c \<le> ch CHR ''z'' \<or> ch CHR ''A'' \<le> c \<and> c \<le> ch CHR ''Z'' \<or> is_digit c \<or>
     List.member (bytes ''-._~'') c"

lemma escaped_bit: "escaped t c \<longleftrightarrow> bit (t ! (unat c div 32)) (unat c mod 32)"
proof -
  have "unat (drop_bit 5 c) = unat c div 32"
    by (simp only: unsigned_drop_bit_eq) (simp add: drop_bit_eq_div take_bit_nat_eq_self)
  moreover have "unat (c AND 0x1f) = unat c mod 32"
    by (simp add: and_mask_take_bit unat_take_bit)
  ultimately show ?thesis
    unfolding escaped_def bit_iff_and_push_bit_not_eq_0 by (simp only:)
qed

lemma bit_cases32:
  assumes "list_all (\<lambda>j. bit (w :: u_int32) j = P j) [0..<32]" "j < 32"
  shows "bit w j = P j"
  using assms by (auto simp: list_all_iff simp del: upt_rec_numeral)

text \<open>The entries of the tables, bit by bit.\<close>

lemma escape_words:
  fixes j :: nat
  assumes "j < 32"
  shows
  "bit (0xd000002d :: u_int32) j \<longleftrightarrow> List.member [0, 2, 3, 5, 28, 30, 31] j"
  "bit (0x50000000 :: u_int32) j \<longleftrightarrow> List.member [28, 30] j"
  "bit (0xb8000001 :: u_int32) j \<longleftrightarrow> List.member [0, 27, 28, 29, 31] j"
  "bit (0xd800086d :: u_int32) j \<longleftrightarrow> bit (0xd000002d :: u_int32) j \<or> List.member [6, 11, 27] j"
  "bit (0xfc009fff :: u_int32) j \<longleftrightarrow> j < 13 \<or> j = 15 \<or> 26 \<le> j"
  "bit (0x78000001 :: u_int32) j \<longleftrightarrow> j = 0 \<or> 27 \<le> j \<and> j < 31"
  "bit (0x500000ad :: u_int32) j \<longleftrightarrow> List.member [0, 2, 3, 5, 7, 28, 30] j"
  "bit (0x50000085 :: u_int32) j \<longleftrightarrow> List.member [0, 2, 7, 28, 30] j"
  "bit (0xd8000001 :: u_int32) j \<longleftrightarrow> List.member [0, 27, 28, 30, 31] j"
  "bit (0x21 :: u_int32) j \<longleftrightarrow> List.member [0, 5] j"
  by (rule bit_cases32 [OF _ assms], code_simp)+


lemma escaped_word:
  assumes "32 * k \<le> unat c" "unat c < 32 * k + 32"
  shows "escaped t c \<longleftrightarrow> bit (t ! k) (unat c - 32 * k)"
proof -
  obtain j where j: "unat c = 32 * k + j" using le_Suc_ex [OF assms(1)] by auto
  with assms(2) have "j < 32" by simp
  then show ?thesis unfolding escaped_bit j by simp
qed

lemmas escaped_split = escaped_word [of 0, simplified] escaped_word [of 1, simplified]
  escaped_word [of 2, simplified] escaped_word [of 3, simplified]

lemma escaped_high:
  assumes "128 \<le> unat c"
  shows "escaped (a # b # d # e # [x, x, x, x]) c \<longleftrightarrow> bit x (unat c mod 32)"
proof -
  have "unat c div 32 < 8" by (simp add: div_less_iff_less_mult)
  moreover have "4 \<le> unat c div 32" using assms by (simp add: less_eq_div_iff_mult_less_eq)
  ultimately have "unat c div 32 \<in> {4, 5, 6, 7}" by auto
  then show ?thesis unfolding escaped_bit by auto
qed

lemma bit_ones32: "bit (0xffffffff :: u_int32) j \<longleftrightarrow> j < 32"
proof -
  have "(0xffffffff :: u_int32) = - 1" by simp
  then show ?thesis by (simp only: bit_minus_1_iff possible_bit_word) simp
qed

lemma byte_block_cases:
  fixes c :: u_char
  obtains "unat c < 32" | "32 \<le> unat c" "unat c < 64" | "64 \<le> unat c" "unat c < 96"
    | "96 \<le> unat c" "unat c < 128" | "128 \<le> unat c"
  by linarith

lemmas escape_class = escaped_split escaped_high escape_words bit_ones32
  rfc3986_forbidden_def rfc3986_unreserved_def is_digit_def bytes_def word_unat_eq_iff word_le_nat_alt

lemma escaped_uri:
  "escaped escape_uri_tbl c \<longleftrightarrow> rfc3986_forbidden c \<or> List.member (bytes ''#%?'') c"
  by (cases c rule: byte_block_cases)
    (auto simp: escape_uri_tbl_def escape_class simp del: bit_numeral_word_iff)

lemma escaped_args:
  "escaped escape_args_tbl c \<longleftrightarrow> rfc3986_forbidden c \<or> List.member (bytes ''#%&+;?'') c"
proof -
  have "escaped escape_args_tbl c \<longleftrightarrow> escaped escape_uri_tbl c \<or> List.member (bytes ''&+;'') c"
    by (cases c rule: byte_block_cases)
      (auto simp: escape_args_tbl_def escape_uri_tbl_def escaped_split escaped_high escape_words(4)
        bytes_def word_unat_eq_iff simp del: bit_numeral_word_iff)
  then show ?thesis by (auto simp: escaped_uri bytes_def)
qed

lemma escaped_uri_component:
  "escaped escape_uri_component_tbl c \<longleftrightarrow> \<not> rfc3986_unreserved c"
  by (cases c rule: byte_block_cases)
    (auto simp: escape_uri_component_tbl_def escape_class simp del: bit_numeral_word_iff)

lemma escaped_html:
  "escaped escape_html_tbl c \<longleftrightarrow> rfc3986_forbidden c \<or> List.member (0x27 # bytes ''#%'') c"
  by (cases c rule: byte_block_cases)
    (auto simp: escape_html_tbl_def escape_class simp del: bit_numeral_word_iff)

lemma escaped_refresh:
  "escaped escape_refresh_tbl c \<longleftrightarrow> 
     c = ch CHR ''~'' \<or> c \<noteq> ch CHR ''}'' \<and> (rfc3986_forbidden c \<or> c = 0x27)"
  by (cases c rule: byte_block_cases)
    (auto simp: escape_refresh_tbl_def escape_class simp del: bit_numeral_word_iff)

lemma escaped_memcached:
  "escaped escape_memcached_tbl c \<longleftrightarrow> c \<le> 0x20 \<or> c = ch CHR ''%''"
  by (cases c rule: byte_block_cases)
    (auto simp: escape_memcached_tbl_def escape_class simp del: bit_numeral_word_iff)

text \<open>
  Each table of \<^verbatim>\<open>ngx_escape_uri\<close> escapes the documented characters and no others.  The
  comment of the \<^verbatim>\<open>refresh\<close> table writes the bits of \<open>0xb8000001\<close>, the code has \<open>0xd8000001\<close>: it
  escapes the tilde and leaves the closing brace.
\<close>

theorem escape_tables_exact:
  "(escaped escape_uri_tbl c \<longleftrightarrow> rfc3986_forbidden c \<or> List.member (bytes ''#%?'') c) \<and>
   (escaped escape_args_tbl c \<longleftrightarrow> rfc3986_forbidden c \<or> List.member (bytes ''#%&+;?'') c) \<and>
   (escaped escape_uri_component_tbl c \<longleftrightarrow> \<not> rfc3986_unreserved c) \<and>
   (escaped escape_html_tbl c \<longleftrightarrow> rfc3986_forbidden c \<or> List.member (0x27 # bytes ''#%'') c) \<and>
   (escaped escape_refresh_tbl c \<longleftrightarrow> c = ch CHR ''~'' \<or> c \<noteq> ch CHR ''}'' \<and> (rfc3986_forbidden c \<or> c = 0x27)) \<and>
   (escaped escape_memcached_tbl c \<longleftrightarrow> c \<le> 0x20 \<or> c = ch CHR ''%'')"
  by (intro conjI escaped_uri escaped_args escaped_uri_component escaped_html escaped_refresh escaped_memcached)

text \<open>
  an HTML reader gets the source back from what \<^verbatim>\<open>ngx_escape_html\<close> wrote, and what it wrote
  holds no angle bracket and no double quote.
\<close>

theorem ngx_escape_html_safe:
  "\<exists>w. ngx_escape_html False src = Inr w \<and> html_unescape w = Some src \<and>
     set w \<inter> {ch CHR ''<'', ch CHR ''>'', 0x22} = {}"
proof -
  have "set (html_code c) \<inter> {ch CHR ''<'', ch CHR ''>'', 0x22} = {}" for c
    by (auto simp: html_code_def bytes_def)
  then have "set (escape_html_write src []) \<inter> {ch CHR ''<'', ch CHR ''>'', 0x22} = {}"
    unfolding html.wr_eq by auto
  then show ?thesis by (simp add: ngx_escape_html_def html.dec_wr)
qed

text \<open>
  A JSON reader gets the source back from what \<^verbatim>\<open>ngx_escape_json\<close> wrote between quotes, and
  what it wrote holds no control character.
\<close>

theorem ngx_escape_json_safe:
  "\<exists>w. ngx_escape_json False src = Inr w \<and> json_unescape w = Some src \<and>
     set w \<inter> {c. c \<le> 0x1f} = {}"
proof -
  have "list_all (\<lambda>c. 0x1f < c) (json_char c)" for c
    by (rule byte_all [of _ c]) code_simp
  then have "set (escape_json_write src []) \<inter> {c. c \<le> 0x1f} = {}"
    unfolding json.wr_eq by (force simp: list_all_iff)
  then show ?thesis by (simp add: ngx_escape_json_def json.dec_wr)
qed

text \<open>
  Unescaping never writes more bytes than it reads, whatever the type, so it can work in
  place; and a redirect (\<^verbatim>\<open>NGX_UNESCAPE_REDIRECT\<close>) is never given a byte by unescaping that is
  not printable: every byte written is in the source or lies between the percent sign and
  \<open>0x7f\<close>, so no escape sequence becomes a line break.
\<close>

theorem ngx_unescape_uri_safe:
  "length (fst (ngx_unescape_uri src type)) + length (snd (ngx_unescape_uri src type)) \<le> length src \<and>
   set (fst (ngx_unescape_uri src 2)) \<subseteq> set src \<union> {c. ch CHR ''%'' < c \<and> c < 0x7f}"
proof
  show "length (fst (ngx_unescape_uri src type)) + length (snd (ngx_unescape_uri src type)) \<le> length src"
    using unescape_loop_length [OF prod.collapse [symmetric], of type sw_usual 0 0 src "[]"]
    by (simp add: ngx_unescape_uri_def)
  show "set (fst (ngx_unescape_uri src 2)) \<subseteq> set src \<union> {c. ch CHR ''%'' < c \<and> c < 0x7f}"
    using unescape_loop_redirect [OF prod.collapse [symmetric], of sw_usual 0 0 src "[]"]
    unfolding printable_def ngx_unescape_uri_def by simp
qed

end
