(* ===== verification/Ngx_Str.thy ===== *)
theory Ngx_Str
  imports Ngx_Prelude "HOL-Library.Multiset"
begin

text \<open>
  The string functions of \<^verbatim>\<open>src/core/ngx_string.c\<close>: copies, comparisons, substring searches and
  \<^verbatim>\<open>ngx_sort\<close>.

  A pointer to a null-terminated string is the list of the bytes from it on; the byte at the end
  of the list is the terminator (\<open>byte_at\<close>), and \<^verbatim>\<open>p++\<close> is \<^const>\<open>tl\<close>.  \<open>cstr\<close> is the string a C
  function sees.  Comparison results are \<^verbatim>\<open>ngx_int_t\<close>, here \<^typ>\<open>int\<close>.
\<close>

section \<open>Null-terminated strings\<close>

fun byte_at :: "u_char list \<Rightarrow> u_char" where
  "byte_at [] = 0"
| "byte_at (c # s) = c"

definition cstr :: "u_char list \<Rightarrow> u_char list" where
  "cstr s = takeWhile (\<lambda>c. c \<noteq> 0) s"

definition ngx_tolower :: "u_char \<Rightarrow> u_char" where
  "ngx_tolower c = (if c \<ge> ch CHR ''A'' \<and> c \<le> ch CHR ''Z'' then c OR 0x20 else c)"

lemma cstr_Nil [simp]: "cstr [] = []"
  by (simp add: cstr_def)

lemma cstr_Cons [simp]: "cstr (c # s) = (if c = 0 then [] else c # cstr s)"
  by (simp add: cstr_def)

lemma ngx_tolower_0 [simp]: "ngx_tolower 0 = 0"
  by (simp add: ngx_tolower_def)

lemma ngx_tolower_eq_0 [simp]: "ngx_tolower c = 0 \<longleftrightarrow> c = 0"
proof -
  have "ngx_tolower c = 0 \<longrightarrow> c = 0" by (rule byte_all [of _ c]) code_simp
  then show ?thesis by auto
qed

section \<open>Copies\<close>

text \<open>\<^verbatim>\<open>ngx_strlow(dst, src, n)\<close>: the \<open>n\<close> bytes written.\<close>

fun ngx_strlow :: "u_char list \<Rightarrow> nat \<Rightarrow> u_char list" where
  "ngx_strlow src 0 = []"
| "ngx_strlow src (Suc n) = ngx_tolower (byte_at src) # ngx_strlow (tl src) n"

fun strnlen_loop :: "u_char list \<Rightarrow> nat \<Rightarrow> nat \<Rightarrow> nat" where
  "strnlen_loop p i 0 = i"
| "strnlen_loop p i (Suc n) = (if byte_at p = 0 then i else strnlen_loop (tl p) (i + 1) n)"

definition ngx_strnlen :: "u_char list \<Rightarrow> nat \<Rightarrow> nat" where
  "ngx_strnlen p n = strnlen_loop p 0 n"

text \<open>
  \<^verbatim>\<open>ngx_cpystrn(dst, src, n)\<close>: the bytes written from \<^verbatim>\<open>dst\<close> on, and the returned pointer as an
  offset from it.
\<close>

fun cpystrn_loop :: "u_char list \<Rightarrow> nat \<Rightarrow> u_char list \<Rightarrow> u_char list \<times> nat" where
  "cpystrn_loop src 0 dst = (dst @ [0], length dst)"
| "cpystrn_loop src (Suc n) dst =
     (if byte_at src = 0 then (dst @ [0], length dst)
      else cpystrn_loop (tl src) n (dst @ [byte_at src]))"

definition ngx_cpystrn :: "u_char list \<Rightarrow> nat \<Rightarrow> u_char list \<times> nat" where
  "ngx_cpystrn src n = (if n = 0 then ([], 0) else cpystrn_loop src (n - 1) [])"

section \<open>Comparisons\<close>

function ngx_strcasecmp :: "u_char list \<Rightarrow> u_char list \<Rightarrow> int" where
  "ngx_strcasecmp s1 s2 =
     (let c1 = ngx_tolower (byte_at s1); c2 = ngx_tolower (byte_at s2) in
      if c1 = c2 then if c1 \<noteq> 0 then ngx_strcasecmp (tl s1) (tl s2) else 0
      else uint c1 - uint c2)"
  by pat_completeness auto
termination
proof (relation "measure (\<lambda>(s1, s2). length s1)")
  fix s1 s2 x xa
  assume "x = ngx_tolower (byte_at s1)" "x \<noteq> 0"
  then have "s1 \<noteq> []" by auto
  then show "((tl s1, tl s2), s1, s2) \<in> measure (\<lambda>(s1, s2). length s1)"
    by (cases s1) auto
qed auto

fun ngx_strncasecmp :: "u_char list \<Rightarrow> u_char list \<Rightarrow> nat \<Rightarrow> int" where
  "ngx_strncasecmp s1 s2 0 = 0"
| "ngx_strncasecmp s1 s2 (Suc n) =
     (let c1 = ngx_tolower (byte_at s1); c2 = ngx_tolower (byte_at s2) in
      if c1 = c2 then if c1 \<noteq> 0 then ngx_strncasecmp (tl s1) (tl s2) n else 0
      else uint c1 - uint c2)"

text \<open>\<^verbatim>\<open>strncmp\<close> and \<^verbatim>\<open>memcmp\<close> of the C library; only the sign of their results is specified.\<close>

fun ngx_strncmp :: "u_char list \<Rightarrow> u_char list \<Rightarrow> nat \<Rightarrow> int" where
  "ngx_strncmp s1 s2 0 = 0"
| "ngx_strncmp s1 s2 (Suc n) =
     (if byte_at s1 = byte_at s2 then if byte_at s1 \<noteq> 0 then ngx_strncmp (tl s1) (tl s2) n else 0
      else sgn (uint (byte_at s1) - uint (byte_at s2)))"

fun ngx_memcmp :: "u_char list \<Rightarrow> u_char list \<Rightarrow> nat \<Rightarrow> int" where
  "ngx_memcmp s1 s2 0 = 0"
| "ngx_memcmp s1 s2 (Suc n) =
     (if byte_at s1 = byte_at s2 then ngx_memcmp (tl s1) (tl s2) n
      else sgn (uint (byte_at s1) - uint (byte_at s2)))"

text \<open>The backward loops, from index \<open>n\<close> down to 0.\<close>

fun rstrncmp_loop :: "u_char list \<Rightarrow> u_char list \<Rightarrow> nat \<Rightarrow> int" where
  "rstrncmp_loop s1 s2 n =
     (if s1 ! n \<noteq> s2 ! n then uint (s1 ! n) - uint (s2 ! n)
      else if n = 0 then 0 else rstrncmp_loop s1 s2 (n - 1))"

definition ngx_rstrncmp :: "u_char list \<Rightarrow> u_char list \<Rightarrow> nat \<Rightarrow> int" where
  "ngx_rstrncmp s1 s2 n = (if n = 0 then 0 else rstrncmp_loop s1 s2 (n - 1))"

definition upcase :: "u_char \<Rightarrow> u_char" where
  "upcase c = (if c \<ge> ch CHR ''a'' \<and> c \<le> ch CHR ''z''
     then c - (ch CHR ''a'' - ch CHR ''A'') else c)"

fun rstrncasecmp_loop :: "u_char list \<Rightarrow> u_char list \<Rightarrow> nat \<Rightarrow> int" where
  "rstrncasecmp_loop s1 s2 n =
     (let c1 = upcase (s1 ! n); c2 = upcase (s2 ! n) in
      if c1 \<noteq> c2 then uint c1 - uint c2
      else if n = 0 then 0 else rstrncasecmp_loop s1 s2 (n - 1))"

definition ngx_rstrncasecmp :: "u_char list \<Rightarrow> u_char list \<Rightarrow> nat \<Rightarrow> int" where
  "ngx_rstrncasecmp s1 s2 n = (if n = 0 then 0 else rstrncasecmp_loop s1 s2 (n - 1))"

definition ngx_memn2cmp :: "u_char list \<Rightarrow> u_char list \<Rightarrow> nat \<Rightarrow> nat \<Rightarrow> int" where
  "ngx_memn2cmp s1 s2 n1 n2 =
     (let (n, z) = (if n1 \<le> n2 then (n1, - 1) else (n2, 1)); m = ngx_memcmp s1 s2 n in
      if m \<noteq> 0 \<or> n1 = n2 then m else z)"

function ngx_dns_strcmp :: "u_char list \<Rightarrow> u_char list \<Rightarrow> int" where
  "ngx_dns_strcmp s1 s2 =
     (let c1 = ngx_tolower (byte_at s1); c2 = ngx_tolower (byte_at s2) in
      if c1 = c2 then if c1 \<noteq> 0 then ngx_dns_strcmp (tl s1) (tl s2) else 0
      else
        let c1 = (if c1 = ch CHR ''.'' then ch CHR '' '' else c1);
            c2 = (if c2 = ch CHR ''.'' then ch CHR '' '' else c2) in
        uint c1 - uint c2)"
  by pat_completeness auto
termination
proof (relation "measure (\<lambda>(s1, s2). length s1)")
  fix s1 s2 x xa
  assume "x = ngx_tolower (byte_at s1)" "x \<noteq> 0"
  then have "s1 \<noteq> []" by auto
  then show "((tl s1, tl s2), s1, s2) \<in> measure (\<lambda>(s1, s2). length s1)"
    by (cases s1) auto
qed auto

fun ngx_filename_cmp :: "u_char list \<Rightarrow> u_char list \<Rightarrow> nat \<Rightarrow> int" where
  "ngx_filename_cmp s1 s2 0 = 0"
| "ngx_filename_cmp s1 s2 (Suc n) =
     (let c1 = byte_at s1; c2 = byte_at s2 in
      if c1 = c2 then if c1 \<noteq> 0 then ngx_filename_cmp (tl s1) (tl s2) n else 0
      else if c1 = 0 \<or> c2 = 0 then uint c1 - uint c2
      else
        let c1 = (if c1 = ch CHR ''/'' then 0 else c1);
            c2 = (if c2 = ch CHR ''/'' then 0 else c2) in
        uint c1 - uint c2)"

declare ngx_strcasecmp.simps [simp del] ngx_dns_strcmp.simps [simp del]
  rstrncmp_loop.simps [simp del] rstrncasecmp_loop.simps [simp del]

section \<open>Substring searches\<close>

text \<open>
  The result is the offset of the returned pointer from \<^verbatim>\<open>s1\<close>, \<open>None\<close> for \<^verbatim>\<open>NULL\<close>; \<open>pos\<close> is the
  current offset.  The nested \<^verbatim>\<open>do\<close> loops are one recursion: each round reads one byte.
\<close>

fun strnstr_loop :: "u_char \<Rightarrow> u_char list \<Rightarrow> nat \<Rightarrow> u_char list \<Rightarrow> nat \<Rightarrow> nat \<Rightarrow> nat option" where
  "strnstr_loop c2 s2 n s1 pos 0 = None"
| "strnstr_loop c2 s2 n s1 pos (Suc len) =
     (let c1 = byte_at s1 in
      if c1 = 0 then None
      else if c1 \<noteq> c2 then strnstr_loop c2 s2 n (tl s1) (pos + 1) len
      else if n > len then None
      else if ngx_strncmp (tl s1) s2 n \<noteq> 0 then strnstr_loop c2 s2 n (tl s1) (pos + 1) len
      else Some pos)"

definition ngx_strnstr :: "u_char list \<Rightarrow> u_char list \<Rightarrow> nat \<Rightarrow> nat option" where
  "ngx_strnstr s1 s2 len =
     strnstr_loop (byte_at s2) (tl s2) (length (cstr (tl s2))) s1 0 len"

fun strstrn_loop :: "u_char \<Rightarrow> u_char list \<Rightarrow> nat \<Rightarrow> u_char list \<Rightarrow> nat \<Rightarrow> nat option" where
  "strstrn_loop c2 s2 n [] pos = None"
| "strstrn_loop c2 s2 n (c1 # s1) pos =
     (if c1 = 0 then None
      else if c1 \<noteq> c2 then strstrn_loop c2 s2 n s1 (pos + 1)
      else if ngx_strncmp s1 s2 n \<noteq> 0 then strstrn_loop c2 s2 n s1 (pos + 1)
      else Some pos)"

definition ngx_strstrn :: "u_char list \<Rightarrow> u_char list \<Rightarrow> nat \<Rightarrow> nat option" where
  "ngx_strstrn s1 s2 n = strstrn_loop (byte_at s2) (tl s2) n s1 0"

fun strcasestrn_loop :: "u_char \<Rightarrow> u_char list \<Rightarrow> nat \<Rightarrow> u_char list \<Rightarrow> nat \<Rightarrow> nat option" where
  "strcasestrn_loop c2 s2 n [] pos = None"
| "strcasestrn_loop c2 s2 n (c # s1) pos =
     (if c = 0 then None
      else let c1 = ngx_tolower c in
        if c1 \<noteq> c2 then strcasestrn_loop c2 s2 n s1 (pos + 1)
        else if ngx_strncasecmp s1 s2 n \<noteq> 0 then strcasestrn_loop c2 s2 n s1 (pos + 1)
        else Some pos)"

definition ngx_strcasestrn :: "u_char list \<Rightarrow> u_char list \<Rightarrow> nat \<Rightarrow> nat option" where
  "ngx_strcasestrn s1 s2 n = strcasestrn_loop (ngx_tolower (byte_at s2)) (tl s2) n s1 0"

text \<open>Here the list is the bytes up to \<^verbatim>\<open>last\<close>, which need not be null-terminated.\<close>

fun strlcasestrn_loop :: "u_char \<Rightarrow> u_char list \<Rightarrow> nat \<Rightarrow> u_char list \<Rightarrow> nat \<Rightarrow> nat option" where
  "strlcasestrn_loop c2 s2 n [] pos = None"
| "strlcasestrn_loop c2 s2 n (c # s1) pos =
     (if length (c # s1) \<le> n then None
      else let c1 = ngx_tolower c in
        if c1 \<noteq> c2 then strlcasestrn_loop c2 s2 n s1 (pos + 1)
        else if ngx_strncasecmp s1 s2 n \<noteq> 0 then strlcasestrn_loop c2 s2 n s1 (pos + 1)
        else Some pos)"

definition ngx_strlcasestrn :: "u_char list \<Rightarrow> u_char list \<Rightarrow> nat \<Rightarrow> nat option" where
  "ngx_strlcasestrn s1 s2 n = strlcasestrn_loop (ngx_tolower (byte_at s2)) (tl s2) n s1 0"

section \<open>\<^verbatim>\<open>ngx_sort\<close>\<close>

text \<open>
  The array is a list of its elements.  The inner loop moves \<open>p2\<close> down from \<open>p1\<close>, copying
  elements one place up while they are greater than the saved element \<open>p\<close>.
\<close>

fun sort_shift :: "('a \<Rightarrow> 'a \<Rightarrow> int) \<Rightarrow> 'a \<Rightarrow> nat \<Rightarrow> 'a list \<Rightarrow> 'a list" where
  "sort_shift cmp p 0 a = a[0 := p]"
| "sort_shift cmp p (Suc p2) a =
     (if cmp (a ! p2) p > 0 then sort_shift cmp p p2 (a[Suc p2 := a ! p2])
      else a[Suc p2 := p])"

fun sort_loop :: "('a \<Rightarrow> 'a \<Rightarrow> int) \<Rightarrow> nat \<Rightarrow> nat \<Rightarrow> 'a list \<Rightarrow> 'a list" where
  "sort_loop cmp p1 0 a = a"
| "sort_loop cmp p1 (Suc k) a = sort_loop cmp (p1 + 1) k (sort_shift cmp (a ! p1) p1 a)"

text \<open>\<open>alloc\<close> says whether \<^verbatim>\<open>ngx_alloc\<close> succeeded; without its scratch element nothing is sorted.\<close>

definition ngx_sort :: "bool \<Rightarrow> ('a \<Rightarrow> 'a \<Rightarrow> int) \<Rightarrow> 'a list \<Rightarrow> 'a list" where
  "ngx_sort alloc cmp base =
     (if \<not> alloc then base else sort_loop cmp 1 (length base - 1) base)"

section \<open>Lexicographic comparison\<close>

text \<open>The reference: the sign of the first difference of the ranks, the shorter string first.\<close>

fun lexcmp :: "('a \<Rightarrow> int) \<Rightarrow> 'a list \<Rightarrow> 'a list \<Rightarrow> int" where
  "lexcmp r [] [] = 0"
| "lexcmp r [] (y # ys) = - 1"
| "lexcmp r (x # xs) [] = 1"
| "lexcmp r (x # xs) (y # ys) = (if r x = r y then lexcmp r xs ys else sgn (r x - r y))"

lemma lexcmp_antisym: "lexcmp r ys xs = - lexcmp r xs ys"
  by (induction r xs ys rule: lexcmp.induct) (auto simp: sgn_if)

lemma lexcmp_eq_0: "lexcmp r xs ys = 0 \<longleftrightarrow> map r xs = map r ys"
  by (induction r xs ys rule: lexcmp.induct) (auto simp: sgn_if)

lemma lexcmp_trans: "lexcmp r xs ys \<le> 0 \<Longrightarrow> lexcmp r ys zs \<le> 0 \<Longrightarrow> lexcmp r xs zs \<le> 0"
proof (induction r xs ys arbitrary: zs rule: lexcmp.induct)
  case (4 r x xs y ys)
  then show ?case by (cases zs) (auto simp: sgn_if split: if_splits)
next
  case (1 r)
  then show ?case by (cases zs) auto
next
  case (2 r y ys)
  then show ?case by (cases zs) auto
qed auto

lemma sgn_uint_diff [simp]:
  "sgn (uint a - uint b) = 0 \<longleftrightarrow> a = b" for a b :: u_char
  by (simp add: sgn_0_0 word_uint_eq_iff)

lemma uint_pos: "c \<noteq> 0 \<Longrightarrow> 0 < uint c" for c :: "'a :: len word"
  using word_neq_0_conv by (simp add: word_gt_0 uint_0_iff order_less_le)

lemma byte_at_tl_cstr:
  "byte_at s = 0 \<Longrightarrow> cstr s = []" "byte_at s \<noteq> 0 \<Longrightarrow> cstr s = byte_at s # cstr (tl s)"
  by (cases s; simp)+

abbreviation fold_rank :: "u_char \<Rightarrow> int" where
  "fold_rank c \<equiv> uint (ngx_tolower c)"

lemma strcasecmp_lexcmp: "sgn (ngx_strcasecmp s1 s2) = lexcmp fold_rank (cstr s1) (cstr s2)"
proof (induction s1 s2 rule: ngx_strcasecmp.induct)
  case (1 s1 s2)
  show ?case
  proof (cases "byte_at s1 = 0"; cases "byte_at s2 = 0")
    assume "byte_at s1 \<noteq> 0" "byte_at s2 \<noteq> 0"
    with 1 show ?thesis
      by (subst ngx_strcasecmp.simps) (auto simp: byte_at_tl_cstr Let_def simp flip: word_uint_eq_iff)
  qed (subst ngx_strcasecmp.simps; simp add: byte_at_tl_cstr Let_def uint_pos)+
qed

lemma strncasecmp_lexcmp:
  "sgn (ngx_strncasecmp s1 s2 n) = lexcmp fold_rank (take n (cstr s1)) (take n (cstr s2))"
proof (induction s1 s2 n rule: ngx_strncasecmp.induct)
  case (2 s1 s2 n)
  show ?case
  proof (cases "byte_at s1 = 0"; cases "byte_at s2 = 0")
    assume "byte_at s1 \<noteq> 0" "byte_at s2 \<noteq> 0"
    with 2 show ?thesis by (auto simp: byte_at_tl_cstr Let_def simp flip: word_uint_eq_iff)
  qed (simp_all add: byte_at_tl_cstr Let_def uint_pos)
qed simp

lemma strncmp_lexcmp: "sgn (ngx_strncmp s1 s2 n) = lexcmp uint (take n (cstr s1)) (take n (cstr s2))"
proof (induction s1 s2 n rule: ngx_strncmp.induct)
  case (2 s1 s2 n)
  show ?case
  proof (cases "byte_at s1 = 0"; cases "byte_at s2 = 0")
    assume "byte_at s1 \<noteq> 0" "byte_at s2 \<noteq> 0"
    with 2 show ?thesis by (auto simp: byte_at_tl_cstr word_uint_eq_iff)
  qed (simp_all add: byte_at_tl_cstr uint_pos)
qed simp

text \<open>The rank of \<^verbatim>\<open>ngx_dns_strcmp\<close> puts the dot where the space is.\<close>

definition dns_rank :: "u_char \<Rightarrow> int" where
  "dns_rank c = (if ngx_tolower c = ch CHR ''.'' then 32 else uint (ngx_tolower c))"

lemma dns_rank_eq:
  "ngx_tolower c \<noteq> 32 \<Longrightarrow> ngx_tolower d \<noteq> 32 \<Longrightarrow> dns_rank c = dns_rank d \<longleftrightarrow> ngx_tolower c = ngx_tolower d"
  by (auto simp: dns_rank_def word_uint_eq_iff)

lemma dns_strcmp_lexcmp:
  assumes "32 \<notin> ngx_tolower ` set (cstr s1)" "32 \<notin> ngx_tolower ` set (cstr s2)"
  shows "sgn (ngx_dns_strcmp s1 s2) = lexcmp dns_rank (cstr s1) (cstr s2)"
  using assms
proof (induction s1 s2 rule: ngx_dns_strcmp.induct)
  case (1 s1 s2)
  show ?case
  proof (cases "byte_at s1 = 0"; cases "byte_at s2 = 0")
    assume nz: "byte_at s1 \<noteq> 0" "byte_at s2 \<noteq> 0"
    then have "ngx_tolower (byte_at s1) \<noteq> 32" "ngx_tolower (byte_at s2) \<noteq> 32"
      using 1 by (auto simp: byte_at_tl_cstr)
    from dns_rank_eq [OF this] show ?thesis using nz 1
      by (subst ngx_dns_strcmp.simps) (auto simp: byte_at_tl_cstr Let_def dns_rank_def [of "byte_at s1"] dns_rank_def [of "byte_at s2"])
  qed (subst ngx_dns_strcmp.simps; simp add: byte_at_tl_cstr Let_def uint_pos)+
qed

text \<open>The rank of \<^verbatim>\<open>ngx_filename_cmp\<close> puts the slash below every other character of a name.\<close>

definition filename_rank :: "u_char \<Rightarrow> int" where
  "filename_rank c = (if c = ch CHR ''/'' then 0 else uint c)"

lemma filename_cmp_lexcmp:
  "sgn (ngx_filename_cmp s1 s2 n) = lexcmp filename_rank (take n (cstr s1)) (take n (cstr s2))"
proof (induction s1 s2 n rule: ngx_filename_cmp.induct)
  case (2 s1 s2 n)
  show ?case
  proof (cases "byte_at s1 = 0"; cases "byte_at s2 = 0")
    assume nz: "byte_at s1 \<noteq> 0" "byte_at s2 \<noteq> 0"
    have "filename_rank (byte_at s1) = filename_rank (byte_at s2) \<longleftrightarrow> byte_at s1 = byte_at s2"
      using uint_pos [OF nz(1)] uint_pos [OF nz(2)]
      by (auto simp: filename_rank_def simp flip: word_uint_eq_iff)
    with nz 2 show ?thesis
      by (auto simp: byte_at_tl_cstr Let_def filename_rank_def [of "byte_at s1"]
          filename_rank_def [of "byte_at s2"])
  qed (simp_all add: byte_at_tl_cstr Let_def uint_pos)
qed simp

lemma memcmp_lexcmp:
  "n \<le> length s1 \<Longrightarrow> n \<le> length s2 \<Longrightarrow> ngx_memcmp s1 s2 n = lexcmp uint (take n s1) (take n s2)"
proof (induction s1 s2 n rule: ngx_memcmp.induct)
  case (2 s1 s2 n)
  then show ?case by (cases s1; cases s2) (auto simp flip: word_uint_eq_iff)
qed simp

lemma memn2cmp_lexcmp: "ngx_memn2cmp s1 s2 (length s1) (length s2) = lexcmp uint s1 s2"
proof (induction s1 s2 rule: list_induct2')
  case (4 x xs y ys)
  then show ?case by (auto simp: ngx_memn2cmp_def Let_def simp flip: word_uint_eq_iff split: if_splits)
qed (simp_all add: ngx_memn2cmp_def)

text \<open>The backward comparisons decide equality of the first \<open>n\<close> bytes, the second ignoring case.\<close>

lemma rstrncmp_loop_eq_0: "rstrncmp_loop s1 s2 n = 0 \<longleftrightarrow> (\<forall>i\<le>n. s1 ! i = s2 ! i)"
proof (induction n)
  case (Suc n)
  then show ?case by (subst rstrncmp_loop.simps) (auto simp: le_Suc_eq simp flip: word_uint_eq_iff)
qed (auto simp: rstrncmp_loop.simps simp flip: word_uint_eq_iff)

lemma rstrncmp_eq_0: "ngx_rstrncmp s1 s2 n = 0 \<longleftrightarrow> (\<forall>i<n. s1 ! i = s2 ! i)"
  by (cases n) (auto simp: ngx_rstrncmp_def rstrncmp_loop_eq_0 less_Suc_eq_le)

lemma rstrncasecmp_loop_eq_0:
  "rstrncasecmp_loop s1 s2 n = 0 \<longleftrightarrow> (\<forall>i\<le>n. upcase (s1 ! i) = upcase (s2 ! i))"
proof (induction n)
  case (Suc n)
  then show ?case
    by (subst rstrncasecmp_loop.simps) (auto simp: Let_def le_Suc_eq simp flip: word_uint_eq_iff)
qed (auto simp: rstrncasecmp_loop.simps Let_def simp flip: word_uint_eq_iff)

lemma rstrncasecmp_eq_0:
  "ngx_rstrncasecmp s1 s2 n = 0 \<longleftrightarrow> (\<forall>i<n. upcase (s1 ! i) = upcase (s2 ! i))"
  by (cases n) (auto simp: ngx_rstrncasecmp_def rstrncasecmp_loop_eq_0 less_Suc_eq_le)

section \<open>Sorting\<close>

text \<open>Insertion from the right, as the inner loop does it.\<close>

definition insert_right :: "('a \<Rightarrow> 'a \<Rightarrow> int) \<Rightarrow> 'a \<Rightarrow> 'a list \<Rightarrow> 'a list" where
  "insert_right cmp p xs =
     rev (dropWhile (\<lambda>y. cmp y p > 0) (rev xs)) @ p # rev (takeWhile (\<lambda>y. cmp y p > 0) (rev xs))"

lemma insert_right_Nil: "insert_right cmp p [] = [p]"
  by (simp add: insert_right_def)

lemma insert_right_snoc:
  "insert_right cmp p (xs @ [x]) = (if cmp x p > 0 then insert_right cmp p xs @ [x] else xs @ [x, p])"
  by (simp add: insert_right_def)

lemma sort_shift_insert:
  "length pre = p2 \<Longrightarrow> sort_shift cmp p p2 (pre @ y # post) = insert_right cmp p pre @ post"
proof (induction pre arbitrary: p2 y post rule: rev_induct)
  case (snoc q qs)
  have "sort_shift cmp p (length qs) (qs @ q # q # post) = insert_right cmp p qs @ q # post"
    using snoc.IH [of "length qs" q "q # post"] by simp
  with snoc.prems show ?case by (auto simp: insert_right_snoc nth_append list_update_append)
qed (simp add: insert_right_Nil)

lemma length_insert_right [simp]: "length (insert_right cmp p xs) = Suc (length xs)"
  by (induction xs rule: rev_induct) (auto simp: insert_right_Nil insert_right_snoc)

lemma sort_loop_fold:
  "sort_loop cmp (length pre) (length post) (pre @ post) =
     foldl (\<lambda>acc p. insert_right cmp p acc) pre post"
proof (induction post arbitrary: pre)
  case (Cons p post)
  have "sort_loop cmp (length pre) (length (p # post)) (pre @ p # post) =
      sort_loop cmp (length (insert_right cmp p pre)) (length post) (insert_right cmp p pre @ post)"
    by (simp add: sort_shift_insert)
  also have "\<dots> = foldl (\<lambda>acc p. insert_right cmp p acc) (insert_right cmp p pre) post"
    by (rule Cons.IH)
  finally show ?case by simp
qed simp

lemma ngx_sort_fold: "ngx_sort True cmp base = foldl (\<lambda>acc p. insert_right cmp p acc) [] base"
proof (cases base)
  case (Cons x xs)
  then show ?thesis
    using sort_loop_fold [of cmp "[x]" xs] by (simp add: ngx_sort_def insert_right_Nil)
qed (simp add: ngx_sort_def)

lemma mset_insert_right: "mset (insert_right cmp p xs) = add_mset p (mset xs)"
  by (induction xs rule: rev_induct) (auto simp: insert_right_Nil insert_right_snoc)

lemma set_insert_right: "set (insert_right cmp p xs) = insert p (set xs)"
  using mset_insert_right [of cmp p xs] by (metis set_mset_add_mset_insert set_mset_mset)

text \<open>
  What a comparison function owes \<^verbatim>\<open>ngx_sort\<close> on the elements \<open>A\<close> it is used for: the sign changes
  with the order of the arguments, and "not greater" is transitive.
\<close>

locale comparator =
  fixes A :: "'a set" and cmp :: "'a \<Rightarrow> 'a \<Rightarrow> int"
  assumes swap: "x \<in> A \<Longrightarrow> y \<in> A \<Longrightarrow> sgn (cmp y x) = - sgn (cmp x y)"
    and le_trans: "x \<in> A \<Longrightarrow> y \<in> A \<Longrightarrow> z \<in> A \<Longrightarrow> cmp x y \<le> 0 \<Longrightarrow> cmp y z \<le> 0 \<Longrightarrow> cmp x z \<le> 0"
begin

lemma gt_imp_le: "x \<in> A \<Longrightarrow> y \<in> A \<Longrightarrow> 0 < cmp x y \<Longrightarrow> cmp y x \<le> 0"
  using swap [of x y] by (auto simp: sgn_if split: if_splits)

lemma eq_sym: "x \<in> A \<Longrightarrow> y \<in> A \<Longrightarrow> cmp x y = 0 \<Longrightarrow> cmp y x = 0"
  using swap [of x y] by (auto simp: sgn_if split: if_splits)

lemma sorted_insert_right:
  "set xs \<subseteq> A \<Longrightarrow> p \<in> A \<Longrightarrow> sorted_wrt (\<lambda>x y. cmp x y \<le> 0) xs \<Longrightarrow>
   sorted_wrt (\<lambda>x y. cmp x y \<le> 0) (insert_right cmp p xs)"
proof (induction xs rule: rev_induct)
  case (snoc x xs)
  show ?case
  proof (cases "cmp x p > 0")
    case True
    then have "cmp p x \<le> 0" using snoc.prems gt_imp_le by auto
    with True snoc show ?thesis
      by (auto simp: insert_right_snoc sorted_wrt_append set_insert_right)
  next
    case False
    then have "\<forall>y\<in>set xs. cmp y p \<le> 0"
      using snoc.prems le_trans [of _ x p] by (auto simp: sorted_wrt_append)
    with False snoc.prems show ?thesis by (auto simp: insert_right_snoc sorted_wrt_append)
  qed
qed (simp add: insert_right_Nil)

lemma stable_insert_right:
  "set xs \<subseteq> A \<Longrightarrow> p \<in> A \<Longrightarrow> k \<in> A \<Longrightarrow>
   filter (\<lambda>y. cmp k y = 0) (insert_right cmp p xs) = filter (\<lambda>y. cmp k y = 0) (xs @ [p])"
proof (induction xs rule: rev_induct)
  case (snoc x xs)
  have "\<not> (cmp x p > 0 \<and> cmp k x = 0 \<and> cmp k p = 0)"
    using snoc.prems eq_sym [of k x] le_trans [of x k p] by auto
  with snoc show ?case by (auto simp: insert_right_snoc)
qed (simp add: insert_right_Nil)

lemma sort_fold:
  "set xs \<subseteq> A \<Longrightarrow> set acc \<subseteq> A \<Longrightarrow> sorted_wrt (\<lambda>x y. cmp x y \<le> 0) acc \<Longrightarrow>
   sorted_wrt (\<lambda>x y. cmp x y \<le> 0) (foldl (\<lambda>acc p. insert_right cmp p acc) acc xs) \<and>
   (\<forall>k\<in>A. filter (\<lambda>y. cmp k y = 0) (foldl (\<lambda>acc p. insert_right cmp p acc) acc xs) =
      filter (\<lambda>y. cmp k y = 0) (acc @ xs))"
proof (induction xs arbitrary: acc)
  case (Cons x xs)
  then show ?case
    using Cons.IH [of "insert_right cmp x acc"]
    by (simp add: sorted_insert_right stable_insert_right set_insert_right)
qed simp

lemma ngx_sort_sorted:
  "set base \<subseteq> A \<Longrightarrow> sorted_wrt (\<lambda>x y. cmp x y \<le> 0) (ngx_sort True cmp base)"
  using sort_fold [of base "[]"] by (simp add: ngx_sort_fold)

lemma ngx_sort_stable:
  "set base \<subseteq> A \<Longrightarrow> k \<in> A \<Longrightarrow>
   filter (\<lambda>y. cmp k y = 0) (ngx_sort True cmp base) = filter (\<lambda>y. cmp k y = 0) base"
  using sort_fold [of base "[]"] by (simp add: ngx_sort_fold)

end

lemma mset_foldl_insert:
  "mset (foldl (\<lambda>acc p. insert_right cmp p acc) acc xs) = mset acc + mset xs"
  by (induction xs arbitrary: acc) (simp_all add: mset_insert_right)

lemma mset_ngx_sort: "mset (ngx_sort alloc cmp base) = mset base"
proof (cases alloc)
  case True
  then have "alloc = True" by simp
  then show ?thesis by (simp only: ngx_sort_fold mset_foldl_insert) simp
qed (simp add: ngx_sort_def)

lemma lexcmp_comparator:
  assumes "\<And>x y. x \<in> A \<Longrightarrow> y \<in> A \<Longrightarrow> sgn (cmp x y) = lexcmp r (f x) (f y)"
  shows "comparator A cmp"
proof
  fix x y assume "x \<in> A" "y \<in> A"
  then show "sgn (cmp y x) = - sgn (cmp x y)" using assms lexcmp_antisym by metis
next
  fix x y z assume A: "x \<in> A" "y \<in> A" "z \<in> A" and le: "cmp x y \<le> 0" "cmp y z \<le> 0"
  have "sgn a \<le> 0 \<longleftrightarrow> a \<le> 0" for a :: int by (simp add: sgn_if)
  with A le assms lexcmp_trans [of r "f x" "f y" "f z"] show "cmp x z \<le> 0" by metis
qed

text \<open>The comparison functions that order strings.\<close>

interpretation dns: comparator "{s. 32 \<notin> ngx_tolower ` set (cstr s)}" ngx_dns_strcmp
  by (rule lexcmp_comparator [where r = dns_rank and f = cstr]) (simp add: dns_strcmp_lexcmp)

interpretation casecmp: comparator UNIV ngx_strcasecmp
  by (rule lexcmp_comparator [where r = fold_rank and f = cstr]) (simp add: strcasecmp_lexcmp)

interpretation filename: comparator UNIV "\<lambda>s1 s2. ngx_filename_cmp s1 s2 n"
  by (rule lexcmp_comparator [where r = filename_rank and f = "\<lambda>s. take n (cstr s)"])
    (simp add: filename_cmp_lexcmp)

interpretation memn2: comparator UNIV "\<lambda>s1 s2. ngx_memn2cmp s1 s2 (length s1) (length s2)"
proof (rule lexcmp_comparator [where r = uint and f = id])
  have "sgn (lexcmp r xs ys) = lexcmp r xs ys" for r :: "u_char \<Rightarrow> int" and xs ys
    by (induction r xs ys rule: lexcmp.induct) (auto simp: sgn_if)
  then show "sgn (ngx_memn2cmp x y (length x) (length y)) = lexcmp uint (id x) (id y)" for x y
    by (simp add: memn2cmp_lexcmp)
qed

section \<open>Searching\<close>

text \<open>The reference: the least offset at which \<open>ys\<close> occurs in \<open>xs\<close>.\<close>

fun find_sub :: "'a list \<Rightarrow> 'a list \<Rightarrow> nat option" where
  "find_sub [] ys = (if ys = [] then Some 0 else None)"
| "find_sub (x # xs) ys =
     (if take (length ys) (x # xs) = ys then Some 0 else map_option Suc (find_sub xs ys))"

lemma find_sub_Some:
  "find_sub xs ys = Some i \<Longrightarrow>
   take (length ys) (drop i xs) = ys \<and> (\<forall>j<i. take (length ys) (drop j xs) \<noteq> ys)"
proof (induction xs ys arbitrary: i rule: find_sub.induct)
  case (2 x xs ys)
  then show ?case
    by (cases i) (auto simp: less_Suc_eq_0_disj split: if_splits)
qed (auto split: if_splits)

lemma all_le_Suc: "(\<forall>i\<le>Suc n. P i) \<longleftrightarrow> P 0 \<and> (\<forall>i\<le>n. P (Suc i))"
  by (metis Suc_le_mono le0 not0_implies_Suc)

lemma find_sub_None: "find_sub xs ys = None \<longleftrightarrow> (\<forall>i\<le>length xs. take (length ys) (drop i xs) \<noteq> ys)"
  by (induction xs ys rule: find_sub.induct) (auto simp: all_le_Suc)

lemma plus_Suc_eta: "(+) (Suc p) = (\<lambda>a. Suc (p + a))"
  by auto

lemma map_option_shift:
  "map_option ((+) p) (map_option Suc x) = map_option ((+) (Suc p)) x" for p :: nat
  by (cases x) simp_all

lemma find_sub_short: "length xs < length ys \<Longrightarrow> find_sub xs ys = None"
  by (induction xs ys rule: find_sub.induct) auto

lemma strncmp_eq_0:
  "ngx_strncmp s1 s2 n = 0 \<longleftrightarrow> take n (cstr s1) = take n (cstr s2)"
proof -
  have "inj (uint :: u_char \<Rightarrow> int)" by (rule injI) (simp flip: word_uint_eq_iff)
  moreover have "ngx_strncmp s1 s2 n = 0 \<longleftrightarrow> sgn (ngx_strncmp s1 s2 n) = 0"
    by (rule sgn_0_0 [symmetric])
  ultimately show ?thesis by (simp only: strncmp_lexcmp lexcmp_eq_0 inj_map_eq_map)
qed

lemma strncasecmp_eq_0:
  "ngx_strncasecmp s1 s2 n = 0 \<longleftrightarrow>
     map ngx_tolower (take n (cstr s1)) = map ngx_tolower (take n (cstr s2))"
proof -
  have "map fold_rank xs = map fold_rank ys \<longleftrightarrow> map ngx_tolower xs = map ngx_tolower ys" for xs ys
    by (induction xs ys rule: list_induct2') (simp_all flip: word_uint_eq_iff)
  moreover have "ngx_strncasecmp s1 s2 n = 0 \<longleftrightarrow> sgn (ngx_strncasecmp s1 s2 n) = 0"
    by (rule sgn_0_0 [symmetric])
  ultimately show ?thesis by (simp only: strncasecmp_lexcmp lexcmp_eq_0)
qed

lemma cstr_id: "0 \<notin> set s \<Longrightarrow> cstr s = s"
  by (induction s) auto

lemma strnstr_loop_find:
  assumes "c2 \<noteq> 0" "0 \<notin> set s2"
  shows "strnstr_loop c2 s2 (length s2) s1 pos len =
     map_option ((+) pos) (find_sub (take len (cstr s1)) (c2 # s2))"
proof (induction len arbitrary: s1 pos)
  case (Suc len)
  show ?case
  proof (cases s1)
    case (Cons c1 s)
    show ?thesis
    proof (cases "len < length s2")
      case True
      then have "find_sub (take len (cstr s)) (c2 # s2) = None"
        by (intro find_sub_short) simp
      moreover have "take (length s2) (take len (cstr s)) \<noteq> s2"
        using True by (auto dest: arg_cong [where f = length])
      ultimately show ?thesis using Suc True Cons by (auto simp: Let_def)
    next
      case False
      then show ?thesis
        using Suc assms Cons
        by (auto simp: Let_def strncmp_eq_0 cstr_id map_option_shift min_absorb1 plus_Suc_eta)
    qed
  qed simp
qed simp

lemma strstrn_loop_find:
  assumes "c2 \<noteq> 0" "0 \<notin> set s2"
  shows "strstrn_loop c2 s2 (length s2) s1 pos = map_option ((+) pos) (find_sub (cstr s1) (c2 # s2))"
  using assms by (induction s1 arbitrary: pos)
    (auto simp: strncmp_eq_0 cstr_id map_option_shift)

lemma strcasestrn_loop_find:
  assumes "c2 \<noteq> 0" "0 \<notin> set s2"
  shows "strcasestrn_loop (ngx_tolower c2) s2 (length s2) s1 pos =
     map_option ((+) pos) (find_sub (map ngx_tolower (cstr s1)) (map ngx_tolower (c2 # s2)))"
  using assms by (induction s1 arbitrary: pos)
    (auto simp: strncasecmp_eq_0 cstr_id map_option_shift take_map)

lemma take_cstr_eq:
  assumes "0 \<notin> set s2" "length s2 \<le> length s1"
  shows "map ngx_tolower (take (length s2) (cstr s1)) = map ngx_tolower s2 \<longleftrightarrow>
     map ngx_tolower (take (length s2) s1) = map ngx_tolower s2"
  using assms
proof (induction s2 arbitrary: s1)
  case (Cons c s2)
  then show ?case by (cases s1) auto
qed simp

lemma strlcasestrn_loop_find:
  assumes "c2 \<noteq> 0" "0 \<notin> set s2"
  shows "strlcasestrn_loop (ngx_tolower c2) s2 (length s2) s1 pos =
     map_option ((+) pos) (find_sub (map ngx_tolower s1) (map ngx_tolower (c2 # s2)))"
  using assms
proof (induction s1 arbitrary: pos)
  case (Cons c s1)
  show ?case
  proof (cases "length (c # s1) \<le> length s2")
    case True
    then show ?thesis
      using find_sub_short [of "map ngx_tolower (c # s1)" "map ngx_tolower (c2 # s2)"] by simp
  next
    case False
    then show ?thesis
      using Cons by (auto simp: strncasecmp_eq_0 cstr_id map_option_shift take_map take_cstr_eq)
  qed
qed simp

section \<open>Copies\<close>

lemma strnlen_loop_eq: "strnlen_loop p i n = i + length (take n (cstr p))"
proof (induction n arbitrary: p i)
  case (Suc n)
  then show ?case by (cases p) auto
qed simp

lemma cpystrn_loop_eq:
  "cpystrn_loop src n dst = (dst @ take n (cstr src) @ [0], length dst + length (take n (cstr src)))"
proof (induction n arbitrary: src dst)
  case (Suc n)
  then show ?case by (cases src) auto
qed simp

lemma ngx_strlow_eq: "n \<le> length src \<Longrightarrow> ngx_strlow src n = map ngx_tolower (take n src)"
proof (induction n arbitrary: src)
  case (Suc n)
  then show ?case by (cases src) auto
qed simp

section \<open>Properties\<close>

text \<open>
  \<^verbatim>\<open>ngx_sort\<close> with \<^verbatim>\<open>ngx_dns_strcmp\<close>, as the wildcard server names are sorted, gives a sorted
  permutation of the names and is stable: names that compare equal keep their order.  The names
  hold no space, which the comparison identifies with the dot.
\<close>

theorem ngx_sort_dns_stable_sort:
  assumes "\<forall>s\<in>set base. 32 \<notin> ngx_tolower ` set (cstr s)" "32 \<notin> ngx_tolower ` set (cstr k)"
  shows "sorted_wrt (\<lambda>x y. ngx_dns_strcmp x y \<le> 0) (ngx_sort True ngx_dns_strcmp base) \<and>
    mset (ngx_sort True ngx_dns_strcmp base) = mset base \<and>
    filter (\<lambda>y. ngx_dns_strcmp k y = 0) (ngx_sort True ngx_dns_strcmp base) =
      filter (\<lambda>y. ngx_dns_strcmp k y = 0) base"
proof -
  have "set base \<subseteq> {s. 32 \<notin> ngx_tolower ` set (cstr s)}" using assms(1) by auto
  with assms(2) show ?thesis
    using dns.ngx_sort_sorted [of base] dns.ngx_sort_stable [of base k] by (simp add: mset_ngx_sort)
qed

theorem ngx_sort_dns_stable_sort_witness:
  "sorted_wrt (\<lambda>x y. ngx_dns_strcmp x y \<le> 0)
     (ngx_sort True ngx_dns_strcmp [bytes ''b.c'', bytes ''a-b'', bytes ''A.b''])"
proof -
  have "\<forall>s\<in>set [bytes ''b.c'', bytes ''a-b'', bytes ''A.b'']. 32 \<notin> ngx_tolower ` set (cstr s)"
    by (simp add: bytes_def ngx_tolower_def)
  from ngx_sort_dns_stable_sort [OF this, of "[]"] show ?thesis by simp
qed

text \<open>
  The four substring searches return the offset of the first occurrence, or \<^verbatim>\<open>NULL\<close> when there
  is none: \<^verbatim>\<open>ngx_strnstr\<close> within \<open>len\<close> bytes, \<^verbatim>\<open>ngx_strstrn\<close> and \<^verbatim>\<open>ngx_strcasestrn\<close> in a
  null-terminated string, \<^verbatim>\<open>ngx_strlcasestrn\<close> up to \<^verbatim>\<open>last\<close>, the last two ignoring case.
\<close>

theorem ngx_substring_searches:
  assumes "s2 \<noteq> []" "0 \<notin> set s2"
  shows "ngx_strnstr s1 s2 len = find_sub (take len (cstr s1)) s2 \<and>
    ngx_strstrn s1 s2 (length s2 - 1) = find_sub (cstr s1) s2 \<and>
    ngx_strcasestrn s1 s2 (length s2 - 1) =
      find_sub (map ngx_tolower (cstr s1)) (map ngx_tolower s2) \<and>
    ngx_strlcasestrn s1 s2 (length s2 - 1) =
      find_sub (map ngx_tolower s1) (map ngx_tolower s2)"
proof -
  obtain c2 s where s2: "s2 = c2 # s" using assms(1) by (cases s2) auto
  have id: "map_option ((+) (0 :: nat)) x = x" for x by (cases x) simp_all
  have nz: "c2 \<noteq> 0" "0 \<notin> set s" using assms(2) s2 by auto
  from strnstr_loop_find [OF nz] strstrn_loop_find [OF nz] strcasestrn_loop_find [OF nz]
    strlcasestrn_loop_find [OF nz]
  show ?thesis
    unfolding ngx_strnstr_def ngx_strstrn_def ngx_strcasestrn_def ngx_strlcasestrn_def s2
    by (simp only: byte_at.simps list.sel length_Cons diff_Suc_1 id cstr_id [OF nz(2)])
qed

theorem ngx_substring_searches_witness:
  "ngx_strnstr (bytes ''GET /a?b'') (bytes ''a?'') 8 = Some 5 \<and>
   ngx_strcasestrn (bytes ''Close, TE'') (bytes ''te'') 1 = Some 7"
  using ngx_substring_searches [of "bytes ''a?''" "bytes ''GET /a?b''" 8]
    ngx_substring_searches [of "bytes ''te''" "bytes ''Close, TE''" 0]
  by (simp add: bytes_def ngx_tolower_def)

text \<open>
  the sign of each comparison is that of the lexicographic order of the strings, the shorter
  first: \<^verbatim>\<open>ngx_strcasecmp\<close> and \<^verbatim>\<open>ngx_strncasecmp\<close> on the bytes folded to lower case (the latter up to
  \<open>n\<close>), \<^verbatim>\<open>ngx_memn2cmp\<close> on the bytes, \<^verbatim>\<open>ngx_filename_cmp\<close> with the slash below every other byte.
\<close>

theorem ngx_comparisons_lexicographic:
  "sgn (ngx_strcasecmp s1 s2) = lexcmp (\<lambda>c. uint (ngx_tolower c)) (cstr s1) (cstr s2) \<and>
   sgn (ngx_strncasecmp s1 s2 n) =
     lexcmp (\<lambda>c. uint (ngx_tolower c)) (take n (cstr s1)) (take n (cstr s2)) \<and>
   ngx_memn2cmp s1 s2 (length s1) (length s2) = lexcmp uint s1 s2 \<and>
   sgn (ngx_filename_cmp s1 s2 n) =
     lexcmp (\<lambda>c. if c = ch CHR ''/'' then 0 else uint c) (take n (cstr s1)) (take n (cstr s2))"
  using strcasecmp_lexcmp strncasecmp_lexcmp memn2cmp_lexcmp filename_cmp_lexcmp
  unfolding filename_rank_def [abs_def] by blast

text \<open>
  \<^verbatim>\<open>ngx_cpystrn\<close> writes at most \<open>n\<close> bytes, the string cut to \<open>n - 1\<close> bytes and its terminator,
  and returns the address of the terminator; \<^verbatim>\<open>ngx_strnlen\<close> is the length of that cut string.
\<close>

theorem ngx_cpystrn_bounded:
  "ngx_cpystrn src n = (if n = 0 then ([], 0)
     else (take (n - 1) (cstr src) @ [0], ngx_strnlen src (n - 1))) \<and>
   length (fst (ngx_cpystrn src n)) \<le> n"
  by (auto simp: ngx_cpystrn_def cpystrn_loop_eq ngx_strnlen_def strnlen_loop_eq)

end
