(* ===== verification/Ngx_Num.thy ===== *)
theory Ngx_Num
  imports Ngx_Prelude
begin

text \<open>
  Number parsing of \<^verbatim>\<open>src/core/ngx_string.c\<close>: \<^verbatim>\<open>ngx_atoi\<close>, \<^verbatim>\<open>ngx_atofp\<close>, \<^verbatim>\<open>ngx_atosz\<close>,
  \<^verbatim>\<open>ngx_atoof\<close>, \<^verbatim>\<open>ngx_atotm\<close> and \<^verbatim>\<open>ngx_hextoi\<close>.  Each is compared with the mathematical value
  of the digit string: it returns that value exactly when it fits the signed 64-bit type,
  and \<^verbatim>\<open>NGX_ERROR\<close> otherwise, so no accumulator ever overflows.

  The accumulators are signed C integers, kept as \<^typ>\<open>int\<close>; the intermediate values are
  shown to stay within the type, so that no wrap-around takes place.
\<close>

section \<open>The code\<close>

text \<open>The loop shared by the decimal parsers, \<open>lim\<close> being the largest value of the type.\<close>

fun atoi_loop :: "int \<Rightarrow> u_char list \<Rightarrow> int \<Rightarrow> int" where
  "atoi_loop lim [] value = value"
| "atoi_loop lim (c # line) value =
     (let cutoff = lim div 10; cutlim = lim mod 10 in
      if c < ch CHR ''0'' \<or> c > ch CHR ''9'' then NGX_ERROR
      else if value \<ge> cutoff \<and> (value > cutoff \<or> uint c - 48 > cutlim) then NGX_ERROR
      else atoi_loop lim line (value * 10 + (uint c - 48)))"

definition ngx_atoi :: "u_char list \<Rightarrow> int" where
  "ngx_atoi line = (if line = [] then NGX_ERROR else atoi_loop NGX_MAX_INT_T_VALUE line 0)"

definition ngx_atosz :: "u_char list \<Rightarrow> int" where
  "ngx_atosz line = (if line = [] then NGX_ERROR else atoi_loop NGX_MAX_SIZE_T_VALUE line 0)"

definition ngx_atoof :: "u_char list \<Rightarrow> int" where
  "ngx_atoof line = (if line = [] then NGX_ERROR else atoi_loop NGX_MAX_OFF_T_VALUE line 0)"

definition ngx_atotm :: "u_char list \<Rightarrow> int" where
  "ngx_atotm line = (if line = [] then NGX_ERROR else atoi_loop NGX_MAX_TIME_T_VALUE line 0)"

text \<open>
  \<^verbatim>\<open>ngx_atofp\<close>: the first loop over the bytes with the flag \<open>dot\<close> (0 or 1) and the counter
  \<open>point\<close>, then the loop that appends the missing fraction digits.
\<close>

fun atofp_pad :: "int \<Rightarrow> nat \<Rightarrow> int" where
  "atofp_pad value 0 = value"
| "atofp_pad value (Suc point) =
     (if value > NGX_MAX_INT_T_VALUE div 10 then NGX_ERROR
      else atofp_pad (value * 10) point)"

fun atofp_loop :: "u_char list \<Rightarrow> int \<Rightarrow> nat \<Rightarrow> nat \<Rightarrow> int" where
  "atofp_loop [] value dot point = atofp_pad value point"
| "atofp_loop (c # line) value dot point =
     (let cutoff = NGX_MAX_INT_T_VALUE div 10; cutlim = NGX_MAX_INT_T_VALUE mod 10 in
      if point = 0 then NGX_ERROR
      else if c = ch CHR ''.'' then
        (if dot \<noteq> 0 then NGX_ERROR else atofp_loop line value 1 point)
      else if c < ch CHR ''0'' \<or> c > ch CHR ''9'' then NGX_ERROR
      else if value \<ge> cutoff \<and> (value > cutoff \<or> uint c - 48 > cutlim) then NGX_ERROR
      else atofp_loop line (value * 10 + (uint c - 48)) dot (point - dot))"

definition ngx_atofp :: "u_char list \<Rightarrow> nat \<Rightarrow> int" where
  "ngx_atofp line point = (if line = [] then NGX_ERROR else atofp_loop line 0 0 point)"

fun hextoi_loop :: "u_char list \<Rightarrow> int \<Rightarrow> int" where
  "hextoi_loop [] value = value"
| "hextoi_loop (c0 # line) value =
     (if value > NGX_MAX_INT_T_VALUE div 16 then NGX_ERROR
      else if c0 \<ge> ch CHR ''0'' \<and> c0 \<le> ch CHR ''9'' then
        hextoi_loop line (value * 16 + (uint c0 - 48))
      else
        let c = c0 OR 0x20 in
        if c \<ge> ch CHR ''a'' \<and> c \<le> ch CHR ''f'' then
          hextoi_loop line (value * 16 + (uint c - 97 + 10))
        else NGX_ERROR)"

definition ngx_hextoi :: "u_char list \<Rightarrow> int" where
  "ngx_hextoi line = (if line = [] then NGX_ERROR else hextoi_loop line 0)"

declare ngx_atoi_def [ngx_defs] ngx_atosz_def [ngx_defs] ngx_atoof_def [ngx_defs]
  ngx_atotm_def [ngx_defs] ngx_atofp_def [ngx_defs] ngx_hextoi_def [ngx_defs]

section \<open>Reference values\<close>

text \<open>The number a digit string denotes in base \<open>b\<close>, most significant digit first.\<close>

definition radix_val :: "int \<Rightarrow> (u_char \<Rightarrow> int) \<Rightarrow> int \<Rightarrow> u_char list \<Rightarrow> int" where
  "radix_val b d v cs = foldl (\<lambda>a c. a * b + d c) v cs"

abbreviation dec_val :: "u_char list \<Rightarrow> int" where
  "dec_val cs \<equiv> radix_val 10 digit_val 0 cs"

definition is_hex :: "u_char \<Rightarrow> bool" where
  "is_hex c \<longleftrightarrow> is_digit c \<or> ch CHR ''A'' \<le> c \<and> c \<le> ch CHR ''F''
     \<or> ch CHR ''a'' \<le> c \<and> c \<le> ch CHR ''f''"

definition hex_digit_val :: "u_char \<Rightarrow> int" where
  "hex_digit_val c = (if is_digit c then digit_val c
     else if c \<le> ch CHR ''F'' then uint c - 55 else uint c - 87)"

abbreviation hex_val :: "u_char list \<Rightarrow> int" where
  "hex_val cs \<equiv> radix_val 16 hex_digit_val 0 cs"

lemma radix_val_simps [simp]:
  "radix_val b d v [] = v"
  "radix_val b d v (c # cs) = radix_val b d (v * b + d c) cs"
  by (simp_all add: radix_val_def)

lemma radix_val_append: "radix_val b d v (xs @ ys) = radix_val b d (radix_val b d v xs) ys"
  by (simp add: radix_val_def)

lemma radix_val_ge:
  assumes "1 \<le> b" "0 \<le> v" "list_all (\<lambda>c. 0 \<le> d c) cs"
  shows "v \<le> radix_val b d v cs"
  using assms(2,3)
proof (induction cs arbitrary: v)
  case (Cons c cs)
  have "v \<le> v * b + d c"
    using Cons.prems assms(1) mult_left_mono [of 1 b v] by simp
  also have "\<dots> \<le> radix_val b d (v * b + d c) cs"
    using Cons.prems assms(1) by (intro Cons.IH) auto
  finally show ?case by simp
qed simp

lemma digits_nonneg: "list_all is_digit cs \<Longrightarrow> list_all (\<lambda>c. 0 \<le> digit_val c) cs"
  by (auto simp: list_all_iff dest: digit_val_bounds)

section \<open>Decimal parsers\<close>

text \<open>The guard of the loop accepts a digit exactly when the next value fits.\<close>

lemma cutoff_iff:
  fixes v d lim :: int
  assumes "0 \<le> d" "d \<le> 9"
  shows "\<not> (v \<ge> lim div 10 \<and> (v > lim div 10 \<or> d > lim mod 10)) \<longleftrightarrow> v * 10 + d \<le> lim"
  using assms by (simp add: not_le not_less) presburger

lemma atoi_loop_Cons:
  "atoi_loop lim (c # cs) v =
    (if is_digit c \<and> v * 10 + digit_val c \<le> lim
     then atoi_loop lim cs (v * 10 + digit_val c) else NGX_ERROR)"
proof (cases "is_digit c")
  case False
  then have "c < ch CHR ''0'' \<or> c > ch CHR ''9''" using not_digit by blast
  with False show ?thesis by (simp add: Let_def)
next
  case True
  then have "\<not> (c < ch CHR ''0'' \<or> c > ch CHR ''9'')" using not_digit by blast
  moreover note cutoff_iff [of "digit_val c" lim v] digit_val_bounds [OF True]
  ultimately show ?thesis using True by (auto simp: digit_val_def Let_def)
qed

declare atoi_loop.simps(2) [simp del]

lemma atoi_loop_spec:
  assumes "0 \<le> v" "v \<le> lim"
  shows "atoi_loop lim cs v =
    (if list_all is_digit cs \<and> radix_val 10 digit_val v cs \<le> lim
     then radix_val 10 digit_val v cs else NGX_ERROR)"
  using assms
proof (induction cs arbitrary: v)
  case (Cons c cs)
  let ?v = "v * 10 + digit_val c"
  show ?case
  proof (cases "is_digit c \<and> ?v \<le> lim")
    case True
    then show ?thesis
      using Cons.IH [of ?v] Cons.prems digit_val_bounds [of c] by (simp add: atoi_loop_Cons)
  next
    case False
    have "lim < radix_val 10 digit_val ?v cs" if "is_digit c" "list_all is_digit cs"
      using radix_val_ge [of 10 ?v digit_val cs] digits_nonneg [of cs] that False
        Cons.prems digit_val_bounds [of c] by simp
    with False show ?thesis by (auto simp: atoi_loop_Cons)
  qed
qed simp

text \<open>The contract all four decimal parsers share.\<close>

locale decimal_parser =
  fixes parse :: "u_char list \<Rightarrow> int" and lim :: int
  assumes lim_nonneg: "0 \<le> lim"
    and parse_eq: "parse line = (if line = [] then NGX_ERROR else atoi_loop lim line 0)"
begin

lemma parse_spec:
  "parse line =
    (if line \<noteq> [] \<and> list_all is_digit line \<and> dec_val line \<le> lim then dec_val line
     else NGX_ERROR)"
  using lim_nonneg by (simp add: parse_eq atoi_loop_spec)

lemma parse_range: "- 1 \<le> parse line \<and> parse line \<le> lim"
  using lim_nonneg radix_val_ge [of 10 0 digit_val line] digits_nonneg [of line]
  by (auto simp: parse_spec)

lemma parse_error_iff:
  "parse line = NGX_ERROR \<longleftrightarrow> line = [] \<or> \<not> list_all is_digit line \<or> lim < dec_val line"
  using radix_val_ge [of 10 0 digit_val line] digits_nonneg [of line] by (auto simp: parse_spec)

end

interpretation atoi: decimal_parser ngx_atoi NGX_MAX_INT_T_VALUE
  by unfold_locales (simp_all add: ngx_consts ngx_atoi_def)

interpretation atosz: decimal_parser ngx_atosz NGX_MAX_SIZE_T_VALUE
  by unfold_locales (simp_all add: ngx_consts ngx_atosz_def)

interpretation atoof: decimal_parser ngx_atoof NGX_MAX_OFF_T_VALUE
  by unfold_locales (simp_all add: ngx_consts ngx_atoof_def)

interpretation atotm: decimal_parser ngx_atotm NGX_MAX_TIME_T_VALUE
  by unfold_locales (simp_all add: ngx_consts ngx_atotm_def)

text \<open>
  \<^verbatim>\<open>ngx_atoi\<close> returns the number the digit string denotes exactly when the string is a
  non-empty sequence of decimal digits and the number fits \<^verbatim>\<open>ngx_int_t\<close>; in every other case
  (empty input, a byte that is no digit, overflow) it returns \<^verbatim>\<open>NGX_ERROR\<close>.
\<close>

theorem ngx_atoi_exact:
  "ngx_atoi line =
    (if line \<noteq> [] \<and> list_all is_digit line \<and> dec_val line \<le> NGX_MAX_INT_T_VALUE
     then dec_val line else NGX_ERROR)"
  by (rule atoi.parse_spec)

section \<open>Fixed-point numbers\<close>

lemma atofp_pad_spec:
  assumes "0 \<le> v" "v \<le> NGX_MAX_INT_T_VALUE"
  shows "atofp_pad v p =
    (if v * 10 ^ p \<le> NGX_MAX_INT_T_VALUE then v * 10 ^ p else NGX_ERROR)"
  using assms
proof (induction p arbitrary: v)
  case (Suc p)
  show ?case
  proof (cases "v > NGX_MAX_INT_T_VALUE div 10")
    case True
    then have "NGX_MAX_INT_T_VALUE < v * 10" by (simp add: ngx_consts)
    also have "v * 10 \<le> v * 10 ^ Suc p"
      using Suc.prems by (intro mult_left_mono) (simp_all add: self_le_power)
    finally show ?thesis using True by simp
  next
    case False
    then have "v * 10 \<le> NGX_MAX_INT_T_VALUE" by (simp add: ngx_consts)
    then show ?thesis using False Suc.IH [of "v * 10"] Suc.prems by (simp add: mult.assoc)
  qed
qed simp

lemma scaled_ge:
  fixes v r :: int
  assumes "v \<le> r" "0 \<le> v"
  shows "v \<le> r * 10 ^ n"
  using assms mult_mono [of v r 1 "10 ^ n"] by simp

text \<open>One byte of the loop: a dot, an accepted digit, or an error.\<close>

lemma atofp_loop_Cons:
  "atofp_loop (c # cs) v dot p =
    (if p = 0 then NGX_ERROR
     else if c = ch CHR ''.'' then (if dot \<noteq> 0 then NGX_ERROR else atofp_loop cs v 1 p)
     else if is_digit c \<and> v * 10 + digit_val c \<le> NGX_MAX_INT_T_VALUE
     then atofp_loop cs (v * 10 + digit_val c) dot (p - dot) else NGX_ERROR)"
proof (cases "is_digit c")
  case False
  then have "c < ch CHR ''0'' \<or> c > ch CHR ''9''" using not_digit by blast
  with False show ?thesis by (auto simp: Let_def)
next
  case True
  then have "\<not> (c < ch CHR ''0'' \<or> c > ch CHR ''9'')" using not_digit by blast
  moreover note cutoff_iff [of "digit_val c" NGX_MAX_INT_T_VALUE v] digit_val_bounds [OF True]
  ultimately show ?thesis using True by (auto simp: digit_val_def Let_def)
qed

declare atofp_loop.simps(2) [simp del]

lemma atofp_loop_frac:
  assumes "0 \<le> v" "v \<le> NGX_MAX_INT_T_VALUE"
  shows "atofp_loop cs v (Suc 0) p =
    (let r = radix_val 10 digit_val v cs * 10 ^ (p - length cs) in
     if list_all is_digit cs \<and> length cs \<le> p \<and> r \<le> NGX_MAX_INT_T_VALUE then r else NGX_ERROR)"
  using assms
proof (induction cs arbitrary: v p)
  case Nil
  then show ?case by (simp add: atofp_pad_spec)
next
  case (Cons c cs)
  let ?v = "v * 10 + digit_val c"
  let ?r = "radix_val 10 digit_val ?v cs * 10 ^ (p - Suc (length cs))"
  show ?case
  proof (cases "is_digit c \<and> 0 < p \<and> ?v \<le> NGX_MAX_INT_T_VALUE")
    case True
    then have "atofp_loop (c # cs) v (Suc 0) p = atofp_loop cs ?v (Suc 0) (p - 1)"
      by (auto simp: atofp_loop_Cons)
    also have "\<dots> = (if list_all is_digit cs \<and> length cs \<le> p - 1 \<and> ?r \<le> NGX_MAX_INT_T_VALUE
        then ?r else NGX_ERROR)"
      using Cons.IH [of ?v "p - 1"] Cons.prems digit_val_bounds [of c] True by (simp add: Let_def)
    finally show ?thesis using True by (auto simp: Let_def)
  next
    case False
    have "?v \<le> ?r" if "is_digit c" "list_all is_digit cs"
      using radix_val_ge [of 10 ?v digit_val cs] digits_nonneg [of cs] that
        Cons.prems digit_val_bounds [of c] by (intro scaled_ge) auto
    with False show ?thesis by (auto simp: atofp_loop_Cons Let_def)
  qed
qed

definition fixed_point_spec :: "int \<Rightarrow> u_char list \<Rightarrow> nat \<Rightarrow> int" where
  "fixed_point_spec v line point =
    (let ip = takeWhile (\<lambda>c. c \<noteq> ch CHR ''.'') line;
         fp = tl (dropWhile (\<lambda>c. c \<noteq> ch CHR ''.'') line);
         r = radix_val 10 digit_val v (ip @ fp) * 10 ^ (point - length fp)
     in if list_all is_digit (ip @ fp) \<and> length fp \<le> point \<and> r \<le> NGX_MAX_INT_T_VALUE
        then r else NGX_ERROR)"

lemma fixed_point_spec_simps:
  "fixed_point_spec v [] p =
     (if v * 10 ^ p \<le> NGX_MAX_INT_T_VALUE then v * 10 ^ p else NGX_ERROR)"
  "fixed_point_spec v (ch CHR ''.'' # cs) p =
    (let r = radix_val 10 digit_val v cs * 10 ^ (p - length cs) in
     if list_all is_digit cs \<and> length cs \<le> p \<and> r \<le> NGX_MAX_INT_T_VALUE then r else NGX_ERROR)"
  "is_digit c \<Longrightarrow> fixed_point_spec v (c # cs) p = fixed_point_spec (v * 10 + digit_val c) cs p"
  "c \<noteq> ch CHR ''.'' \<Longrightarrow> \<not> is_digit c \<Longrightarrow> fixed_point_spec v (c # cs) p = NGX_ERROR"
  by (simp_all add: fixed_point_spec_def Let_def)

lemma fixed_point_spec_overflow:
  assumes "NGX_MAX_INT_T_VALUE < v"
  shows "fixed_point_spec v cs p = NGX_ERROR"
proof -
  let ?fp = "tl (dropWhile (\<lambda>c. c \<noteq> ch CHR ''.'') cs)"
  let ?ds = "takeWhile (\<lambda>c. c \<noteq> ch CHR ''.'') cs @ ?fp"
  have "v \<le> radix_val 10 digit_val v ?ds * 10 ^ (p - length ?fp)" if "list_all is_digit ?ds"
    using radix_val_ge [of 10 v digit_val ?ds] digits_nonneg [OF that] assms
    by (intro scaled_ge) (auto simp: ngx_consts)
  with assms show ?thesis by (auto simp: fixed_point_spec_def Let_def)
qed

lemma atofp_loop_spec:
  assumes "0 \<le> v" "v \<le> NGX_MAX_INT_T_VALUE" "0 < p"
  shows "atofp_loop cs v 0 p = fixed_point_spec v cs p"
  using assms
proof (induction cs arbitrary: v)
  case Nil
  then show ?case by (simp add: atofp_pad_spec fixed_point_spec_simps)
next
  case (Cons c cs)
  let ?v = "v * 10 + digit_val c"
  consider "c = ch CHR ''.''" | "is_digit c" "c \<noteq> ch CHR ''.''"
    | "c \<noteq> ch CHR ''.''" "\<not> is_digit c" by blast
  then show ?case
  proof cases
    case 1
    then show ?thesis
      using Cons.prems fixed_point_spec_simps(2) [of v cs p]
      by (simp add: atofp_loop_frac atofp_loop_Cons)
  next
    case 2
    then show ?thesis
      using Cons.IH [of ?v] Cons.prems digit_val_bounds [of c] fixed_point_spec_overflow [of ?v]
      by (auto simp: atofp_loop_Cons fixed_point_spec_simps not_le)
  next
    case 3
    then show ?thesis
      using Cons.prems by (simp add: atofp_loop_Cons fixed_point_spec_simps)
  qed
qed

text \<open>
  \<^verbatim>\<open>ngx_atofp(line, n, point)\<close> parses a decimal number with at most \<open>point\<close> fraction digits and
  returns it scaled by the power \<open>10 ^ point\<close>, exactly when the scaled value fits
  \<^verbatim>\<open>ngx_int_t\<close>; an empty line, \<open>point = 0\<close>, a second dot, another byte, too many fraction digits
  and overflow all give \<^verbatim>\<open>NGX_ERROR\<close>.
\<close>

theorem ngx_atofp_exact:
  "ngx_atofp line point =
    (if line = [] \<or> point = 0 then NGX_ERROR else fixed_point_spec 0 line point)"
proof (cases "line = [] \<or> point = 0")
  case True
  then show ?thesis by (cases line) (auto simp: ngx_atofp_def atofp_loop_Cons)
next
  case False
  then show ?thesis
    using atofp_loop_spec [of 0 point line] by (simp add: ngx_atofp_def ngx_consts)
qed

section \<open>Hexadecimal numbers\<close>

text \<open>What the case folding \<^verbatim>\<open>ch | 0x20\<close> of the source accepts and yields, byte by byte.\<close>

lemma or_0x20:
  "(65 \<le> c \<and> c \<le> 70 \<longrightarrow> c OR 0x20 = c + 32) \<and> (97 \<le> c \<and> c \<le> 102 \<longrightarrow> c OR 0x20 = c) \<and>
   (97 \<le> (c OR 0x20) \<and> (c OR 0x20) \<le> 102 \<longleftrightarrow> 65 \<le> c \<and> c \<le> 70 \<or> 97 \<le> c \<and> c \<le> 102)"
  for c :: u_char
  by (rule byte_all [of _ c]) code_simp

lemma hex_letter:
  assumes "\<not> is_digit c"
  shows "ch CHR ''a'' \<le> (c OR 0x20) \<and> (c OR 0x20) \<le> ch CHR ''f'' \<longleftrightarrow> is_hex c"
    and "is_hex c \<Longrightarrow> uint (c OR 0x20) - 97 + 10 = hex_digit_val c"
  using or_0x20 [of c] assms
  by (auto simp: is_hex_def hex_digit_val_def word_le_def uint_plus_if')

lemma hex_digit_val_bounds: "is_hex c \<Longrightarrow> 0 \<le> hex_digit_val c \<and> hex_digit_val c \<le> 15"
  by (auto simp: is_hex_def hex_digit_val_def is_digit_def digit_val_def word_le_def
      split: if_splits)

lemma hex_digits_nonneg: "list_all is_hex cs \<Longrightarrow> list_all (\<lambda>c. 0 \<le> hex_digit_val c) cs"
  using hex_digit_val_bounds by (auto simp: list_all_iff)

lemma hextoi_loop_Cons:
  "hextoi_loop (c # cs) v =
    (if v > NGX_MAX_INT_T_VALUE div 16 \<or> \<not> is_hex c then NGX_ERROR
     else hextoi_loop cs (v * 16 + hex_digit_val c))"
proof (cases "is_digit c")
  case True
  then show ?thesis by (simp add: is_hex_def is_digit_def hex_digit_val_def digit_val_def)
next
  case False
  then have "\<not> (ch CHR ''0'' \<le> c \<and> c \<le> ch CHR ''9'')" by (simp add: is_digit_def)
  with hex_letter [OF False] show ?thesis by (auto simp: Let_def)
qed

declare hextoi_loop.simps(2) [simp del]

lemma hextoi_loop_spec:
  assumes "0 \<le> v" "v \<le> NGX_MAX_INT_T_VALUE"
  shows "hextoi_loop cs v =
    (if list_all is_hex cs \<and> radix_val 16 hex_digit_val v cs \<le> NGX_MAX_INT_T_VALUE
     then radix_val 16 hex_digit_val v cs else NGX_ERROR)"
  using assms
proof (induction cs arbitrary: v)
  case (Cons c cs)
  let ?v = "v * 16 + hex_digit_val c"
  show ?case
  proof (cases "is_hex c")
    case False
    then show ?thesis by (simp add: hextoi_loop_Cons)
  next
    case True
    then have d: "0 \<le> hex_digit_val c" "hex_digit_val c \<le> 15"
      using hex_digit_val_bounds by blast+
    then have fits: "\<not> v > NGX_MAX_INT_T_VALUE div 16 \<longleftrightarrow> ?v \<le> NGX_MAX_INT_T_VALUE"
      by (simp add: ngx_consts) presburger
    show ?thesis
    proof (cases "?v \<le> NGX_MAX_INT_T_VALUE")
      case False
      moreover have "list_all is_hex cs \<Longrightarrow> ?v \<le> radix_val 16 hex_digit_val ?v cs"
        using radix_val_ge [of 16 ?v hex_digit_val cs] hex_digits_nonneg Cons.prems d by simp
      ultimately show ?thesis using True fits by (auto simp: hextoi_loop_Cons)
    qed (use True fits Cons.IH [of ?v] Cons.prems d in \<open>simp add: hextoi_loop_Cons\<close>)
  qed
qed simp

lemma hextoi_spec:
  "ngx_hextoi line =
    (if line \<noteq> [] \<and> list_all is_hex line \<and> hex_val line \<le> NGX_MAX_INT_T_VALUE
     then hex_val line else NGX_ERROR)"
  by (simp add: ngx_hextoi_def hextoi_loop_spec ngx_consts)

text \<open>
  \<^verbatim>\<open>ngx_hextoi\<close> returns the value of a non-empty string of hexadecimal digits (either case)
  exactly when it fits \<^verbatim>\<open>ngx_int_t\<close>, and \<^verbatim>\<open>NGX_ERROR\<close> otherwise.
\<close>

theorem ngx_hextoi_exact:
  "ngx_hextoi line =
    (if line \<noteq> [] \<and> list_all is_hex line \<and> hex_val line \<le> NGX_MAX_INT_T_VALUE
     then hex_val line else NGX_ERROR)"
  by (rule hextoi_spec)

end
