(* ===== verification/Ngx_Printf.thy ===== *)
theory Ngx_Printf
  imports Ngx_Str Ngx_Num
begin

text \<open>
  The formatted output of \<^verbatim>\<open>src/core/ngx_string.c\<close>: \<^verbatim>\<open>ngx_vslprintf\<close> and its helpers
  \<^verbatim>\<open>ngx_sprintf_num\<close>, \<^verbatim>\<open>ngx_sprintf_str\<close>, the wrappers \<^verbatim>\<open>ngx_sprintf\<close>, \<^verbatim>\<open>ngx_snprintf\<close>,
  \<^verbatim>\<open>ngx_slprintf\<close>, and \<^verbatim>\<open>ngx_hex_dump\<close>.

  The output is the list \<open>out\<close> of the bytes written so far and \<open>lim\<close> is the length it may reach
  (\<^verbatim>\<open>last - buf\<close> at the call), so \<^verbatim>\<open>buf < last\<close> reads \<open>length out < lim\<close>.  The variable arguments are
  a list; an integer argument is the mathematical integer passed, which \<^verbatim>\<open>va_arg\<close> reads at the
  width of the named type.  The result is \<open>None\<close> where the behaviour of the code is undefined: an
  argument that is missing or of the wrong kind, a read past the terminator of the format, a
  length argument beyond the end of the string.  A \<^verbatim>\<open>double\<close> is given by what the code computes of it
  with floating-point operations: whether it is negative, its integer part, and its fraction
  rounded to a multiple of \<open>1 / scale\<close>, as a function of \<open>scale\<close>.
\<close>

section \<open>Numbers\<close>

definition hex_lower :: "u_char list" where "hex_lower = bytes ''0123456789abcdef''"
definition hex_upper :: "u_char list" where "hex_upper = bytes ''0123456789ABCDEF''"

text \<open>The \<^verbatim>\<open>do ... while\<close> loops that fill \<^verbatim>\<open>temp\<close> from its end: \<open>p\<close> is what has been stored.\<close>

fun dec_loop32 :: "nat \<Rightarrow> u_char list \<Rightarrow> u_char list" where
  "dec_loop32 ui32 p =
     (let p' = of_nat (ui32 mod 10 + 48) # p in
      if ui32 div 10 = 0 then p' else dec_loop32 (ui32 div 10) p')"

fun dec_loop64 :: "nat \<Rightarrow> u_char list \<Rightarrow> u_char list" where
  "dec_loop64 ui64 p =
     (let p' = of_nat (ui64 mod 10 + 48) # p in
      if ui64 div 10 = 0 then p' else dec_loop64 (ui64 div 10) p')"

fun hex_loop :: "u_char list \<Rightarrow> nat \<Rightarrow> u_char list \<Rightarrow> u_char list" where
  "hex_loop digits ui64 p =
     (let p' = digits ! (ui64 mod 16) # p in
      if ui64 div 16 = 0 then p' else hex_loop digits (ui64 div 16) p')"

declare dec_loop32.simps [simp del] dec_loop64.simps [simp del] hex_loop.simps [simp del]

definition sprintf_digits :: "nat \<Rightarrow> nat \<Rightarrow> u_char list" where
  "sprintf_digits ui64 hexadecimal =
     (if hexadecimal = 0 then
        if ui64 \<le> 0xffffffff then dec_loop32 ui64 [] else dec_loop64 ui64 []
      else if hexadecimal = 1 then hex_loop hex_lower ui64 []
      else hex_loop hex_upper ui64 [])"

text \<open>\<open>sprintf_pad\<close> is the padding loop, with the already incremented \<^verbatim>\<open>len\<close>.\<close>

function sprintf_pad :: "nat \<Rightarrow> u_char \<Rightarrow> nat \<Rightarrow> nat \<Rightarrow> u_char list \<Rightarrow> u_char list" where
  "sprintf_pad lim zero len width out =
     (if len < width \<and> length out < lim then sprintf_pad lim zero (len + 1) width (out @ [zero])
      else out)"
  by pat_completeness auto
termination by (relation "measure (\<lambda>(lim, zero, len, width, out). width - len)") auto

declare sprintf_pad.simps [simp del]

definition ngx_sprintf_num ::
  "nat \<Rightarrow> nat \<Rightarrow> u_char \<Rightarrow> nat \<Rightarrow> nat \<Rightarrow> u_char list \<Rightarrow> u_char list" where
  "ngx_sprintf_num lim ui64 zero hexadecimal width out =
     (let p = sprintf_digits ui64 hexadecimal;
          out = sprintf_pad lim zero (length p) width out;
          len = (if length out + length p > lim then lim - length out else length p) in
      out @ take len p)"

section \<open>Strings\<close>

definition hex_byte :: "u_char list \<Rightarrow> u_char \<Rightarrow> u_char list" where
  "hex_byte digits c = [digits ! unat (drop_bit 4 c), digits ! unat (c AND 0xf)]"

text \<open>
  The copying loops: of a null-terminated string, of the hexadecimal codes of one, and of the
  hexadecimal codes of \<open>len\<close> bytes.
\<close>

fun str_loop :: "nat \<Rightarrow> u_char list \<Rightarrow> u_char list \<Rightarrow> u_char list" where
  "str_loop lim [] out = out"
| "str_loop lim (c # src) out =
     (if c \<noteq> 0 \<and> length out < lim then str_loop lim src (out @ [c]) else out)"

fun hexstr_loop :: "nat \<Rightarrow> u_char list \<Rightarrow> u_char list \<Rightarrow> u_char list \<Rightarrow> u_char list" where
  "hexstr_loop lim digits [] out = out"
| "hexstr_loop lim digits (c # src) out =
     (if c \<noteq> 0 \<and> length out + 1 < lim then hexstr_loop lim digits src (out @ hex_byte digits c)
      else out)"

fun hexlen_loop :: "nat \<Rightarrow> u_char list \<Rightarrow> u_char list \<Rightarrow> u_char list \<Rightarrow> u_char list" where
  "hexlen_loop lim digits [] out = out"
| "hexlen_loop lim digits (c # src) out =
     (if length out + 1 < lim then hexlen_loop lim digits src (out @ hex_byte digits c)
      else out)"

text \<open>The length \<open>None\<close> is \<^verbatim>\<open>(size_t) -1\<close>: the string is null-terminated.\<close>

definition ngx_sprintf_str ::
  "nat \<Rightarrow> u_char list \<Rightarrow> nat option \<Rightarrow> nat \<Rightarrow> u_char list \<Rightarrow> u_char list option" where
  "ngx_sprintf_str lim src len hexadecimal out =
     (case len of
        None \<Rightarrow>
          Some (if hexadecimal = 0 then str_loop lim src out
           else if hexadecimal = 1 then hexstr_loop lim hex_lower src out
           else hexstr_loop lim hex_upper src out)
      | Some n \<Rightarrow>
          if n > length src then None
          else Some (if hexadecimal = 0 then out @ take (min (lim - length out) n) src
           else if hexadecimal = 1 then hexlen_loop lim hex_lower (take n src) out
           else hexlen_loop lim hex_upper (take n src) out))"

fun ngx_hex_dump :: "u_char list \<Rightarrow> u_char list" where
  "ngx_hex_dump [] = []"
| "ngx_hex_dump (c # src) = hex_byte hex_lower c @ ngx_hex_dump src"

section \<open>Format directives\<close>

datatype varg = V_int int | V_str "u_char list" | V_double bool nat "nat \<Rightarrow> nat"

record fmt_spec =
  fs_zero :: u_char
  fs_width :: nat
  fs_sign :: bool
  fs_hex :: nat
  fs_max_width :: bool
  fs_frac_width :: nat
  fs_slen :: "nat option"

fun fmt_digits :: "u_char list \<Rightarrow> nat \<Rightarrow> nat \<times> u_char list" where
  "fmt_digits [] width = (width, [])"
| "fmt_digits (c # fmt) width =
     (if c \<ge> ch CHR ''0'' \<and> c \<le> ch CHR ''9''
      then fmt_digits fmt ((width * 10 + (unat c - 48)) mod 2 ^ 64) else (width, c # fmt))"

text \<open>The \<^verbatim>\<open>for\<close> loop over the modifiers.\<close>

fun fmt_flags :: "fmt_spec \<Rightarrow> u_char list \<Rightarrow> varg list \<Rightarrow>
    (fmt_spec \<times> u_char list \<times> varg list) option" where
  "fmt_flags sp [] args = Some (sp, [], args)"
| "fmt_flags sp (c # fmt) args =
     (if c = ch CHR ''u'' then fmt_flags (sp\<lparr>fs_sign := False\<rparr>) fmt args
      else if c = ch CHR ''m'' then fmt_flags (sp\<lparr>fs_max_width := True\<rparr>) fmt args
      else if c = ch CHR ''X'' then fmt_flags (sp\<lparr>fs_hex := 2, fs_sign := False\<rparr>) fmt args
      else if c = ch CHR ''x'' then fmt_flags (sp\<lparr>fs_hex := 1, fs_sign := False\<rparr>) fmt args
      else if c = ch CHR ''.'' then
        (let (w, fmt') = fmt_digits fmt (fs_frac_width sp) in
         Some (sp\<lparr>fs_frac_width := w\<rparr>, fmt', args))
      else if c = ch CHR ''*'' then
        (case args of
           V_int n # args' \<Rightarrow>
             let s = nat (take_bit 64 n) in
             fmt_flags (sp\<lparr>fs_slen := if s = 2 ^ 64 - 1 then None else Some s\<rparr>) fmt args'
         | _ \<Rightarrow> None)
      else Some (sp, c # fmt, args))"

text \<open>
  The second \<^verbatim>\<open>switch\<close>.  \<open>Inl\<close> is the output of a case that ends with \<^verbatim>\<open>continue\<close>; \<open>Inr\<close> is the number
  of a case that ends with \<^verbatim>\<open>break\<close> (\<open>i64\<close> if the sign is set, \<open>ui64\<close> otherwise) and the
  specification it is printed with.
\<close>

type_synonym conversion = "((u_char list + (fmt_spec \<times> int)) \<times> varg list) option"

definition conv_int :: "nat \<Rightarrow> fmt_spec \<Rightarrow> varg list \<Rightarrow> conversion" where
  "conv_int w sp args =
     (case args of
        V_int x # args' \<Rightarrow>
          Some (Inr (sp, if fs_sign sp then signed_take_bit (w - 1) x else take_bit w x), args')
      | _ \<Rightarrow> None)"

definition conv_str :: "nat \<Rightarrow> bool \<Rightarrow> fmt_spec \<Rightarrow> varg list \<Rightarrow> u_char list \<Rightarrow> conversion" where
  "conv_str lim counted sp args out =
     (case args of
        V_str s # args' \<Rightarrow>
          (case ngx_sprintf_str lim s (if counted then Some (length s) else fs_slen sp) (fs_hex sp) out of
             None \<Rightarrow> None
           | Some out' \<Rightarrow> Some (Inl out', args'))
      | _ \<Rightarrow> None)"

definition conv_msec :: "fmt_spec \<Rightarrow> varg list \<Rightarrow> conversion" where
  "conv_msec sp args =
     (case args of
        V_int x # args' \<Rightarrow>
          let ms = take_bit 64 x in
          if ms = 2 ^ 64 - 1 then Some (Inr (sp\<lparr>fs_sign := True\<rparr>, - 1), args')
          else Some (Inr (sp\<lparr>fs_sign := False\<rparr>, ms), args')
      | _ \<Rightarrow> None)"

definition conv_char :: "varg list \<Rightarrow> u_char list \<Rightarrow> conversion" where
  "conv_char args out =
     (case args of
        V_int d # args' \<Rightarrow> Some (Inl (out @ [word_of_int (d AND 0xff)]), args')
      | _ \<Rightarrow> None)"

text \<open>
  The case \<^verbatim>\<open>f\<close>.  \<open>neg\<close> is \<^verbatim>\<open>f < 0\<close>, \<open>ip\<close> is \<^verbatim>\<open>(int64_t) f\<close> and \<open>fr scale\<close> is \<^verbatim>\<open>(uint64_t) ((f - (double) ui64) * scale + 0.5)\<close>, of the
  absolute value.
\<close>

fun scale_loop :: "nat \<Rightarrow> nat \<Rightarrow> nat" where
  "scale_loop 0 scale = scale"
| "scale_loop (Suc n) scale = scale_loop n (scale * 10 mod 2 ^ 64)"

lemma scale_loop_eq: "scale < 2 ^ 64 \<Longrightarrow> scale_loop n scale = scale * 10 ^ n mod 2 ^ 64"
  by (induction n arbitrary: scale) (simp_all add: mod_mult_left_eq mult.assoc)

definition conv_float :: "nat \<Rightarrow> fmt_spec \<Rightarrow> varg list \<Rightarrow> u_char list \<Rightarrow> conversion" where
  "conv_float lim sp args out =
     (case args of
        V_double neg ip fr # args' \<Rightarrow>
          let out = (if neg then out @ [ch CHR ''-''] else out);
              ui64 = ip mod 2 ^ 64;
              scale = scale_loop (fs_frac_width sp) 1;
              frac = fr scale mod 2 ^ 64;
              (ui64, frac) =
                (if fs_frac_width sp \<noteq> 0 then if frac = scale then ((ui64 + 1) mod 2 ^ 64, 0) else (ui64, frac)
                 else (ui64, 0));
              out = ngx_sprintf_num lim ui64 (fs_zero sp) 0 (fs_width sp) out;
              out =
                (if fs_frac_width sp \<noteq> 0 then
                   ngx_sprintf_num lim frac (ch CHR ''0'') 0 (fs_frac_width sp)
                     (if length out < lim then out @ [ch CHR ''.''] else out)
                 else out)
          in Some (Inl out, args')
      | _ \<Rightarrow> None)"

definition NGX_INT_T_LEN :: nat where "NGX_INT_T_LEN = 20"
definition NGX_ATOMIC_T_LEN :: nat where "NGX_ATOMIC_T_LEN = 20"

definition fmt_conv :: "nat \<Rightarrow> fmt_spec \<Rightarrow> u_char \<Rightarrow> varg list \<Rightarrow> u_char list \<Rightarrow> conversion" where
  "fmt_conv lim sp c args out =
     (if c = ch CHR ''V'' then conv_str lim True sp args out
      else if c = ch CHR ''v'' then conv_str lim True sp args out
      else if c = ch CHR ''s'' then conv_str lim False sp args out
      else if c = ch CHR ''O'' then conv_int 64 (sp\<lparr>fs_sign := True\<rparr>) args
      else if c = ch CHR ''P'' then conv_int 32 (sp\<lparr>fs_sign := True\<rparr>) args
      else if c = ch CHR ''T'' then conv_int 64 (sp\<lparr>fs_sign := True\<rparr>) args
      else if c = ch CHR ''M'' then conv_msec sp args
      else if c = ch CHR ''z'' then conv_int 64 sp args
      else if c = ch CHR ''i'' then
        conv_int 64 (if fs_max_width sp then sp\<lparr>fs_width := NGX_INT_T_LEN\<rparr> else sp) args
      else if c = ch CHR ''d'' then conv_int 32 sp args
      else if c = ch CHR ''l'' then conv_int 64 sp args
      else if c = ch CHR ''D'' then conv_int 32 sp args
      else if c = ch CHR ''L'' then conv_int 64 sp args
      else if c = ch CHR ''A'' then
        conv_int 64 (if fs_max_width sp then sp\<lparr>fs_width := NGX_ATOMIC_T_LEN\<rparr> else sp) args
      else if c = ch CHR ''f'' then conv_float lim sp args out
      else if c = ch CHR ''r'' then conv_int 64 (sp\<lparr>fs_sign := True\<rparr>) args
      else if c = ch CHR ''p'' then
        conv_int 64 (sp\<lparr>fs_hex := 2, fs_sign := False, fs_zero := ch CHR ''0'', fs_width := 16\<rparr>) args
      else if c = ch CHR ''c'' then conv_char args out
      else if c = ch CHR ''Z'' then Some (Inl (out @ [0]), args)
      else if c = ch CHR ''N'' then Some (Inl (out @ [LF]), args)
      else if c = ch CHR ''%'' then Some (Inl (out @ [ch CHR ''%'']), args)
      else Some (Inl (out @ [c]), args))"

text \<open>The end of a numeric conversion: the minus sign and the digits.\<close>

definition fmt_number :: "nat \<Rightarrow> fmt_spec \<Rightarrow> int \<Rightarrow> u_char list \<Rightarrow> u_char list" where
  "fmt_number lim sp x out =
     (if fs_sign sp \<and> x < 0
      then ngx_sprintf_num lim (nat (take_bit 64 (- x))) (fs_zero sp) (fs_hex sp) (fs_width sp)
        (out @ [ch CHR ''-''])
      else ngx_sprintf_num lim (nat x) (fs_zero sp) (fs_hex sp) (fs_width sp) out)"

text \<open>One directive: \<open>fmt\<close> is what follows the percent sign.  \<open>None\<close> at a format that ends there.\<close>

definition fmt_directive :: "nat \<Rightarrow> u_char list \<Rightarrow> varg list \<Rightarrow> u_char list \<Rightarrow>
    (u_char list \<times> varg list \<times> u_char list) option" where
  "fmt_directive lim fmt args out =
     (let zero = (if byte_at fmt = ch CHR ''0'' then ch CHR ''0'' else ch CHR '' '');
          (width, fmt) = fmt_digits fmt 0 in
      case fmt_flags \<lparr>fs_zero = zero, fs_width = width, fs_sign = True, fs_hex = 0,
          fs_max_width = False, fs_frac_width = 0, fs_slen = None\<rparr> fmt args of
        None \<Rightarrow> None
      | Some (sp, [], args) \<Rightarrow> None
      | Some (sp, c # fmt, args) \<Rightarrow>
          (case fmt_conv lim sp c args out of
             None \<Rightarrow> None
           | Some (Inl out, args) \<Rightarrow> Some (fmt, args, out)
           | Some (Inr (sp, x), args) \<Rightarrow> Some (fmt, args, fmt_number lim sp x out)))"

lemma fmt_digits_length: "length (snd (fmt_digits fmt w)) \<le> length fmt"
  by (induction fmt w rule: fmt_digits.induct) (auto simp: le_SucI)

lemma fmt_flags_length: "fmt_flags sp fmt args = Some (sp', fmt', args') \<Longrightarrow> length fmt' \<le> length fmt"
proof (induction sp fmt args rule: fmt_flags.induct)
  case (2 sp c fmt args)
  then show ?case
    using fmt_digits_length [of fmt "fs_frac_width sp"]
    by (auto simp: Let_def split: if_splits list.splits varg.splits prod.splits intro: le_SucI)
qed simp

lemma fmt_directive_length:
  assumes "fmt_directive lim fmt args out = Some (fmt', args', out')"
  shows "length fmt' < length fmt"
proof -
  obtain w f where d: "fmt_digits fmt 0 = (w, f)" by fastforce
  then have "length f \<le> length fmt" using fmt_digits_length [of fmt 0] by simp
  with assms d show ?thesis
    by (auto simp: fmt_directive_def Let_def dest!: fmt_flags_length
        split: option.splits list.splits prod.splits sum.splits)
qed

function ngx_vslprintf :: "nat \<Rightarrow> u_char list \<Rightarrow> varg list \<Rightarrow> u_char list \<Rightarrow> u_char list option" where
  "ngx_vslprintf lim [] args out = Some out"
| "ngx_vslprintf lim (c # fmt) args out =
     (if c = 0 \<or> \<not> length out < lim then Some out
      else if c = ch CHR ''%'' then
        (case fmt_directive lim fmt args out of
           None \<Rightarrow> None
         | Some (fmt', args', out') \<Rightarrow> ngx_vslprintf lim fmt' args' out')
      else ngx_vslprintf lim fmt args (out @ [c]))"
  by pat_completeness auto
termination
  by (relation "measure (\<lambda>(lim, fmt, args, out). length fmt)") (auto dest: fmt_directive_length)

text \<open>
  The wrappers.  \<^verbatim>\<open>ngx_sprintf\<close> passes \<^verbatim>\<open>(void *) -1\<close> as \<open>last\<close>: the room is what the address space has
  after the address \<open>buf\<close>.
\<close>

definition ngx_sprintf :: "nat \<Rightarrow> u_char list \<Rightarrow> varg list \<Rightarrow> u_char list option" where
  "ngx_sprintf buf fmt args = ngx_vslprintf (2 ^ 64 - 1 - buf) fmt args []"

definition ngx_snprintf :: "nat \<Rightarrow> u_char list \<Rightarrow> varg list \<Rightarrow> u_char list option" where
  "ngx_snprintf max_len fmt args = ngx_vslprintf max_len fmt args []"

definition ngx_slprintf :: "nat \<Rightarrow> nat \<Rightarrow> u_char list \<Rightarrow> varg list \<Rightarrow> u_char list option" where
  "ngx_slprintf buf lst fmt args = ngx_vslprintf (lst - buf) fmt args []"

section \<open>Digits\<close>

lemma dec_loop32_eq: "dec_loop32 n p = dec_loop64 n p"
proof (induction n p rule: dec_loop32.induct)
  case (1 n p)
  then show ?case by (subst dec_loop32.simps, subst dec_loop64.simps) (simp add: Let_def)
qed

lemma dec_loop64_append: "dec_loop64 n (p @ q) = dec_loop64 n p @ q"
proof (induction n p rule: dec_loop64.induct)
  case (1 n p)
  then show ?case by (subst (1 2) dec_loop64.simps) (simp add: Let_def)
qed

lemma dec_loop64_rec:
  "dec_loop64 n [] = (if n < 10 then [] else dec_loop64 (n div 10) []) @ [of_nat (n mod 10 + 48)]"
  using dec_loop64_append [of "n div 10" "[]" "[of_nat (n mod 10 + 48)]"]
  by (subst dec_loop64.simps) (simp add: Let_def div_eq_0_iff)

lemma digit_byte:
  assumes "d < 10"
  shows "is_digit (of_nat (d + 48))" "digit_val (of_nat (d + 48)) = int d"
proof -
  have u: "unat (of_nat (d + 48) :: u_char) = d + 48" using assms by (intro unat_byte_of_nat) simp
  show "is_digit (of_nat (d + 48))"
    unfolding is_digit_def word_le_nat_alt u using assms by simp
  have "uint (of_nat (d + 48) :: u_char) = int (d + 48)"
    using arg_cong [OF u, of int] by (simp del: of_nat_add)
  then show "digit_val (of_nat (d + 48)) = int d" by (simp add: digit_val_def)
qed

lemma dec_loop64_digits: "list_all is_digit (dec_loop64 n []) \<and> dec_val (dec_loop64 n []) = int n"
proof (induction n rule: less_induct)
  case (less n)
  have d: "is_digit (of_nat (n mod 10 + 48))" "digit_val (of_nat (n mod 10 + 48)) = int n mod 10"
    using digit_byte [of "n mod 10"] by (simp_all add: zmod_int)
  show ?case
  proof (cases "n < 10")
    case True
    with d show ?thesis by (subst (1 2) dec_loop64_rec) simp
  next
    case False
    then have "n div 10 < n" by simp
    from less [OF this] False d show ?thesis
      by (subst (1 2) dec_loop64_rec) (simp add: radix_val_append zdiv_int)
  qed
qed

lemma dec_loop64_nonempty [simp]: "dec_loop64 n [] \<noteq> []"
  by (subst dec_loop64_rec) simp

lemma dec_loop64_length: "n < 10 ^ k \<Longrightarrow> 0 < k \<Longrightarrow> length (dec_loop64 n []) \<le> k"
proof (induction k arbitrary: n)
  case (Suc k)
  show ?case
  proof (cases "n < 10")
    case False
    then have "k \<noteq> 0" using Suc.prems by (intro notI) simp
    moreover have "n div 10 < 10 ^ k" using Suc.prems by (simp add: less_mult_imp_div_less)
    ultimately show ?thesis using Suc.IH [of "n div 10"] False
      by (subst dec_loop64_rec) simp
  qed (subst dec_loop64_rec, simp)
qed simp

lemma hex_loop_append: "hex_loop ds n (p @ q) = hex_loop ds n p @ q"
proof (induction ds n p rule: hex_loop.induct)
  case (1 ds n p)
  then show ?case by (subst (1 2) hex_loop.simps) (simp add: Let_def)
qed

lemma hex_loop_rec:
  "hex_loop ds n [] = (if n < 16 then [] else hex_loop ds (n div 16) []) @ [ds ! (n mod 16)]"
  using hex_loop_append [of ds "n div 16" "[]" "[ds ! (n mod 16)]"]
  by (subst hex_loop.simps) (simp add: Let_def div_eq_0_iff)

lemma hex_loop_length: "n < 16 ^ k \<Longrightarrow> 0 < k \<Longrightarrow> length (hex_loop ds n []) \<le> k"
proof (induction k arbitrary: n)
  case (Suc k)
  show ?case
  proof (cases "n < 16")
    case False
    then have "k \<noteq> 0" using Suc.prems by (intro notI) simp
    moreover have "n div 16 < 16 ^ k" using Suc.prems by (simp add: less_mult_imp_div_less)
    ultimately show ?thesis using Suc.IH [of "n div 16"] False
      by (subst hex_loop_rec) simp
  qed (subst hex_loop_rec, simp)
qed simp

text \<open>What a digit table must provide for the value to be read back.\<close>

lemma hex_tables:
  assumes "d < 16"
  shows "is_hex (hex_lower ! d) \<and> hex_digit_val (hex_lower ! d) = int d"
    "is_hex (hex_upper ! d) \<and> hex_digit_val (hex_upper ! d) = int d"
proof -
  have "list_all (\<lambda>d. is_hex (hex_lower ! d) \<and> hex_digit_val (hex_lower ! d) = int d \<and>
      is_hex (hex_upper ! d) \<and> hex_digit_val (hex_upper ! d) = int d) [0..<16]"
    by code_simp
  with assms show "is_hex (hex_lower ! d) \<and> hex_digit_val (hex_lower ! d) = int d"
    "is_hex (hex_upper ! d) \<and> hex_digit_val (hex_upper ! d) = int d"
    by (simp_all add: list_all_iff del: upt_rec_numeral)
qed

lemma hex_loop_digits:
  assumes "ds = hex_lower \<or> ds = hex_upper"
  shows "list_all is_hex (hex_loop ds n []) \<and> hex_val (hex_loop ds n []) = int n"
proof (induction n rule: less_induct)
  case (less n)
  have d: "is_hex (ds ! (n mod 16))" "hex_digit_val (ds ! (n mod 16)) = int n mod 16"
    using hex_tables [of "n mod 16"] assms by (auto simp: zmod_int)
  show ?case
  proof (cases "n < 16")
    case True
    with d show ?thesis by (subst (1 2) hex_loop_rec) simp
  next
    case False
    then have "n div 16 < n" by simp
    from less [OF this] False d show ?thesis
      by (subst (1 2) hex_loop_rec) (simp add: radix_val_append zdiv_int)
  qed
qed

section \<open>The output stays before \<^verbatim>\<open>last\<close>\<close>

lemma sprintf_pad_eq:
  "sprintf_pad lim z len w out = out @ replicate (min (w - len) (lim - length out)) z"
proof (induction lim z len w out rule: sprintf_pad.induct)
  case (1 lim z len w out)
  show ?case
  proof (cases "len < w \<and> length out < lim")
    case True
    then have "min (w - len) (lim - length out) =
        Suc (min (w - (len + 1)) (lim - length (out @ [z])))" by auto
    with 1 True show ?thesis by (subst sprintf_pad.simps) simp
  next
    case False
    then have "min (w - len) (lim - length out) = 0" by auto
    with False show ?thesis by (subst sprintf_pad.simps) auto
  qed
qed

lemma sprintf_num_bounded:
  "length out \<le> lim \<Longrightarrow> length (ngx_sprintf_num lim n z h w out) \<le> lim"
  by (auto simp: ngx_sprintf_num_def sprintf_pad_eq Let_def)

lemma str_loop_bounded: "length out \<le> lim \<Longrightarrow> length (str_loop lim src out) \<le> lim"
  by (induction lim src out rule: str_loop.induct) auto

lemma hexstr_loop_bounded: "length out \<le> lim \<Longrightarrow> length (hexstr_loop lim ds src out) \<le> lim"
  by (induction lim ds src out rule: hexstr_loop.induct) (auto simp: hex_byte_def)

lemma hexlen_loop_bounded: "length out \<le> lim \<Longrightarrow> length (hexlen_loop lim ds src out) \<le> lim"
  by (induction lim ds src out rule: hexlen_loop.induct) (auto simp: hex_byte_def)

lemma sprintf_str_bounded:
  "ngx_sprintf_str lim src len h out = Some out' \<Longrightarrow> length out \<le> lim \<Longrightarrow> length out' \<le> lim"
  by (auto simp: ngx_sprintf_str_def str_loop_bounded hexstr_loop_bounded hexlen_loop_bounded
      split: option.splits if_splits)

lemma conv_float_bounded:
  assumes "conv_float lim sp args out = Some (Inl out', args')" "length out < lim"
  shows "length out' \<le> lim"
proof -
  let ?dot = "\<lambda>o1. if length o1 < lim then o1 @ [ch CHR ''.''] else o1"
  obtain neg ip fr where "args = V_double neg ip fr # args'"
    using assms(1) by (auto simp: conv_float_def Let_def split: list.splits varg.splits prod.splits)
  then obtain ui frac where o: "let o1 = ngx_sprintf_num lim ui (fs_zero sp) 0 (fs_width sp) (if neg then out @ [ch CHR ''-''] else out) in
      out' = (if fs_frac_width sp \<noteq> 0 then ngx_sprintf_num lim frac (ch CHR ''0'') 0 (fs_frac_width sp) (?dot o1) else o1)"
    using assms(1) by (auto simp: conv_float_def Let_def split: prod.splits)
  have "length (ngx_sprintf_num lim ui (fs_zero sp) 0 (fs_width sp) (if neg then out @ [ch CHR ''-''] else out)) \<le> lim"
    using assms(2) by (intro sprintf_num_bounded) simp
  then show ?thesis using o by (auto simp: Let_def sprintf_num_bounded split: if_splits)
qed

lemma fmt_conv_bounded:
  "fmt_conv lim sp c args out = Some (Inl out', args') \<Longrightarrow> length out < lim \<Longrightarrow> length out' \<le> lim"
  by (auto simp: fmt_conv_def conv_str_def conv_int_def conv_msec_def conv_char_def Let_def
      split: if_splits list.splits varg.splits option.splits dest: sprintf_str_bounded conv_float_bounded)

lemma fmt_number_bounded: "length out < lim \<Longrightarrow> length (fmt_number lim sp x out) \<le> lim"
  by (simp add: fmt_number_def sprintf_num_bounded)

lemma fmt_directive_bounded:
  "fmt_directive lim fmt args out = Some (fmt', args', out') \<Longrightarrow> length out < lim \<Longrightarrow> length out' \<le> lim"
  by (auto simp: fmt_directive_def Let_def fmt_number_bounded dest: fmt_conv_bounded
      split: option.splits list.splits prod.splits sum.splits)

lemma vslprintf_bounded:
  "ngx_vslprintf lim fmt args out = Some out' \<Longrightarrow> length out \<le> lim \<Longrightarrow> length out' \<le> lim"
proof (induction lim fmt args out rule: ngx_vslprintf.induct)
  case (2 lim c fmt args out)
  then show ?case
    by (auto split: if_splits option.splits dest: fmt_directive_bounded)
qed simp

section \<open>Properties\<close>

lemma sprintf_digits_eq:
  "sprintf_digits n h =
     (if h = 0 then dec_loop64 n [] else hex_loop (if h = 1 then hex_lower else hex_upper) n [])"
  by (simp add: sprintf_digits_def dec_loop32_eq)

lemma sprintf_digits_fit: "n < 2 ^ 64 \<Longrightarrow> length (sprintf_digits n h) \<le> 20"
  using dec_loop64_length [of n 20] hex_loop_length [of n 16 hex_lower]
    hex_loop_length [of n 16 hex_upper]
  by (auto simp: sprintf_digits_eq)

lemma sprintf_num_room:
  assumes "length out + max w (length (sprintf_digits n h)) \<le> lim"
  shows "ngx_sprintf_num lim n z h w out =
     out @ replicate (w - length (sprintf_digits n h)) z @ sprintf_digits n h"
  using assms by (auto simp: ngx_sprintf_num_def Let_def sprintf_pad_eq min_def)

text \<open>
  C36: for every format, all conversions included, and the arguments that it asks for, \<^verbatim>\<open>ngx_snprintf(buf, max, ...)\<close> writes at most \<open>max\<close>
  bytes; and the digits of a 64-bit number, decimal or hexadecimal, never overrun the 20 bytes
  of \<^verbatim>\<open>temp\<close>.
\<close>

theorem ngx_snprintf_bounded:
  assumes "ngx_snprintf max_len fmt args = Some out" "ui64 < 2 ^ 64"
  shows "length out \<le> max_len \<and> length (sprintf_digits ui64 hexadecimal) \<le> 20"
  using assms vslprintf_bounded [of max_len fmt args "[]" out] sprintf_digits_fit [of ui64]
  by (simp add: ngx_snprintf_def)

lemma sample_float:
  "fmt_directive 5 [46, 50, 102] [V_double True (Suc 0) (\<lambda>s. s div 2)] [120, 61] = Some ([], [], [120, 61, 45, 49, 46])"
proof -
  have dec: "dec_loop32 (Suc 0) [] = [49]" "dec_loop32 50 [] = [53, 48]"
    by (subst dec_loop32.simps, simp)+
  have n: "ngx_sprintf_num 5 (Suc 0) z 0 0 [120, 61, 45] = [120, 61, 45, 49]"
    "ngx_sprintf_num 5 50 48 0 (Suc (Suc 0)) [120, 61, 45, 49, 46] = [120, 61, 45, 49, 46]" for z
    by (simp_all add: ngx_sprintf_num_def sprintf_digits_def dec sprintf_pad_eq)
  show ?thesis by (simp add: fmt_directive_def Let_def fmt_conv_def conv_float_def n)
qed

theorem ngx_snprintf_bounded_witness:
  "ngx_snprintf 5 (bytes ''%V=%.2f'') [V_str (bytes ''x''), V_double True 1 (\<lambda>s. s div 2)] = Some (bytes ''x=-1.'') \<and>
   length (bytes ''x=-1.'') \<le> 5 \<and> length (sprintf_digits (2 ^ 64 - 1) 0) \<le> 20"
proof -
  have "ngx_snprintf 5 (bytes ''%V=%.2f'') [V_str (bytes ''x''), V_double True 1 (\<lambda>s. s div 2)] = Some (bytes ''x=-1.'')"
  proof -
    have "fmt_directive 5 (86 # f) (V_str [120] # args) [] = Some (f, args, [120])" for f args
      by (simp add: fmt_directive_def Let_def fmt_conv_def conv_str_def ngx_sprintf_str_def)
    then show ?thesis by (simp add: ngx_snprintf_def bytes_def sample_float)
  qed
  moreover from ngx_snprintf_bounded [OF this, of "2 ^ 64 - 1" 0]
  have "length (bytes ''x=-1.'') \<le> 5 \<and> length (sprintf_digits (2 ^ 64 - 1) 0) \<le> 20" by simp
  ultimately show ?thesis by blast
qed

lemma snprintf_ui:
  assumes "n < 2 ^ 64"
  shows "ngx_snprintf 20 (bytes ''%ui'') [V_int (int n)] = Some (dec_loop64 n [])"
    "ngx_snprintf 20 (bytes ''%xi'') [V_int (int n)] = Some (hex_loop hex_lower n [])"
proof -
  have n: "take_bit 64 (int n) = int n" using assms by (simp add: take_bit_int_eq_self)
  have "ngx_sprintf_num 20 n z h 0 [] = sprintf_digits n h" for z h
    using sprintf_num_room [of "[]" 0 n h 20 z] sprintf_digits_fit [OF assms, of h] by simp
  with n show "ngx_snprintf 20 (bytes ''%ui'') [V_int (int n)] = Some (dec_loop64 n [])"
    "ngx_snprintf 20 (bytes ''%xi'') [V_int (int n)] = Some (hex_loop hex_lower n [])"
    by (simp_all add: ngx_snprintf_def bytes_def fmt_directive_def Let_def fmt_conv_def conv_int_def
        fmt_number_def sprintf_digits_eq)
qed

text \<open>
  Printing a non-negative \<^verbatim>\<open>ngx_int_t\<close> with \<^verbatim>\<open>%ui\<close> or \<^verbatim>\<open>%xi\<close> and reading it back with \<^verbatim>\<open>ngx_atoi\<close> or
  \<^verbatim>\<open>ngx_hextoi\<close> gives the number.
\<close>

theorem sprintf_atoi_roundtrip:
  assumes "0 \<le> n" "n \<le> NGX_MAX_INT_T_VALUE"
  shows "\<exists>d h. ngx_snprintf 20 (bytes ''%ui'') [V_int n] = Some d \<and> ngx_atoi d = n \<and>
    ngx_snprintf 20 (bytes ''%xi'') [V_int n] = Some h \<and> ngx_hextoi h = n"
proof -
  have n: "nat n < 2 ^ 64" "int (nat n) = n" using assms by (simp_all add: ngx_consts)
  have "hex_loop hex_lower (nat n) [] \<noteq> []" by (subst hex_loop_rec) simp
  with n assms show ?thesis
    using snprintf_ui [OF n(1)] dec_loop64_digits [of "nat n"] hex_loop_digits [of hex_lower "nat n"]
    by (simp add: atoi.parse_spec hextoi_spec)
qed

theorem sprintf_atoi_roundtrip_witness:
  "\<exists>d h. ngx_snprintf 20 (bytes ''%ui'') [V_int 48879] = Some d \<and> ngx_atoi d = 48879 \<and>
    ngx_snprintf 20 (bytes ''%xi'') [V_int 48879] = Some h \<and> ngx_hextoi h = 48879"
  by (rule sprintf_atoi_roundtrip) (simp_all add: ngx_consts)

end
