(* ===== verification/Ngx_Parse.thy ===== *)
theory Ngx_Parse
  imports Ngx_Num
begin

text \<open>
  The configuration value parsers of \<^verbatim>\<open>src/core/ngx_parse.c\<close>: \<^verbatim>\<open>ngx_parse_size\<close>,
  \<^verbatim>\<open>ngx_parse_offset\<close> and \<^verbatim>\<open>ngx_parse_time\<close>.

  The results are signed 64-bit integers.  In \<^verbatim>\<open>ngx_parse_time\<close> every addition and
  multiplication goes through \<open>chk\<close>, which is \<open>None\<close> on signed overflow (undefined in C); that the
  parser always returns is then the absence of overflow.
\<close>

section \<open>Sizes and offsets\<close>

definition is_unit :: "char \<Rightarrow> char \<Rightarrow> u_char \<Rightarrow> bool" where
  "is_unit a b c \<longleftrightarrow> c = ch a \<or> c = ch b"

definition ngx_parse_size :: "u_char list \<Rightarrow> int" where
  "ngx_parse_size line =
     (let len = length line in
      if len = 0 then NGX_ERROR
      else
        let unit = line ! (len - 1);
            (len, max_v, scale) =
              (if is_unit CHR ''K'' CHR ''k'' unit then (len - 1, NGX_MAX_SIZE_T_VALUE div 1024, 1024)
               else if is_unit CHR ''M'' CHR ''m'' unit
               then (len - 1, NGX_MAX_SIZE_T_VALUE div (1024 * 1024), 1024 * 1024)
               else (len, NGX_MAX_SIZE_T_VALUE, 1));
            size = ngx_atosz (take len line) in
        if size = NGX_ERROR \<or> size > max_v then NGX_ERROR else size * scale)"

definition ngx_parse_offset :: "u_char list \<Rightarrow> int" where
  "ngx_parse_offset line =
     (let len = length line in
      if len = 0 then NGX_ERROR
      else
        let unit = line ! (len - 1);
            (len, max_v, scale) =
              (if is_unit CHR ''K'' CHR ''k'' unit then (len - 1, NGX_MAX_OFF_T_VALUE div 1024, 1024)
               else if is_unit CHR ''M'' CHR ''m'' unit
               then (len - 1, NGX_MAX_OFF_T_VALUE div (1024 * 1024), 1024 * 1024)
               else if is_unit CHR ''G'' CHR ''g'' unit
               then (len - 1, NGX_MAX_OFF_T_VALUE div (1024 * 1024 * 1024), 1024 * 1024 * 1024)
               else (len, NGX_MAX_OFF_T_VALUE, 1));
            offset = ngx_atoof (take len line) in
        if offset = NGX_ERROR \<or> offset > max_v then NGX_ERROR else offset * scale)"

section \<open>Times\<close>

datatype time_step = st_start | st_year | st_month | st_week | st_day | st_hour | st_min
  | st_sec | st_msec | st_last

fun step_no :: "time_step \<Rightarrow> nat" where
  "step_no st_start = 0"
| "step_no st_year = 1"
| "step_no st_month = 2"
| "step_no st_week = 3"
| "step_no st_day = 4"
| "step_no st_hour = 5"
| "step_no st_min = 6"
| "step_no st_sec = 7"
| "step_no st_msec = 8"
| "step_no st_last = 9"

text \<open>
  The \<^verbatim>\<open>switch\<close> on the unit: \<open>None\<close> for the error returns, otherwise the new step, \<open>max\<close>, \<open>scale\<close>,
  and what is left of the line.  \<open>c\<close> is the unit and \<open>p\<close> what follows it.
\<close>

definition time_unit ::
  "bool \<Rightarrow> time_step \<Rightarrow> u_char \<Rightarrow> u_char list \<Rightarrow> (time_step \<times> int \<times> int \<times> u_char list) option" where
  "time_unit is_sec step c p =
     (if c = ch CHR ''y'' then
        if step_no step > step_no st_start then None
        else Some (st_year, NGX_MAX_INT_T_VALUE div (60 * 60 * 24 * 365), 60 * 60 * 24 * 365, p)
      else if c = ch CHR ''M'' then
        if step_no step \<ge> step_no st_month then None
        else Some (st_month, NGX_MAX_INT_T_VALUE div (60 * 60 * 24 * 30), 60 * 60 * 24 * 30, p)
      else if c = ch CHR ''w'' then
        if step_no step \<ge> step_no st_week then None
        else Some (st_week, NGX_MAX_INT_T_VALUE div (60 * 60 * 24 * 7), 60 * 60 * 24 * 7, p)
      else if c = ch CHR ''d'' then
        if step_no step \<ge> step_no st_day then None
        else Some (st_day, NGX_MAX_INT_T_VALUE div (60 * 60 * 24), 60 * 60 * 24, p)
      else if c = ch CHR ''h'' then
        if step_no step \<ge> step_no st_hour then None
        else Some (st_hour, NGX_MAX_INT_T_VALUE div (60 * 60), 60 * 60, p)
      else if c = ch CHR ''m'' then
        if p \<noteq> [] \<and> hd p = ch CHR ''s'' then
          if is_sec \<or> step_no step \<ge> step_no st_msec then None
          else Some (st_msec, NGX_MAX_INT_T_VALUE, 1, tl p)
        else if step_no step \<ge> step_no st_min then None
        else Some (st_min, NGX_MAX_INT_T_VALUE div 60, 60, p)
      else if c = ch CHR ''s'' then
        if step_no step \<ge> step_no st_sec then None
        else Some (st_sec, NGX_MAX_INT_T_VALUE, 1, p)
      else if c = ch CHR '' '' then
        if step_no step \<ge> step_no st_sec then None
        else Some (st_last, NGX_MAX_INT_T_VALUE, 1, p)
      else None)"

text \<open>Signed 64-bit arithmetic: \<open>None\<close> on overflow.\<close>

definition chk :: "int \<Rightarrow> int option" where
  "chk x = (if - NGX_MAX_INT_T_VALUE - 1 \<le> x \<and> x \<le> NGX_MAX_INT_T_VALUE then Some x else None)"

lemma time_unit_length: "time_unit is_sec step c p = Some (st, m, sc, q) \<Longrightarrow> length q \<le> length p"
  by (auto simp: time_unit_def split: if_splits)

text \<open>The part of the loop body after the \<^verbatim>\<open>switch\<close>: the new total, or \<open>NGX_ERROR\<close> as \<open>Inl\<close>.\<close>

definition time_add :: "bool \<Rightarrow> time_step \<Rightarrow> int \<Rightarrow> int \<Rightarrow> int \<Rightarrow> int \<Rightarrow> (int + int) option" where
  "time_add is_sec step max_v scale value tot =
     (let (scale, max_v) =
        (if step \<noteq> st_msec \<and> \<not> is_sec then (scale * 1000, max_v div 1000) else (scale, max_v)) in
      if value > max_v then Some (Inl NGX_ERROR)
      else
        case chk (value * scale) of
          None \<Rightarrow> None
        | Some value \<Rightarrow>
            if tot > NGX_MAX_INT_T_VALUE - value then Some (Inl NGX_ERROR)
            else case chk (tot + value) of None \<Rightarrow> None | Some tot \<Rightarrow> Some (Inr tot))"

definition time_end :: "bool \<Rightarrow> bool \<Rightarrow> int \<Rightarrow> int \<Rightarrow> int option" where
  "time_end is_sec valid value tot =
     (if \<not> valid then Some NGX_ERROR
      else if \<not> is_sec \<and> value > NGX_MAX_INT_T_VALUE div 1000 then Some NGX_ERROR
      else
        case chk (if is_sec then value else value * 1000) of
          None \<Rightarrow> None
        | Some value \<Rightarrow>
            if tot > NGX_MAX_INT_T_VALUE - value then Some NGX_ERROR else chk (tot + value))"

function time_loop ::
  "bool \<Rightarrow> time_step \<Rightarrow> bool \<Rightarrow> int \<Rightarrow> int \<Rightarrow> u_char list \<Rightarrow> int option" where
  "time_loop is_sec step valid value tot [] = time_end is_sec valid value tot"
| "time_loop is_sec step valid value tot (c # p) =
     (if c \<ge> ch CHR ''0'' \<and> c \<le> ch CHR ''9'' then
        let cutoff = NGX_MAX_INT_T_VALUE div 10; cutlim = NGX_MAX_INT_T_VALUE mod 10 in
        if value \<ge> cutoff \<and> (value > cutoff \<or> uint c - 48 > cutlim) then Some NGX_ERROR
        else
          (case chk (value * 10 + (uint c - 48)) of
             None \<Rightarrow> None
           | Some value \<Rightarrow> time_loop is_sec step True value tot p)
      else
        case time_unit is_sec step c p of
          None \<Rightarrow> Some NGX_ERROR
        | Some (step, max_v, scale, q) \<Rightarrow>
            (case time_add is_sec step max_v scale value tot of
               None \<Rightarrow> None
             | Some (Inl e) \<Rightarrow> Some e
             | Some (Inr tot) \<Rightarrow>
                 time_loop is_sec step valid 0 tot (dropWhile (\<lambda>c. c = ch CHR '' '') q)))"
  by pat_completeness auto
termination
proof (relation "measure (\<lambda>(is_sec, step, valid, v, tot, p). length p)")
  fix is_sec step valid c p x a b m s q
  fix v tot r t :: int
  assume "time_unit is_sec step c p = Some x" "(a, b) = x" "(m, s) = b" "(r, q) = s"
  then have "length q \<le> length p" by (auto dest: time_unit_length)
  with length_dropWhile_le [of "\<lambda>c. c = ch CHR '' ''" q]
  show "((is_sec, a, valid, 0, t, dropWhile (\<lambda>c. c = ch CHR '' '') q),
      is_sec, step, valid, v, tot, c # p)
      \<in> measure (\<lambda>(is_sec, step, valid, v, tot, p). length p)" by simp
qed auto

definition ngx_parse_time :: "u_char list \<Rightarrow> bool \<Rightarrow> int option" where
  "ngx_parse_time line is_sec =
     time_loop is_sec (if is_sec then st_start else st_month) False 0 0 line"

section \<open>Sizes and offsets are exact\<close>

lemma scaled_limit:
  fixes v lim sc :: int
  assumes "0 < sc"
  shows "v \<le> lim div sc \<longleftrightarrow> v * sc \<le> lim"
proof
  assume "v \<le> lim div sc"
  then have "v * sc \<le> lim div sc * sc" using assms by (simp add: mult_right_mono)
  also have "\<dots> \<le> lim" using assms pos_mod_sign [of sc lim] div_mult_mod_eq [of lim sc] by linarith
  finally show "v * sc \<le> lim" .
next
  assume "v * sc \<le> lim"
  from zdiv_mono1 [OF this assms] assms show "v \<le> lim div sc" by simp
qed

text \<open>What a number with a unit suffix denotes: \<open>None\<close> if malformed.\<close>

definition unit_scale_size :: "u_char \<Rightarrow> int" where
  "unit_scale_size c = (if is_unit CHR ''K'' CHR ''k'' c then 1024
     else if is_unit CHR ''M'' CHR ''m'' c then 1024 ^ 2 else 1)"

definition unit_scale_offset :: "u_char \<Rightarrow> int" where
  "unit_scale_offset c = (if is_unit CHR ''G'' CHR ''g'' c then 1024 ^ 3 else unit_scale_size c)"

definition scaled_number :: "(u_char \<Rightarrow> int) \<Rightarrow> u_char list \<Rightarrow> int option" where
  "scaled_number scale line =
     (if line = [] then None
      else
        let sc = scale (last line); ds = (if sc = 1 then line else butlast line) in
        if ds \<noteq> [] \<and> list_all is_digit ds then Some (dec_val ds * sc) else None)"

definition exact_or_error :: "int \<Rightarrow> int option \<Rightarrow> int" where
  "exact_or_error lim x = (case x of Some v \<Rightarrow> if v \<le> lim then v else NGX_ERROR | None \<Rightarrow> NGX_ERROR)"

lemma dec_val_nonneg: "list_all is_digit ds \<Longrightarrow> 0 \<le> dec_val ds"
  using radix_val_ge [of 10 0 digit_val ds] digits_nonneg by simp

lemma scaled_parse:
  assumes "decimal_parser parse lim" "1 \<le> sc"
  shows "(if parse ds = NGX_ERROR \<or> lim div sc < parse ds then NGX_ERROR else parse ds * sc) =
    exact_or_error lim (if ds \<noteq> [] \<and> list_all is_digit ds then Some (dec_val ds * sc) else None)"
proof (cases "ds \<noteq> [] \<and> list_all is_digit ds")
  case True
  then have nn: "0 \<le> dec_val ds" by (simp add: dec_val_nonneg)
  have sp: "parse ds = (if dec_val ds \<le> lim then dec_val ds else NGX_ERROR)"
    using decimal_parser.parse_spec [OF assms(1), of ds] True by auto
  have "dec_val ds \<le> dec_val ds * sc" using mult_left_mono [OF assms(2) nn] by simp
  moreover have "dec_val ds \<le> lim div sc \<longleftrightarrow> dec_val ds * sc \<le> lim"
    using assms(2) by (intro scaled_limit) simp
  ultimately show ?thesis using True nn sp by (auto simp: exact_or_error_def not_le)
next
  case False
  then have "parse ds = NGX_ERROR" using decimal_parser.parse_spec [OF assms(1), of ds] by auto
  with False show ?thesis by (auto simp: exact_or_error_def)
qed

lemma nth_last: "line \<noteq> [] \<Longrightarrow> line ! (length line - Suc 0) = last line"
  by (simp add: last_conv_nth)

lemma parse_size_scaled:
  assumes "line \<noteq> []"
  defines "sc \<equiv> unit_scale_size (last line)"
  defines "ds \<equiv> if sc = 1 then line else butlast line"
  shows "ngx_parse_size line =
    (if ngx_atosz ds = NGX_ERROR \<or> NGX_MAX_SIZE_T_VALUE div sc < ngx_atosz ds then NGX_ERROR
     else ngx_atosz ds * sc)"
proof -
  consider "last line = ch CHR ''K''" | "last line = ch CHR ''k''" | "last line = ch CHR ''M''" | "last line = ch CHR ''m''"
    | "\<not> is_unit CHR ''K'' CHR ''k'' (last line)" "\<not> is_unit CHR ''M'' CHR ''m'' (last line)"
    unfolding is_unit_def by blast
  then show ?thesis
    unfolding ds_def sc_def using assms(1)
    by cases (simp_all add: ngx_parse_size_def unit_scale_size_def unit_scale_offset_def is_unit_def
        Let_def nth_last butlast_conv_take)
qed

lemma parse_size_exact:
  "ngx_parse_size line = exact_or_error NGX_MAX_SIZE_T_VALUE (scaled_number unit_scale_size line)"
proof (cases "line = []")
  case False
  have "1 \<le> unit_scale_size (last line)" by (simp add: unit_scale_size_def unit_scale_offset_def)
  with False show ?thesis
    using parse_size_scaled [OF False] scaled_parse [OF atosz.decimal_parser_axioms]
    by (simp add: scaled_number_def Let_def)
qed (simp add: ngx_parse_size_def scaled_number_def exact_or_error_def)

lemma parse_offset_scaled:
  assumes "line \<noteq> []"
  defines "sc \<equiv> unit_scale_offset (last line)"
  defines "ds \<equiv> if sc = 1 then line else butlast line"
  shows "ngx_parse_offset line =
    (if ngx_atoof ds = NGX_ERROR \<or> NGX_MAX_OFF_T_VALUE div sc < ngx_atoof ds then NGX_ERROR
     else ngx_atoof ds * sc)"
proof -
  consider "last line = ch CHR ''K''" | "last line = ch CHR ''k''" | "last line = ch CHR ''M''" | "last line = ch CHR ''m''"
    | "last line = ch CHR ''G''" | "last line = ch CHR ''g''"
    | "\<not> is_unit CHR ''K'' CHR ''k'' (last line)" "\<not> is_unit CHR ''M'' CHR ''m'' (last line)"
      "\<not> is_unit CHR ''G'' CHR ''g'' (last line)"
    unfolding is_unit_def by blast
  then show ?thesis
    unfolding ds_def sc_def using assms(1)
    by cases (simp_all add: ngx_parse_offset_def unit_scale_size_def unit_scale_offset_def is_unit_def
        Let_def nth_last butlast_conv_take)
qed

lemma parse_offset_exact:
  "ngx_parse_offset line = exact_or_error NGX_MAX_OFF_T_VALUE (scaled_number unit_scale_offset line)"
proof (cases "line = []")
  case False
  have "1 \<le> unit_scale_offset (last line)" by (simp add: unit_scale_size_def unit_scale_offset_def)
  with False show ?thesis
    using parse_offset_scaled [OF False] scaled_parse [OF atoof.decimal_parser_axioms]
    by (simp add: scaled_number_def Let_def)
qed (simp add: ngx_parse_offset_def scaled_number_def exact_or_error_def)

section \<open>Times do not overflow\<close>

abbreviation (input) in_range :: "int \<Rightarrow> bool" where
  "in_range x \<equiv> 0 \<le> x \<and> x \<le> NGX_MAX_INT_T_VALUE"

lemma chk_in_range: "in_range x \<Longrightarrow> chk x = Some x"
  by (simp add: chk_def ngx_consts)

text \<open>The units accepted, with the scale and limit the code gives them.\<close>

fun unit_seconds :: "time_step \<Rightarrow> int" where
  "unit_seconds st_year = 31536000"
| "unit_seconds st_month = 2592000"
| "unit_seconds st_week = 604800"
| "unit_seconds st_day = 86400"
| "unit_seconds st_hour = 3600"
| "unit_seconds st_min = 60"
| "unit_seconds _ = 1"

lemma time_unit_limit:
  "time_unit is_sec step c p = Some (st, m, sc, q) \<Longrightarrow>
   sc = unit_seconds st \<and> m = NGX_MAX_INT_T_VALUE div sc \<and> st \<noteq> st_start"
  by (auto simp: time_unit_def split: if_splits)

lemma unit_seconds_pos: "0 < unit_seconds st"
  by (cases st) simp_all

definition time_scale :: "bool \<Rightarrow> time_step \<Rightarrow> int" where
  "time_scale is_sec st = (if st \<noteq> st_msec \<and> \<not> is_sec then unit_seconds st * 1000 else unit_seconds st)"

lemma time_scale_pos: "0 < time_scale is_sec st"
  using unit_seconds_pos [of st] by (simp add: time_scale_def)

lemma time_add_exact:
  assumes "in_range v" "in_range tot"
  shows "time_add is_sec st (NGX_MAX_INT_T_VALUE div unit_seconds st) (unit_seconds st) v tot =
    Some (if tot + v * time_scale is_sec st \<le> NGX_MAX_INT_T_VALUE
          then Inr (tot + v * time_scale is_sec st) else Inl NGX_ERROR)"
proof -
  let ?s = "time_scale is_sec st"
  have lim: "v \<le> NGX_MAX_INT_T_VALUE div ?s \<longleftrightarrow> v * ?s \<le> NGX_MAX_INT_T_VALUE"
    by (rule scaled_limit [OF time_scale_pos])
  have nn: "0 \<le> v * ?s" using assms time_scale_pos [of is_sec st] by simp
  have "(if st \<noteq> st_msec \<and> \<not> is_sec
       then (unit_seconds st * 1000, NGX_MAX_INT_T_VALUE div unit_seconds st div 1000)
       else (unit_seconds st, NGX_MAX_INT_T_VALUE div unit_seconds st)) = (?s, NGX_MAX_INT_T_VALUE div ?s)"
    using unit_seconds_pos [of st] by (simp add: time_scale_def zdiv_zmult2_eq)
  moreover have "NGX_MAX_INT_T_VALUE div ?s < v \<longleftrightarrow> NGX_MAX_INT_T_VALUE < v * ?s"
    using lim by linarith
  ultimately show ?thesis using nn assms by (auto simp: time_add_def chk_in_range)
qed

lemma time_end_exact:
  assumes "in_range v" "in_range tot"
  shows "time_end is_sec valid v tot =
    Some (if valid \<and> tot + v * time_scale is_sec st_sec \<le> NGX_MAX_INT_T_VALUE
          then tot + v * time_scale is_sec st_sec else NGX_ERROR)"
proof -
  have "v \<le> NGX_MAX_INT_T_VALUE div 1000 \<longleftrightarrow> v * 1000 \<le> NGX_MAX_INT_T_VALUE"
    by (rule scaled_limit) simp
  with assms show ?thesis
    by (auto simp: time_end_def time_scale_def chk_in_range not_le)
qed

lemma time_loop_digit:
  assumes "is_digit c" "in_range v"
  shows "time_loop is_sec st valid v tot (c # p) =
    (if v * 10 + digit_val c \<le> NGX_MAX_INT_T_VALUE
     then time_loop is_sec st True (v * 10 + digit_val c) tot p else Some NGX_ERROR)"
proof -
  note b = digit_val_bounds [OF assms(1)]
  have c: "uint c - 48 = digit_val c" by (simp add: digit_val_def)
  have "chk (v * 10 + digit_val c) = Some (v * 10 + digit_val c)"
    if "v * 10 + digit_val c \<le> NGX_MAX_INT_T_VALUE" using that b assms by (simp add: chk_in_range)
  with assms cutoff_iff [of "digit_val c" NGX_MAX_INT_T_VALUE v] b show ?thesis
    by (auto simp: is_digit_def c Let_def)
qed

lemma time_loop_unit:
  assumes "\<not> is_digit c" "in_range v" "in_range tot"
  shows "time_loop is_sec st valid v tot (c # p) =
    (case time_unit is_sec st c p of
       None \<Rightarrow> Some NGX_ERROR
     | Some (st', m, sc, q) \<Rightarrow>
         if tot + v * time_scale is_sec st' \<le> NGX_MAX_INT_T_VALUE
         then time_loop is_sec st' valid 0 (tot + v * time_scale is_sec st')
           (dropWhile (\<lambda>c. c = ch CHR '' '') q)
         else Some NGX_ERROR)"
  using assms time_unit_limit [of is_sec st c p]
  by (auto simp: is_digit_def time_add_exact split: option.splits)

declare time_loop.simps(2) [simp del]

lemma time_loop_range:
  "in_range v \<Longrightarrow> in_range tot \<Longrightarrow>
   \<exists>r. time_loop is_sec st valid v tot p = Some r \<and> - 1 \<le> r \<and> r \<le> NGX_MAX_INT_T_VALUE"
proof (induction p arbitrary: st valid v tot rule: length_induct)
  case (1 p)
  have err: "- 1 \<le> NGX_MAX_INT_T_VALUE" by (simp add: ngx_consts)
  show ?case
  proof (cases p)
    case Nil
    have "0 \<le> v * time_scale is_sec st_sec" using 1 time_scale_pos [of is_sec st_sec] by simp
    with 1 Nil err show ?thesis by (simp add: time_end_exact)
  next
    case (Cons c q)
    show ?thesis
    proof (cases "is_digit c")
      case True
      with 1 Cons err digit_val_bounds [OF True] show ?thesis by (simp add: time_loop_digit)
    next
      case False
      have "0 \<le> tot + v * time_scale is_sec st'" for st'
        using 1 time_scale_pos [of is_sec st'] by simp
      moreover have "length (dropWhile (\<lambda>c. c = ch CHR '' '') q') < length p"
        if "time_unit is_sec st c q = Some (st', m, sc, q')" for st' m sc q'
        using time_unit_length [OF that] length_dropWhile_le [of "\<lambda>c. c = ch CHR '' ''" q'] Cons
        by simp
      ultimately show ?thesis
        using 1 Cons err False by (auto simp: time_loop_unit ngx_consts split: option.splits)
    qed
  qed
qed

section \<open>Times are exact\<close>

text \<open>
  A time as a user writes it: items of digits, unit and following spaces, the units strictly
  descending, and how it is spelled.
\<close>

type_synonym time_item = "u_char list \<times> time_step \<times> nat"

fun unit_name :: "time_step \<Rightarrow> string" where
  "unit_name st_year = ''y''"
| "unit_name st_month = ''M''"
| "unit_name st_week = ''w''"
| "unit_name st_day = ''d''"
| "unit_name st_hour = ''h''"
| "unit_name st_min = ''m''"
| "unit_name st_sec = ''s''"
| "unit_name st_msec = ''ms''"
| "unit_name _ = []"

fun item_text :: "time_item \<Rightarrow> u_char list" where
  "item_text (ds, u, k) = ds @ bytes (unit_name u) @ replicate k (ch CHR '' '')"

fun item_value :: "bool \<Rightarrow> time_item \<Rightarrow> int" where
  "item_value is_sec (ds, u, k) = dec_val ds * time_scale is_sec u"

fun item_ok :: "bool \<Rightarrow> time_item \<Rightarrow> bool" where
  "item_ok is_sec (ds, u, k) \<longleftrightarrow> ds \<noteq> [] \<and> list_all is_digit ds \<and>
     u \<noteq> st_start \<and> u \<noteq> st_last \<and> (is_sec \<longrightarrow> u \<noteq> st_msec)"

fun items_ok :: "bool \<Rightarrow> time_step \<Rightarrow> time_item list \<Rightarrow> bool" where
  "items_ok is_sec st [] \<longleftrightarrow> True"
| "items_ok is_sec st ((ds, u, k) # items) \<longleftrightarrow>
     item_ok is_sec (ds, u, k) \<and> step_no st < step_no u \<and> items_ok is_sec u items"

lemma time_loop_digits:
  "list_all is_digit ds \<Longrightarrow> in_range v \<Longrightarrow> radix_val 10 digit_val v ds \<le> NGX_MAX_INT_T_VALUE \<Longrightarrow>
   time_loop is_sec st valid v tot (ds @ p) =
     time_loop is_sec st (valid \<or> ds \<noteq> []) (radix_val 10 digit_val v ds) tot p"
proof (induction ds arbitrary: valid v)
  case (Cons c ds)
  let ?v = "v * 10 + digit_val c"
  have "0 \<le> ?v" using Cons.prems digit_val_bounds [of c] by simp
  moreover have "?v \<le> radix_val 10 digit_val ?v ds"
    using Cons.prems \<open>0 \<le> ?v\<close> by (intro radix_val_ge) (simp_all add: digits_nonneg)
  ultimately show ?case using Cons by (simp add: time_loop_digit)
qed simp

lemma dropWhile_replicate_space:
  "p = [] \<or> hd p \<noteq> ch CHR '' '' \<Longrightarrow>
   dropWhile (\<lambda>c. c = ch CHR '' '') (replicate k (ch CHR '' '') @ p) = p"
  by (induction k) (auto simp: dropWhile_eq_self_iff)

lemma time_unit_ok:
  assumes "u \<noteq> st_start" "u \<noteq> st_last" "is_sec \<longrightarrow> u \<noteq> st_msec" "step_no st < step_no u"
    "p = [] \<or> hd p \<noteq> ch CHR ''s''"
  shows "\<exists>c r m. bytes (unit_name u) @ p = c # r \<and> \<not> is_digit c \<and>
     time_unit is_sec st c r = Some (u, m, unit_seconds u, p)"
  using assms by (cases u) (auto simp: bytes_def time_unit_def is_digit_def)

lemma items_text_hd:
  "items_ok is_sec st items \<Longrightarrow> items \<noteq> [] \<Longrightarrow>
   \<exists>c r. concat (map item_text items) = c # r \<and> is_digit c"
  by (cases items) (auto simp: neq_Nil_conv split: prod.splits)

lemma time_loop_items:
  "items_ok is_sec st items \<Longrightarrow> in_range tot \<Longrightarrow>
   tot + sum_list (map (item_value is_sec) items) \<le> NGX_MAX_INT_T_VALUE \<Longrightarrow>
   time_loop is_sec st valid 0 tot (concat (map item_text items)) =
     Some (if valid \<or> items \<noteq> [] then tot + sum_list (map (item_value is_sec) items) else NGX_ERROR)"
proof (induction is_sec st items arbitrary: tot valid rule: items_ok.induct)
  case (1 is_sec st)
  then show ?case by (simp add: time_end_exact)
next
  case (2 is_sec st ds u k items)
  let ?rest = "concat (map item_text items)"
  let ?x = "dec_val ds * time_scale is_sec u"
  have ok: "ds \<noteq> []" "list_all is_digit ds" "u \<noteq> st_start" "u \<noteq> st_last" "is_sec \<longrightarrow> u \<noteq> st_msec"
    "step_no st < step_no u" "items_ok is_sec u items" using 2 by auto
  have nn: "0 \<le> dec_val ds" using ok by (simp add: dec_val_nonneg)
  have sum_nn: "0 \<le> sum_list (map (item_value is_sec) items)"
    using ok(7) by (induction is_sec u items rule: items_ok.induct)
      (auto simp: dec_val_nonneg less_imp_le [OF time_scale_pos])
  have "dec_val ds \<le> ?x"
    using nn time_scale_pos [of is_sec u] mult_left_mono [of 1 "time_scale is_sec u" "dec_val ds"] by simp
  with 2 nn sum_nn have fits: "dec_val ds \<le> NGX_MAX_INT_T_VALUE" "in_range (tot + ?x)" by auto
  have hd: "?rest = [] \<or> hd ?rest \<noteq> ch CHR '' '' \<and> hd ?rest \<noteq> ch CHR ''s''"
    using items_text_hd [OF ok(7)] by (cases "items = []") (auto simp: is_digit_def)
  let ?sp = "replicate k (ch CHR '' '') @ ?rest"
  have dw: "dropWhile (\<lambda>c. c = ch CHR '' '') ?sp = ?rest"
    using hd by (intro dropWhile_replicate_space) auto
  have "?sp = [] \<or> hd ?sp \<noteq> ch CHR ''s''" using hd by (cases k) auto
  from time_unit_ok [OF ok(3-6) this] obtain c r m where u:
    "bytes (unit_name u) @ ?sp = c # r" "\<not> is_digit c"
    "time_unit is_sec st c r = Some (u, m, unit_seconds u, ?sp)" by blast
  have "time_loop is_sec st valid 0 tot (ds @ bytes (unit_name u) @ ?sp) =
      time_loop is_sec st True (dec_val ds) tot (c # r)"
    using time_loop_digits [of ds 0] ok fits u(1) by (simp add: ngx_consts)
  also have "\<dots> = time_loop is_sec u True 0 (tot + ?x) ?rest"
    using time_loop_unit [OF u(2), of "dec_val ds" tot] u(3) fits nn 2(3) dw by simp
  also have "\<dots> = Some (tot + ?x + sum_list (map (item_value is_sec) items))"
    using 2 ok fits by (simp add: add.assoc)
  finally show ?case by (simp add: add.assoc)
qed

section \<open>Properties\<close>

text \<open>
  \<^verbatim>\<open>ngx_parse_size\<close> and \<^verbatim>\<open>ngx_parse_offset\<close> return digits times unit (\<^verbatim>\<open>k\<close>, \<^verbatim>\<open>m\<close>, and for offsets
  \<^verbatim>\<open>g\<close>, in either case) exactly when the line has that form and the product fits the type, and
  \<^verbatim>\<open>NGX_ERROR\<close> otherwise: the limits divided by the scale neither let an overflow pass nor refuse
  a representable value.
\<close>

theorem ngx_parse_size_offset_exact:
  "ngx_parse_size line = exact_or_error NGX_MAX_SIZE_T_VALUE (scaled_number unit_scale_size line) \<and>
   ngx_parse_offset line = exact_or_error NGX_MAX_OFF_T_VALUE (scaled_number unit_scale_offset line)"
  using parse_size_exact parse_offset_exact by blast

text \<open>
  \<^verbatim>\<open>ngx_parse_time\<close> returns on every line without a signed overflow, with \<^verbatim>\<open>NGX_ERROR\<close> or a
  non-negative \<^verbatim>\<open>ngx_int_t\<close>.
\<close>

theorem ngx_parse_time_no_overflow:
  "\<exists>r. ngx_parse_time line is_sec = Some r \<and> NGX_ERROR \<le> r \<and> r \<le> NGX_MAX_INT_T_VALUE"
  unfolding ngx_parse_time_def by (rule time_loop_range) (simp_all add: ngx_consts)

text \<open>
  On a time spelled as items of digits and unit, in strictly descending units, with spaces
  after the items, \<^verbatim>\<open>ngx_parse_time\<close> returns the sum of the items, in seconds or in milliseconds,
  if it fits.
\<close>

theorem ngx_parse_time_exact:
  assumes "items_ok is_sec (if is_sec then st_start else st_month) items" "items \<noteq> []"
    "sum_list (map (item_value is_sec) items) \<le> NGX_MAX_INT_T_VALUE"
  shows "ngx_parse_time (concat (map item_text items)) is_sec =
    Some (sum_list (map (item_value is_sec) items))"
  using time_loop_items [OF assms(1), of 0 False] assms(2,3)
  by (simp add: ngx_parse_time_def ngx_consts)

theorem ngx_parse_time_exact_witness:
  "ngx_parse_time (bytes ''1h 30ms'') False = Some 3600030"
proof -
  let ?i = "[(bytes ''1'', st_hour, 1), (bytes ''30'', st_msec, 0)]"
  have "items_ok False (if False then st_start else st_month) ?i"
    "sum_list (map (item_value False) ?i) = 3600030"
    "concat (map item_text ?i) = bytes ''1h 30ms''"
    by (simp_all add: bytes_def is_digit_def digit_val_def time_scale_def)
  with ngx_parse_time_exact [of False ?i] show ?thesis by (simp add: ngx_consts)
qed

end
