(* ===== verification/Ngx_Time.thy ===== *)
theory Ngx_Time
  imports Ngx_Printf
begin

text \<open>
  Calendar time: \<^verbatim>\<open>ngx_gmtime\<close>, \<^verbatim>\<open>ngx_http_time\<close> and \<^verbatim>\<open>ngx_http_cookie_time\<close> of
  \<^verbatim>\<open>src/core/ngx_times.c\<close>, and \<^verbatim>\<open>ngx_parse_http_time\<close> of \<^verbatim>\<open>src/core/ngx_parse_time.c\<close>.

  The parser reads the bytes \<open>value[0 .. len)\<close> by index; a read outside gives \<open>Oob\<close>, the error
  return \<open>Err\<close>, so that the parser stays within its buffer is a theorem.  Its \<^verbatim>\<open>ngx_uint_t\<close>
  variables are 64-bit words; \<^verbatim>\<open>ngx_gmtime\<close> works on a range in which no operation wraps, its
  variables are integers.
\<close>

section \<open>\<^verbatim>\<open>ngx_gmtime\<close>\<close>

record ngx_tm_t =
  ngx_tm_sec :: int
  ngx_tm_min :: int
  ngx_tm_hour :: int
  ngx_tm_mday :: int
  ngx_tm_mon :: int
  ngx_tm_year :: int
  ngx_tm_wday :: int

definition leap_year :: "int \<Rightarrow> bool" where
  "leap_year year \<longleftrightarrow> year mod 4 = 0 \<and> (year mod 100 \<noteq> 0 \<or> year mod 400 = 0)"

definition gauss_days :: "int \<Rightarrow> int" where
  "gauss_days year = 365 * year + year div 4 - year div 100 + year div 400"

text \<open>The year that starts on March 1 and the day in it, from the days since March 1, 1 BC.\<close>

definition gmtime_year :: "int \<Rightarrow> int \<times> int" where
  "gmtime_year days =
     (let year = (days + 2) * 400 div (365 * 400 + 100 - 4 + 1);
          yday = days - gauss_days year in
      if yday < 0
      then (year - 1, 365 + (if leap_year year then 1 else 0) + yday)
      else (year, yday))"

definition ngx_gmtime :: "int \<Rightarrow> ngx_tm_t" where
  "ngx_gmtime t =
     (let t = (if t < 0 then 0 else t);
          days = t div 86400;
          sec = t mod 86400;
          (days, sec) = (if days > 2932896 then (2932896, 86399) else (days, sec));
          wday = (4 + days) mod 7;
          hour = sec div 3600;
          sec = sec mod 3600;
          min = sec div 60;
          sec = sec mod 60;
          days = days - (31 + 28) + 719527;
          (year, yday) = gmtime_year days;
          mon = (yday + 31) * 10 div 306;
          mday = yday - (367 * mon div 12 - 30) + 1;
          (year, mon) = (if yday \<ge> 306 then (year + 1, mon - 10) else (year, mon + 2)) in
      \<lparr>ngx_tm_sec = sec, ngx_tm_min = min, ngx_tm_hour = hour, ngx_tm_mday = mday,
       ngx_tm_mon = mon, ngx_tm_year = year, ngx_tm_wday = wday\<rparr>)"

section \<open>Formatting\<close>

definition week :: "string list" where
  "week = [''Sun'', ''Mon'', ''Tue'', ''Wed'', ''Thu'', ''Fri'', ''Sat'']"

definition months :: "string list" where
  "months = [''Jan'', ''Feb'', ''Mar'', ''Apr'', ''May'', ''Jun'',
     ''Jul'', ''Aug'', ''Sep'', ''Oct'', ''Nov'', ''Dec'']"

text \<open>\<open>buf\<close> is the address written to.\<close>

definition ngx_http_time :: "nat \<Rightarrow> int \<Rightarrow> u_char list option" where
  "ngx_http_time buf t =
     (let tm = ngx_gmtime t in
      ngx_sprintf buf (bytes ''%s, %02d %s %4d %02d:%02d:%02d GMT'')
        [V_str (bytes (week ! nat (ngx_tm_wday tm))),
         V_int (ngx_tm_mday tm),
         V_str (bytes (months ! nat (ngx_tm_mon tm - 1))),
         V_int (ngx_tm_year tm),
         V_int (ngx_tm_hour tm),
         V_int (ngx_tm_min tm),
         V_int (ngx_tm_sec tm)])"

definition ngx_http_cookie_time :: "nat \<Rightarrow> int \<Rightarrow> u_char list option" where
  "ngx_http_cookie_time buf t =
     (let tm = ngx_gmtime t in
      ngx_sprintf buf
        (bytes (if ngx_tm_year tm > 2037 then ''%s, %02d-%s-%d %02d:%02d:%02d GMT''
                else ''%s, %02d-%s-%02d %02d:%02d:%02d GMT''))
        [V_str (bytes (week ! nat (ngx_tm_wday tm))),
         V_int (ngx_tm_mday tm),
         V_str (bytes (months ! nat (ngx_tm_mon tm - 1))),
         V_int (if ngx_tm_year tm > 2037 then ngx_tm_year tm else ngx_tm_year tm mod 100),
         V_int (ngx_tm_hour tm),
         V_int (ngx_tm_min tm),
         V_int (ngx_tm_sec tm)])"

section \<open>\<^verbatim>\<open>ngx_parse_http_time\<close>\<close>

datatype 'a parse_result = Oob | Err | Ok 'a

fun rbind :: "'a parse_result \<Rightarrow> ('a \<Rightarrow> 'b parse_result) \<Rightarrow> 'b parse_result" where
  "rbind Oob f = Oob"
| "rbind Err f = Err"
| "rbind (Ok x) f = f x"

definition rd :: "u_char list \<Rightarrow> nat \<Rightarrow> u_char parse_result" where
  "rd v p = (if p < length v then Ok (v ! p) else Oob)"

text \<open>\<open>k\<close> decimal digits at \<open>p\<close>, read from the left and only as far as they are digits.\<close>

fun rd_digits :: "u_char list \<Rightarrow> nat \<Rightarrow> nat \<Rightarrow> u_int64 \<Rightarrow> u_int64 parse_result" where
  "rd_digits v p 0 n = Ok n"
| "rd_digits v p (Suc k) n =
     rbind (rd v p) (\<lambda>c.
       if c < ch CHR ''0'' \<or> c > ch CHR ''9'' then Err
       else rd_digits v (p + 1) k (n * 10 + (ucast c - 48)))"

definition rd_char :: "u_char list \<Rightarrow> nat \<Rightarrow> u_char \<Rightarrow> unit parse_result" where
  "rd_char v p c = rbind (rd v p) (\<lambda>x. if x \<noteq> c then Err else Ok ())"

datatype time_fmt = no | rfc822 | rfc850 | isoc

text \<open>The first two loops.\<close>

fun http_time_scan :: "u_char list \<Rightarrow> nat \<Rightarrow> nat \<times> time_fmt" where
  "http_time_scan [] p = (p, no)"
| "http_time_scan (c # s) p =
     (if c = ch CHR '','' then (p, no)
      else if c = ch CHR '' '' then (p, isoc)
      else http_time_scan s (p + 1))"

fun http_time_skip :: "u_char list \<Rightarrow> nat \<Rightarrow> nat" where
  "http_time_skip [] p = p"
| "http_time_skip (c # s) p = (if c \<noteq> ch CHR '' '' then p else http_time_skip s (p + 1))"

text \<open>The day that comes first in the formats of RFC 822 and RFC 850.\<close>

definition http_time_day ::
  "u_char list \<Rightarrow> nat \<Rightarrow> time_fmt \<Rightarrow> (nat \<times> time_fmt \<times> u_int64) parse_result" where
  "http_time_day v p fmt =
     (if fmt \<noteq> isoc then
        rbind (rd_digits v p 2 0) (\<lambda>day.
        let p = p + 2 in
        rbind (rd v p) (\<lambda>c.
          if c = ch CHR '' '' then
            (if int (length v) - int p < 18 then Err else Ok (p + 1, rfc822, day))
          else if c = ch CHR ''-'' then Ok (p + 1, rfc850, day)
          else Err))
      else Ok (p, fmt, 32))"

definition http_time_month :: "u_char list \<Rightarrow> nat \<Rightarrow> int parse_result" where
  "http_time_month v p =
     rbind (rd v p) (\<lambda>c.
       if c = ch CHR ''J'' then
         rbind (rd v (p + 1)) (\<lambda>c1.
           if c1 = ch CHR ''a'' then Ok 0
           else rbind (rd v (p + 2)) (\<lambda>c2. Ok (if c2 = ch CHR ''n'' then 5 else 6)))
       else if c = ch CHR ''F'' then Ok 1
       else if c = ch CHR ''M'' then
         rbind (rd v (p + 2)) (\<lambda>c2. Ok (if c2 = ch CHR ''r'' then 2 else 4))
       else if c = ch CHR ''A'' then
         rbind (rd v (p + 1)) (\<lambda>c1. Ok (if c1 = ch CHR ''p'' then 3 else 7))
       else if c = ch CHR ''S'' then Ok 8
       else if c = ch CHR ''O'' then Ok 9
       else if c = ch CHR ''N'' then Ok 10
       else if c = ch CHR ''D'' then Ok 11
       else Err)"

text \<open>The separator after the month and the year of RFC 822 and RFC 850.\<close>

definition http_time_year ::
  "u_char list \<Rightarrow> nat \<Rightarrow> time_fmt \<Rightarrow> (nat \<times> u_int64) parse_result" where
  "http_time_year v p fmt =
     (case fmt of
        rfc822 \<Rightarrow>
          rbind (rd_char v p (ch CHR '' '')) (\<lambda>_.
          rbind (rd_digits v (p + 1) 4 0) (\<lambda>year. Ok (p + 5, year)))
      | rfc850 \<Rightarrow>
          rbind (rd_char v p (ch CHR ''-'')) (\<lambda>_.
          rbind (rd_digits v (p + 1) 2 0) (\<lambda>year.
            Ok (p + 3, year + (if year < 70 then 2000 else 1900))))
      | _ \<Rightarrow> Ok (p + 1, 2038))"

text \<open>The day of the \<^verbatim>\<open>asctime\<close> format.\<close>

definition http_time_isoc_day ::
  "u_char list \<Rightarrow> nat \<Rightarrow> time_fmt \<Rightarrow> u_int64 \<Rightarrow> (nat \<times> u_int64) parse_result" where
  "http_time_isoc_day v p fmt day =
     (if fmt = isoc then
        rbind (rd v p) (\<lambda>c.
        let p = (if c = ch CHR '' '' then p + 1 else p) in
        rbind (rd_digits v p 1 0) (\<lambda>day.
        rbind (rd v (p + 1)) (\<lambda>c.
        rbind (if c \<noteq> ch CHR '' ''
               then rbind (rd_digits v (p + 1) 1 day) (\<lambda>day. Ok (p + 2, day))
               else Ok (p + 1, day)) (\<lambda>(p, day).
          if int (length v) - int p < 14 then Err else Ok (p, day)))))
      else Ok (p, day))"

text \<open>\<open>" hh:mm:ss"\<close>, the position being that of the space.\<close>

definition http_time_clock ::
  "u_char list \<Rightarrow> nat \<Rightarrow> (u_int64 \<times> u_int64 \<times> u_int64) parse_result" where
  "http_time_clock v p =
     rbind (rd_char v p (ch CHR '' '')) (\<lambda>_.
     rbind (rd_digits v (p + 1) 2 0) (\<lambda>hour.
     rbind (rd_char v (p + 3) (ch CHR '':'')) (\<lambda>_.
     rbind (rd_digits v (p + 4) 2 0) (\<lambda>min.
     rbind (rd_char v (p + 6) (ch CHR '':'')) (\<lambda>_.
     rbind (rd_digits v (p + 7) 2 0) (\<lambda>sec. Ok (hour, min, sec)))))))"

definition http_time_isoc_year ::
  "u_char list \<Rightarrow> nat \<Rightarrow> time_fmt \<Rightarrow> u_int64 \<Rightarrow> u_int64 parse_result" where
  "http_time_isoc_year v p fmt year =
     (if fmt = isoc then
        rbind (rd_char v p (ch CHR '' '')) (\<lambda>_. rd_digits v (p + 1) 4 0)
      else Ok year)"

definition mday :: "u_int64 list" where
  "mday = [31, 28, 31, 30, 31, 30, 31, 31, 30, 31, 30, 31]"

text \<open>The checks of the fields and Gauss' formula, in the unsigned arithmetic of the code.\<close>

definition http_time_value ::
  "u_int64 \<Rightarrow> int \<Rightarrow> u_int64 \<Rightarrow> u_int64 \<Rightarrow> u_int64 \<Rightarrow> u_int64 \<Rightarrow> int parse_result" where
  "http_time_value day month year hour mins sec =
     (if hour > 23 \<or> mins > 59 \<or> sec > 59 then Err
      else if day = 29 \<and> month = 1 \<and>
        (year AND 3 \<noteq> 0 \<or> year mod 100 = 0 \<and> year mod 400 \<noteq> 0) then Err
      else if \<not> (day = 29 \<and> month = 1) \<and> day > mday ! nat month then Err
      else
        let (month, year) = (if month - 1 \<le> 0 then (month - 1 + 12, year - 1) else (month - 1, year));
            time = (365 * year + year div 4 - year div 100 + year div 400
              + word_of_int (367 * month div 12 - 30) + day - 1 - 719527 + 31 + 28) * 86400
              + hour * 3600 + mins * 60 + sec in
        Ok (sint time))"

definition ngx_parse_http_time :: "u_char list \<Rightarrow> int parse_result" where
  "ngx_parse_http_time v =
     (let (p, fmt) = http_time_scan v 0;
          p = http_time_skip (drop (p + 1) v) (p + 1) in
      if int (length v) - int p < 18 then Err
      else
        rbind (http_time_day v p fmt) (\<lambda>(p, fmt, day).
        rbind (http_time_month v p) (\<lambda>month.
        rbind (http_time_year v (p + 3) fmt) (\<lambda>(p, year).
        rbind (http_time_isoc_day v p fmt day) (\<lambda>(p, day).
        rbind (http_time_clock v p) (\<lambda>(hour, min, sec).
        rbind (http_time_isoc_year v (p + 9) fmt year) (\<lambda>year.
          http_time_value day month year hour min sec)))))))"

section \<open>The parser stays within its buffer\<close>

definition safe :: "'a parse_result \<Rightarrow> ('a \<Rightarrow> bool) \<Rightarrow> bool" where
  "safe r Q \<longleftrightarrow> (case r of Oob \<Rightarrow> False | Err \<Rightarrow> True | Ok x \<Rightarrow> Q x)"

lemma safe_simps [simp]: "\<not> safe Oob Q" "safe Err Q" "safe (Ok x) Q \<longleftrightarrow> Q x"
  by (simp_all add: safe_def)

lemma safe_bind: "safe m (\<lambda>x. safe (f x) Q) \<Longrightarrow> safe (rbind m f) Q"
  by (cases m) simp_all

lemma safe_mono: "safe m P \<Longrightarrow> (\<And>x. P x \<Longrightarrow> Q x) \<Longrightarrow> safe m Q"
  by (cases m) simp_all

lemma safe_rd: "p < length v \<Longrightarrow> (\<And>c. Q c) \<Longrightarrow> safe (rd v p) Q"
  by (simp add: rd_def)

lemma safe_rd_digits: "p + k \<le> length v \<Longrightarrow> (\<And>n. Q n) \<Longrightarrow> safe (rd_digits v p k n) Q"
  by (induction k arbitrary: p n) (auto intro!: safe_bind safe_rd)

lemma safe_rd_char: "p < length v \<Longrightarrow> Q () \<Longrightarrow> safe (rd_char v p c) Q"
  by (auto simp: rd_char_def intro!: safe_bind safe_rd)

lemmas safe_intros = safe_bind safe_rd safe_rd_digits safe_rd_char

text \<open>The bytes left when each stage is entered.\<close>

lemma safe_day:
  assumes "p + 18 \<le> length v" "fmt = no \<or> fmt = isoc"
  shows "safe (http_time_day v p fmt) (\<lambda>(p, fmt, day). fmt \<noteq> no \<and>
    p + (case fmt of rfc822 \<Rightarrow> 17 | rfc850 \<Rightarrow> 15 | _ \<Rightarrow> 18) \<le> length v)"
  using assms by (auto simp: http_time_day_def Let_def intro!: safe_intros)

lemma safe_month: "p + 3 \<le> length v \<Longrightarrow> safe (http_time_month v p) (\<lambda>_. True)"
  by (auto simp: http_time_month_def intro!: safe_intros)

lemma safe_year:
  assumes "fmt \<noteq> no" "p + (case fmt of rfc822 \<Rightarrow> 14 | rfc850 \<Rightarrow> 12 | _ \<Rightarrow> 15) \<le> length v"
  shows "safe (http_time_year v p fmt) (\<lambda>(p, year). p + (if fmt = isoc then 14 else 9) \<le> length v)"
  using assms by (cases fmt) (auto simp: http_time_year_def intro!: safe_intros)

lemma safe_isoc_day:
  assumes "p + (if fmt = isoc then 14 else 9) \<le> length v"
  shows "safe (http_time_isoc_day v p fmt day)
    (\<lambda>(p, day). p + (if fmt = isoc then 14 else 9) \<le> length v)"
  using assms by (auto simp: http_time_isoc_day_def Let_def intro!: safe_intros)

lemma safe_clock: "p + 9 \<le> length v \<Longrightarrow> safe (http_time_clock v p) (\<lambda>_. True)"
  by (auto simp: http_time_clock_def intro!: safe_intros)

lemma safe_isoc_year:
  "p + (if fmt = isoc then 14 else 9) \<le> length v \<Longrightarrow> safe (http_time_isoc_year v (p + 9) fmt y) (\<lambda>_. True)"
  by (auto simp: http_time_isoc_year_def intro!: safe_intros)

lemma safe_value: "safe (http_time_value day month year hour mins sec) (\<lambda>_. True)"
  by (simp add: http_time_value_def Let_def)

lemma http_time_scan_fmt: "snd (http_time_scan s p) = no \<or> snd (http_time_scan s p) = isoc"
  by (induction s p rule: http_time_scan.induct) auto

lemma safe_parse_http_time: "safe (ngx_parse_http_time v) (\<lambda>_. True)"
proof -
  obtain p0 fmt where scan: "http_time_scan v 0 = (p0, fmt)" by fastforce
  then have fmt: "fmt = no \<or> fmt = isoc" using http_time_scan_fmt [of v 0] by simp
  have "safe (rbind (http_time_day v p fmt) (\<lambda>(p, fmt, day).
        rbind (http_time_month v p) (\<lambda>month.
        rbind (http_time_year v (p + 3) fmt) (\<lambda>(p, year).
        rbind (http_time_isoc_day v p fmt day) (\<lambda>(p, day).
        rbind (http_time_clock v p) (\<lambda>(hour, min, sec).
        rbind (http_time_isoc_year v (p + 9) fmt year) (\<lambda>year.
          http_time_value day month year hour min sec))))))) (\<lambda>_. True)"
    if "p + 18 \<le> length v" for p
    by (rule safe_bind, rule safe_mono [OF safe_day [OF that fmt]], clarify,
        rule safe_bind, rule safe_mono [OF safe_month],
        simp split: time_fmt.splits, rule safe_bind, rule safe_mono [OF safe_year],
        assumption, simp split: time_fmt.splits, clarify,
        rule safe_bind, rule safe_mono [OF safe_isoc_day], assumption, clarify,
        rule safe_bind, rule safe_mono [OF safe_clock], simp split: if_splits, clarify,
        rule safe_bind, rule safe_mono [OF safe_isoc_year], assumption, rule safe_value)
  then show ?thesis by (simp add: ngx_parse_http_time_def scan Let_def)
qed

section \<open>The calendar\<close>

text \<open>The Gregorian calendar, by the lengths of its years and months, from January 1, 1970.\<close>

definition year_length :: "int \<Rightarrow> int" where
  "year_length y = (if leap_year y then 366 else 365)"

fun days_before_year :: "nat \<Rightarrow> int" where
  "days_before_year 0 = 0"
| "days_before_year (Suc n) = days_before_year n + year_length (1970 + int n)"

definition month_lengths :: "int \<Rightarrow> int list" where
  "month_lengths y = [31, if leap_year y then 29 else 28, 31, 30, 31, 30, 31, 31, 30, 31, 30, 31]"

definition month_length :: "int \<Rightarrow> nat \<Rightarrow> int" where
  "month_length y m = month_lengths y ! (m - 1)"

definition days_before_month :: "int \<Rightarrow> nat \<Rightarrow> int" where
  "days_before_month y m = sum_list (take (m - 1) (month_lengths y))"

definition valid_date :: "int \<Rightarrow> nat \<Rightarrow> int \<Rightarrow> bool" where
  "valid_date y m d \<longleftrightarrow> 1970 \<le> y \<and> 1 \<le> m \<and> m \<le> 12 \<and> 1 \<le> d \<and> d \<le> month_length y m"

definition unix_days :: "int \<Rightarrow> nat \<Rightarrow> int \<Rightarrow> int" where
  "unix_days y m d = days_before_year (nat (y - 1970)) + days_before_month y m + (d - 1)"

lemma div_step:
  fixes y k :: int
  assumes "0 < y" "0 < k"
  shows "y div k = (y - 1) div k + (if y mod k = 0 then 1 else 0)"
proof -
  obtain n where n: "y = int (Suc n)" using assms(1) by (metis zero_less_imp_eq_int gr0_implies_Suc)
  obtain m where m: "k = int m" using assms(2) by (metis zero_le_imp_eq_int less_imp_le)
  have "int (Suc n div m) = int (n div m) + (if int (Suc n mod m) = 0 then 1 else 0)"
    by (simp add: div_Suc)
  then have "int (Suc n) div int m = int n div int m + (if int (Suc n) mod int m = 0 then 1 else 0)"
    by (simp only: zdiv_int zmod_int)
  moreover have "int (Suc n) - 1 = int n" by simp
  ultimately show ?thesis unfolding n m by (simp only:)
qed

lemma mod_dvd_zero:
  fixes y :: int
  shows "y mod 100 = 0 \<Longrightarrow> y mod 4 = 0" "y mod 400 = 0 \<Longrightarrow> y mod 100 = 0"
proof -
  show "y mod 100 = 0 \<Longrightarrow> y mod 4 = 0" using dvd_trans [of 4 100 y] by (simp add: mod_eq_0_iff_dvd)
  show "y mod 400 = 0 \<Longrightarrow> y mod 100 = 0" using dvd_trans [of 100 400 y] by (simp add: mod_eq_0_iff_dvd)
qed

lemma gauss_sum:
  fixes y :: int
  assumes "a = a' + x" "b = b' + z" "c = c' + w"
  shows "365 * y + a - b + c = 365 * (y - 1) + a' - b' + c' + (365 + x - z + w)"
  using assms by simp

lemma leap_count:
  assumes "B \<longrightarrow> A" "C \<longrightarrow> B"
  shows "365 + (if A then 1 else 0) - (if B then 1 else 0) + (if C then 1 else 0) =
    (if A \<and> (\<not> B \<or> C) then 366 else 365 :: int)"
  using assms by (cases A; cases B; cases C) simp_all

lemma gauss_step:
  assumes "0 < y"
  shows "gauss_days y = gauss_days (y - 1) + year_length y"
proof -
  have "gauss_days y = gauss_days (y - 1) + (365 + (if y mod 4 = 0 then 1 else 0)
      - (if y mod 100 = 0 then 1 else 0) + (if y mod 400 = 0 then 1 else 0))"
    unfolding gauss_days_def
    by (rule gauss_sum [OF div_step div_step div_step]) (use assms in simp_all)
  also have "365 + (if y mod 4 = 0 then 1 else 0) - (if y mod 100 = 0 then 1 else 0)
      + (if y mod 400 = 0 then 1 else 0) = year_length y"
    unfolding year_length_def leap_year_def by (rule leap_count) (auto intro: mod_dvd_zero)
  finally show ?thesis .
qed

lemma days_before_year_gauss: "days_before_year n = gauss_days (1969 + int n) - 719162"
proof (induction n)
  case (Suc n)
  have "1969 + int (Suc n) = 1970 + int n" "1970 + int n - 1 = 1969 + int n" by simp_all
  with Suc gauss_step [of "1970 + int n"] show ?case by (simp only: days_before_year.simps)
qed (simp add: gauss_days_def)

lemma days_before_month_eq:
  assumes "1 \<le> m" "m \<le> 12"
  shows "days_before_month y m =
    (if m \<le> 2 then 31 * (int m - 1)
     else year_length y + (367 * (int m - 2) div 12 - 30) - 306)"
proof -
  have "m \<in> {1, 2, 3, 4, 5, 6, 7, 8, 9, 10, 11, 12}"
    using assms by (simp, presburger)
  then show ?thesis
    by (elim insertE emptyE) (simp_all add: days_before_month_def month_lengths_def year_length_def)
qed

text \<open>Gauss' formula, with the months counted from March.\<close>

lemma unix_days_gauss:
  assumes "1970 \<le> y" "1 \<le> m" "m \<le> 12"
  shows "unix_days y m d =
    (if m \<le> 2 then gauss_days (y - 1) + (367 * (int m + 10) div 12 - 30)
     else gauss_days y + (367 * (int m - 2) div 12 - 30)) + d - 1 - 719527 + 31 + 28"
proof -
  have "days_before_year (nat (y - 1970)) = gauss_days (y - 1) - 719162"
    using days_before_year_gauss [of "nat (y - 1970)"] assms by (simp add: add_diff_eq)
  moreover have "gauss_days y = gauss_days (y - 1) + year_length y" using assms by (intro gauss_step) simp
  moreover have "m \<le> 2 \<Longrightarrow> m = 1 \<or> m = 2" using assms by auto
  ultimately show ?thesis
    using days_before_month_eq [OF assms(2,3), of y] by (auto simp: unix_days_def)
qed

section \<open>\<^verbatim>\<open>ngx_gmtime\<close> inverts the calendar\<close>

lemma gauss_scaled:
  fixes y :: int
  assumes "4 * a + r = y" "100 * b + s = y" "400 * c + t = y"
  shows "400 * (365 * y + a - b + c) = 146097 * y - 100 * r + 4 * s - t"
  using assms by presburger

lemma gauss_days_bounds:
  "400 * gauss_days y \<le> 146097 * y + 396" "146097 * y - 699 \<le> 400 * gauss_days y"
proof -
  have g: "400 * gauss_days y = 146097 * y - 100 * (y mod 4) + 4 * (y mod 100) - y mod 400"
    unfolding gauss_days_def 
    by (rule gauss_scaled [OF mult_div_mod_eq mult_div_mod_eq mult_div_mod_eq])
  have b: "0 \<le> y mod 4 \<and> y mod 4 < 4" "0 \<le> y mod 100 \<and> y mod 100 < 100"
    "0 \<le> y mod 400 \<and> y mod 400 < 400" by simp_all
  show "400 * gauss_days y \<le> 146097 * y + 396" unfolding g using b by linarith
  show "146097 * y - 699 \<le> 400 * gauss_days y" unfolding g using b by linarith
qed

lemma gmtime_year_correct:
  assumes "0 \<le> days" "gmtime_year days = (y, yday)" "1 \<le> y"
  shows "days = gauss_days y + yday" "0 \<le> yday" "yday < year_length (y + 1)"
proof -
  define q where "q = (days + 2) * 400 div 146097"
  have "146097 * q + ((days + 2) * 400) mod 146097 = (days + 2) * 400"
    unfolding q_def by (rule mult_div_mod_eq)
  moreover have "0 \<le> ((days + 2) * 400) mod 146097 \<and> ((days + 2) * 400) mod 146097 < 146097" by simp
  ultimately have q: "146097 * q \<le> 400 * days + 800" "400 * days + 800 < 146097 * q + 146097"
    by (simp_all add: algebra_simps)
  have eq: "(y, yday) = (if days < gauss_days q
      then (q - 1, year_length q + (days - gauss_days q)) else (q, days - gauss_days q))"
    using assms(2) by (auto simp: gmtime_year_def Let_def q_def year_length_def split: if_splits)
  show "days = gauss_days y + yday" "0 \<le> yday" "yday < year_length (y + 1)"
  proof -
    consider "days < gauss_days q" "y = q - 1" "yday = year_length q + (days - gauss_days q)"
      | "gauss_days q \<le> days" "y = q" "yday = days - gauss_days q"
      using eq by (cases "days < gauss_days q") auto
    then have "days = gauss_days y + yday \<and> 0 \<le> yday \<and> yday < year_length (y + 1)"
    proof cases
      case 1
      with assms(3) gauss_step [of q] gauss_days_bounds(1) [of "q - 1"] q show ?thesis by auto
    next
      case 2
      with assms(3) gauss_step [of "q + 1"] gauss_days_bounds(2) [of "q + 1"] q show ?thesis by auto
    qed
    then show "days = gauss_days y + yday" "0 \<le> yday" "yday < year_length (y + 1)" by simp_all
  qed
qed

lemma gmtime_year_bounds:
  assumes "719468 \<le> days" "days \<le> 3652364" "gmtime_year days = (y, yday)"
  shows "1969 \<le> y" "y \<le> 9999"
proof -
  define q where "q = (days + 2) * 400 div 146097"
  have "(719468 + 2) * 400 div 146097 \<le> q" "q \<le> (3652364 + 2) * 400 div (146097 :: int)"
    unfolding q_def using assms by (intro zdiv_mono1; simp)+
  moreover have "gauss_days 1969 = 719162" by (simp add: gauss_days_def)
  moreover have "y = q \<or> y = q - 1 \<and> days < gauss_days q"
    using assms(3) by (auto simp: gmtime_year_def Let_def q_def split: if_splits)
  ultimately show "1969 \<le> y" "y \<le> 9999" using assms(1) by (auto simp: le_less)
qed

text \<open>The empirical formula for the month, checked for the 366 days of a year.\<close>

definition month_of_yday :: "int \<Rightarrow> int" where
  "month_of_yday yday = (yday + 31) * 10 div 306"

definition mday_of_yday :: "int \<Rightarrow> int" where
  "mday_of_yday yday = yday - (367 * month_of_yday yday div 12 - 30) + 1"

definition march_month_length :: "int \<Rightarrow> int" where
  "march_month_length m = (if m = 12 then 29 else if m \<in> {2, 4, 7, 9} then 30 else 31)"

lemma month_of_yday_check:
  "list_all (\<lambda>d. let m = month_of_yday d in 1 \<le> m \<and> m \<le> 12 \<and> (306 \<le> d \<longleftrightarrow> 11 \<le> m) \<and>
     1 \<le> mday_of_yday d \<and> mday_of_yday d \<le> march_month_length m) [0..365]"
  by code_simp

lemma month_of_yday:
  assumes "0 \<le> d" "d < 366"
  shows "1 \<le> month_of_yday d" "month_of_yday d \<le> 12" "306 \<le> d \<longleftrightarrow> 11 \<le> month_of_yday d"
    "1 \<le> mday_of_yday d" "mday_of_yday d \<le> march_month_length (month_of_yday d)"
  using month_of_yday_check assms by (simp_all add: list_all_iff Let_def)

text \<open>The fields of a broken-down time that is a date and a time of day.\<close>

definition valid_tm :: "ngx_tm_t \<Rightarrow> bool" where
  "valid_tm tm \<longleftrightarrow> valid_date (ngx_tm_year tm) (nat (ngx_tm_mon tm)) (ngx_tm_mday tm) \<and>
     ngx_tm_year tm \<le> 9999 \<and> 1 \<le> ngx_tm_mon tm \<and> 0 \<le> ngx_tm_hour tm \<and> ngx_tm_hour tm < 24 \<and>
     0 \<le> ngx_tm_min tm \<and> ngx_tm_min tm < 60 \<and> 0 \<le> ngx_tm_sec tm \<and> ngx_tm_sec tm < 60 \<and>
     0 \<le> ngx_tm_wday tm \<and> ngx_tm_wday tm < 7"

definition unix_time :: "ngx_tm_t \<Rightarrow> int" where
  "unix_time tm = unix_days (ngx_tm_year tm) (nat (ngx_tm_mon tm)) (ngx_tm_mday tm) * 86400
     + ngx_tm_hour tm * 3600 + ngx_tm_min tm * 60 + ngx_tm_sec tm"

text \<open>The date of a day since January 1, 1970, as \<^verbatim>\<open>ngx_gmtime\<close> computes it.\<close>

definition gmtime_date :: "int \<Rightarrow> int \<times> int \<times> int" where
  "gmtime_date days =
     (let (year, yday) = gmtime_year (days - (31 + 28) + 719527); mon = month_of_yday yday in
      if yday \<ge> 306 then (year + 1, mon - 10, mday_of_yday yday)
      else (year, mon + 2, mday_of_yday yday))"

lemma date_jan_feb:
  assumes "306 \<le> yday" "yday < year_length (Y + 1)" "1969 \<le> Y"
  defines "m \<equiv> month_of_yday yday - 10" and "d \<equiv> mday_of_yday yday"
  shows "valid_date (Y + 1) (nat m) d" "unix_days (Y + 1) (nat m) d = gauss_days Y + yday - 719468" "1 \<le> m"
proof -
  have yd: "0 \<le> yday" "yday < 366" using assms by (auto simp: year_length_def split: if_splits)
  note mo = month_of_yday [OF yd]
  from mo assms(1) have "month_of_yday yday = 11 \<or> month_of_yday yday = 12" by auto
  then have "valid_date (Y + 1) (nat m) d \<and> unix_days (Y + 1) (nat m) d = gauss_days Y + yday - 719468"
  proof
    assume m11: "month_of_yday yday = 11"
    then have "nat m = 1" "d = yday - 306 + 1" by (simp_all add: m_def d_def mday_of_yday_def)
    then show ?thesis
      using mo assms(1,3) m11 unix_days_gauss [of "Y + 1" 1 d]
      by (simp add: valid_date_def month_length_def month_lengths_def march_month_length_def d_def)
  next
    assume m12: "month_of_yday yday = 12"
    then have "nat m = 2" "d = yday - 337 + 1" by (simp_all add: m_def d_def mday_of_yday_def)
    then show ?thesis
      using mo assms(1-3) m12 unix_days_gauss [of "Y + 1" 2 d]
      by (auto simp: valid_date_def month_length_def month_lengths_def march_month_length_def
          year_length_def d_def split: if_splits)
  qed
  then show "valid_date (Y + 1) (nat m) d" "unix_days (Y + 1) (nat m) d = gauss_days Y + yday - 719468"
    by simp_all
  show "1 \<le> m" using mo assms(1) by (simp add: m_def)
qed

lemma march_to_december: "3 \<le> n \<Longrightarrow> n \<le> 12 \<Longrightarrow> n \<in> {3, 4, 5, 6, 7, 8, 9, 10, 11, 12}" for n :: nat
  by (simp, presburger)

lemma date_mar_dec:
  assumes "0 \<le> yday" "yday < 306" "1970 \<le> Y"
  defines "m \<equiv> month_of_yday yday + 2" and "d \<equiv> mday_of_yday yday"
  shows "valid_date Y (nat m) d" "unix_days Y (nat m) d = gauss_days Y + yday - 719468" "1 \<le> m"
proof -
  have yd: "yday < 366" using assms by simp
  note mo = month_of_yday [OF assms(1) yd]
  have m: "3 \<le> m" "m \<le> 12" "int (nat m) = m" using mo assms by (simp_all add: m_def)
  then have "nat m \<in> {3, 4, 5, 6, 7, 8, 9, 10, 11, 12}" by (intro march_to_december) linarith+
  then have "month_length Y (nat m) = march_month_length (int (nat m) - 2)"
    by (elim insertE emptyE) (simp_all add: month_length_def month_lengths_def march_month_length_def)
  then have "d \<le> month_length Y (nat m)" using mo m by (simp add: m_def d_def)
  moreover have nm: "1 \<le> nat m" "nat m \<le> 12" "\<not> nat m \<le> 2" using m by linarith+
  ultimately show "valid_date Y (nat m) d" using mo assms(3) by (simp add: valid_date_def d_def)
  show "unix_days Y (nat m) d = gauss_days Y + yday - 719468"
  proof -
    have "d = yday - (367 * (m - 2) div 12 - 30) + 1" by (simp add: m_def d_def mday_of_yday_def)
    then show ?thesis using unix_days_gauss [OF assms(3) nm(1,2), of d] nm(3) m(3) by simp
  qed
  show "1 \<le> m" using m by simp
qed

lemma gauss_days_years: "gauss_days 1969 = 719162" "gauss_days 9999 = 3652059"
  by (simp_all add: gauss_days_def)

lemma gmtime_date_correct:
  assumes "0 \<le> days" "days \<le> 2932896" "gmtime_date days = (y, m, d)"
  shows "valid_date y (nat m) d \<and> unix_days y (nat m) d = days \<and> y \<le> 9999 \<and> 1 \<le> m"
proof -
  obtain Y yday where Y: "gmtime_year (days - (31 + 28) + 719527) = (Y, yday)" by fastforce
  have "719468 \<le> days - (31 + 28) + 719527" "days - (31 + 28) + 719527 \<le> 3652364" using assms by simp_all
  note b = gmtime_year_bounds [OF this Y]
  have c: "days - (31 + 28) + 719527 = gauss_days Y + yday" "0 \<le> yday" "yday < year_length (Y + 1)"
    using gmtime_year_correct [OF _ Y] assms b by auto
  have date: "(y, m, d) = (if yday \<ge> 306 then (Y + 1, month_of_yday yday - 10, mday_of_yday yday)
      else (Y, month_of_yday yday + 2, mday_of_yday yday))"
    using assms(3) unfolding gmtime_date_def Y Let_def by simp
  show ?thesis
  proof (cases "306 \<le> yday")
    case True
    then have "Y \<noteq> 9999" using c(1) assms(2) gauss_days_years by auto
    with True b c date date_jan_feb [OF True c(3) b(1)] show ?thesis by simp
  next
    case False
    then have "Y \<noteq> 1969" using c(1) assms(1) gauss_days_years by auto
    with False b c date date_mar_dec [OF c(2), of Y] show ?thesis by simp
  qed
qed

lemma ngx_gmtime_fields:
  assumes "0 \<le> t" "t < 253402300800" "gmtime_date (t div 86400) = (y, m, d)"
  shows "ngx_gmtime t = \<lparr>ngx_tm_sec = t mod 86400 mod 3600 mod 60,
    ngx_tm_min = t mod 86400 mod 3600 div 60, ngx_tm_hour = t mod 86400 div 3600,
    ngx_tm_mday = d, ngx_tm_mon = m, ngx_tm_year = y, ngx_tm_wday = (4 + t div 86400) mod 7\<rparr>"
proof -
  have "t div 86400 \<le> (253402300800 - 1) div 86400" using assms by (intro zdiv_mono1) simp_all
  then have "\<not> t div 86400 > 2932896" by simp
  with assms show ?thesis
    unfolding ngx_gmtime_def gmtime_date_def month_of_yday_def mday_of_yday_def Let_def
    by (auto split: prod.splits if_splits)
qed

lemma clock_split: "t mod 86400 div 3600 * 3600 + t mod 86400 mod 3600 div 60 * 60
    + t mod 86400 mod 3600 mod 60 = t mod 86400" for t :: int
  by (simp add: div_mult_mod_eq add.assoc)

lemma ngx_gmtime_valid:
  assumes "0 \<le> t" "t < 253402300800"
  shows "valid_tm (ngx_gmtime t) \<and> unix_time (ngx_gmtime t) = t"
proof -
  obtain y m d where date: "gmtime_date (t div 86400) = (y, m, d)" by (metis prod_cases3)
  have "t div 86400 \<le> (253402300800 - 1) div 86400" using assms by (intro zdiv_mono1) simp_all
  with assms have "0 \<le> t div 86400" "t div 86400 \<le> 2932896" by (simp_all add: pos_imp_zdiv_nonneg_iff)
  note g = gmtime_date_correct [OF this date]
  define h mi se wd where "h = t mod 86400 div 3600" and "mi = t mod 86400 mod 3600 div 60"
    and "se = t mod 86400 mod 3600 mod 60" and "wd = (4 + t div 86400) mod 7"
  have "h \<le> 86399 div 3600" "mi \<le> 3599 div 60" unfolding h_def mi_def
    using pos_mod_bound [of 86400 t] pos_mod_bound [of 3600 "t mod 86400"]
    by (intro zdiv_mono1; linarith)+
  moreover have "0 \<le> h" "0 \<le> mi" "0 \<le> se" "se < 60" "0 \<le> wd" "wd < 7"
    unfolding h_def mi_def se_def wd_def by (simp_all add: pos_imp_zdiv_nonneg_iff)
  moreover have "t div 86400 * 86400 + h * 3600 + mi * 60 + se = t"
    using clock_split [of t] div_mult_mod_eq [of t 86400] unfolding h_def mi_def se_def by linarith
  ultimately show ?thesis
    using g unfolding ngx_gmtime_fields [OF assms date] valid_tm_def unix_time_def
    unfolding h_def [symmetric] mi_def [symmetric] se_def [symmetric] wd_def [symmetric] by simp
qed

section \<open>Properties\<close>

text \<open>
  C35: \<^verbatim>\<open>ngx_parse_http_time\<close> reads no byte outside the \<open>len\<close> bytes it is given, whatever they are.
\<close>

theorem ngx_parse_http_time_in_bounds: "ngx_parse_http_time v \<noteq> Oob"
  using safe_parse_http_time [of v] by auto

text \<open>
  C34: from 1970 to the end of 9999 \<^verbatim>\<open>ngx_gmtime\<close> computes a date of the Gregorian calendar and a time
  of day, with a day of the week in range, and counting the days of the years and months up to
  that date gives the time back.
\<close>

theorem ngx_gmtime_correct:
  assumes "0 \<le> t" "t < 253402300800"
  shows "valid_tm (ngx_gmtime t) \<and> unix_time (ngx_gmtime t) = t"
  using assms by (rule ngx_gmtime_valid)

theorem ngx_gmtime_correct_witness:
  "valid_tm (ngx_gmtime 951782400) \<and> unix_time (ngx_gmtime 951782400) = 951782400"
  by (rule ngx_gmtime_correct) simp_all

end
