(* ===== verification/Ngx_Http_Machine.thy ===== *)
theory Ngx_Http_Machine
  imports Ngx_Prelude
begin

text \<open>
  What the incremental parsers of \<^verbatim>\<open>ngx_http_parse.c\<close> share.  Each is a loop
  \<^verbatim>\<open>for (p = b->pos; p < b->last; p++)\<close> around a switch on a local \<^verbatim>\<open>state\<close>, which is loaded from
  the request when the function is entered and saved there when the buffer is exhausted
  (\<^verbatim>\<open>NGX_AGAIN\<close>), so that a later call continues with the bytes that have arrived since.

  A buffer is the list of the bytes between \<^verbatim>\<open>b->start\<close> and \<^verbatim>\<open>b->last\<close> with the offset
  \<^verbatim>\<open>b->pos\<close>; a pointer into it is an offset, \<^verbatim>\<open>NULL\<close> is \<^const>\<open>None\<close>.  One execution of the switch
  is a step function: \<open>Next\<close> goes on with the next byte, \<open>Done\<close> is \<^verbatim>\<open>goto done\<close> (the byte is consumed,
  \<^verbatim>\<open>b->pos = p + 1\<close>), \<open>Reject\<close> is a \<^verbatim>\<open>return\<close> from inside the switch, which leaves \<^verbatim>\<open>b->pos\<close> and the
  saved state as they were.

  The locale \<open>resumable\<close> is the contract a step function owes to its callers, and what follows from it:
  how the input is cut into reads does not change the result.
\<close>

definition ptr_add :: "ptr \<Rightarrow> nat \<Rightarrow> ptr" where
  "ptr_add q n = map_option (\<lambda>x. x + n) q"

lemma ptr_add_Some [simp]: "ptr_add (Some x) n = Some (x + n)"
  by (simp add: ptr_add_def)

record ngx_buf_t =
  b_mem :: "u_char list"
  b_pos :: nat

datatype ('l, 'r) verdict = Next 'l 'r | Done int 'r | Reject int 'r

type_synonym ('l, 'r) stepper = "u_char list \<Rightarrow> nat \<Rightarrow> u_char \<Rightarrow> 'l \<Rightarrow> 'r \<Rightarrow> ('l, 'r) verdict"

fun scan :: "('l, 'r) stepper \<Rightarrow> u_char list \<Rightarrow> nat \<Rightarrow> u_char list \<Rightarrow> 'l \<Rightarrow> 'r
    \<Rightarrow> ('l, 'r) verdict \<times> nat" where
  "scan step m p [] l r = (Next l r, p)"
| "scan step m p (c # cs) l r =
     (case step m p c l r of
        Next l' r' \<Rightarrow> scan step m (p + 1) cs l' r'
      | v \<Rightarrow> (v, p))"

definition run_parser :: "('l, 'r) stepper \<Rightarrow> ('r \<Rightarrow> 'l) \<Rightarrow> ('l \<Rightarrow> 'r \<Rightarrow> 'r) \<Rightarrow> 'r \<Rightarrow> ngx_buf_t
    \<Rightarrow> int \<times> 'r \<times> ngx_buf_t" where
  "run_parser step load store r b =
     (case scan step (b_mem b) (b_pos b) (drop (b_pos b) (b_mem b)) (load r) r of
        (Next l r', p) \<Rightarrow> (NGX_AGAIN, store l r', b\<lparr>b_pos := p\<rparr>)
      | (Done rc r', p) \<Rightarrow> (rc, r', b\<lparr>b_pos := p + 1\<rparr>)
      | (Reject rc r', p) \<Rightarrow> (rc, r', b))"

text \<open>
  The caller's loop: a read appends bytes to the buffer, and the parser is called again as long as it
  answers \<^verbatim>\<open>NGX_AGAIN\<close> (\<^verbatim>\<open>ngx_http_process_request_line\<close>, \<^verbatim>\<open>ngx_http_process_request_headers\<close>).
\<close>

definition append_input :: "u_char list \<Rightarrow> ngx_buf_t \<Rightarrow> ngx_buf_t" where
  "append_input w b = b\<lparr>b_mem := b_mem b @ w\<rparr>"

fun feed :: "('r \<Rightarrow> ngx_buf_t \<Rightarrow> int \<times> 'r \<times> ngx_buf_t) \<Rightarrow> 'r \<Rightarrow> ngx_buf_t \<Rightarrow> u_char list list
    \<Rightarrow> int \<times> 'r \<times> ngx_buf_t" where
  "feed parse r b [] = (NGX_AGAIN, r, b)"
| "feed parse r b (w # ws) =
     (case parse r (append_input w b) of (rc, r', b') \<Rightarrow>
        if rc = NGX_AGAIN then feed parse r' b' ws else (rc, r', b'))"

abbreviation (input) NGX_HTTP_PARSE_HEADER_DONE :: int where "NGX_HTTP_PARSE_HEADER_DONE \<equiv> 1"
abbreviation (input) NGX_HTTP_PARSE_INVALID_METHOD :: int where "NGX_HTTP_PARSE_INVALID_METHOD \<equiv> 10"
abbreviation (input) NGX_HTTP_PARSE_INVALID_REQUEST :: int where "NGX_HTTP_PARSE_INVALID_REQUEST \<equiv> 11"
abbreviation (input) NGX_HTTP_PARSE_INVALID_VERSION :: int where "NGX_HTTP_PARSE_INVALID_VERSION \<equiv> 12"
abbreviation (input) NGX_HTTP_PARSE_INVALID_09_METHOD :: int where
  "NGX_HTTP_PARSE_INVALID_09_METHOD \<equiv> 13"
abbreviation (input) NGX_HTTP_PARSE_INVALID_HEADER :: int where "NGX_HTTP_PARSE_INVALID_HEADER \<equiv> 14"

section \<open>Lemmas on the loop\<close>

lemma scan_append:
  "scan step m p (xs @ ys) l r =
     (case scan step m p xs l r of (Next l' r', q) \<Rightarrow> scan step m q ys l' r' | v \<Rightarrow> v)"
  by (induction xs arbitrary: p l r) (auto split: verdict.split)

lemma scan_Next_pos: "scan step m p xs l r = (Next l' r', q) \<Longrightarrow> q = p + length xs"
  by (induction xs arbitrary: p l r) (fastforce split: verdict.splits)+

lemma scan_Stop_pos:
  assumes "scan step m p xs l r = (v, q)" "\<And>l r. v \<noteq> Next l r"
  shows "p \<le> q \<and> q < p + length xs"
  using assms
proof (induction xs arbitrary: p l r)
  case (Cons c xs)
  show ?case
  proof (cases "step m p c l r")
    case (Next l' r')
    with Cons.prems have "scan step m (p + 1) xs l' r' = (v, q)" by simp
    from Cons.IH [OF this Cons.prems(2)] show ?thesis by simp
  qed (use Cons.prems in auto)
qed auto

lemma drop_eq_ConsD: "drop p m = c # cs \<Longrightarrow> p < length m \<and> m ! p = c \<and> drop (p + 1) m = cs"
  by (metis Cons_nth_drop_Suc Suc_eq_plus1 drop_eq_Nil2 leI list.distinct(1) list.inject)

text \<open>
  Invariants of the loop: \<open>I p l r\<close> holds whenever byte \<open>p\<close> is about to be read; \<open>P\<close> is what holds
  when the loop stops at byte \<open>p\<close>.
\<close>

lemma scan_invariant:
  assumes "I p l r"
    and step: "\<And>p l r. p < length m \<Longrightarrow> I p l r \<Longrightarrow>
      (case step m p (m ! p) l r of
         Next l' r' \<Rightarrow> I (p + 1) l' r' | Done rc r' \<Rightarrow> P p rc r' | Reject rc r' \<Rightarrow> Q p rc r')"
  shows "case scan step m p (drop p m) l r of
      (Next l' r', q) \<Rightarrow> I q l' r' | (Done rc r', q) \<Rightarrow> P q rc r' | (Reject rc r', q) \<Rightarrow> Q q rc r'"
  using assms(1)
proof (induction "drop p m" arbitrary: p l r)
  case Nil
  then show ?case by (simp flip: Nil.hyps(1))
next
  case (Cons c cs)
  from drop_eq_ConsD [OF Cons.hyps(2) [symmetric]]
  have p: "p < length m" "m ! p = c" "cs = drop (p + 1) m" by auto
  note st = step [OF p(1) Cons.prems]
  show ?case
  proof (cases "step m p c l r")
    case (Next l' r')
    with st p have "I (p + 1) l' r'" by simp
    from Cons.hyps(1) [OF p(3) this] show ?thesis
      using Next p by (simp flip: Cons.hyps(2))
  qed (use st p in \<open>simp_all flip: Cons.hyps(2)\<close>)
qed

lemma run_parser_invariant:
  assumes "run_parser step load store r b = (rc, r', b')"
    and "b_pos b \<le> length (b_mem b)"
    and "I (b_pos b) (load r) r"
    and "\<And>p l r. p < length (b_mem b) \<Longrightarrow> I p l r \<Longrightarrow>
      (case step (b_mem b) p (b_mem b ! p) l r of
         Next l' r' \<Rightarrow> I (p + 1) l' r' | Done rc r' \<Rightarrow> P p rc r' | Reject rc r' \<Rightarrow> Q p rc r')"
  shows "(\<exists>l r1. rc = NGX_AGAIN \<and> r' = store l r1 \<and> b' = b\<lparr>b_pos := length (b_mem b)\<rparr>
              \<and> I (length (b_mem b)) l r1)
    \<or> (\<exists>p. b_pos b \<le> p \<and> p < length (b_mem b) \<and> P p rc r' \<and> b' = b\<lparr>b_pos := p + 1\<rparr>)
    \<or> (\<exists>p. b_pos b \<le> p \<and> p < length (b_mem b) \<and> Q p rc r' \<and> b' = b)"
proof -
  obtain v q where s:
    "scan step (b_mem b) (b_pos b) (drop (b_pos b) (b_mem b)) (load r) r = (v, q)" by fastforce
  note inv = scan_invariant [where I = I and P = P and Q = Q and m = "b_mem b" and step = step
      and p = "b_pos b" and l = "load r" and r = r, OF assms(3,4), unfolded s]
  show ?thesis
  proof (cases v)
    case (Next l r1)
    with scan_Next_pos s assms(2) have "q = length (b_mem b)" by fastforce
    with Next s inv assms(1) show ?thesis by (auto simp: run_parser_def)
  next
    case (Done c r1)
    with scan_Stop_pos [OF s] have "b_pos b \<le> q \<and> q < length (b_mem b)"
      using assms(2) by auto
    with Done s inv assms(1) show ?thesis by (auto simp: run_parser_def)
  next
    case (Reject c r1)
    with scan_Stop_pos [OF s] have "b_pos b \<le> q \<and> q < length (b_mem b)"
      using assms(2) by auto
    with Reject s inv assms(1) show ?thesis by (auto simp: run_parser_def)
  qed
qed

text \<open>
  Invariants in terms of the text \<open>w\<close> that has been consumed; \<open>P\<close> is what holds of it, with the last byte, when the loop stops.
\<close>

lemma run_parser_text:
  assumes "run_parser step load store r b = (rc, r', b')"
    and "b_pos b \<le> length (b_mem b)"
    and "I [] (load r) r"
    and step: "\<And>w c l r. drop (b_pos b) (take (b_pos b + length w + 1) (b_mem b)) = w @ [c] \<Longrightarrow> I w l r \<Longrightarrow>
      (case step (b_mem b) (b_pos b + length w) c l r of
         Next l' r' \<Rightarrow> I (w @ [c]) l' r' | Done rc r' \<Rightarrow> P (w @ [c]) rc r' | Reject rc r' \<Rightarrow> Q rc)"
    and "rc \<noteq> NGX_AGAIN" "\<not> Q rc"
  shows "\<exists>w. w \<noteq> [] \<and> b' = b\<lparr>b_pos := b_pos b + length w\<rparr> \<and> take (length w) (drop (b_pos b) (b_mem b)) = w \<and> P w rc r'"
proof -
  let ?m = "b_mem b" and ?p = "b_pos b"
  let ?w = "\<lambda>p. drop ?p (take p ?m)"
  have st: "case step ?m p (?m ! p) l r of Next l' r' \<Rightarrow> ?p \<le> p + 1 \<and> I (?w (p + 1)) l' r'
      | Done rc r' \<Rightarrow> ?p \<le> p \<and> P (?w (p + 1)) rc r' | Reject rc r' \<Rightarrow> Q rc"
    if "p < length ?m" "?p \<le> p \<and> I (?w p) l r" for p l r
  proof -
    have w: "?w (p + 1) = ?w p @ [?m ! p]" "?p + length (?w p) = p" using that by (simp_all add: take_Suc_conv_app_nth)
    then have "drop ?p (take (?p + length (?w p) + 1) ?m) = ?w p @ [?m ! p]" by simp
    from step [OF this, of l r] that(2) show ?thesis unfolding w using that(2) by (auto split: verdict.splits)
  qed
  from run_parser_invariant [where I = "\<lambda>p l r. ?p \<le> p \<and> I (?w p) l r" and P = "\<lambda>p rc r'. ?p \<le> p \<and> P (?w (p + 1)) rc r'" and
      Q = "\<lambda>p rc r'. Q rc", OF assms(1,2) _ st] assms(3,5,6)
  obtain p where p: "?p \<le> p" "p < length ?m" "P (?w (p + 1)) rc r'" "b' = b\<lparr>b_pos := p + 1\<rparr>" by auto
  have "length (?w (p + 1)) = p + 1 - ?p" using p(1,2) by simp
  moreover from this have "take (length (?w (p + 1))) (drop ?p ?m) = ?w (p + 1)" by (simp add: drop_take)
  ultimately show ?thesis using p by (intro exI [of _ "?w (p + 1)"]) (auto simp: Suc_diff_le)
qed

text \<open>The end of the consumed text, as a stretch of the buffer.\<close>

lemma text_piece:
  assumes "drop p0 (take (p0 + length w + 1) m) = w @ [c]" "w = x @ y"
  shows "piece m (p0 + length x) (p0 + length w) = y" "p0 + length w < length m" "m ! (p0 + length w) = c"
proof -
  let ?p = "p0 + length w"
  from arg_cong [OF assms(1), of length] show len: "?p < length m" by simp
  then have m: "drop p0 (take ?p m) = w" "m ! ?p = c" using assms(1) by (simp_all add: take_Suc_conv_app_nth)
  show "m ! ?p = c" by (rule m(2))
  have "piece m (p0 + length x) ?p = drop (length x) (drop p0 (take ?p m))" by (simp add: piece_def drop_take add.commute)
  also have "\<dots> = y" unfolding m(1) by (simp add: assms(2))
  finally show "piece m (p0 + length x) ?p = y" .
qed

lemma scan_all:
  assumes "I l r"
    and "\<And>p c l r. c \<in> set xs \<Longrightarrow> I l r \<Longrightarrow> \<exists>l' r'. step m p c l r = Next l' r' \<and> I l' r'"
  shows "\<exists>l' r'. scan step m p xs l r = (Next l' r', p + length xs) \<and> I l' r'"
  using assms
proof (induction xs arbitrary: p l r)
  case (Cons c xs)
  from Cons.prems(2) [of c l r p] Cons.prems(1) obtain l1 r1 where
    s: "step m p c l r = Next l1 r1" "I l1 r1" by auto
  have "\<exists>l' r'. scan step m (p + 1) xs l1 r1 = (Next l' r', p + 1 + length xs) \<and> I l' r'"
    using s(2) by (rule Cons.IH) (use Cons.prems(2) in auto)
  with s(1) show ?case by auto
qed simp

section \<open>Resumable parsers\<close>

text \<open>
  Two results agree when the return codes do, the requests agree outside the registers that \<open>store\<close>
  saves, and, where the parser has consumed input, the requests are equal and so are the positions.  After an
  error the saved registers are those of the call that failed and mean nothing.
\<close>

definition same_result ::
    "('l \<Rightarrow> 'r \<Rightarrow> 'r) \<Rightarrow> int \<times> 'r \<times> ngx_buf_t \<Rightarrow> int \<times> 'r \<times> ngx_buf_t \<Rightarrow> bool" where
  "same_result store x y \<longleftrightarrow> fst x = fst y
     \<and> (\<forall>l. store l (fst (snd x)) = store l (fst (snd y)))
     \<and> (fst x \<in> {NGX_OK, NGX_AGAIN} \<longrightarrow> fst (snd x) = fst (snd y))
     \<and> (fst x \<in> {NGX_OK, NGX_AGAIN, NGX_HTTP_PARSE_HEADER_DONE} \<longrightarrow>
          b_pos (snd (snd x)) = b_pos (snd (snd y)))"

fun stale_verdict :: "('l \<Rightarrow> 'r \<Rightarrow> 'r) \<Rightarrow> 'l \<Rightarrow> ('l, 'r) verdict \<Rightarrow> ('l, 'r) verdict \<Rightarrow> bool" where
  "stale_verdict store k (Next l r) v \<longleftrightarrow> v = Next l (store k r)"
| "stale_verdict store k (Done rc r) v \<longleftrightarrow> (\<exists>s. v = Done rc s \<and> (rc = NGX_OK \<longrightarrow> s = r)
     \<and> (\<forall>l. store l s = store l r))"
| "stale_verdict store k (Reject rc r) v \<longleftrightarrow> v = Reject rc (store k r)"

locale resumable =
  fixes step :: "('l, 'r) stepper" and load :: "'r \<Rightarrow> 'l" and store :: "'l \<Rightarrow> 'r \<Rightarrow> 'r"
  assumes load_store: "load (store l r) = l"
    and store_store: "store l (store k r) = store l r"
    and step_stale: "stale_verdict store k (step m p c l r) (step m p c l (store k r))"
    and step_local: "p < length m \<Longrightarrow> step (m @ w) p (m ! p) l r = step m p (m ! p) l r"
    and done_code: "step m p c l r = Done rc s \<Longrightarrow> rc \<noteq> NGX_AGAIN"
    and reject_code: "step m p c l r = Reject rc s \<Longrightarrow>
      rc \<notin> {NGX_OK, NGX_AGAIN, NGX_HTTP_PARSE_HEADER_DONE}"
begin

abbreviation parse where "parse \<equiv> run_parser step load store"

lemma same_result_refl: "same_result store x x"
  by (simp add: same_result_def)

lemma same_result_trans:
  "same_result store x y \<Longrightarrow> same_result store y z \<Longrightarrow> same_result store x z"
  by (auto simp: same_result_def)

lemma scan_local: "scan step (m @ w) p (drop p m) l r = scan step m p (drop p m) l r"
proof (induction "drop p m" arbitrary: p l r)
  case Nil
  then show ?case by (simp flip: Nil.hyps(1))
next
  case (Cons c cs)
  from drop_eq_ConsD [OF Cons.hyps(2) [symmetric]]
  have p: "p < length m" "m ! p = c" "cs = drop (p + 1) m" by auto
  then show ?case using Cons.hyps(1) [OF p(3)] step_local [OF p(1), of w l r]
    by (auto simp flip: Cons.hyps(2) split: verdict.split)
qed

lemma scan_stale:
  "scan step m p cs l (store k r) = (v, q) \<Longrightarrow>
     \<exists>u. scan step m p cs l r = (u, q) \<and> stale_verdict store k u v"
proof (induction cs arbitrary: p l r)
  case (Cons c cs)
  note s = step_stale [of k m p c l r]
  show ?case
  proof (cases "step m p c l r")
    case (Next l' r')
    with s Cons.prems have "scan step m (p + 1) cs l' (store k r') = (v, q)" by simp
    from Cons.IH [OF this] Next show ?thesis by simp
  next
    case (Done rc r')
    with s obtain t where "step m p c l (store k r) = Done rc t" "rc = NGX_OK \<longrightarrow> t = r'"
      "\<forall>l. store l t = store l r'" by auto
    moreover from this Cons.prems have "v = Done rc t" "q = p" by auto
    ultimately show ?thesis using Done by (intro exI [of _ "Done rc r'"]) simp
  qed (use s Cons.prems in auto)
qed auto

lemma scan_done_code: "scan step m p cs l r = (Done rc s, q) \<Longrightarrow> rc \<noteq> NGX_AGAIN"
  by (induction cs arbitrary: p l r) (auto split: verdict.splits dest: done_code)

lemma scan_reject_code: "scan step m p cs l r = (Reject rc s, q) \<Longrightarrow>
    rc \<notin> {NGX_OK, NGX_AGAIN, NGX_HTTP_PARSE_HEADER_DONE}"
  by (induction cs arbitrary: p l r) (auto split: verdict.splits dest: reject_code)

lemma parse_pos:
  assumes "parse r b = (rc, r', b')" "b_pos b \<le> length (b_mem b)"
  shows "b_mem b' = b_mem b \<and> b_pos b \<le> b_pos b' \<and> b_pos b' \<le> length (b_mem b)
     \<and> (rc = NGX_AGAIN \<longrightarrow> b_pos b' = length (b_mem b))"
proof -
  have "case step (b_mem b) p (b_mem b ! p) l r of
      Next l' r' \<Rightarrow> True | Done rc r' \<Rightarrow> rc \<noteq> NGX_AGAIN | Reject rc r' \<Rightarrow> rc \<noteq> NGX_AGAIN" for p l r
    by (auto split: verdict.split dest: done_code reject_code)
  from run_parser_invariant [where I = "\<lambda>_ _ _. True", OF assms TrueI this] assms(2) show ?thesis by auto
qed

text \<open>Two reads against one.\<close>

lemma parse_split:
  assumes "parse r b = (rc, r', b')" "b_pos b \<le> length (b_mem b)"
  shows "same_result store (if rc = NGX_AGAIN then parse r' (append_input w b') else (rc, r', b'))
           (parse r (append_input w b))"
proof -
  let ?m = "b_mem b" and ?p = "b_pos b"
  obtain v q where s: "scan step ?m ?p (drop ?p ?m) (load r) r = (v, q)" by fastforce
  have whole: "scan step (?m @ w) ?p (drop ?p (?m @ w)) (load r) r =
      (case (v, q) of (Next l r1, q) \<Rightarrow> scan step (?m @ w) q w l r1 | x \<Rightarrow> x)"
    using assms(2) by (simp add: scan_append scan_local s)
  show ?thesis
  proof (cases v)
    case (Next l r1)
    with scan_Next_pos s assms(2) have q: "q = length ?m" by fastforce
    from assms(1) Next s q have e: "rc = NGX_AGAIN" "r' = store l r1" "b' = b\<lparr>b_pos := length ?m\<rparr>"
      by (auto simp: run_parser_def)
    obtain v2 q2 where s2: "scan step (?m @ w) q w l (store l r1) = (v2, q2)" by fastforce
    from scan_stale [OF s2] obtain u where
      u: "scan step (?m @ w) q w l r1 = (u, q2)" "stale_verdict store l u v2" by blast
    have split: "parse r' (append_input w b') =
      (case (v2, q2) of (Next l' r2, p) \<Rightarrow> (NGX_AGAIN, store l' r2, (append_input w b')\<lparr>b_pos := p\<rparr>)
        | (Done c r2, p) \<Rightarrow> (c, r2, (append_input w b')\<lparr>b_pos := p + 1\<rparr>)
        | (Reject c r2, p) \<Rightarrow> (c, r2, append_input w b'))"
      unfolding e(2,3) using s2 q
      by (simp add: run_parser_def append_input_def load_store split: verdict.split)
    have one: "parse r (append_input w b) =
      (case (u, q2) of (Next l' r2, p) \<Rightarrow> (NGX_AGAIN, store l' r2, (append_input w b)\<lparr>b_pos := p\<rparr>)
        | (Done c r2, p) \<Rightarrow> (c, r2, (append_input w b)\<lparr>b_pos := p + 1\<rparr>)
        | (Reject c r2, p) \<Rightarrow> (c, r2, append_input w b))"
      using whole Next u by (simp add: run_parser_def append_input_def split: verdict.split)
    show ?thesis
      using u(2) scan_done_code [of "?m @ w" q w l r1 _ _ q2] scan_reject_code [of "?m @ w" q w l r1 _ _ q2]
      unfolding split one e(1) using u(1)
      by (cases u) (auto simp: same_result_def store_store)
  next
    case (Done c r1)
    then show ?thesis using assms(1) s whole scan_done_code [of ?m ?p _ _ r c r1 q]
      by (auto simp: run_parser_def append_input_def same_result_def)
  next
    case (Reject c r1)
    then show ?thesis using assms(1) s whole scan_reject_code [of ?m ?p _ _ r c r1 q]
      by (auto simp: run_parser_def append_input_def same_result_def)
  qed
qed

lemma append_input_append: "append_input v (append_input w b) = append_input (w @ v) b"
  by (simp add: append_input_def)

theorem feed_eq_parse:
  assumes "b_pos b \<le> length (b_mem b)" "ws \<noteq> []"
  shows "same_result store (feed parse r b ws) (parse r (append_input (concat ws) b))"
  using assms
proof (induction ws arbitrary: r b)
  case (Cons w ws)
  obtain rc r' b' where e: "parse r (append_input w b) = (rc, r', b')" by (metis prod_cases3)
  have le: "b_pos (append_input w b) \<le> length (b_mem (append_input w b))"
    using Cons.prems(1) by (simp add: append_input_def)
  note pos = parse_pos [OF e le]
  note split = parse_split [OF e le, of "concat ws", unfolded append_input_append]
  show ?case
  proof (cases "rc = NGX_AGAIN \<and> ws \<noteq> []")
    case True
    with pos Cons.IH [of b' r']
    have "same_result store (feed parse r' b' ws) (parse r' (append_input (concat ws) b'))" by simp
    with split True show ?thesis by (auto simp: e intro: same_result_trans)
  next
    case False
    then show ?thesis using split e by (cases ws) (auto simp: same_result_refl)
  qed
qed simp

end

end
