(* ===== verification/Ngx_Http_Request.thy ===== *)
theory Ngx_Http_Request
  imports Ngx_Http_Machine
begin

text \<open>
  The request record of \<^verbatim>\<open>ngx_http_request.h\<close>, as far as the parsers use it, with the character
  classes of \<^verbatim>\<open>ngx_http_parse.c\<close>.  Field \<^verbatim>\<open>r->f\<close> is \<open>r_f\<close>; the 16-bit fields \<^verbatim>\<open>http_minor\<close> and
  \<^verbatim>\<open>http_major\<close> are kept modulo 65536.
\<close>

record ngx_http_request_t =
  r_method :: nat
  r_http_version :: nat
  r_upstream :: bool
  r_complex_uri :: bool
  r_quoted_uri :: bool
  r_plus_in_uri :: bool
  r_empty_path_in_uri :: bool
  r_invalid_header :: bool
  r_state :: nat
  r_header_hash :: u_int64
  r_lowcase_index :: nat
  r_lowcase_header :: "u_char list"
  r_header_name_start :: ptr
  r_header_name_end :: ptr
  r_header_start :: ptr
  r_header_end :: ptr
  r_uri_start :: ptr
  r_uri_end :: ptr
  r_uri_ext :: ptr
  r_args_start :: ptr
  r_request_start :: ptr
  r_request_end :: ptr
  r_method_end :: ptr
  r_schema_start :: ptr
  r_schema_end :: ptr
  r_host_start :: ptr
  r_host_end :: ptr
  r_port_end :: ptr
  r_http_protocol_data :: ptr
  r_http_minor :: nat
  r_http_major :: nat

abbreviation (input) NGX_HTTP_UNKNOWN :: nat where "NGX_HTTP_UNKNOWN \<equiv> 0x0001"
abbreviation (input) NGX_HTTP_GET :: nat where "NGX_HTTP_GET \<equiv> 0x0002"
abbreviation (input) NGX_HTTP_HEAD :: nat where "NGX_HTTP_HEAD \<equiv> 0x0004"
abbreviation (input) NGX_HTTP_POST :: nat where "NGX_HTTP_POST \<equiv> 0x0008"
abbreviation (input) NGX_HTTP_PUT :: nat where "NGX_HTTP_PUT \<equiv> 0x0010"
abbreviation (input) NGX_HTTP_DELETE :: nat where "NGX_HTTP_DELETE \<equiv> 0x0020"
abbreviation (input) NGX_HTTP_MKCOL :: nat where "NGX_HTTP_MKCOL \<equiv> 0x0040"
abbreviation (input) NGX_HTTP_COPY :: nat where "NGX_HTTP_COPY \<equiv> 0x0080"
abbreviation (input) NGX_HTTP_MOVE :: nat where "NGX_HTTP_MOVE \<equiv> 0x0100"
abbreviation (input) NGX_HTTP_OPTIONS :: nat where "NGX_HTTP_OPTIONS \<equiv> 0x0200"
abbreviation (input) NGX_HTTP_PROPFIND :: nat where "NGX_HTTP_PROPFIND \<equiv> 0x0400"
abbreviation (input) NGX_HTTP_PROPPATCH :: nat where "NGX_HTTP_PROPPATCH \<equiv> 0x0800"
abbreviation (input) NGX_HTTP_LOCK :: nat where "NGX_HTTP_LOCK \<equiv> 0x1000"
abbreviation (input) NGX_HTTP_UNLOCK :: nat where "NGX_HTTP_UNLOCK \<equiv> 0x2000"
abbreviation (input) NGX_HTTP_PATCH :: nat where "NGX_HTTP_PATCH \<equiv> 0x4000"
abbreviation (input) NGX_HTTP_TRACE :: nat where "NGX_HTTP_TRACE \<equiv> 0x8000"
abbreviation (input) NGX_HTTP_CONNECT :: nat where "NGX_HTTP_CONNECT \<equiv> 0x10000"

definition bits16 :: "nat \<Rightarrow> nat" where
  "bits16 n = n mod 65536"

section \<open>Character classes\<close>

definition usual :: "u_int32 list" where
  "usual = [0x00000000, 0x7fff37d6, 0xffffffff, 0x7fffffff,
    0xffffffff, 0xffffffff, 0xffffffff, 0xffffffff]"

definition is_usual :: "u_char \<Rightarrow> bool" where
  "is_usual c \<longleftrightarrow> usual ! unat (drop_bit 5 c) AND push_bit (unat (c AND 0x1f)) 1 \<noteq> 0"

definition is_letter :: "u_char \<Rightarrow> bool" where
  "is_letter c \<longleftrightarrow> ch CHR ''a'' \<le> c OR 0x20 \<and> c OR 0x20 \<le> ch CHR ''z''"

definition is_method_char :: "u_char \<Rightarrow> bool" where
  "is_method_char c \<longleftrightarrow>
     \<not> ((c < ch CHR ''A'' \<or> c > ch CHR ''Z'') \<and> c \<noteq> ch CHR ''_'' \<and> c \<noteq> ch CHR ''-'')"

text \<open>The request as \<^verbatim>\<open>ngx_http_create_request\<close> leaves it: zeroed memory, then
  \<^verbatim>\<open>NGX_HTTP_UNKNOWN\<close> as the method and \<^verbatim>\<open>NGX_HTTP_VERSION_10\<close> as the version.\<close>

definition fresh_request :: ngx_http_request_t where
  "fresh_request = \<lparr>r_method = NGX_HTTP_UNKNOWN, r_http_version = 1000, r_upstream = False,
     r_complex_uri = False, r_quoted_uri = False, r_plus_in_uri = False,
     r_empty_path_in_uri = False, r_invalid_header = False, r_state = 0, r_header_hash = 0,
     r_lowcase_index = 0, r_lowcase_header = replicate 32 0, r_header_name_start = NULL,
     r_header_name_end = NULL, r_header_start = NULL, r_header_end = NULL, r_uri_start = NULL,
     r_uri_end = NULL, r_uri_ext = NULL, r_args_start = NULL, r_request_start = NULL,
     r_request_end = NULL, r_method_end = NULL, r_schema_start = NULL, r_schema_end = NULL,
     r_host_start = NULL, r_host_end = NULL, r_port_end = NULL, r_http_protocol_data = NULL,
     r_http_minor = 0, r_http_major = 0\<rparr>"

lemma fresh_request_fields:
  "r_state fresh_request = 0" "r_method fresh_request = NGX_HTTP_UNKNOWN"
  "r_request_end fresh_request = NULL" "r_http_major fresh_request = 0"
  "r_http_minor fresh_request = 0"
  by (simp_all add: fresh_request_def)

section \<open>Numbers and spaces in texts\<close>

text \<open>What a string of decimal digits denotes.\<close>

definition dec_nat :: "u_char list \<Rightarrow> nat" where
  "dec_nat ds = foldl (\<lambda>n c. n * 10 + (unat c - 48)) 0 ds"

lemma dec_nat_simps [simp]: "dec_nat [] = 0" "dec_nat (ds @ [c]) = dec_nat ds * 10 + (unat c - 48)"
  by (simp_all add: dec_nat_def)

lemma dec_nat_single [simp]: "dec_nat [c] = unat c - 48"
  by (simp add: dec_nat_def)

definition spaces :: "u_char list \<Rightarrow> bool" where
  "spaces s \<longleftrightarrow> set s \<subseteq> {0x20}"

lemma spaces_Nil [simp]: "spaces []"
  by (simp add: spaces_def)

lemma spaces_snoc: "spaces x \<Longrightarrow> spaces (x @ [0x20])"
  by (simp add: spaces_def)

section \<open>Character classes, exactly\<close>

lemma is_usual_iff: "is_usual c \<longleftrightarrow> 0x20 < c \<and> c \<notin> set (bytes ''#%+./?'') \<and> c \<noteq> 0x7f"
proof -
  have "list_all (\<lambda>c. is_usual c \<longleftrightarrow> 0x20 < c \<and> c \<notin> set (bytes ''#%+./?'') \<and> c \<noteq> 0x7f) all_bytes"
    by code_simp
  then show ?thesis by (rule byte_all)
qed

text \<open>The bytes a URI of an accepted request line consists of: no space, no control character.\<close>

definition uri_byte :: "u_char \<Rightarrow> bool" where
  "uri_byte c \<longleftrightarrow> 0x20 < c \<and> c \<noteq> 0x7f"

lemma is_usual_uri_byte: "is_usual c \<Longrightarrow> uri_byte c"
  by (simp add: is_usual_iff uri_byte_def)

lemma uri_byte_not_blank [simp]:
  "uri_byte c \<Longrightarrow> c \<noteq> 0x20" "uri_byte c \<Longrightarrow> c \<noteq> 13" "uri_byte c \<Longrightarrow> c \<noteq> 10"
  by (auto simp: uri_byte_def)

lemma not_below_space:
  fixes c :: u_char
  assumes "\<not> c < 0x20" "c \<noteq> 0x20" "c \<noteq> 0x7f"
  shows "uri_byte c"
  using assms by (auto simp: uri_byte_def not_less less_le)

end
