(* ===== verification/Ngx_Http_Method.thy ===== *)
theory Ngx_Http_Method
  imports Ngx_Http_Request
begin

text \<open>
  The method name of a request line: the word comparisons \<^verbatim>\<open>ngx_str3_cmp\<close> to \<^verbatim>\<open>ngx_str9cmp\<close> and the
  switch on the length of the name.  The switch is shown to be a lookup in the table of method names.
\<close>

section \<open>The word comparisons of the method name\<close>

text \<open>
  The comparisons load four bytes at once (\<^verbatim>\<open>NGX_HAVE_LITTLE_ENDIAN && NGX_HAVE_NONALIGNED\<close>).  The
  second load of \<^verbatim>\<open>ngx_str6cmp\<close> may reach one byte past the end of the input; the mask removes it, and
  the load of a byte outside the buffer is 0 here.
\<close>

definition mem_byte :: "u_char list \<Rightarrow> nat \<Rightarrow> u_char" where
  "mem_byte m i = (if i < length m then m ! i else 0)"

definition pack32 :: "u_char \<Rightarrow> u_char \<Rightarrow> u_char \<Rightarrow> u_char \<Rightarrow> u_int32" where
  "pack32 c0 c1 c2 c3 =
     push_bit 24 (ucast c3) OR push_bit 16 (ucast c2) OR push_bit 8 (ucast c1) OR ucast c0"

definition load32 :: "u_char list \<Rightarrow> nat \<Rightarrow> u_int32" where
  "load32 m i = pack32 (mem_byte m i) (mem_byte m (i + 1)) (mem_byte m (i + 2)) (mem_byte m (i + 3))"

definition ngx_str4cmp :: "u_char list \<Rightarrow> nat \<Rightarrow> u_char list \<Rightarrow> bool" where
  "ngx_str4cmp m i s \<longleftrightarrow> load32 m i = pack32 (s ! 0) (s ! 1) (s ! 2) (s ! 3)"

definition ngx_str5cmp :: "u_char list \<Rightarrow> nat \<Rightarrow> u_char list \<Rightarrow> bool" where
  "ngx_str5cmp m i s \<longleftrightarrow>
     load32 m i = pack32 (s ! 0) (s ! 1) (s ! 2) (s ! 3) \<and> mem_byte m (i + 4) = s ! 4"

definition ngx_str6cmp :: "u_char list \<Rightarrow> nat \<Rightarrow> u_char list \<Rightarrow> bool" where
  "ngx_str6cmp m i s \<longleftrightarrow>
     load32 m i = pack32 (s ! 0) (s ! 1) (s ! 2) (s ! 3)
     \<and> load32 m (i + 4) AND 0xffff = (push_bit 8 (ucast (s ! 5)) OR ucast (s ! 4))"

definition ngx_str8cmp :: "u_char list \<Rightarrow> nat \<Rightarrow> u_char list \<Rightarrow> bool" where
  "ngx_str8cmp m i s \<longleftrightarrow>
     load32 m i = pack32 (s ! 0) (s ! 1) (s ! 2) (s ! 3)
     \<and> load32 m (i + 4) = pack32 (s ! 4) (s ! 5) (s ! 6) (s ! 7)"

definition ngx_str9cmp :: "u_char list \<Rightarrow> nat \<Rightarrow> u_char list \<Rightarrow> bool" where
  "ngx_str9cmp m i s \<longleftrightarrow>
     load32 m i = pack32 (s ! 0) (s ! 1) (s ! 2) (s ! 3)
     \<and> load32 m (i + 4) = pack32 (s ! 4) (s ! 5) (s ! 6) (s ! 7) \<and> mem_byte m (i + 8) = s ! 8"

text \<open>\<^verbatim>\<open>switch (p - m)\<close>: the new value of \<^verbatim>\<open>r->method\<close>, given the old one.\<close>

definition method_switch :: "u_char list \<Rightarrow> nat \<Rightarrow> nat \<Rightarrow> nat \<Rightarrow> nat" where
  "method_switch m a n old =
    (if n = 3 then
       if ngx_str4cmp m a (bytes ''GET '') then NGX_HTTP_GET
       else if ngx_str4cmp m a (bytes ''PUT '') then NGX_HTTP_PUT
       else old
     else if n = 4 then
       if mem_byte m (a + 1) = ch CHR ''O'' then
         if ngx_str4cmp m a (bytes ''POST'') then NGX_HTTP_POST
         else if ngx_str4cmp m a (bytes ''COPY'') then NGX_HTTP_COPY
         else if ngx_str4cmp m a (bytes ''MOVE'') then NGX_HTTP_MOVE
         else if ngx_str4cmp m a (bytes ''LOCK'') then NGX_HTTP_LOCK
         else old
       else if ngx_str4cmp m a (bytes ''HEAD'') then NGX_HTTP_HEAD
       else old
     else if n = 5 then
       if ngx_str5cmp m a (bytes ''MKCOL'') then NGX_HTTP_MKCOL
       else if ngx_str5cmp m a (bytes ''PATCH'') then NGX_HTTP_PATCH
       else if ngx_str5cmp m a (bytes ''TRACE'') then NGX_HTTP_TRACE
       else old
     else if n = 6 then
       if ngx_str6cmp m a (bytes ''DELETE'') then NGX_HTTP_DELETE
       else if ngx_str6cmp m a (bytes ''UNLOCK'') then NGX_HTTP_UNLOCK
       else old
     else if n = 7 then
       let old = (if ngx_str8cmp m a (bytes ''OPTIONS '') then NGX_HTTP_OPTIONS else old) in
       if ngx_str8cmp m a (bytes ''CONNECT '') then NGX_HTTP_CONNECT else old
     else if n = 8 then
       if ngx_str8cmp m a (bytes ''PROPFIND'') then NGX_HTTP_PROPFIND else old
     else if n = 9 then
       if ngx_str9cmp m a (bytes ''PROPPATCH'') then NGX_HTTP_PROPPATCH else old
     else old)"

section \<open>The word comparisons are string comparisons\<close>

lemma ucast_u32_eq [simp]:
  "(ucast (a :: u_char) :: u_int32) = ucast b \<longleftrightarrow> a = b"
  by (metis unat_u32_of_byte word_unat_eq_iff)

lemma pack32_bytes:
  "ucast (pack32 c0 c1 c2 c3) = c0"
  "ucast (drop_bit 8 (pack32 c0 c1 c2 c3)) = c1"
  "ucast (drop_bit 16 (pack32 c0 c1 c2 c3)) = c2"
  "ucast (drop_bit 24 (pack32 c0 c1 c2 c3)) = c3"
  by (rule bit_word_eqI; auto simp: pack32_def bit_simps dest: bit_imp_le_length)+

lemma pack32_eq_iff [simp]:
  "pack32 a b c d = pack32 a' b' c' d' \<longleftrightarrow> a = a' \<and> b = b' \<and> c = c' \<and> d = d'"
  by (metis pack32_bytes)

lemma pack32_low: "pack32 a b c d AND 0xffff = (push_bit 8 (ucast b) OR ucast a)"
proof -
  have "pack32 a b c d AND 0xffff = take_bit 16 (pack32 a b c d)"
    by (simp add: take_bit_eq_mask mask_eq_exp_minus_1)
  also have "\<dots> = (push_bit 8 (ucast b) OR ucast a)"
    by (rule bit_word_eqI; auto simp: pack32_def bit_simps dest: bit_imp_le_length)
  finally show ?thesis .
qed

lemma pair16_eq_iff:
  "(push_bit 8 (ucast (b :: u_char)) OR ucast (a :: u_char) :: u_int32)
     = push_bit 8 (ucast b') OR ucast a' \<longleftrightarrow> a = a' \<and> b = b'"
proof -
  have "(push_bit 8 (ucast b) OR ucast a :: u_int32) = pack32 a b 0 0" for a b :: u_char
    by (simp add: pack32_def)
  then show ?thesis by simp
qed

lemmas str_cmp_defs = ngx_str4cmp_def ngx_str5cmp_def ngx_str6cmp_def ngx_str8cmp_def ngx_str9cmp_def
  load32_def pack32_low pair16_eq_iff bytes_def

text \<open>The methods and their codes, as a table.\<close>

definition method_table :: "(u_char list \<times> nat) list" where
  "method_table = [
     (bytes ''GET'', NGX_HTTP_GET), (bytes ''PUT'', NGX_HTTP_PUT), (bytes ''POST'', NGX_HTTP_POST),
     (bytes ''COPY'', NGX_HTTP_COPY), (bytes ''MOVE'', NGX_HTTP_MOVE), (bytes ''LOCK'', NGX_HTTP_LOCK),
     (bytes ''HEAD'', NGX_HTTP_HEAD), (bytes ''MKCOL'', NGX_HTTP_MKCOL),
     (bytes ''PATCH'', NGX_HTTP_PATCH), (bytes ''TRACE'', NGX_HTTP_TRACE),
     (bytes ''DELETE'', NGX_HTTP_DELETE), (bytes ''UNLOCK'', NGX_HTTP_UNLOCK),
     (bytes ''OPTIONS'', NGX_HTTP_OPTIONS), (bytes ''CONNECT'', NGX_HTTP_CONNECT),
     (bytes ''PROPFIND'', NGX_HTTP_PROPFIND), (bytes ''PROPPATCH'', NGX_HTTP_PROPPATCH)]"

definition method_of :: "u_char list \<Rightarrow> nat" where
  "method_of w = (case map_of method_table w of None \<Rightarrow> NGX_HTTP_UNKNOWN | Some k \<Rightarrow> k)"

lemma mem_byte_append [simp]: "i < length m \<Longrightarrow> mem_byte (m @ w) i = m ! i"
  by (simp add: mem_byte_def nth_append)

lemma mem_byte_nth [simp]: "i < length m \<Longrightarrow> mem_byte m i = m ! i"
  by (simp add: mem_byte_def)

lemma all_less_numerals:
  "(\<forall>k<4. P k) \<longleftrightarrow> P 0 \<and> P 1 \<and> P 2 \<and> P 3"
  "(\<forall>k<5. P k) \<longleftrightarrow> P 0 \<and> P 1 \<and> P 2 \<and> P 3 \<and> P 4"
  "(\<forall>k<6. P k) \<longleftrightarrow> P 0 \<and> P 1 \<and> P 2 \<and> P 3 \<and> P 4 \<and> P 5"
  "(\<forall>k<8. P k) \<longleftrightarrow> P 0 \<and> P 1 \<and> P 2 \<and> P 3 \<and> P 4 \<and> P 5 \<and> P 6 \<and> P 7"
  "(\<forall>k<9. P k) \<longleftrightarrow> P 0 \<and> P 1 \<and> P 2 \<and> P 3 \<and> P 4 \<and> P 5 \<and> P 6 \<and> P 7 \<and> P 8"
  for P :: "nat \<Rightarrow> bool"
  by (simp_all add: numeral_eq_Suc All_less_Suc conj_ac)

lemma piece_eq_iff:
  "a + n \<le> length m \<Longrightarrow> length s = n \<Longrightarrow> piece m a (a + n) = s \<longleftrightarrow> (\<forall>k<n. m ! (a + k) = s ! k)"
  by (auto simp: list_eq_iff_nth_eq)

lemma add_numeral_sums:
  "a + 4 + 1 = a + 5" "a + 4 + 2 = a + 6" "a + 4 + 3 = a + 7" "a + 0 = a" for a :: nat
  by simp_all

lemma ngx_str_cmp_piece:
  "a + 4 \<le> length m \<Longrightarrow> length s = 4 \<Longrightarrow> ngx_str4cmp m a s \<longleftrightarrow> piece m a (a + 4) = s"
  "a + 5 \<le> length m \<Longrightarrow> length s = 5 \<Longrightarrow> ngx_str5cmp m a s \<longleftrightarrow> piece m a (a + 5) = s"
  "a + 6 \<le> length m \<Longrightarrow> length s = 6 \<Longrightarrow> ngx_str6cmp m a s \<longleftrightarrow> piece m a (a + 6) = s"
  "a + 8 \<le> length m \<Longrightarrow> length s = 8 \<Longrightarrow> ngx_str8cmp m a s \<longleftrightarrow> piece m a (a + 8) = s"
  "a + 9 \<le> length m \<Longrightarrow> length s = 9 \<Longrightarrow> ngx_str9cmp m a s \<longleftrightarrow> piece m a (a + 9) = s"
  by (simp_all only: piece_eq_iff all_less_numerals ngx_str4cmp_def ngx_str5cmp_def ngx_str6cmp_def
      ngx_str8cmp_def ngx_str9cmp_def load32_def pack32_low pair16_eq_iff pack32_eq_iff
      add_numeral_sums mem_byte_nth)
    (simp_all add: conj_ac)

lemma of_char_byte_inj: "inj (of_char :: char \<Rightarrow> u_char)"
proof (rule injI)
  fix c d assume eq: "(of_char c :: u_char) = of_char d"
  have "unat (of_char x :: u_char) = of_char x" for x :: char
  proof -
    have "of_char x mod 256 < (256 :: nat)" by (rule mod_less_divisor) simp
    then have "of_char x < (256 :: nat)" by (simp only: of_char_mod_256)
    from unat_byte_of_nat [OF this] show ?thesis by (simp only: of_nat_of_char)
  qed
  then have "of_char c = (of_char d :: nat)" using eq by metis
  then show "c = d" by simp
qed

lemma bytes_eq_iff [simp]: "bytes s = bytes t \<longleftrightarrow> s = t"
  by (simp add: bytes_def inj_map_eq_map of_char_byte_inj)

lemma length_method_bytes [simp]: "length (bytes s) = length s"
  by (simp add: bytes_def)

lemma method_switch_local:
  assumes "p < length m"
  shows "method_switch (m @ w) a (p - a) old = method_switch m a (p - a) old"
proof -
  consider "p - a = 3" | "p - a = 4" | "p - a = 5" | "p - a = 6" | "p - a = 7" | "p - a = 8" | "p - a = 9"
    | "p - a \<notin> {3, 4, 5, 6, 7, 8, 9}" by auto
  then show ?thesis
  proof cases
    case 2
    then have "Suc a < length m" "a + 4 \<le> length m" using assms by linarith+
    with 2 show ?thesis by (simp add: method_switch_def ngx_str_cmp_piece nth_append)
  qed (use assms in \<open>simp_all add: method_switch_def ngx_str_cmp_piece\<close>)
qed

lemma method_switch_eq:
  assumes "a < p" "p < length m" "m ! p = ch CHR '' ''"
  shows "method_switch m a (p - a) NGX_HTTP_UNKNOWN = method_of (piece m a p)"
proof -
  define n where "n = p - a"
  define w where "w = piece m a p"
  with assms n_def have p: "p = a + n" and len: "length w = n" by simp_all
  have sp: "piece m a (a + n + 1) = w @ [0x20]" using assms by (simp add: w_def p piece_Suc)
  have ne: "length v \<noteq> n \<Longrightarrow> w = v \<longleftrightarrow> False" for v using len by blast
  have snd: "1 < n \<Longrightarrow> mem_byte m (a + 1) = w ! 1" using assms by (simp add: w_def p)
  consider "n = 3" | "n = 4" | "n = 5" | "n = 6" | "n = 7" | "n = 8" | "n = 9"
    | "n \<notin> {3, 4, 5, 6, 7, 8, 9}" by auto
  then have "method_switch m a n NGX_HTTP_UNKNOWN = method_of w"
  proof cases
    case 1
    with assms p have "a + 4 \<le> length m" by simp
    then have cmp: "ngx_str4cmp m a (bytes s @ [0x20]) \<longleftrightarrow> w = bytes s" if "length s = 3" for s
      using that sp by (simp add: ngx_str_cmp_piece 1 add.commute [of 4])
    have "bytes ''GET '' = bytes ''GET'' @ [0x20]" "bytes ''PUT '' = bytes ''PUT'' @ [0x20]"
      by (simp_all add: bytes_def)
    note sw = this cmp
    have "method_switch m a 3 NGX_HTTP_UNKNOWN = (if w = bytes ''GET'' then NGX_HTTP_GET
        else if w = bytes ''PUT'' then NGX_HTTP_PUT else NGX_HTTP_UNKNOWN)"
      by (simp add: method_switch_def sw)
    moreover have "method_of w = (if w = bytes ''GET'' then NGX_HTTP_GET
        else if w = bytes ''PUT'' then NGX_HTTP_PUT else NGX_HTTP_UNKNOWN)"
      by (simp add: method_of_def method_table_def ne [unfolded 1])
    ultimately show ?thesis by (simp only: 1)
  next
    case 2
    with assms p have "ngx_str4cmp m a (bytes s) \<longleftrightarrow> w = bytes s" if "length s = 4" for s
      using that by (simp add: ngx_str_cmp_piece w_def)
    then show ?thesis using snd
      by (simp add: 2 method_switch_def method_of_def method_table_def ne) (auto simp: bytes_def)
  next
    case 3
    with assms p have "ngx_str5cmp m a (bytes s) \<longleftrightarrow> w = bytes s" if "length s = 5" for s
      using that by (simp add: ngx_str_cmp_piece w_def)
    then show ?thesis by (simp add: 3 method_switch_def method_of_def method_table_def ne)
  next
    case 4
    with assms p have "ngx_str6cmp m a (bytes s) \<longleftrightarrow> w = bytes s" if "length s = 6" for s
      using that by (simp add: ngx_str_cmp_piece w_def)
    then show ?thesis by (simp add: 4 method_switch_def method_of_def method_table_def ne)
  next
    case 5
    with assms p have "a + 8 \<le> length m" by simp
    then have cmp: "ngx_str8cmp m a (bytes s @ [0x20]) \<longleftrightarrow> w = bytes s" if "length s = 7" for s
      using that sp by (simp add: ngx_str_cmp_piece 5 add.commute [of 8])
    have "bytes ''OPTIONS '' = bytes ''OPTIONS'' @ [0x20]" "bytes ''CONNECT '' = bytes ''CONNECT'' @ [0x20]"
      by (simp_all add: bytes_def)
    note sw = this cmp
    have "method_switch m a 7 NGX_HTTP_UNKNOWN = (if w = bytes ''CONNECT'' then NGX_HTTP_CONNECT
        else if w = bytes ''OPTIONS'' then NGX_HTTP_OPTIONS else NGX_HTTP_UNKNOWN)"
      by (simp add: method_switch_def sw)
    moreover have "method_of w = (if w = bytes ''CONNECT'' then NGX_HTTP_CONNECT
        else if w = bytes ''OPTIONS'' then NGX_HTTP_OPTIONS else NGX_HTTP_UNKNOWN)"
      by (simp add: method_of_def method_table_def ne [unfolded 5])
    ultimately show ?thesis by (simp only: 5)
  next
    case 6
    with assms p have "ngx_str8cmp m a (bytes s) \<longleftrightarrow> w = bytes s" if "length s = 8" for s
      using that by (simp add: ngx_str_cmp_piece w_def)
    then show ?thesis by (simp add: 6 method_switch_def method_of_def method_table_def ne)
  next
    case 7
    with assms p have "ngx_str9cmp m a (bytes s) \<longleftrightarrow> w = bytes s" if "length s = 9" for s
      using that by (simp add: ngx_str_cmp_piece w_def)
    then show ?thesis by (simp add: 7 method_switch_def method_of_def method_table_def ne)
  next
    case 8
    then show ?thesis
      by (simp add: method_switch_def method_of_def method_table_def ne)
  qed
  then show ?thesis by (simp only: n_def w_def)
qed

end
