(* ===== verification/Ngx_Http_Request_Line.thy ===== *)
theory Ngx_Http_Request_Line
  imports Ngx_Http_Method
begin

text \<open>
  \<^verbatim>\<open>ngx_http_parse_request_line\<close>.  There is one definition per \<^verbatim>\<open>case\<close> of the switch; the cases that
  fall through are composed the way the labels follow each other.  The variable \<^verbatim>\<open>ch\<close> of the code is
  \<open>c\<close> here.
\<close>

section \<open>The states\<close>

datatype rl_state =
    rl_start | rl_method | rl_spaces_before_uri | rl_schema | rl_schema_slash
  | rl_schema_slash_slash | rl_host_start | rl_host | rl_host_end | rl_host_ip_literal | rl_port
  | rl_after_slash_in_uri | rl_check_uri | rl_uri | rl_http_09 | rl_http_H | rl_http_HT | rl_http_HTT
  | rl_http_HTTP | rl_first_major_digit | rl_major_digit | rl_first_minor_digit | rl_minor_digit
  | rl_spaces_after_digit | rl_almost_done

definition rl_states :: "rl_state list" where
  "rl_states = [rl_start, rl_method, rl_spaces_before_uri, rl_schema, rl_schema_slash,
     rl_schema_slash_slash, rl_host_start, rl_host, rl_host_end, rl_host_ip_literal, rl_port,
     rl_after_slash_in_uri, rl_check_uri, rl_uri, rl_http_09, rl_http_H, rl_http_HT, rl_http_HTT,
     rl_http_HTTP, rl_first_major_digit, rl_major_digit, rl_first_minor_digit, rl_minor_digit,
     rl_spaces_after_digit, rl_almost_done]"

primrec rl_index :: "rl_state \<Rightarrow> nat" where
  "rl_index rl_start = 0" | "rl_index rl_method = 1" | "rl_index rl_spaces_before_uri = 2"
| "rl_index rl_schema = 3" | "rl_index rl_schema_slash = 4" | "rl_index rl_schema_slash_slash = 5"
| "rl_index rl_host_start = 6" | "rl_index rl_host = 7" | "rl_index rl_host_end = 8"
| "rl_index rl_host_ip_literal = 9" | "rl_index rl_port = 10" | "rl_index rl_after_slash_in_uri = 11"
| "rl_index rl_check_uri = 12" | "rl_index rl_uri = 13" | "rl_index rl_http_09 = 14"
| "rl_index rl_http_H = 15" | "rl_index rl_http_HT = 16" | "rl_index rl_http_HTT = 17"
| "rl_index rl_http_HTTP = 18" | "rl_index rl_first_major_digit = 19" | "rl_index rl_major_digit = 20"
| "rl_index rl_first_minor_digit = 21" | "rl_index rl_minor_digit = 22"
| "rl_index rl_spaces_after_digit = 23" | "rl_index rl_almost_done = 24"

type_synonym rl_verdict = "(rl_state, ngx_http_request_t) verdict"

section \<open>The switch\<close>

text \<open>The label \<^verbatim>\<open>done\<close>, with \<open>p\<close> the position of the line feed.\<close>

definition rl_finish :: "nat \<Rightarrow> ngx_http_request_t \<Rightarrow> rl_verdict" where
  "rl_finish p r =
    (let r = (if r_request_end r = NULL then r\<lparr>r_request_end := Some p\<rparr> else r);
         r = r\<lparr>r_http_version := r_http_major r * 1000 + r_http_minor r, r_state := 0\<rparr> in
     if r_http_version r = 9 \<and> r_method r \<noteq> NGX_HTTP_GET
     then Done NGX_HTTP_PARSE_INVALID_09_METHOD r
     else Done NGX_OK r)"

abbreviation (input) rl_invalid :: "ngx_http_request_t \<Rightarrow> rl_verdict" where
  "rl_invalid \<equiv> Reject NGX_HTTP_PARSE_INVALID_REQUEST"

definition rl_do_start :: "nat \<Rightarrow> u_char \<Rightarrow> ngx_http_request_t \<Rightarrow> rl_verdict" where
  "rl_do_start p c r =
    (let r = r\<lparr>r_request_start := Some p\<rparr> in
     if c = CR \<or> c = LF then Next rl_start r
     else if \<not> is_method_char c then Reject NGX_HTTP_PARSE_INVALID_METHOD r
     else Next rl_method r)"

definition rl_do_method :: "u_char list \<Rightarrow> nat \<Rightarrow> u_char \<Rightarrow> ngx_http_request_t \<Rightarrow> rl_verdict" where
  "rl_do_method m p c r =
    (if c = ch CHR '' '' then
       let r = r\<lparr>r_method_end := Some (p - 1)\<rparr> in
       Next rl_spaces_before_uri
         (case r_request_start r of
            NULL \<Rightarrow> r
          | Some a \<Rightarrow> r\<lparr>r_method := method_switch m a (p - a) (r_method r)\<rparr>)
     else if \<not> is_method_char c then Reject NGX_HTTP_PARSE_INVALID_METHOD r
     else Next rl_method r)"

definition rl_do_spaces_before_uri :: "nat \<Rightarrow> u_char \<Rightarrow> ngx_http_request_t \<Rightarrow> rl_verdict" where
  "rl_do_spaces_before_uri p c r =
    (if c = ch CHR ''/'' then Next rl_after_slash_in_uri (r\<lparr>r_uri_start := Some p\<rparr>)
     else if is_letter c then Next rl_schema (r\<lparr>r_schema_start := Some p\<rparr>)
     else if c = ch CHR '' '' then Next rl_spaces_before_uri r
     else rl_invalid r)"

definition rl_do_schema :: "nat \<Rightarrow> u_char \<Rightarrow> ngx_http_request_t \<Rightarrow> rl_verdict" where
  "rl_do_schema p c r =
    (if is_letter c then Next rl_schema r
     else if is_digit c \<or> c = ch CHR ''+'' \<or> c = ch CHR ''-'' \<or> c = ch CHR ''.'' then Next rl_schema r
     else if c = ch CHR '':'' then Next rl_schema_slash (r\<lparr>r_schema_end := Some p\<rparr>)
     else rl_invalid r)"

definition rl_expect :: "char \<Rightarrow> rl_state \<Rightarrow> u_char \<Rightarrow> ngx_http_request_t \<Rightarrow> rl_verdict" where
  "rl_expect x l c r = (if c = ch x then Next l r else rl_invalid r)"

definition rl_do_schema_slash :: "u_char \<Rightarrow> ngx_http_request_t \<Rightarrow> rl_verdict" where
  "rl_do_schema_slash c r = rl_expect CHR ''/'' rl_schema_slash_slash c r"

definition rl_do_schema_slash_slash :: "u_char \<Rightarrow> ngx_http_request_t \<Rightarrow> rl_verdict" where
  "rl_do_schema_slash_slash c r = rl_expect CHR ''/'' rl_host_start c r"

text \<open>\<^verbatim>\<open>uri_start\<close> and \<^verbatim>\<open>uri_end\<close> around the second slash of \<^verbatim>\<open>schema://\<close>.\<close>

definition rl_schema_slash_as_uri :: "ngx_http_request_t \<Rightarrow> ngx_http_request_t" where
  "rl_schema_slash_as_uri r =
     r\<lparr>r_uri_start := ptr_add (r_schema_end r) 1, r_uri_end := ptr_add (r_schema_end r) 2\<rparr>"

definition rl_do_host_end :: "nat \<Rightarrow> u_char \<Rightarrow> ngx_http_request_t \<Rightarrow> rl_verdict" where
  "rl_do_host_end p c r =
    (let r = r\<lparr>r_host_end := Some p\<rparr> in
     if c = ch CHR '':'' then Next rl_port r
     else if c = ch CHR ''/'' then Next rl_after_slash_in_uri (r\<lparr>r_uri_start := Some p\<rparr>)
     else if c = ch CHR ''?'' then
       Next rl_uri (r\<lparr>r_uri_start := Some p, r_args_start := Some (p + 1), r_empty_path_in_uri := True\<rparr>)
     else if c = ch CHR '' '' then Next rl_http_09 (rl_schema_slash_as_uri r)
     else rl_invalid r)"

definition rl_do_host :: "nat \<Rightarrow> u_char \<Rightarrow> ngx_http_request_t \<Rightarrow> rl_verdict" where
  "rl_do_host p c r =
    (if is_letter c then Next rl_host r
     else if is_digit c \<or> c = ch CHR ''.'' \<or> c = ch CHR ''-'' then Next rl_host r
     else rl_do_host_end p c r)"

definition rl_do_host_start :: "nat \<Rightarrow> u_char \<Rightarrow> ngx_http_request_t \<Rightarrow> rl_verdict" where
  "rl_do_host_start p c r =
    (let r = r\<lparr>r_host_start := Some p\<rparr> in
     if c = ch CHR ''['' then Next rl_host_ip_literal r
     else rl_do_host p c r)"

definition rl_do_host_ip_literal :: "u_char \<Rightarrow> ngx_http_request_t \<Rightarrow> rl_verdict" where
  "rl_do_host_ip_literal c r =
    (if is_digit c then Next rl_host_ip_literal r
     else if is_letter c then Next rl_host_ip_literal r
     else if c = ch CHR '':'' then Next rl_host_ip_literal r
     else if c = ch CHR '']'' then Next rl_host_end r
     else if c \<in> set (bytes ''-._~'') then Next rl_host_ip_literal r
     else if c \<in> set (ch (CHR 0x27) # bytes ''!$&()*+,;='') then Next rl_host_ip_literal r
     else rl_invalid r)"

definition rl_do_port :: "nat \<Rightarrow> u_char \<Rightarrow> ngx_http_request_t \<Rightarrow> rl_verdict" where
  "rl_do_port p c r =
    (if is_digit c then Next rl_port r
     else if c = ch CHR ''/'' then
       Next rl_after_slash_in_uri (r\<lparr>r_port_end := Some p, r_uri_start := Some p\<rparr>)
     else if c = ch CHR ''?'' then
       Next rl_uri (r\<lparr>r_port_end := Some p, r_uri_start := Some p, r_args_start := Some (p + 1),
         r_empty_path_in_uri := True\<rparr>)
     else if c = ch CHR '' '' then Next rl_http_09 (rl_schema_slash_as_uri (r\<lparr>r_port_end := Some p\<rparr>))
     else rl_invalid r)"

text \<open>The cases \<^verbatim>\<open>' '\<close>, \<^verbatim>\<open>CR\<close> and \<^verbatim>\<open>LF\<close> that end the URI.\<close>

definition rl_end_uri :: "nat \<Rightarrow> u_char \<Rightarrow> ngx_http_request_t \<Rightarrow> rl_verdict" where
  "rl_end_uri p c r =
    (let r = r\<lparr>r_uri_end := Some p\<rparr> in
     if c = ch CHR '' '' then Next rl_http_09 r
     else if c = CR then Next rl_almost_done (r\<lparr>r_http_minor := 9\<rparr>)
     else rl_finish p (r\<lparr>r_http_minor := 9\<rparr>))"

definition rl_do_after_slash_in_uri :: "nat \<Rightarrow> u_char \<Rightarrow> ngx_http_request_t \<Rightarrow> rl_verdict" where
  "rl_do_after_slash_in_uri p c r =
    (if is_usual c then Next rl_check_uri r
     else if c = ch CHR '' '' \<or> c = CR \<or> c = LF then rl_end_uri p c r
     else if c = ch CHR ''.'' then Next rl_uri (r\<lparr>r_complex_uri := True\<rparr>)
     else if c = ch CHR ''%'' then Next rl_uri (r\<lparr>r_quoted_uri := True\<rparr>)
     else if c = ch CHR ''/'' then Next rl_uri (r\<lparr>r_complex_uri := True\<rparr>)
     else if c = ch CHR ''?'' then Next rl_uri (r\<lparr>r_args_start := Some (p + 1)\<rparr>)
     else if c = ch CHR ''#'' then Next rl_uri (r\<lparr>r_complex_uri := True\<rparr>)
     else if c = ch CHR ''+'' then Next rl_after_slash_in_uri (r\<lparr>r_plus_in_uri := True\<rparr>)
     else if c < 0x20 \<or> c = 0x7f then rl_invalid r
     else Next rl_check_uri r)"

definition rl_do_check_uri :: "nat \<Rightarrow> u_char \<Rightarrow> ngx_http_request_t \<Rightarrow> rl_verdict" where
  "rl_do_check_uri p c r =
    (if is_usual c then Next rl_check_uri r
     else if c = ch CHR ''/'' then Next rl_after_slash_in_uri (r\<lparr>r_uri_ext := NULL\<rparr>)
     else if c = ch CHR ''.'' then Next rl_check_uri (r\<lparr>r_uri_ext := Some (p + 1)\<rparr>)
     else if c = ch CHR '' '' \<or> c = CR \<or> c = LF then rl_end_uri p c r
     else if c = ch CHR ''%'' then Next rl_uri (r\<lparr>r_quoted_uri := True\<rparr>)
     else if c = ch CHR ''?'' then Next rl_uri (r\<lparr>r_args_start := Some (p + 1)\<rparr>)
     else if c = ch CHR ''#'' then Next rl_uri (r\<lparr>r_complex_uri := True\<rparr>)
     else if c = ch CHR ''+'' then Next rl_check_uri (r\<lparr>r_plus_in_uri := True\<rparr>)
     else if c < 0x20 \<or> c = 0x7f then rl_invalid r
     else Next rl_check_uri r)"

definition rl_do_uri :: "nat \<Rightarrow> u_char \<Rightarrow> ngx_http_request_t \<Rightarrow> rl_verdict" where
  "rl_do_uri p c r =
    (if is_usual c then Next rl_uri r
     else if c = ch CHR '' '' \<or> c = CR \<or> c = LF then rl_end_uri p c r
     else if c = ch CHR ''#'' then Next rl_uri (r\<lparr>r_complex_uri := True\<rparr>)
     else if c < 0x20 \<or> c = 0x7f then rl_invalid r
     else Next rl_uri r)"

definition rl_do_http_09 :: "nat \<Rightarrow> u_char \<Rightarrow> ngx_http_request_t \<Rightarrow> rl_verdict" where
  "rl_do_http_09 p c r =
    (if c = ch CHR '' '' then Next rl_http_09 r
     else if c = CR then Next rl_almost_done (r\<lparr>r_http_minor := 9\<rparr>)
     else if c = LF then rl_finish p (r\<lparr>r_http_minor := 9\<rparr>)
     else if c = ch CHR ''H'' then Next rl_http_H (r\<lparr>r_http_protocol_data := Some p\<rparr>)
     else rl_invalid r)"

definition rl_do_first_major_digit :: "u_char \<Rightarrow> ngx_http_request_t \<Rightarrow> rl_verdict" where
  "rl_do_first_major_digit c r =
    (if c < ch CHR ''1'' \<or> c > ch CHR ''9'' then rl_invalid r
     else
       let r = r\<lparr>r_http_major := bits16 (unat c - 48)\<rparr> in
       if r_http_major r > 1 then Reject NGX_HTTP_PARSE_INVALID_VERSION r
       else Next rl_major_digit r)"

definition rl_do_major_digit :: "u_char \<Rightarrow> ngx_http_request_t \<Rightarrow> rl_verdict" where
  "rl_do_major_digit c r =
    (if c = ch CHR ''.'' then Next rl_first_minor_digit r
     else if \<not> is_digit c then rl_invalid r
     else
       let r = r\<lparr>r_http_major := bits16 (r_http_major r * 10 + (unat c - 48))\<rparr> in
       if r_http_major r > 1 then Reject NGX_HTTP_PARSE_INVALID_VERSION r
       else Next rl_major_digit r)"

definition rl_do_first_minor_digit :: "u_char \<Rightarrow> ngx_http_request_t \<Rightarrow> rl_verdict" where
  "rl_do_first_minor_digit c r =
    (if \<not> is_digit c then rl_invalid r
     else Next rl_minor_digit (r\<lparr>r_http_minor := bits16 (unat c - 48)\<rparr>))"

definition rl_do_minor_digit :: "nat \<Rightarrow> u_char \<Rightarrow> ngx_http_request_t \<Rightarrow> rl_verdict" where
  "rl_do_minor_digit p c r =
    (if c = CR then Next rl_almost_done r
     else if c = LF then rl_finish p r
     else if c = ch CHR '' '' then Next rl_spaces_after_digit r
     else if \<not> is_digit c then rl_invalid r
     else if r_http_minor r > 99 then rl_invalid r
     else Next rl_minor_digit (r\<lparr>r_http_minor := bits16 (r_http_minor r * 10 + (unat c - 48))\<rparr>))"

definition rl_do_spaces_after_digit :: "nat \<Rightarrow> u_char \<Rightarrow> ngx_http_request_t \<Rightarrow> rl_verdict" where
  "rl_do_spaces_after_digit p c r =
    (if c = ch CHR '' '' then Next rl_spaces_after_digit r
     else if c = CR then Next rl_almost_done r
     else if c = LF then rl_finish p r
     else rl_invalid r)"

definition rl_do_almost_done :: "nat \<Rightarrow> u_char \<Rightarrow> ngx_http_request_t \<Rightarrow> rl_verdict" where
  "rl_do_almost_done p c r =
    (let r = r\<lparr>r_request_end := Some (p - 1)\<rparr> in
     if c = LF then rl_finish p r else rl_invalid r)"

fun request_line_step :: "(rl_state, ngx_http_request_t) stepper" where
  "request_line_step m p c rl_start r = rl_do_start p c r"
| "request_line_step m p c rl_method r = rl_do_method m p c r"
| "request_line_step m p c rl_spaces_before_uri r = rl_do_spaces_before_uri p c r"
| "request_line_step m p c rl_schema r = rl_do_schema p c r"
| "request_line_step m p c rl_schema_slash r = rl_do_schema_slash c r"
| "request_line_step m p c rl_schema_slash_slash r = rl_do_schema_slash_slash c r"
| "request_line_step m p c rl_host_start r = rl_do_host_start p c r"
| "request_line_step m p c rl_host r = rl_do_host p c r"
| "request_line_step m p c rl_host_end r = rl_do_host_end p c r"
| "request_line_step m p c rl_host_ip_literal r = rl_do_host_ip_literal c r"
| "request_line_step m p c rl_port r = rl_do_port p c r"
| "request_line_step m p c rl_after_slash_in_uri r = rl_do_after_slash_in_uri p c r"
| "request_line_step m p c rl_check_uri r = rl_do_check_uri p c r"
| "request_line_step m p c rl_uri r = rl_do_uri p c r"
| "request_line_step m p c rl_http_09 r = rl_do_http_09 p c r"
| "request_line_step m p c rl_http_H r = rl_expect CHR ''T'' rl_http_HT c r"
| "request_line_step m p c rl_http_HT r = rl_expect CHR ''T'' rl_http_HTT c r"
| "request_line_step m p c rl_http_HTT r = rl_expect CHR ''P'' rl_http_HTTP c r"
| "request_line_step m p c rl_http_HTTP r = rl_expect CHR ''/'' rl_first_major_digit c r"
| "request_line_step m p c rl_first_major_digit r = rl_do_first_major_digit c r"
| "request_line_step m p c rl_major_digit r = rl_do_major_digit c r"
| "request_line_step m p c rl_first_minor_digit r = rl_do_first_minor_digit c r"
| "request_line_step m p c rl_minor_digit r = rl_do_minor_digit p c r"
| "request_line_step m p c rl_spaces_after_digit r = rl_do_spaces_after_digit p c r"
| "request_line_step m p c rl_almost_done r = rl_do_almost_done p c r"

definition rl_load :: "ngx_http_request_t \<Rightarrow> rl_state" where
  "rl_load r = rl_states ! r_state r"

definition rl_store :: "rl_state \<Rightarrow> ngx_http_request_t \<Rightarrow> ngx_http_request_t" where
  "rl_store l r = r\<lparr>r_state := rl_index l\<rparr>"

definition ngx_http_parse_request_line ::
    "ngx_http_request_t \<Rightarrow> ngx_buf_t \<Rightarrow> int \<times> ngx_http_request_t \<times> ngx_buf_t" where
  "ngx_http_parse_request_line = run_parser request_line_step rl_load rl_store"

section \<open>The parser is resumable\<close>

lemma rl_states_index [simp]: "rl_states ! rl_index l = l"
  by (cases l) (simp_all add: rl_states_def)

lemmas rl_do_defs = rl_do_start_def rl_do_method_def rl_do_spaces_before_uri_def rl_do_schema_def
  rl_do_schema_slash_def rl_do_schema_slash_slash_def rl_do_host_start_def rl_do_host_def
  rl_do_host_end_def rl_do_host_ip_literal_def rl_do_port_def rl_do_after_slash_in_uri_def
  rl_do_check_uri_def rl_do_uri_def rl_do_http_09_def rl_do_first_major_digit_def
  rl_do_major_digit_def rl_do_first_minor_digit_def rl_do_minor_digit_def
  rl_do_spaces_after_digit_def rl_do_almost_done_def rl_expect_def rl_end_uri_def rl_finish_def
  rl_schema_slash_as_uri_def

lemma rl_step_local:
  "p < length m \<Longrightarrow> request_line_step (m @ w) p c l r = request_line_step m p c l r"
  by (cases l) (simp_all add: rl_do_method_def method_switch_local Let_def split: option.split)

lemma rl_step_codes:
  "request_line_step m p c l r = Done rc s \<Longrightarrow> rc \<in> {NGX_OK, NGX_HTTP_PARSE_INVALID_09_METHOD}"
  "request_line_step m p c l r = Reject rc s \<Longrightarrow>
     rc \<in> {NGX_HTTP_PARSE_INVALID_METHOD, NGX_HTTP_PARSE_INVALID_REQUEST, NGX_HTTP_PARSE_INVALID_VERSION}"
  by (cases l; auto simp: rl_do_defs Let_def split: if_splits)+

lemma stale_finish:
  "s = rl_store k r \<Longrightarrow> stale_verdict rl_store k (rl_finish p r) (rl_finish p s)"
  by (simp add: rl_finish_def Let_def rl_store_def)

lemma stale_intros:
  "s = rl_store k r \<Longrightarrow> stale_verdict rl_store k (Next l r) (Next l s)"
  "s = rl_store k r \<Longrightarrow> stale_verdict rl_store k (Reject rc r) (Reject rc s)"
  "(b \<Longrightarrow> stale_verdict rl_store k x x') \<Longrightarrow> (\<not> b \<Longrightarrow> stale_verdict rl_store k y y') \<Longrightarrow>
     stale_verdict rl_store k (if b then x else y) (if b then x' else y')"
  by simp_all

lemma rl_step_stale:
  "stale_verdict rl_store k (request_line_step m p c l r) (request_line_step m p c l (rl_store k r))"
proof (cases l)
  case rl_method
  then show ?thesis
    by (simp add: rl_do_method_def Let_def rl_store_def split: option.split)
next
  case rl_first_major_digit
  then show ?thesis by (simp add: rl_do_first_major_digit_def Let_def rl_store_def)
next
  case rl_major_digit
  then show ?thesis by (simp add: rl_do_major_digit_def Let_def rl_store_def)
next
  case rl_minor_digit
  then show ?thesis
    by (auto simp: rl_do_minor_digit_def rl_store_def intro: stale_finish)
qed (simp_all only: request_line_step.simps rl_do_defs(1,3-16,18,20-23,25) Let_def,
     (intro stale_intros stale_finish; simp add: rl_store_def)+)

interpretation rl: resumable request_line_step rl_load rl_store
proof
  show "rl_load (rl_store l r) = l" for l r by (simp add: rl_load_def rl_store_def)
  show "rl_store l (rl_store k r) = rl_store l r" for l k r by (simp add: rl_store_def)
qed (auto simp: rl_step_local rl_step_stale dest!: rl_step_codes)

end
