(* ===== verification/Ngx_Http_Request_Line_Correct.thy ===== *)
theory Ngx_Http_Request_Line_Correct
  imports Ngx_Http_Request_Line
begin

text \<open>
  Correctness of \<^verbatim>\<open>ngx_http_parse_request_line\<close>: an invariant of the scan, from it what an accepted line
  looks like, that every well-formed line is accepted, and that the line may arrive in pieces.
\<close>

section \<open>What an accepted request line looks like\<close>

text \<open>
  The grammar, on the text of the line.  \<open>n\<close> is the position at which the stretch \<open>x\<close> starts, so that the pointers of the
  request name positions of it.  A line starts with line ends that are skipped, the method token and a space.
\<close>

definition token_char :: "u_char \<Rightarrow> bool" where
  "token_char c \<longleftrightarrow> ch CHR ''A'' \<le> c \<and> c \<le> ch CHR ''Z'' \<or> c = ch CHR ''_'' \<or> c = ch CHR ''-''"

definition line_head :: "nat \<Rightarrow> u_char list \<Rightarrow> ngx_http_request_t \<Rightarrow> nat \<Rightarrow> u_char list \<Rightarrow> bool" where
  "line_head p0 w r n x \<longleftrightarrow> (\<exists>bl t. w = bl @ t @ [0x20] @ x \<and> set bl \<subseteq> {CR, LF} \<and> t \<noteq> [] \<and> list_all token_char t
     \<and> n = p0 + length bl + length t + 1 \<and> r_request_start r = Some (p0 + length bl)
     \<and> r_method_end r = Some (p0 + length bl + length t - 1) \<and> r_method r = method_of t)"

text \<open>
  The target: after spaces, a URI that starts with a slash, or a schema, the first \<open>j\<close> bytes of \<^verbatim>\<open>://\<close>, a host with an optional port, and after them
  a URI that starts with a slash or a question mark, or nothing.  In the last case the URI is the second slash of \<^verbatim>\<open>://\<close>.
\<close>

definition schema_char :: "u_char \<Rightarrow> bool" where
  "schema_char c \<longleftrightarrow> uri_byte c \<and> c \<noteq> ch CHR '':'' \<and> c \<noteq> ch CHR ''/''"

definition host_char :: "u_char \<Rightarrow> bool" where
  "host_char c \<longleftrightarrow> uri_byte c \<and> c \<noteq> ch CHR ''/'' \<and> c \<noteq> ch CHR ''?''"

definition schema_text :: "u_char list \<Rightarrow> bool" where
  "schema_text x \<longleftrightarrow> (\<exists>s t. x = s @ t \<and> spaces s \<and> t \<noteq> [] \<and> list_all schema_char t)"

definition absolute :: "nat \<Rightarrow> nat \<Rightarrow> u_char list \<Rightarrow> ptr \<Rightarrow> bool" where
  "absolute j n x q \<longleftrightarrow> (\<exists>s. x = s @ take j (bytes ''://'') \<and> schema_text s \<and> q = Some (n + length s))"

definition authority :: "nat \<Rightarrow> u_char list \<Rightarrow> ptr \<Rightarrow> bool" where
  "authority n x q \<longleftrightarrow> (\<exists>s h. x = s @ h \<and> absolute 3 n s q \<and> list_all host_char h)"

definition uri_text :: "nat \<Rightarrow> u_char list \<Rightarrow> ptr \<Rightarrow> bool" where
  "uri_text n x q \<longleftrightarrow> (\<exists>s u. x = s @ u \<and> (spaces s \<and> hd u = ch CHR ''/'' \<or> (\<exists>k. authority n s k) \<and> hd u \<in> {ch CHR ''/'', ch CHR ''?''}) \<and>
     u \<noteq> [] \<and> list_all uri_byte u \<and> q = Some (n + length s))"

definition target :: "nat \<Rightarrow> u_char list \<Rightarrow> ngx_http_request_t \<Rightarrow> u_char list \<Rightarrow> bool" where
  "target n x r y \<longleftrightarrow> (\<exists>g. x = g @ y \<and> (uri_text n g (r_uri_start r) \<and> r_uri_end r = Some (n + length g)
     \<or> (\<exists>k. authority n g (Some k) \<and> r_uri_start r = Some (k + 1) \<and> r_uri_end r = Some (k + 2))))"

text \<open>What follows the target: nothing but spaces, which is version 0.9, or \<^verbatim>\<open>HTTP/1.\<close> and the minor version.\<close>

definition version_prefix :: "nat \<Rightarrow> u_char list \<Rightarrow> bool" where
  "version_prefix j y \<longleftrightarrow> (\<exists>s. y = s @ take j (bytes ''HTTP/1.'') \<and> spaces s \<and> s \<noteq> [])"

definition minor_text :: "u_char list \<Rightarrow> nat \<Rightarrow> bool" where
  "minor_text y minor \<longleftrightarrow> (\<exists>s ds. y = s @ ds \<and> version_prefix 7 s \<and> ds \<noteq> [] \<and> list_all is_digit ds \<and> minor = dec_nat ds \<and> minor \<le> 999)"

definition version_text :: "u_char list \<Rightarrow> nat \<Rightarrow> nat \<Rightarrow> bool" where
  "version_text y major minor \<longleftrightarrow> spaces y \<and> major = 0 \<and> minor = 9
     \<or> (\<exists>s e. y = s @ e \<and> minor_text s minor \<and> spaces e \<and> major = 1)"

definition line_tail :: "nat \<Rightarrow> u_char list \<Rightarrow> ngx_http_request_t \<Rightarrow> bool" where
  "line_tail n x r \<longleftrightarrow> (\<exists>v y eol major minor. x = v @ eol \<and> eol \<in> {[LF], [CR, LF]} \<and> target n v r y
     \<and> version_text y major minor \<and> r_http_version r = major * 1000 + minor \<and> r_request_end r = Some (n + length v)
     \<and> (r_http_version r = 9 \<longrightarrow> r_method r = NGX_HTTP_GET))"

text \<open>The fields after \<^verbatim>\<open>NGX_OK\<close>, for the text \<open>w\<close> of the line, which starts at \<open>p0\<close>.\<close>

definition request_line_fields :: "nat \<Rightarrow> u_char list \<Rightarrow> ngx_http_request_t \<Rightarrow> bool" where
  "request_line_fields p0 w r \<longleftrightarrow> (\<exists>n x. line_head p0 w r n x \<and> line_tail n x r)"

section \<open>The invariant of the scan\<close>

definition tail_inv :: "rl_state \<Rightarrow> nat \<Rightarrow> u_char list \<Rightarrow> ngx_http_request_t \<Rightarrow> bool" where
  "tail_inv l n x r \<longleftrightarrow> r_request_end r = NULL \<and>
    (let se = r_schema_end r; us = r_uri_start r; major = r_http_major r; minor = r_http_minor r;
         versioned = (\<lambda>j. \<exists>y. target n x r y \<and> version_prefix j y) in
     case l of
       rl_start \<Rightarrow> False
     | rl_method \<Rightarrow> False
     | rl_spaces_before_uri \<Rightarrow> spaces x \<and> major = 0
     | rl_schema \<Rightarrow> schema_text x \<and> major = 0
     | rl_schema_slash \<Rightarrow> absolute 1 n x se \<and> major = 0
     | rl_schema_slash_slash \<Rightarrow> absolute 2 n x se \<and> major = 0
     | rl_host_start \<Rightarrow> authority n x se \<and> major = 0
     | rl_host \<Rightarrow> authority n x se \<and> major = 0
     | rl_host_end \<Rightarrow> authority n x se \<and> major = 0
     | rl_host_ip_literal \<Rightarrow> authority n x se \<and> major = 0
     | rl_port \<Rightarrow> authority n x se \<and> major = 0
     | rl_after_slash_in_uri \<Rightarrow> uri_text n x us \<and> major = 0
     | rl_check_uri \<Rightarrow> uri_text n x us \<and> major = 0
     | rl_uri \<Rightarrow> uri_text n x us \<and> major = 0
     | rl_http_09 \<Rightarrow> versioned 0 \<and> major = 0
     | rl_http_H \<Rightarrow> versioned 1
     | rl_http_HT \<Rightarrow> versioned 2
     | rl_http_HTT \<Rightarrow> versioned 3
     | rl_http_HTTP \<Rightarrow> versioned 4
     | rl_first_major_digit \<Rightarrow> versioned 5
     | rl_major_digit \<Rightarrow> versioned 6 \<and> major = 1
     | rl_first_minor_digit \<Rightarrow> versioned 7 \<and> major = 1
     | rl_minor_digit \<Rightarrow> (\<exists>y. target n x r y \<and> minor_text y minor) \<and> major = 1
     | rl_spaces_after_digit \<Rightarrow> (\<exists>y. target n x r y \<and> version_text y major minor)
     | rl_almost_done \<Rightarrow> (\<exists>v y. x = v @ [CR] \<and> target n v r y \<and> version_text y major minor))"

definition rl_inv :: "nat \<Rightarrow> u_char list \<Rightarrow> rl_state \<Rightarrow> ngx_http_request_t \<Rightarrow> bool" where
  "rl_inv p0 w l r \<longleftrightarrow> (case l of
       rl_start \<Rightarrow> set w \<subseteq> {CR, LF} \<and> r_method r = NGX_HTTP_UNKNOWN \<and> r_http_major r = 0 \<and> r_request_end r = NULL
     | rl_method \<Rightarrow> (\<exists>bl t. w = bl @ t \<and> set bl \<subseteq> {CR, LF} \<and> t \<noteq> [] \<and> list_all token_char t \<and>
         r_request_start r = Some (p0 + length bl)) \<and> r_method r = NGX_HTTP_UNKNOWN \<and> r_http_major r = 0 \<and> r_request_end r = NULL
     | _ \<Rightarrow> (\<exists>n x. line_head p0 w r n x \<and> tail_inv l n x r))"

text \<open>One step behind the method, on the text \<open>x\<close> with the new byte.\<close>

definition same_head :: "ngx_http_request_t \<Rightarrow> ngx_http_request_t \<Rightarrow> bool" where
  "same_head r r' \<longleftrightarrow> r_request_start r' = r_request_start r \<and> r_method_end r' = r_method_end r \<and> r_method r' = r_method r"

definition tail_ok :: "ngx_http_request_t \<Rightarrow> nat \<Rightarrow> u_char list \<Rightarrow> rl_verdict \<Rightarrow> bool" where
  "tail_ok r0 n x v \<longleftrightarrow> (case v of
     Next l r \<Rightarrow> same_head r0 r \<and> tail_inv l n x r
   | Done rc r \<Rightarrow> rc = NGX_OK \<longrightarrow> same_head r0 r \<and> line_tail n x r
   | Reject rc r \<Rightarrow> rc \<noteq> NGX_OK)"

lemma tail_ok_intros:
  "same_head r0 r \<Longrightarrow> tail_inv l n x r \<Longrightarrow> tail_ok r0 n x (Next l r)"
  "rc \<noteq> NGX_OK \<Longrightarrow> tail_ok r0 n x (Reject rc r)"
  "(b \<Longrightarrow> tail_ok r0 n x v) \<Longrightarrow> (\<not> b \<Longrightarrow> tail_ok r0 n x v') \<Longrightarrow> tail_ok r0 n x (if b then v else v')"
  by (simp_all add: tail_ok_def)

text \<open>How the parts of the grammar grow.\<close>

lemma schema_init: "spaces x \<Longrightarrow> schema_char c \<Longrightarrow> schema_text (x @ [c])"
  unfolding schema_text_def by (rule exI [of _ x], rule exI [of _ "[c]"]) simp

lemma schema_snoc: "schema_text x \<Longrightarrow> schema_char c \<Longrightarrow> schema_text (x @ [c])"
  unfolding schema_text_def by (elim exE) (rule exI, rule exI [of _ "t @ [c]" for t], auto)

lemma absolute_init: "schema_text x \<Longrightarrow> absolute 1 n (x @ [0x3a]) (Some (n + length x))"
  by (simp add: absolute_def bytes_def)

lemma absolute_slash: "absolute 1 n x q \<Longrightarrow> absolute 2 n (x @ [0x2f]) q"
  by (auto simp: absolute_def bytes_def numeral_2_eq_2)

lemma absolute_slash_slash: "absolute 2 n x q \<Longrightarrow> authority n (x @ [0x2f]) q"
  unfolding authority_def
  by (rule exI [of _ "x @ [0x2f]"], rule exI [of _ "[]"]) (auto simp: absolute_def bytes_def numeral_2_eq_2 numeral_3_eq_3)

lemma authority_snoc: "authority n x q \<Longrightarrow> host_char c \<Longrightarrow> authority n (x @ [c]) q"
  unfolding authority_def by (elim exE) (rule exI, rule exI [of _ "h @ [c]" for h], auto)

lemma uri_init: "spaces x \<Longrightarrow> uri_text n (x @ [0x2f]) (Some (n + length x))"
  unfolding uri_text_def by (rule exI [of _ x], rule exI [of _ "[0x2f]"]) (simp add: uri_byte_def)

lemma uri_init_absolute:
  "authority n x q \<Longrightarrow> c = 0x2f \<or> c = 0x3f \<Longrightarrow> uri_text n (x @ [c]) (Some (n + length x))"
  unfolding uri_text_def by (rule exI [of _ x], rule exI [of _ "[c]"]) (auto simp: uri_byte_def)

lemma uri_snoc: "uri_text n x q \<Longrightarrow> uri_byte c \<Longrightarrow> uri_text n (x @ [c]) q"
  unfolding uri_text_def by (elim exE) (rule exI, rule exI [of _ "u @ [c]" for u], auto)

lemma target_uri: "uri_text n x (r_uri_start r) \<Longrightarrow> r_uri_end r = Some (n + length x) \<Longrightarrow> target n x r []"
  by (simp add: target_def)

lemma target_slash:
  "authority n x (Some k) \<Longrightarrow> r_uri_start r = Some (k + 1) \<Longrightarrow> r_uri_end r = Some (k + 2) \<Longrightarrow> target n x r []"
  by (auto simp: target_def)

lemma target_snoc: "target n x r y \<Longrightarrow> target n (x @ [c]) r (y @ [c])"
  by (auto simp: target_def)

lemma target_cong:
  "target n x r y \<Longrightarrow> r_uri_start s = r_uri_start r \<Longrightarrow> r_uri_end s = r_uri_end r \<Longrightarrow> target n x s y"
  by (simp add: target_def)

lemma version_prefix_0: "spaces y \<Longrightarrow> version_prefix 0 (y @ [0x20])"
  by (simp add: version_prefix_def spaces_def)

lemma version_prefix_spaces: "version_prefix 0 y \<Longrightarrow> spaces y"
  by (simp add: version_prefix_def)

lemma version_prefix_snoc:
  "version_prefix j y \<Longrightarrow> j < 7 \<Longrightarrow> c = bytes ''HTTP/1.'' ! j \<Longrightarrow> version_prefix (Suc j) (y @ [c])"
  by (auto simp: version_prefix_def take_Suc_conv_app_nth)

lemma minor_init: "version_prefix 7 y \<Longrightarrow> is_digit c \<Longrightarrow> minor_text (y @ [c]) (unat c - 48)"
  unfolding minor_text_def
  by (rule exI [of _ y], rule exI [of _ "[c]"]) (auto simp: is_digit_def word_le_nat_alt)

lemma minor_snoc:
  assumes "minor_text y k" "is_digit c" "\<not> k > 99"
  shows "minor_text (y @ [c]) (k * 10 + (unat c - 48))"
proof -
  from assms(1) obtain s ds where "y = s @ ds" "version_prefix 7 s" "ds \<noteq> []" "list_all is_digit ds" "k = dec_nat ds"
    by (auto simp: minor_text_def)
  moreover have "unat c - 48 < 10" using assms(2) by (auto simp: is_digit_def word_le_nat_alt)
  ultimately show ?thesis using assms(2,3) unfolding minor_text_def
    by (intro exI [of _ s] exI [of _ "ds @ [c]"]) simp
qed

lemma minor_text_16: "minor_text y k \<Longrightarrow> bits16 k = k"
  by (auto simp: minor_text_def bits16_def)

lemma version_09: "spaces y \<Longrightarrow> version_text y 0 9"
  by (simp add: version_text_def)

lemma version_minor: "minor_text y k \<Longrightarrow> version_text y 1 k"
  unfolding version_text_def by (rule disjI2, rule exI [of _ y], rule exI [of _ "[]"]) (simp add: spaces_def)

lemma version_snoc: "version_text y major k \<Longrightarrow> version_text (y @ [0x20]) major k"
  unfolding version_text_def
proof (elim disjE exE conjE)
  fix s e assume "y = s @ e" "minor_text s k" "spaces e" "major = 1"
  then have "y @ [0x20] = s @ e @ [0x20] \<and> minor_text s k \<and> spaces (e @ [0x20]) \<and> major = 1" by (simp add: spaces_snoc)
  then show "spaces (y @ [0x20]) \<and> major = 0 \<and> k = 9
      \<or> (\<exists>s e. y @ [0x20] = s @ e \<and> minor_text s k \<and> spaces e \<and> major = 1)" by blast
qed (simp add: spaces_snoc)

text \<open>\<open>uri_flags r r'\<close>: the requests differ at most in the fields that describe the URI.\<close>

definition erase_uri_flags :: "ngx_http_request_t \<Rightarrow> ngx_http_request_t" where
  "erase_uri_flags r = r\<lparr>r_complex_uri := False, r_quoted_uri := False, r_plus_in_uri := False,
     r_uri_ext := NULL, r_args_start := NULL\<rparr>"

definition uri_flags :: "ngx_http_request_t \<Rightarrow> ngx_http_request_t \<Rightarrow> bool" where
  "uri_flags r r' \<longleftrightarrow> erase_uri_flags r' = erase_uri_flags r"

lemma uri_flags_refl: "uri_flags r r"
  by (simp add: uri_flags_def)

lemma uri_flags_updates [simp]:
  "uri_flags r (s\<lparr>r_complex_uri := x\<rparr>) \<longleftrightarrow> uri_flags r s"
  "uri_flags r (s\<lparr>r_quoted_uri := x\<rparr>) \<longleftrightarrow> uri_flags r s"
  "uri_flags r (s\<lparr>r_plus_in_uri := x\<rparr>) \<longleftrightarrow> uri_flags r s"
  "uri_flags r (s\<lparr>r_uri_ext := q\<rparr>) \<longleftrightarrow> uri_flags r s"
  "uri_flags r (s\<lparr>r_args_start := q\<rparr>) \<longleftrightarrow> uri_flags r s"
  by (simp_all add: uri_flags_def erase_uri_flags_def)

lemma uri_flags_fields:
  assumes "uri_flags r r'"
  shows "r_method r' = r_method r" "r_request_start r' = r_request_start r"
    "r_request_end r' = r_request_end r" "r_method_end r' = r_method_end r"
    "r_uri_start r' = r_uri_start r"
    "r_http_major r' = r_http_major r"
proof -
  from assms have e: "erase_uri_flags r' = erase_uri_flags r" by (simp add: uri_flags_def)
  note f = arg_cong [OF e]
  show "r_method r' = r_method r" using f [of r_method] by (simp add: erase_uri_flags_def)
  show "r_request_start r' = r_request_start r"
    using f [of r_request_start] by (simp add: erase_uri_flags_def)
  show "r_request_end r' = r_request_end r"
    using f [of r_request_end] by (simp add: erase_uri_flags_def)
  show "r_method_end r' = r_method_end r" using f [of r_method_end] by (simp add: erase_uri_flags_def)
  show "r_http_major r' = r_http_major r" using f [of r_http_major] by (simp add: erase_uri_flags_def)
  show "r_uri_start r' = r_uri_start r" using f [of r_uri_start] by (simp add: erase_uri_flags_def)
qed

text \<open>In the three states inside the URI every URI byte is consumed and the machine stays there.\<close>

definition stays_in_uri :: "ngx_http_request_t \<Rightarrow> rl_verdict \<Rightarrow> bool" where
  "stays_in_uri r v \<longleftrightarrow> (\<exists>l' r'. v = Next l' r' \<and> l' \<in> {rl_after_slash_in_uri, rl_check_uri, rl_uri}
     \<and> uri_flags r r')"

lemma stays_in_uri_intros:
  "l \<in> {rl_after_slash_in_uri, rl_check_uri, rl_uri} \<Longrightarrow> uri_flags r r' \<Longrightarrow> stays_in_uri r (Next l r')"
  "(b \<Longrightarrow> stays_in_uri r x) \<Longrightarrow> (\<not> b \<Longrightarrow> stays_in_uri r y) \<Longrightarrow> stays_in_uri r (if b then x else y)"
  by (simp_all add: stays_in_uri_def)

lemma uri_states_step:
  assumes "uri_byte c"
  shows "stays_in_uri r (rl_do_after_slash_in_uri p c r)" "stays_in_uri r (rl_do_check_uri p c r)"
    "stays_in_uri r (rl_do_uri p c r)"
proof -
  from assms have c: "\<not> (c < 0x20 \<or> c = 0x7f)" "\<not> (c = 0x20 \<or> c = CR \<or> c = LF)"
    by (auto simp: uri_byte_def)
  show "stays_in_uri r (rl_do_after_slash_in_uri p c r)"
    unfolding rl_do_after_slash_in_uri_def
    by (intro stays_in_uri_intros; use c in \<open>simp add: uri_flags_refl\<close>)
  show "stays_in_uri r (rl_do_check_uri p c r)"
    unfolding rl_do_check_uri_def
    by (intro stays_in_uri_intros; use c in \<open>simp add: uri_flags_refl\<close>)
  show "stays_in_uri r (rl_do_uri p c r)"
    unfolding rl_do_uri_def
    by (intro stays_in_uri_intros; use c in \<open>simp add: uri_flags_refl\<close>)
qed

lemma uri_states_other:
  assumes "\<not> uri_byte c"
  shows "rl_do_after_slash_in_uri p c r =
      (if c = 0x20 \<or> c = CR \<or> c = LF then rl_end_uri p c r else rl_invalid r)"
    "rl_do_check_uri p c r =
      (if c = 0x20 \<or> c = CR \<or> c = LF then rl_end_uri p c r else rl_invalid r)"
    "rl_do_uri p c r =
      (if c = 0x20 \<or> c = CR \<or> c = LF then rl_end_uri p c r else rl_invalid r)"
proof -
  have lit: "c \<noteq> 0x2e" "c \<noteq> 0x25" "c \<noteq> 0x2f" "c \<noteq> 0x3f" "c \<noteq> 0x23" "c \<noteq> 0x2b" "\<not> is_usual c"
    using assms is_usual_uri_byte by (auto simp: uri_byte_def)
  have "c < 0x20 \<or> c = 0x7f \<or> c = 0x20" using assms not_below_space by blast
  then show "rl_do_after_slash_in_uri p c r =
      (if c = 0x20 \<or> c = CR \<or> c = LF then rl_end_uri p c r else rl_invalid r)"
    "rl_do_check_uri p c r =
      (if c = 0x20 \<or> c = CR \<or> c = LF then rl_end_uri p c r else rl_invalid r)"
    "rl_do_uri p c r =
      (if c = 0x20 \<or> c = CR \<or> c = LF then rl_end_uri p c r else rl_invalid r)"
    using lit by (auto simp: rl_do_after_slash_in_uri_def rl_do_check_uri_def rl_do_uri_def)
qed

lemma target_updates [simp]:
  "target n x (r\<lparr>r_http_protocol_data := q\<rparr>) y = target n x r y"
  "target n x (r\<lparr>r_http_major := k\<rparr>) y = target n x r y"
  "target n x (r\<lparr>r_http_minor := k\<rparr>) y = target n x r y"
  "target n x (r\<lparr>r_http_version := k\<rparr>) y = target n x r y"
  "target n x (r\<lparr>r_state := k\<rparr>) y = target n x r y"
  "target n x (r\<lparr>r_request_end := q\<rparr>) y = target n x r y"
  by (simp_all add: target_def)

lemma tail_ok_finish:
  assumes "target n v r y" "version_text y (r_http_major r) (r_http_minor r)" "eol = [LF] \<or> eol = [CR, LF]"
    "r_request_end r = NULL \<and> p = n + length v \<or> r_request_end r = Some (n + length v)" "same_head r0 r"
  shows "tail_ok r0 n (v @ eol) (rl_finish p r)"
proof -
  have "line_tail n (v @ eol) s" if "target n v s y" "r_http_version s = r_http_major r * 1000 + r_http_minor r"
    "r_request_end s = Some (n + length v)" "r_http_version s = 9 \<longrightarrow> r_method s = NGX_HTTP_GET" for s
    unfolding line_tail_def using that assms(2,3) by blast
  then show ?thesis using assms(1,4,5)
    by (auto simp: rl_finish_def Let_def tail_ok_def same_head_def)
qed

lemma tail_ok_newline:
  assumes "target n x r y" "version_text y (r_http_major r) (r_http_minor r)" "r_request_end r = NULL" "same_head r0 r"
    "c = CR \<or> c = LF" "p = n + length x"
  shows "tail_ok r0 n (x @ [c]) (if c = CR then Next rl_almost_done r else rl_finish p r)"
proof (cases "c = CR")
  case True
  then show ?thesis using assms by (auto simp: tail_ok_def tail_inv_def)
next
  case False
  then show ?thesis using assms tail_ok_finish [of n x r y "[LF]" p r0] by simp
qed

lemma letter_char: "is_letter c \<Longrightarrow> schema_char c \<and> host_char c"
proof -
  have "list_all (\<lambda>c. is_letter c \<longrightarrow> 0x20 < c \<and> c \<noteq> 0x3a \<and> c \<noteq> 0x2f \<and> c \<noteq> 0x3f \<and> c \<noteq> 0x7f) all_bytes"
    by code_simp
  from byte_all [OF this] show "is_letter c \<Longrightarrow> schema_char c \<and> host_char c"
    by (auto simp: schema_char_def host_char_def uri_byte_def)
qed

lemma digit_char: "is_digit c \<Longrightarrow> schema_char c \<and> host_char c"
  using order_less_le_trans [of "0x20" "0x30" c] by (auto simp: is_digit_def schema_char_def host_char_def uri_byte_def)

lemma literal_char: "c \<in> set (bytes ''-._~'') \<or> c \<in> set (ch (CHR 0x27) # bytes ''!$&()*+,;='') \<or> c = 0x3a \<or> c = 0x5b \<or> c = 0x5d \<Longrightarrow> host_char c"
  by (auto simp: bytes_def host_char_def uri_byte_def)

lemma schema_mark_char: "c = 0x2b \<or> c = 0x2d \<or> c = 0x2e \<Longrightarrow> schema_char c"
  by (auto simp: schema_char_def uri_byte_def)

lemma tail_ok_target_slash:
  assumes "authority n x (r_schema_end r)" "r_http_major r = 0" "r_request_end r = NULL" "same_head r0 r" "c = 0x20"
  shows "tail_ok r0 n (x @ [c]) (Next rl_http_09 (rl_schema_slash_as_uri r))"
proof -
  obtain k where k: "r_schema_end r = Some k" using assms(1) by (auto simp: authority_def absolute_def)
  let ?s = "rl_schema_slash_as_uri r"
  have "target n x ?s []" using assms(1) k by (intro target_slash) (simp_all add: rl_schema_slash_as_uri_def)
  from target_snoc [OF this, of "0x20"] version_prefix_0 [of "[]"]
  have "\<exists>y. target n (x @ [0x20]) ?s y \<and> version_prefix 0 y" by (auto simp: spaces_def)
  then show ?thesis using assms(2-5) by (simp add: tail_ok_def tail_inv_def same_head_def rl_schema_slash_as_uri_def)
qed

lemma host_end_step:
  assumes "authority n x (r_schema_end r)" "r_http_major r = 0" "r_request_end r = NULL" "same_head r0 r" "p = n + length x"
  shows "tail_ok r0 n (x @ [c]) (rl_do_host_end p c r)" "tail_ok r0 n (x @ [c]) (rl_do_port p c r)"
proof -
  note k = authority_snoc [OF assms(1), of c] uri_init_absolute [OF assms(1), of c] digit_char [of c] literal_char [of c]
  show "tail_ok r0 n (x @ [c]) (rl_do_host_end p c r)"
    unfolding rl_do_host_end_def Let_def
    by (intro tail_ok_target_slash tail_ok_intros; use assms k in \<open>auto simp: tail_inv_def same_head_def\<close>)
  show "tail_ok r0 n (x @ [c]) (rl_do_port p c r)"
    unfolding rl_do_port_def Let_def
    by (intro tail_ok_target_slash tail_ok_intros; use assms k in \<open>auto simp: tail_inv_def same_head_def\<close>)
qed

lemma host_step:
  assumes "authority n x (r_schema_end r)" "r_http_major r = 0" "r_request_end r = NULL" "same_head r0 r" "p = n + length x"
  shows "tail_ok r0 n (x @ [c]) (rl_do_host p c r)" "tail_ok r0 n (x @ [c]) (rl_do_host_start p c r)"
    "tail_ok r0 n (x @ [c]) (rl_do_host_ip_literal c r)"
proof -
  note k = authority_snoc [OF assms(1), of c] letter_char [of c] digit_char [of c] literal_char [of c]
  have host: "tail_ok r0 n (x @ [c]) (rl_do_host p c s)" if "authority n x (r_schema_end s)" "r_http_major s = 0" "r_request_end s = NULL" "same_head r0 s" for s
    unfolding rl_do_host_def
    by (intro tail_ok_intros host_end_step that assms(5); use that k authority_snoc [OF that(1), of c] in \<open>auto simp: tail_inv_def bytes_def\<close>)
  show "tail_ok r0 n (x @ [c]) (rl_do_host p c r)" by (rule host [OF assms(1-4)])
  show "tail_ok r0 n (x @ [c]) (rl_do_host_start p c r)"
    unfolding rl_do_host_start_def Let_def
    by (intro tail_ok_intros host; use assms k in \<open>auto simp: tail_inv_def same_head_def\<close>)
  show "tail_ok r0 n (x @ [c]) (rl_do_host_ip_literal c r)"
    unfolding rl_do_host_ip_literal_def
    by (intro tail_ok_intros; use assms k in \<open>auto simp: tail_inv_def same_head_def\<close>)
qed

lemma end_uri_step:
  assumes "uri_text n x (r_uri_start r)" "r_http_major r = 0" "r_request_end r = NULL" "same_head r0 r" "p = n + length x"
    "c = 0x20 \<or> c = CR \<or> c = LF"
  shows "tail_ok r0 n (x @ [c]) (rl_end_uri p c r)"
proof -
  let ?s = "r\<lparr>r_uri_end := Some p\<rparr>"
  have t: "target n x ?s []" using assms(1,5) by (intro target_uri) simp_all
  show ?thesis
  proof (cases "c = 0x20")
    case True
    from target_snoc [OF t, of "0x20"] version_prefix_0 [of "[]"]
    have "\<exists>y. target n (x @ [0x20]) ?s y \<and> version_prefix 0 y" by (auto simp: spaces_def)
    then show ?thesis using True assms(2-4) by (simp add: rl_end_uri_def Let_def tail_ok_def tail_inv_def same_head_def)
  next
    case False
    then have "c = CR \<or> c = LF" using assms(6) by blast
    moreover have "version_text [] 0 9" by (rule version_09) (simp add: spaces_def)
    ultimately show ?thesis
      using t False assms(2-5) tail_ok_newline [of n x "?s\<lparr>r_http_minor := 9\<rparr>" "[]" r0 c p]
      by (simp add: rl_end_uri_def Let_def same_head_def split: if_splits)
  qed
qed

lemma uri_flags_head: "uri_flags r r' \<Longrightarrow> same_head r r'"
  by (simp add: same_head_def uri_flags_fields)

lemma uri_step:
  assumes "tail_inv l n x r" "l \<in> {rl_after_slash_in_uri, rl_check_uri, rl_uri}" "p = n + length x"
  shows "tail_ok r n (x @ [c]) (request_line_step m p c l r)"
proof -
  have i: "uri_text n x (r_uri_start r)" "r_http_major r = 0" "r_request_end r = NULL"
    using assms(1,2) by (auto simp: tail_inv_def)
  have h: "same_head r r" by (simp add: same_head_def)
  show ?thesis
  proof (cases "uri_byte c")
    case True
    then have "stays_in_uri r (request_line_step m p c l r)" using assms(2) uri_states_step [OF True] by auto
    then obtain l' r' where v: "request_line_step m p c l r = Next l' r'"
      "l' \<in> {rl_after_slash_in_uri, rl_check_uri, rl_uri}" "uri_flags r r'"
      by (auto simp: stays_in_uri_def)
    then show ?thesis using uri_snoc [OF i(1) True] i uri_flags_fields [OF v(3)] uri_flags_head [OF v(3)]
      by (auto simp: tail_ok_def tail_inv_def)
  next
    case False
    have "tail_ok r n (x @ [c]) (if c = 0x20 \<or> c = CR \<or> c = LF then rl_end_uri p c r else rl_invalid r)"
      by (intro tail_ok_intros end_uri_step i h assms(3)) simp_all
    then show ?thesis using uri_states_other [OF False] assms(2) by auto
  qed
qed

lemma versioned_snoc:
  "target n x r y \<Longrightarrow> version_prefix j y \<Longrightarrow> j < 7 \<Longrightarrow> c = bytes ''HTTP/1.'' ! j \<Longrightarrow> i = Suc j \<Longrightarrow>
     \<exists>y. target n (x @ [c]) r y \<and> version_prefix i y"
  using target_snoc version_prefix_snoc by blast

lemma http_09_step:
  assumes "target n x r y" "version_prefix 0 y" "r_http_major r = 0" "r_request_end r = NULL" "p = n + length x"
  shows "tail_ok r n (x @ [c]) (rl_do_http_09 p c r)"
proof -
  have sp: "spaces y" by (rule version_prefix_spaces) (rule assms(2))
  from version_prefix_0 [OF this] target_snoc [OF assms(1)]
  have space: "\<exists>y. target n (x @ [0x20]) r y \<and> version_prefix 0 y" by blast
  have h: "\<exists>y. target n (x @ [0x48]) r y \<and> version_prefix 1 y"
    using assms(1,2) by (rule versioned_snoc) (simp_all add: bytes_def)
  show ?thesis
  proof (cases "c = CR \<or> c = LF")
    case True
    then show ?thesis
      using assms(1,3-5) version_09 [OF sp] tail_ok_newline [of n x "r\<lparr>r_http_minor := 9\<rparr>" y r c p]
      by (auto simp: rl_do_http_09_def same_head_def)
  next
    case False
    then show ?thesis using space h assms(3,4)
      by (auto simp: rl_do_http_09_def tail_ok_def tail_inv_def same_head_def)
  qed
qed

lemma minor_digit_step:
  assumes "target n x r y" "minor_text y (r_http_minor r)" "r_http_major r = 1" "r_request_end r = NULL" "p = n + length x"
  shows "tail_ok r n (x @ [c]) (rl_do_minor_digit p c r)"
proof -
  have h: "same_head r r" by (simp add: same_head_def)
  note v = version_minor [OF assms(2)]
  have space: "\<exists>y. target n (x @ [0x20]) r y \<and> version_text y 1 (r_http_minor r)"
    using target_snoc [OF assms(1)] version_snoc [OF v] by blast
  have digit: "\<exists>y. target n (x @ [c]) r y \<and> minor_text y (bits16 (r_http_minor r * 10 + (unat c - 48)))"
    if "is_digit c" "\<not> r_http_minor r > 99"
    using target_snoc [OF assms(1)] minor_snoc [OF assms(2) that] minor_text_16 by metis
  show ?thesis
  proof (cases "c = CR \<or> c = LF")
    case True
    then show ?thesis using tail_ok_newline [OF assms(1) _ assms(4) h _ assms(5), of c] v assms(3)
      by (auto simp: rl_do_minor_digit_def)
  next
    case False
    then show ?thesis using space digit assms(3,4)
      by (auto simp: rl_do_minor_digit_def tail_ok_def tail_inv_def same_head_def)
  qed
qed

lemma spaces_after_digit_step:
  assumes "target n x r y" "version_text y (r_http_major r) (r_http_minor r)" "r_request_end r = NULL" "p = n + length x"
  shows "tail_ok r n (x @ [c]) (rl_do_spaces_after_digit p c r)"
proof -
  have h: "same_head r r" by (simp add: same_head_def)
  have space: "\<exists>y. target n (x @ [0x20]) r y \<and> version_text y (r_http_major r) (r_http_minor r)"
    using target_snoc [OF assms(1)] version_snoc [OF assms(2)] by blast
  show ?thesis
  proof (cases "c = CR \<or> c = LF")
    case True
    then show ?thesis using tail_ok_newline [OF assms(1,2,3) h _ assms(4), of c]
      by (auto simp: rl_do_spaces_after_digit_def)
  next
    case False
    then show ?thesis using space assms(3)
      by (auto simp: rl_do_spaces_after_digit_def tail_ok_def tail_inv_def same_head_def)
  qed
qed

lemma almost_done_step:
  assumes "x = v @ [CR]" "target n v r y" "version_text y (r_http_major r) (r_http_minor r)" "p = n + length x"
  shows "tail_ok r n (x @ [c]) (rl_do_almost_done p c r)"
proof (cases "c = LF")
  case True
  then show ?thesis using assms tail_ok_finish [of n v "r\<lparr>r_request_end := Some (p - 1)\<rparr>" y "[CR, LF]" p r]
    by (simp add: rl_do_almost_done_def Let_def same_head_def)
qed (simp add: rl_do_almost_done_def Let_def tail_ok_def)

lemma first_minor_step:
  assumes "target n x r y" "version_prefix 7 y" "r_http_major r = 1" "r_request_end r = NULL"
  shows "tail_ok r n (x @ [c]) (rl_do_first_minor_digit c r)"
proof -
  have "\<exists>y. target n (x @ [c]) r y \<and> minor_text y (bits16 (unat c - 48))" if "is_digit c"
    using target_snoc [OF assms(1)] minor_init [OF assms(2) that] minor_text_16 by metis
  then show ?thesis using assms(3,4)
    by (auto simp: rl_do_first_minor_digit_def tail_ok_def tail_inv_def same_head_def)
qed

lemma major_step:
  assumes "target n x r y" "r_request_end r = NULL"
  shows "version_prefix 5 y \<Longrightarrow> tail_ok r n (x @ [c]) (rl_do_first_major_digit c r)"
    "version_prefix 6 y \<Longrightarrow> r_http_major r = 1 \<Longrightarrow> tail_ok r n (x @ [c]) (rl_do_major_digit c r)"
proof -
  have one: "c = 0x31 \<and> bits16 (unat c - 48) = 1"
    if "\<not> (c < 0x31 \<or> c > 0x39)" "\<not> bits16 (unat c - 48) > 1"
  proof -
    have small: "bits16 (unat c - 48) = unat c - 48" using unat_byte_less [of c] unfolding bits16_def by (intro mod_less) linarith
    from that have "49 \<le> unat c" "unat c - 48 \<le> 1" "unat c \<le> 57"
      unfolding small by (simp_all add: not_less word_le_nat_alt)
    then have "unat c = unat (0x31 :: u_char)" by simp
    then show ?thesis by (simp only: word_unat_eq_iff) (simp add: bits16_def)
  qed
  have first: "\<exists>y. target n (x @ [0x31]) r y \<and> version_prefix 6 y" if "version_prefix 5 y"
    using assms(1) that by (rule versioned_snoc) (simp_all add: bytes_def)
  then show "version_prefix 5 y \<Longrightarrow> tail_ok r n (x @ [c]) (rl_do_first_major_digit c r)"
    using one assms(2) by (auto simp: rl_do_first_major_digit_def Let_def tail_ok_def tail_inv_def same_head_def)
  have "bits16 (10 + (unat c - 48)) = 10 + (unat c - 48)"
    using unat_byte_less [of c] unfolding bits16_def by (intro mod_less) linarith
  then have ten: "bits16 (10 + (unat c - 48)) > 1" by simp
  have dot: "\<exists>y. target n (x @ [0x2e]) r y \<and> version_prefix 7 y" if "version_prefix 6 y"
    using assms(1) that by (rule versioned_snoc) (simp_all add: bytes_def)
  then show "version_prefix 6 y \<Longrightarrow> r_http_major r = 1 \<Longrightarrow> tail_ok r n (x @ [c]) (rl_do_major_digit c r)"
    using assms(2) ten by (auto simp: rl_do_major_digit_def Let_def tail_ok_def tail_inv_def same_head_def)
qed

lemma expect_step:
  assumes "tail_inv l' n (x @ [ch k]) r"
  shows "tail_ok r n (x @ [c]) (rl_expect k l' c r)"
  using assms by (simp add: rl_expect_def tail_ok_def same_head_def)

lemma tail_step:
  assumes "tail_inv l n x r" "p = n + length x"
  shows "tail_ok r n (x @ [c]) (request_line_step m p c l r)"
proof -
  have h: "same_head r r" by (simp add: same_head_def)
  have e: "r_request_end r = NULL" using assms(1) by (simp add: tail_inv_def)
  have v: "\<exists>y. target n (x @ [bytes ''HTTP/1.'' ! j]) r y \<and> version_prefix i y"
    if "target n x r y" "version_prefix j y" "j < 7" "i = Suc j" for y i j
    using that by (intro versioned_snoc) simp_all
  show ?thesis
  proof (cases l)
    case rl_spaces_before_uri
    then have x: "spaces x" "r_http_major r = 0" using assms(1) by (simp_all add: tail_inv_def)
    show ?thesis unfolding rl_spaces_before_uri request_line_step.simps rl_do_spaces_before_uri_def
      by (intro tail_ok_intros; use x e assms(2) uri_init [OF x(1), of n] schema_init [OF x(1), of c] letter_char [of c] spaces_snoc [OF x(1)]
          in \<open>simp add: tail_inv_def same_head_def\<close>)
  next
    case rl_schema
    then have x: "schema_text x" "r_http_major r = 0" using assms(1) by (simp_all add: tail_inv_def)
    show ?thesis unfolding rl_schema request_line_step.simps rl_do_schema_def
      by (intro tail_ok_intros; use x e assms(2) schema_snoc [OF x(1), of c] letter_char [of c] digit_char [of c] schema_mark_char [of c]
          absolute_init [OF x(1), of n] in \<open>auto simp: tail_inv_def same_head_def\<close>)
  next
    case rl_schema_slash
    then show ?thesis using assms(1) absolute_slash by (auto simp: rl_do_schema_slash_def tail_inv_def intro!: expect_step)
  next
    case rl_schema_slash_slash
    then show ?thesis using assms(1) absolute_slash_slash by (auto simp: rl_do_schema_slash_slash_def tail_inv_def intro!: expect_step)
  next
    case rl_host_start
    then show ?thesis using assms by (auto simp: tail_inv_def intro!: host_step h)
  next
    case rl_host
    then show ?thesis using assms by (auto simp: tail_inv_def intro!: host_step h)
  next
    case rl_host_end
    then show ?thesis using assms by (auto simp: tail_inv_def intro!: host_end_step h)
  next
    case rl_host_ip_literal
    then show ?thesis using assms by (auto simp: tail_inv_def intro!: host_step h)
  next
    case rl_port
    then show ?thesis using assms by (auto simp: tail_inv_def intro!: host_end_step h)
  next
    case rl_http_09
    then show ?thesis using assms by (auto simp: tail_inv_def intro!: http_09_step)
  next
    case rl_http_H
    then show ?thesis using assms v [of _ 1 2] by (auto simp: tail_inv_def bytes_def intro!: expect_step)
  next
    case rl_http_HT
    then show ?thesis using assms v [of _ 2 3] by (auto simp: tail_inv_def bytes_def intro!: expect_step)
  next
    case rl_http_HTT
    then show ?thesis using assms v [of _ 3 4] by (auto simp: tail_inv_def bytes_def intro!: expect_step)
  next
    case rl_http_HTTP
    then show ?thesis using assms v [of _ 4 5] by (auto simp: tail_inv_def bytes_def intro!: expect_step)
  next
    case rl_first_major_digit
    then show ?thesis using assms by (auto simp: tail_inv_def intro!: major_step)
  next
    case rl_major_digit
    then show ?thesis using assms by (auto simp: tail_inv_def intro!: major_step)
  next
    case rl_first_minor_digit
    then show ?thesis using assms by (auto simp: tail_inv_def intro!: first_minor_step)
  next
    case rl_minor_digit
    then show ?thesis using assms by (auto simp: tail_inv_def intro!: minor_digit_step)
  next
    case rl_spaces_after_digit
    then show ?thesis using assms by (auto simp: tail_inv_def intro!: spaces_after_digit_step)
  next
    case rl_almost_done
    then show ?thesis using assms by (auto simp: tail_inv_def intro!: almost_done_step)
  next
    case rl_start
    then show ?thesis using assms(1) by (simp add: tail_inv_def)
  next
    case rl_method
    then show ?thesis using assms(1) by (simp add: tail_inv_def)
  qed (intro uri_step assms; simp)+
qed

text \<open>The steps of the method, and the invariant of the whole scan.\<close>

definition rl_step_ok :: "nat \<Rightarrow> u_char list \<Rightarrow> rl_verdict \<Rightarrow> bool" where
  "rl_step_ok p0 w v \<longleftrightarrow> (case v of
     Next l r \<Rightarrow> rl_inv p0 w l r
   | Done rc r \<Rightarrow> rc = NGX_OK \<longrightarrow> request_line_fields p0 w r
   | Reject rc r \<Rightarrow> rc \<noteq> NGX_OK)"

lemma line_head_snoc: "line_head p0 w r n x \<Longrightarrow> same_head r s \<Longrightarrow> line_head p0 (w @ [c]) s n (x @ [c])"
  by (auto simp: line_head_def same_head_def)

lemma line_head_pos: "line_head p0 w r n x \<Longrightarrow> p0 + length w = n + length x"
  by (auto simp: line_head_def)

lemma tail_inv_state: "tail_inv l n x r \<Longrightarrow> l \<noteq> rl_start \<and> l \<noteq> rl_method"
  by (auto simp: tail_inv_def)

lemma rl_inv_tail: "line_head p0 w r n x \<Longrightarrow> tail_inv l n x r \<Longrightarrow> rl_inv p0 w l r"
  using tail_inv_state [of l n x r] by (cases l) (auto simp: rl_inv_def)

lemma rl_inv_tail_step:
  assumes "line_head p0 w r n x" "tail_inv l n x r"
  shows "rl_step_ok p0 (w @ [c]) (request_line_step m (p0 + length w) c l r)"
  using tail_step [OF assms(2) line_head_pos [OF assms(1)], of c m] line_head_snoc [OF assms(1), of _ c]
  by (auto simp: rl_step_ok_def tail_ok_def request_line_fields_def split: verdict.splits intro: rl_inv_tail)

lemma token_char_iff: "is_method_char c \<longleftrightarrow> token_char c"
  by (auto simp: is_method_char_def token_char_def not_less)

lemma token_char_not_blank: "token_char c \<Longrightarrow> c \<noteq> 0x20"
  by (auto simp: token_char_def)

lemma rl_inv_start_step:
  assumes "rl_inv p0 w rl_start r"
  shows "rl_step_ok p0 (w @ [c]) (rl_do_start (p0 + length w) c r)"
proof -
  have "\<exists>bl t. w @ [c] = bl @ t \<and> set bl \<subseteq> {CR, LF} \<and> t \<noteq> [] \<and> list_all token_char t \<and> length w = length bl"
    if "token_char c"
    by (rule exI [of _ w], rule exI [of _ "[c]"]) (use assms that in \<open>simp add: rl_inv_def\<close>)
  then show ?thesis using assms by (auto simp: rl_do_start_def Let_def rl_step_ok_def rl_inv_def token_char_iff)
qed

lemma rl_inv_method_step:
  assumes "rl_inv p0 w rl_method r" "drop p0 (take (p0 + length w + 1) m) = w @ [c]"
  shows "rl_step_ok p0 (w @ [c]) (rl_do_method m (p0 + length w) c r)"
proof -
  from assms(1) obtain bl t where w: "w = bl @ t" "set bl \<subseteq> {CR, LF}" "t \<noteq> []" "list_all token_char t"
    "r_request_start r = Some (p0 + length bl)" and r: "r_method r = NGX_HTTP_UNKNOWN" "r_http_major r = 0" "r_request_end r = NULL"
    by (auto simp: rl_inv_def)
  let ?a = "p0 + length bl" and ?p = "p0 + length w"
  show ?thesis
  proof (cases "c = 0x20")
    case True
    note t = text_piece [OF assms(2) w(1)]
    have sw: "method_switch m ?a (?p - ?a) NGX_HTTP_UNKNOWN = method_of t"
      using method_switch_eq [of ?a ?p m] t True w(1,3) by simp
    let ?s = "r\<lparr>r_method_end := Some (?p - 1), r_method := method_of t\<rparr>"
    have "line_head p0 (w @ [c]) ?s (?p + 1) []"
      unfolding line_head_def using w True by (intro exI [of _ bl] exI [of _ t]) simp
    moreover have "tail_inv rl_spaces_before_uri (?p + 1) [] ?s" using r by (simp add: tail_inv_def spaces_def)
    ultimately have "rl_inv p0 (w @ [c]) rl_spaces_before_uri ?s" by (rule rl_inv_tail)
    then show ?thesis using True w(5) r(1) sw by (simp add: rl_do_method_def Let_def rl_step_ok_def)
  next
    case False
    have "\<exists>bl' t. w @ [c] = bl' @ t \<and> set bl' \<subseteq> {CR, LF} \<and> t \<noteq> [] \<and> list_all token_char t \<and> length bl = length bl'"
      if "token_char c"
      by (rule exI [of _ bl], rule exI [of _ "t @ [c]"]) (use w that in simp)
    then show ?thesis using False w(5) r by (auto simp: rl_do_method_def rl_step_ok_def rl_inv_def token_char_iff)
  qed
qed

lemma rl_inv_step:
  assumes "rl_inv p0 w l r" "drop p0 (take (p0 + length w + 1) m) = w @ [c]"
  shows "rl_step_ok p0 (w @ [c]) (request_line_step m (p0 + length w) c l r)"
proof (cases "l = rl_start \<or> l = rl_method")
  case True
  then show ?thesis using assms rl_inv_start_step rl_inv_method_step by auto
next
  case False
  then obtain n x where "line_head p0 w r n x" "tail_inv l n x r" using assms(1) by (cases l) (auto simp: rl_inv_def)
  then show ?thesis by (rule rl_inv_tail_step)
qed

lemma rl_inv_fresh: "rl_inv p0 [] (rl_load fresh_request) fresh_request"
  by (simp add: rl_inv_def rl_load_def rl_states_def fresh_request_def)

section \<open>Every well-formed line is accepted\<close>

lemma is_method_char_not_blank:
  "is_method_char c \<Longrightarrow> c \<noteq> 0x20" "is_method_char c \<Longrightarrow> c \<noteq> 13" "is_method_char c \<Longrightarrow> c \<noteq> 10"
  by (auto simp: is_method_char_def)

lemma scan_method_chars:
  "\<forall>c \<in> set w. is_method_char c \<Longrightarrow>
     scan request_line_step m p w rl_method r = (Next rl_method r, p + length w)"
  by (induction w arbitrary: p) (auto simp: rl_do_method_def is_method_char_not_blank)

lemma scan_method:
  assumes "w \<noteq> []" "\<forall>c \<in> set w. is_method_char c"
  shows "scan request_line_step m p w rl_start r =
    (Next rl_method (r\<lparr>r_request_start := Some p\<rparr>), p + length w)"
proof -
  from assms obtain c v where w: "w = c # v" "is_method_char c" "\<forall>c \<in> set v. is_method_char c"
    by (cases w) auto
  have "c \<noteq> 13" "c \<noteq> 10" using w(2) is_method_char_not_blank by blast+
  then have "request_line_step m p c rl_start r = Next rl_method (r\<lparr>r_request_start := Some p\<rparr>)"
    using w(2) by (simp add: rl_do_start_def Let_def)
  then show ?thesis using scan_method_chars [OF w(3)] by (simp add: w(1))
qed

lemma scan_uri_bytes:
  assumes "\<forall>c \<in> set u. uri_byte c"
  shows "\<exists>l' r'. scan request_line_step m p u rl_after_slash_in_uri r = (Next l' r', p + length u)
    \<and> l' \<in> {rl_after_slash_in_uri, rl_check_uri, rl_uri} \<and> uri_flags r r'"
proof (rule scan_all)
  show "rl_after_slash_in_uri \<in> {rl_after_slash_in_uri, rl_check_uri, rl_uri} \<and> uri_flags r r"
    by (simp add: uri_flags_refl)
next
  fix p c l s
  assume "c \<in> set u" and l: "l \<in> {rl_after_slash_in_uri, rl_check_uri, rl_uri} \<and> uri_flags r s"
  with assms have "stays_in_uri s (request_line_step m p c l s)"
    using uri_states_step [of c s p] by auto
  then show "\<exists>l' r'. request_line_step m p c l s = Next l' r'
      \<and> l' \<in> {rl_after_slash_in_uri, rl_check_uri, rl_uri} \<and> uri_flags r r'"
    using l by (auto simp: stays_in_uri_def uri_flags_def)
qed

lemma scan_version:
  assumes "is_digit d" "r_request_end r = NULL"
  shows "scan request_line_step m p (bytes ''HTTP/1.'' @ [d, CR, LF] @ rest) rl_http_09 r =
    (Done NGX_OK (r\<lparr>r_http_protocol_data := Some p, r_http_major := 1, r_http_minor := unat d - 48,
       r_request_end := Some (p + 8), r_http_version := 1000 + (unat d - 48), r_state := 0\<rparr>), p + 9)"
proof -
  have d: "unat d - 48 < 10" "d \<noteq> 13" "d \<noteq> 10" "d \<noteq> 0x20"
    using assms by (auto simp: is_digit_def word_le_nat_alt)
  then show ?thesis using assms
    by (simp add: bytes_def rl_do_http_09_def rl_expect_def rl_do_first_major_digit_def
        rl_do_major_digit_def rl_do_first_minor_digit_def rl_do_minor_digit_def rl_do_almost_done_def
        rl_finish_def bits16_def is_digit_def Let_def)
qed

text \<open>
  C1: Soundness of the request line.  When the parser accepts, the bytes from the old to the new position are line ends, a
  method token, spaces, the target, the version and the end of the line, and the fields say where: \<^verbatim>\<open>request_start\<close> and \<^verbatim>\<open>method_end\<close> are the
  first and the last byte of the token and the method code is the one of the token in the table; \<^verbatim>\<open>uri_start\<close> and \<^verbatim>\<open>uri_end\<close> delimit a
  URI without spaces, control characters or DEL, which starts with a slash, or also with a question mark behind \<^verbatim>\<open>schema://host\<close>; the version is what the
  digits of \<^verbatim>\<open>HTTP/1.\<close> denote, at most 999, or 0.9 when nothing but spaces follows the URI, and then the method is GET; \<^verbatim>\<open>request_end\<close> is the byte
  behind the version, where the line feed or the carriage return before it stands.
\<close>

theorem ngx_http_parse_request_line_sound:
  assumes "ngx_http_parse_request_line fresh_request b = (NGX_OK, r, b')"
    and "b_pos b \<le> length (b_mem b)"
  shows "\<exists>w. b' = b\<lparr>b_pos := b_pos b + length w\<rparr> \<and> take (length w) (drop (b_pos b) (b_mem b)) = w
    \<and> request_line_fields (b_pos b) w r"
proof -
  have "case request_line_step (b_mem b) (b_pos b + length w) c l r of
      Next l' r' \<Rightarrow> rl_inv (b_pos b) (w @ [c]) l' r'
    | Done rc r' \<Rightarrow> rc = NGX_OK \<longrightarrow> request_line_fields (b_pos b) (w @ [c]) r'
    | Reject rc r' \<Rightarrow> rc \<noteq> NGX_OK"
    if "drop (b_pos b) (take (b_pos b + length w + 1) (b_mem b)) = w @ [c]" "rl_inv (b_pos b) w l r" for w c l r
    using rl_inv_step [OF that(2,1)] by (simp add: rl_step_ok_def)
  from run_parser_text [where I = "rl_inv (b_pos b)" and
      P = "\<lambda>w rc r'. rc = NGX_OK \<longrightarrow> request_line_fields (b_pos b) w r'" and Q = "\<lambda>rc. rc \<noteq> NGX_OK",
      OF assms(1) [unfolded ngx_http_parse_request_line_def] assms(2) rl_inv_fresh this]
  show ?thesis by auto
qed

definition sample_request :: "u_char list" where
  "sample_request = bytes ''GET /a?b=1 HTTP/1.1'' @ [CR, LF]"

lemma sample_request_accepted:
  "\<exists>r. ngx_http_parse_request_line fresh_request \<lparr>b_mem = sample_request, b_pos = 0\<rparr>
     = (NGX_OK, r, \<lparr>b_mem = sample_request, b_pos = 21\<rparr>)"
  by (simp add: ngx_http_parse_request_line_def run_parser_def rl_load_def rl_states_def
      sample_request_def bytes_def fresh_request_fields rl_do_defs Let_def is_usual_iff
      is_method_char_def bits16_def is_digit_def)

theorem ngx_http_parse_request_line_sound_witness:
  "\<exists>r. ngx_http_parse_request_line fresh_request \<lparr>b_mem = sample_request, b_pos = 0\<rparr>
     = (NGX_OK, r, \<lparr>b_mem = sample_request, b_pos = 21\<rparr>) \<and> request_line_fields 0 sample_request r"
proof -
  from sample_request_accepted obtain r where
    e: "ngx_http_parse_request_line fresh_request \<lparr>b_mem = sample_request, b_pos = 0\<rparr>
     = (NGX_OK, r, \<lparr>b_mem = sample_request, b_pos = 21\<rparr>)" by blast
  moreover have "take 21 sample_request = sample_request" by (simp add: sample_request_def bytes_def)
  ultimately show ?thesis using ngx_http_parse_request_line_sound [OF e] by auto
qed

text \<open>
  C2: Completeness of the request line.  A line made of a method token, a URI that starts with a
  slash and has no space or control character, and version 1.0 to 1.9 is accepted wherever it stands in
  the buffer and whatever follows; the pointers then delimit exactly these parts.
\<close>

theorem ngx_http_parse_request_line_complete:
  assumes "drop (b_pos b) (b_mem b) = w @ bytes '' /'' @ u @ bytes '' HTTP/1.'' @ [d, CR, LF] @ rest"
    and "w \<noteq> []" "\<forall>c \<in> set w. is_method_char c" "\<forall>c \<in> set u. uri_byte c" "is_digit d"
  shows "case ngx_http_parse_request_line fresh_request b of (rc, r, b') \<Rightarrow>
    rc = NGX_OK \<and> r_request_start r = Some (b_pos b) \<and> r_method_end r = Some (b_pos b + length w - 1)
    \<and> r_method r = method_of w \<and> r_uri_start r = Some (b_pos b + length w + 1)
    \<and> r_uri_end r = Some (b_pos b + length w + length u + 2)
    \<and> r_http_version r = 1000 + (unat d - 48)
    \<and> b_pos b' = b_pos b + length w + length u + 13"
proof -
  let ?m = "b_mem b" and ?p = "b_pos b"
  let ?q = "?p + length w" and ?tail = "bytes ''HTTP/1.'' @ [d, CR, LF] @ rest"
  have dr: "drop ?p ?m = w @ [0x20, 0x2f] @ u @ [0x20] @ ?tail"
    using assms(1) by (simp add: bytes_def)
  from arg_cong [OF dr, of length] have len: "?q < length ?m" by simp
  have w: "piece ?m ?p ?q = w" using dr by (simp add: piece_def)
  have sp: "?m ! ?q = 0x20" using len dr nth_drop [of ?p ?m "length w"] by simp
  define r1 where "r1 = fresh_request\<lparr>r_request_start := Some ?p, r_method_end := Some (?q - 1),
    r_method := method_of w, r_uri_start := Some (?q + 1)\<rparr>"
  have meth: "method_switch ?m ?p (length w) NGX_HTTP_UNKNOWN = method_of w"
    using method_switch_eq [of ?p ?q ?m] w sp len assms(2) by simp
  have s1: "scan request_line_step ?m ?p (w @ [0x20, 0x2f]) rl_start fresh_request =
      (Next rl_after_slash_in_uri r1, ?q + 2)"
    using meth assms(2,3)
    by (simp add: scan_append scan_method rl_do_method_def rl_do_spaces_before_uri_def r1_def Let_def
        fresh_request_fields)
  obtain l r2 where s2: "scan request_line_step ?m (?q + 2) u rl_after_slash_in_uri r1 =
      (Next l r2, ?q + 2 + length u)" "l \<in> {rl_after_slash_in_uri, rl_check_uri, rl_uri}" "uri_flags r1 r2"
    using scan_uri_bytes [OF assms(4)] by blast
  have s3: "request_line_step ?m (?q + 2 + length u) 0x20 l r2 =
      Next rl_http_09 (r2\<lparr>r_uri_end := Some (?q + 2 + length u)\<rparr>)"
    using s2(2) uri_states_other [of "0x20"] by (auto simp: uri_byte_def rl_end_uri_def Let_def)
  have f: "r_request_end r2 = NULL" "r_request_start r2 = Some ?p" "r_method_end r2 = Some (?q - 1)"
    "r_method r2 = method_of w" "r_uri_start r2 = Some (?q + 1)"
    using uri_flags_fields [OF s2(3)] by (simp_all add: r1_def fresh_request_fields)
  have "scan request_line_step ?m ?p ((w @ [0x20, 0x2f]) @ u @ 0x20 # ?tail) rl_start fresh_request =
      scan request_line_step ?m (?q + 2) (u @ 0x20 # ?tail) rl_after_slash_in_uri r1"
    by (subst scan_append) (simp only: s1 prod.case verdict.case)
  also have "\<dots> = scan request_line_step ?m (?q + 2 + length u) (0x20 # ?tail) l r2"
    by (subst scan_append) (simp only: s2(1) prod.case verdict.case)
  also have "\<dots> = scan request_line_step ?m (?q + 2 + length u + 1) ?tail rl_http_09
        (r2\<lparr>r_uri_end := Some (?q + 2 + length u)\<rparr>)"
    by (simp only: scan.simps s3 verdict.case)
  also have "\<dots> = (Done NGX_OK (r2\<lparr>r_uri_end := Some (?q + 2 + length u),
      r_http_protocol_data := Some (?q + 2 + length u + 1), r_http_major := 1, r_http_minor := unat d - 48,
      r_request_end := Some (?q + 2 + length u + 1 + 8), r_http_version := 1000 + (unat d - 48),
      r_state := 0\<rparr>), ?q + 2 + length u + 1 + 9)"
    using f(1) by (intro scan_version [OF assms(5)]) simp
  finally have "scan request_line_step ?m ?p (drop ?p ?m) rl_start fresh_request = \<dots>"
    using dr by simp
  with f
  show ?thesis
    by (simp add: ngx_http_parse_request_line_def run_parser_def rl_load_def rl_states_def
        fresh_request_fields)
qed

theorem ngx_http_parse_request_line_complete_witness:
  "case ngx_http_parse_request_line fresh_request \<lparr>b_mem = sample_request, b_pos = 0\<rparr> of (rc, r, b') \<Rightarrow>
    rc = NGX_OK \<and> r_method r = NGX_HTTP_GET \<and> r_uri_start r = Some 4 \<and> r_uri_end r = Some 10
    \<and> r_http_version r = 1001 \<and> b_pos b' = 21"
proof -
  have m: "method_of (bytes ''GET'') = NGX_HTTP_GET" by (simp add: method_of_def method_table_def)
  show ?thesis
    using ngx_http_parse_request_line_complete [of "\<lparr>b_mem = sample_request, b_pos = 0\<rparr>" "bytes ''GET''"
      "bytes ''a?b=1''" "ch CHR ''1''" "[]"] m
    by (auto simp: sample_request_def bytes_def is_method_char_def uri_byte_def is_digit_def)
qed

text \<open>
  C3: The request line does not depend on how it arrives.  Feeding the parser the input in any
  non-empty sequence of reads, calling it again after every \<^verbatim>\<open>NGX_AGAIN\<close>, gives the result of one call on
  the whole input: the same return code, the same request and the same position.
\<close>

theorem ngx_http_parse_request_line_resumable:
  assumes "b_pos b \<le> length (b_mem b)" "ws \<noteq> []"
  shows "same_result rl_store (feed ngx_http_parse_request_line r b ws)
    (ngx_http_parse_request_line r (append_input (concat ws) b))"
  unfolding ngx_http_parse_request_line_def using assms by (rule rl.feed_eq_parse)

theorem ngx_http_parse_request_line_resumable_witness:
  "same_result rl_store
    (feed ngx_http_parse_request_line fresh_request \<lparr>b_mem = [], b_pos = 0\<rparr>
      [bytes ''GE'', bytes ''T /a?b=1 HT'', bytes ''TP/1.1'' @ [CR], [LF]])
    (ngx_http_parse_request_line fresh_request \<lparr>b_mem = sample_request, b_pos = 0\<rparr>)"
  using ngx_http_parse_request_line_resumable [of "\<lparr>b_mem = [], b_pos = 0\<rparr>"
      "[bytes ''GE'', bytes ''T /a?b=1 HT'', bytes ''TP/1.1'' @ [CR], [LF]]" fresh_request]
  by (simp add: append_input_def sample_request_def bytes_def)

end
