(* ===== verification/Ngx_Http_Header.thy ===== *)
theory Ngx_Http_Header
  imports Ngx_Http_Request Ngx_Str
begin

text \<open>
  \<^verbatim>\<open>ngx_http_parse_header_line\<close>, with the hash functions of \<^verbatim>\<open>ngx_hash.c\<close> it agrees with.  The
  registers of the machine are the local variables \<^verbatim>\<open>state\<close>, \<^verbatim>\<open>hash\<close> and \<^verbatim>\<open>i\<close>.
\<close>

section \<open>Hash keys\<close>

definition ngx_hash :: "u_int64 \<Rightarrow> u_char \<Rightarrow> u_int64" where
  "ngx_hash key c = key * 31 + ucast c"

fun hash_key_loop :: "u_int64 \<Rightarrow> u_char list \<Rightarrow> u_int64" where
  "hash_key_loop key [] = key"
| "hash_key_loop key (c # data) = hash_key_loop (ngx_hash key c) data"

definition ngx_hash_key :: "u_char list \<Rightarrow> u_int64" where
  "ngx_hash_key data = hash_key_loop 0 data"

fun hash_key_lc_loop :: "u_int64 \<Rightarrow> u_char list \<Rightarrow> u_int64" where
  "hash_key_lc_loop key [] = key"
| "hash_key_lc_loop key (c # data) = hash_key_lc_loop (ngx_hash key (ngx_tolower c)) data"

definition ngx_hash_key_lc :: "u_char list \<Rightarrow> u_int64" where
  "ngx_hash_key_lc data = hash_key_lc_loop 0 data"

text \<open>\<open>ngx_hash_strlow\<close> returns the lowered copy and the key.\<close>

fun hash_strlow_loop :: "u_int64 \<Rightarrow> u_char list \<Rightarrow> u_char list \<Rightarrow> u_char list \<times> u_int64" where
  "hash_strlow_loop key dst [] = (dst, key)"
| "hash_strlow_loop key dst (c # src) =
     (let d = ngx_tolower c in hash_strlow_loop (ngx_hash key d) (dst @ [d]) src)"

definition ngx_hash_strlow :: "u_char list \<Rightarrow> u_char list \<times> u_int64" where
  "ngx_hash_strlow src = hash_strlow_loop 0 [] src"

section \<open>The header line\<close>

definition lowcase :: "u_char list" where
  "lowcase = replicate 32 0
     @ replicate 13 0 @ bytes ''-'' @ replicate 2 0 @ bytes ''0123456789'' @ replicate 6 0
     @ [0] @ bytes ''abcdefghijklmnopqrstuvwxyz'' @ replicate 5 0
     @ [0] @ bytes ''abcdefghijklmnopqrstuvwxyz'' @ replicate 5 0
     @ replicate 32 0 @ replicate 32 0 @ replicate 32 0 @ replicate 32 0"

abbreviation (input) NGX_HTTP_LC_HEADER_LEN :: nat where "NGX_HTTP_LC_HEADER_LEN \<equiv> 32"

datatype hl_state = hl_start | hl_name | hl_space_before_value | hl_value | hl_space_after_value
  | hl_ignore_line | hl_almost_done | hl_header_almost_done

definition hl_states :: "hl_state list" where
  "hl_states = [hl_start, hl_name, hl_space_before_value, hl_value, hl_space_after_value,
     hl_ignore_line, hl_almost_done, hl_header_almost_done]"

primrec hl_index :: "hl_state \<Rightarrow> nat" where
  "hl_index hl_start = 0" | "hl_index hl_name = 1" | "hl_index hl_space_before_value = 2"
| "hl_index hl_value = 3" | "hl_index hl_space_after_value = 4" | "hl_index hl_ignore_line = 5"
| "hl_index hl_almost_done = 6" | "hl_index hl_header_almost_done = 7"

type_synonym hl_regs = "hl_state \<times> u_int64 \<times> nat"
type_synonym hl_verdict = "(hl_regs, ngx_http_request_t) verdict"

text \<open>The labels \<^verbatim>\<open>done\<close> and \<^verbatim>\<open>header_done\<close>.\<close>

definition hl_finish :: "u_int64 \<Rightarrow> nat \<Rightarrow> ngx_http_request_t \<Rightarrow> hl_verdict" where
  "hl_finish hash i r = Done NGX_OK (r\<lparr>r_state := 0, r_header_hash := hash, r_lowcase_index := i\<rparr>)"

definition hl_header_finish :: "ngx_http_request_t \<Rightarrow> hl_verdict" where
  "hl_header_finish r = Done NGX_HTTP_PARSE_HEADER_DONE (r\<lparr>r_state := 0\<rparr>)"

definition hl_invalid :: "nat \<Rightarrow> ngx_http_request_t \<Rightarrow> hl_verdict" where
  "hl_invalid p r = Reject NGX_HTTP_PARSE_INVALID_HEADER (r\<lparr>r_header_end := Some p\<rparr>)"

definition hl_do_start ::
    "bool \<Rightarrow> nat \<Rightarrow> u_char \<Rightarrow> u_int64 \<Rightarrow> nat \<Rightarrow> ngx_http_request_t \<Rightarrow> hl_verdict" where
  "hl_do_start allow_underscores p ch' hash i r =
    (let r = r\<lparr>r_header_name_start := Some p, r_invalid_header := False\<rparr> in
     if ch' = CR then Next (hl_header_almost_done, hash, i) (r\<lparr>r_header_end := Some p\<rparr>)
     else if ch' = LF then hl_header_finish (r\<lparr>r_header_end := Some p\<rparr>)
     else
       let c = lowcase ! unat ch' in
       if c \<noteq> 0 then
         Next (hl_name, ngx_hash 0 c, 1) (r\<lparr>r_lowcase_header := (r_lowcase_header r)[0 := c]\<rparr>)
       else if ch' = ch CHR ''_'' then
         if allow_underscores then
           Next (hl_name, ngx_hash 0 ch', 1) (r\<lparr>r_lowcase_header := (r_lowcase_header r)[0 := ch']\<rparr>)
         else Next (hl_name, 0, 0) (r\<lparr>r_invalid_header := True\<rparr>)
       else if ch' \<le> 0x20 \<or> ch' = 0x7f \<or> ch' = ch CHR '':'' then hl_invalid p r
       else Next (hl_name, 0, 0) (r\<lparr>r_invalid_header := True\<rparr>))"

text \<open>The writes to \<^verbatim>\<open>lowcase_header\<close> that go on with \<^verbatim>\<open>i &= (NGX_HTTP_LC_HEADER_LEN - 1)\<close>.\<close>

definition hl_name_char ::
    "u_char \<Rightarrow> u_int64 \<Rightarrow> nat \<Rightarrow> ngx_http_request_t \<Rightarrow> hl_verdict" where
  "hl_name_char c hash i r =
     Next (hl_name, ngx_hash hash c, (i + 1) AND (NGX_HTTP_LC_HEADER_LEN - 1))
       (r\<lparr>r_lowcase_header := (r_lowcase_header r)[i := c]\<rparr>)"

definition hl_do_name ::
    "bool \<Rightarrow> u_char list \<Rightarrow> nat \<Rightarrow> u_char \<Rightarrow> u_int64 \<Rightarrow> nat \<Rightarrow> ngx_http_request_t \<Rightarrow> hl_verdict" where
  "hl_do_name allow_underscores m p ch' hash i r =
    (let c = lowcase ! unat ch' in
     if c \<noteq> 0 then hl_name_char c hash i r
     else if ch' = ch CHR ''_'' then
       if allow_underscores then hl_name_char ch' hash i r
       else Next (hl_name, hash, i) (r\<lparr>r_invalid_header := True\<rparr>)
     else if ch' = ch CHR '':'' then
       Next (hl_space_before_value, hash, i) (r\<lparr>r_header_name_end := Some p\<rparr>)
     else if ch' = CR then
       Next (hl_almost_done, hash, i)
         (r\<lparr>r_header_name_end := Some p, r_header_start := Some p, r_header_end := Some p\<rparr>)
     else if ch' = LF then
       hl_finish hash i
         (r\<lparr>r_header_name_end := Some p, r_header_start := Some p, r_header_end := Some p\<rparr>)
     else if ch' = ch CHR ''/'' \<and> r_upstream r
       \<and> (case r_header_name_start r of NULL \<Rightarrow> False
            | Some s \<Rightarrow> p - s = 4 \<and> ngx_strncmp (piece m s p) (bytes ''HTTP'') 4 = 0)
     then Next (hl_ignore_line, hash, i) r
     else if ch' \<le> 0x20 \<or> ch' = 0x7f then hl_invalid p r
     else Next (hl_name, hash, i) (r\<lparr>r_invalid_header := True\<rparr>))"

definition hl_do_space_before_value ::
    "nat \<Rightarrow> u_char \<Rightarrow> u_int64 \<Rightarrow> nat \<Rightarrow> ngx_http_request_t \<Rightarrow> hl_verdict" where
  "hl_do_space_before_value p c hash i r =
    (if c = ch CHR '' '' then Next (hl_space_before_value, hash, i) r
     else if c = CR then
       Next (hl_almost_done, hash, i) (r\<lparr>r_header_start := Some p, r_header_end := Some p\<rparr>)
     else if c = LF then hl_finish hash i (r\<lparr>r_header_start := Some p, r_header_end := Some p\<rparr>)
     else if c = 0 then hl_invalid p r
     else Next (hl_value, hash, i) (r\<lparr>r_header_start := Some p\<rparr>))"

definition hl_do_value ::
    "nat \<Rightarrow> u_char \<Rightarrow> u_int64 \<Rightarrow> nat \<Rightarrow> ngx_http_request_t \<Rightarrow> hl_verdict" where
  "hl_do_value p c hash i r =
    (if c = ch CHR '' '' then Next (hl_space_after_value, hash, i) (r\<lparr>r_header_end := Some p\<rparr>)
     else if c = CR then Next (hl_almost_done, hash, i) (r\<lparr>r_header_end := Some p\<rparr>)
     else if c = LF then hl_finish hash i (r\<lparr>r_header_end := Some p\<rparr>)
     else if c = 0 then hl_invalid p r
     else Next (hl_value, hash, i) r)"

definition hl_do_space_after_value ::
    "nat \<Rightarrow> u_char \<Rightarrow> u_int64 \<Rightarrow> nat \<Rightarrow> ngx_http_request_t \<Rightarrow> hl_verdict" where
  "hl_do_space_after_value p c hash i r =
    (if c = ch CHR '' '' then Next (hl_space_after_value, hash, i) r
     else if c = CR then Next (hl_almost_done, hash, i) r
     else if c = LF then hl_finish hash i r
     else if c = 0 then hl_invalid p r
     else Next (hl_value, hash, i) r)"

definition hl_do_ignore_line :: "u_char \<Rightarrow> u_int64 \<Rightarrow> nat \<Rightarrow> ngx_http_request_t \<Rightarrow> hl_verdict" where
  "hl_do_ignore_line c hash i r =
    (if c = LF then Next (hl_start, hash, i) r else Next (hl_ignore_line, hash, i) r)"

definition hl_do_almost_done :: "u_char \<Rightarrow> u_int64 \<Rightarrow> nat \<Rightarrow> ngx_http_request_t \<Rightarrow> hl_verdict" where
  "hl_do_almost_done c hash i r =
    (if c = LF then hl_finish hash i r
     else if c = CR then Next (hl_almost_done, hash, i) r
     else Reject NGX_HTTP_PARSE_INVALID_HEADER r)"

definition hl_do_header_almost_done :: "u_char \<Rightarrow> ngx_http_request_t \<Rightarrow> hl_verdict" where
  "hl_do_header_almost_done c r =
    (if c = LF then hl_header_finish r else Reject NGX_HTTP_PARSE_INVALID_HEADER r)"

fun header_line_step :: "bool \<Rightarrow> (hl_regs, ngx_http_request_t) stepper" where
  "header_line_step au m p c (hl_start, h, i) r = hl_do_start au p c h i r"
| "header_line_step au m p c (hl_name, h, i) r = hl_do_name au m p c h i r"
| "header_line_step au m p c (hl_space_before_value, h, i) r = hl_do_space_before_value p c h i r"
| "header_line_step au m p c (hl_value, h, i) r = hl_do_value p c h i r"
| "header_line_step au m p c (hl_space_after_value, h, i) r = hl_do_space_after_value p c h i r"
| "header_line_step au m p c (hl_ignore_line, h, i) r = hl_do_ignore_line c h i r"
| "header_line_step au m p c (hl_almost_done, h, i) r = hl_do_almost_done c h i r"
| "header_line_step au m p c (hl_header_almost_done, h, i) r = hl_do_header_almost_done c r"

definition hl_load :: "ngx_http_request_t \<Rightarrow> hl_regs" where
  "hl_load r = (hl_states ! r_state r, r_header_hash r, r_lowcase_index r)"

fun hl_store :: "hl_regs \<Rightarrow> ngx_http_request_t \<Rightarrow> ngx_http_request_t" where
  "hl_store (l, h, i) r = r\<lparr>r_state := hl_index l, r_header_hash := h, r_lowcase_index := i\<rparr>"

definition ngx_http_parse_header_line ::
    "ngx_http_request_t \<Rightarrow> ngx_buf_t \<Rightarrow> bool \<Rightarrow> int \<times> ngx_http_request_t \<times> ngx_buf_t" where
  "ngx_http_parse_header_line r b allow_underscores =
     run_parser (header_line_step allow_underscores) hl_load hl_store r b"

section \<open>The hash functions agree\<close>

lemma hash_key_lc_loop: "hash_key_lc_loop key data = hash_key_loop key (map ngx_tolower data)"
  by (induction data arbitrary: key) simp_all

lemma hash_key_loop_append: "hash_key_loop key (xs @ ys) = hash_key_loop (hash_key_loop key xs) ys"
  by (induction xs arbitrary: key) simp_all

lemma ngx_hash_key_lc_eq: "ngx_hash_key_lc data = ngx_hash_key (map ngx_tolower data)"
  by (simp add: ngx_hash_key_lc_def ngx_hash_key_def hash_key_lc_loop)

lemma ngx_hash_key_lc_snoc: "ngx_hash_key_lc (data @ [c]) = ngx_hash (ngx_hash_key_lc data) (ngx_tolower c)"
  by (simp add: ngx_hash_key_lc_eq ngx_hash_key_def hash_key_loop_append)

lemma ngx_hash_key_lc_Nil [simp]: "ngx_hash_key_lc [] = 0"
  by (simp add: ngx_hash_key_lc_def)

lemma hash_strlow_loop_eq:
  "hash_strlow_loop key dst src = (dst @ map ngx_tolower src, hash_key_lc_loop key src)"
  by (induction src arbitrary: key dst) (simp_all add: Let_def)

lemma ngx_hash_strlow_eq: "ngx_hash_strlow src = (map ngx_tolower src, ngx_hash_key_lc src)"
  by (simp add: ngx_hash_strlow_def ngx_hash_key_lc_def hash_strlow_loop_eq)

section \<open>The table\<close>

text \<open>The name characters: letters, digits and the hyphen, and the underscore where it is allowed.\<close>

definition name_char :: "bool \<Rightarrow> u_char \<Rightarrow> bool" where
  "name_char allow_underscores c \<longleftrightarrow>
     ch CHR ''A'' \<le> c \<and> c \<le> ch CHR ''Z'' \<or> ch CHR ''a'' \<le> c \<and> c \<le> ch CHR ''z'' \<or> is_digit c
      \<or> c = ch CHR ''-'' \<or> allow_underscores \<and> c = ch CHR ''_''"

lemma lowcase_eq: "lowcase = map (\<lambda>c. if name_char False c then ngx_tolower c else 0) all_bytes"
  by code_simp

lemma nth_all_bytes [simp]: "all_bytes ! unat c = c"
  by (simp add: all_bytes_eq [symmetric] del: upt_rec_numeral)

lemma length_all_bytes: "length all_bytes = 256"
  by (simp add: all_bytes_eq [symmetric] del: upt_rec_numeral)

lemma lowcase_nth: "lowcase ! unat c = (if name_char False c then ngx_tolower c else 0)"
  by (simp add: lowcase_eq length_all_bytes)

lemma name_char_nonzero: "name_char False c \<Longrightarrow> ngx_tolower c \<noteq> 0"
  by (auto simp: name_char_def is_digit_def)

lemma name_char_underscore: "name_char True c \<longleftrightarrow> name_char False c \<or> c = ch CHR ''_''"
  by (auto simp: name_char_def)

lemma ngx_tolower_underscore [simp]: "ngx_tolower 0x5f = 0x5f"
  by (simp add: ngx_tolower_def)

section \<open>The parser is resumable\<close>

lemma hl_states_index [simp]: "hl_states ! hl_index l = l"
  by (cases l) (simp_all add: hl_states_def)

lemmas hl_do_defs = hl_do_start_def hl_do_name_def hl_do_space_before_value_def hl_do_value_def
  hl_do_space_after_value_def hl_do_ignore_line_def hl_do_almost_done_def
  hl_do_header_almost_done_def hl_finish_def hl_header_finish_def hl_invalid_def hl_name_char_def

lemma hl_step_local:
  assumes "p < length m"
  shows "header_line_step au (m @ w) p c (l, h, i) r = header_line_step au m p c (l, h, i) r"
proof -
  have "piece (m @ w) s p = piece m s p" for s using assms by simp
  then show ?thesis by (cases l) (simp_all only: header_line_step.simps hl_do_name_def)
qed

lemma hl_step_codes:
  "header_line_step au m p c (l, h, i) r = Done rc s \<Longrightarrow> rc \<in> {NGX_OK, NGX_HTTP_PARSE_HEADER_DONE}"
  "header_line_step au m p c (l, h, i) r = Reject rc s \<Longrightarrow> rc = NGX_HTTP_PARSE_INVALID_HEADER"
  by (cases l; auto simp: hl_do_defs Let_def split: if_splits)+

lemma hl_stale_intros:
  "s = hl_store k r \<Longrightarrow> stale_verdict hl_store k (Next l r) (Next l s)"
  "s = hl_store k r \<Longrightarrow> stale_verdict hl_store k (Reject rc r) (Reject rc s)"
  "s = hl_store k r \<Longrightarrow> stale_verdict hl_store k (hl_invalid p r) (hl_invalid p s)"
  "s = hl_store k r \<Longrightarrow> stale_verdict hl_store k (hl_finish h i r) (hl_finish h i s)"
  "s = hl_store k r \<Longrightarrow> stale_verdict hl_store k (hl_header_finish r) (hl_header_finish s)"
  "s = hl_store k r \<Longrightarrow> stale_verdict hl_store k (hl_name_char c h i r) (hl_name_char c h i s)"
  "(b \<Longrightarrow> stale_verdict hl_store k x x') \<Longrightarrow> (\<not> b \<Longrightarrow> stale_verdict hl_store k y y') \<Longrightarrow>
     stale_verdict hl_store k (if b then x else y) (if b then x' else y')"
  by (cases k; simp add: hl_invalid_def hl_finish_def hl_header_finish_def hl_name_char_def)+

lemma hl_store_fields [simp]:
  "r_upstream (hl_store k r) = r_upstream r"
  "r_header_name_start (hl_store k r) = r_header_name_start r"
  "r_lowcase_header (hl_store k r) = r_lowcase_header r"
  by (cases k; simp)+

lemma hl_step_stale:
  "stale_verdict hl_store k (header_line_step au m p c (l, h, i) r)
     (header_line_step au m p c (l, h, i) (hl_store k r))"
proof (cases l)
  case hl_start
  show ?thesis unfolding hl_start header_line_step.simps hl_do_start_def Let_def
    by (intro hl_stale_intros; cases k; simp)
next
  case hl_name
  show ?thesis unfolding hl_name header_line_step.simps hl_do_name_def Let_def hl_store_fields
    by (intro hl_stale_intros; cases k; simp)
qed (simp_all only: header_line_step.simps hl_do_defs(3-8),
     (intro hl_stale_intros; cases k; simp)+)

interpretation hl: resumable "header_line_step au" hl_load hl_store
proof
  show "hl_load (hl_store l r) = l" for l r by (cases l) (simp add: hl_load_def)
  show "hl_store l (hl_store k r) = hl_store l r" for l k r by (cases l; cases k) simp
  show "stale_verdict hl_store k (header_line_step au m p c l r)
      (header_line_step au m p c l (hl_store k r))" for k m p c l r
    by (cases l) (simp add: hl_step_stale)
  show "header_line_step au (m @ w) p (m ! p) l r = header_line_step au m p (m ! p) l r"
    if "p < length m" for p m w l r using that by (cases l) (simp add: hl_step_local)
  show "rc \<noteq> NGX_AGAIN" if "header_line_step au m p c l r = Done rc s" for m p c l r rc s
    using that by (cases l) (auto dest: hl_step_codes)
  show "rc \<notin> {NGX_OK, NGX_AGAIN, NGX_HTTP_PARSE_HEADER_DONE}"
    if "header_line_step au m p c l r = Reject rc s" for m p c l r rc s
    using that by (cases l) (auto dest: hl_step_codes)
qed

end
