(* ===== verification/Ngx_Http_Header_Correct.thy ===== *)
theory Ngx_Http_Header_Correct
  imports Ngx_Http_Header
begin

text \<open>
  Correctness of \<^verbatim>\<open>ngx_http_parse_header_line\<close>: the index into \<^verbatim>\<open>lowcase_header\<close> stays inside the array,
  the name and the value of an accepted line are delimited and clean, and the stored hash is the one
  \<^verbatim>\<open>ngx_hash_key_lc\<close> computes for the name.
\<close>

section \<open>What an accepted header line looks like\<close>

definition name_byte :: "u_char \<Rightarrow> bool" where
  "name_byte c \<longleftrightarrow> 0x20 < c \<and> c \<noteq> 0x7f \<and> c \<noteq> ch CHR '':''"

definition value_byte :: "u_char \<Rightarrow> bool" where
  "value_byte c \<longleftrightarrow> c \<noteq> 0 \<and> c \<noteq> CR \<and> c \<noteq> LF"

text \<open>
  The hash, the index and the lowered copy describe the name read so far, unless it has been marked
  invalid.  The copy holds 32 bytes and is overwritten from the start when the name is longer.
\<close>

definition name_hashed :: "bool \<Rightarrow> u_char list \<Rightarrow> u_int64 \<Rightarrow> nat \<Rightarrow> u_char list \<Rightarrow> bool" where
  "name_hashed au n h i lc \<longleftrightarrow> (\<forall>c \<in> set n. name_char au c) \<and> h = ngx_hash_key_lc n
     \<and> i = length n mod 32
     \<and> (length n \<le> 32 \<longrightarrow> take (length n) lc = map ngx_tolower n)"

definition name_part :: "bool \<Rightarrow> u_char list \<Rightarrow> nat \<Rightarrow> ptr \<Rightarrow> bool \<Rightarrow> u_int64 \<Rightarrow> nat \<Rightarrow> u_char list \<Rightarrow> bool" where
  "name_part au m e ns iv h i lc \<longleftrightarrow> (\<exists>s. ns = Some s \<and> s < e \<and> e \<le> length m
     \<and> (\<forall>c \<in> set (piece m s e). name_byte c) \<and> (\<not> iv \<longrightarrow> name_hashed au (piece m s e) h i lc))"

text \<open>\<open>trimmed v\<close>: no space at either end, no NUL, CR or LF inside.\<close>

definition trimmed :: "u_char list \<Rightarrow> bool" where
  "trimmed v \<longleftrightarrow> (\<forall>c \<in> set v. value_byte c) \<and> (v \<noteq> [] \<longrightarrow> hd v \<noteq> ch CHR '' '' \<and> last v \<noteq> ch CHR '' '')"

definition header_line_fields :: "bool \<Rightarrow> u_char list \<Rightarrow> nat \<Rightarrow> ngx_http_request_t \<Rightarrow> bool" where
  "header_line_fields au m p r \<longleftrightarrow> (\<exists>s e a z.
     r_header_name_start r = Some s \<and> r_header_name_end r = Some e
     \<and> r_header_start r = Some a \<and> r_header_end r = Some z
     \<and> s < e \<and> e \<le> a \<and> a \<le> z \<and> z \<le> p \<and> p < length m \<and> m ! p = LF
     \<and> (\<forall>c \<in> set (piece m s e). name_byte c) \<and> trimmed (piece m a z)
     \<and> (\<not> r_invalid_header r \<longrightarrow>
          name_hashed au (piece m s e) (r_header_hash r) (r_lowcase_index r) (r_lowcase_header r)))"

definition value_read :: "u_char list \<Rightarrow> nat \<Rightarrow> ptr \<Rightarrow> ptr \<Rightarrow> ptr \<Rightarrow> bool" where
  "value_read m p ne vs ve \<longleftrightarrow> (\<exists>e a z. ne = Some e \<and> vs = Some a \<and> ve = Some z \<and> e \<le> a \<and> a \<le> z \<and> z \<le> p
     \<and> p \<le> length m \<and> trimmed (piece m a z))"

definition hl_inv :: "bool \<Rightarrow> u_char list \<Rightarrow> nat \<Rightarrow> hl_regs \<Rightarrow> ngx_http_request_t \<Rightarrow> bool" where
  "hl_inv au m p l r \<longleftrightarrow> length (r_lowcase_header r) = NGX_HTTP_LC_HEADER_LEN \<and> p \<le> length m \<and>
    (let ns = r_header_name_start r; ne = r_header_name_end r; vs = r_header_start r;
         ve = r_header_end r; iv = r_invalid_header r; lc = r_lowcase_header r;
         (st, h, i) = l;
         named = (\<exists>e. ne = Some e \<and> e \<le> p \<and> name_part au m e ns iv h i lc) in
     case st of
       hl_start \<Rightarrow> True
     | hl_name \<Rightarrow> i < NGX_HTTP_LC_HEADER_LEN \<and> name_part au m p ns iv h i lc
     | hl_space_before_value \<Rightarrow> named
     | hl_value \<Rightarrow> named \<and> (\<exists>e a. ne = Some e \<and> vs = Some a \<and> e \<le> a \<and> a < p \<and> trimmed (piece m a p))
     | hl_space_after_value \<Rightarrow> named \<and> value_read m p ne vs ve
         \<and> (\<exists>a z. vs = Some a \<and> ve = Some z \<and> a < z \<and> (\<forall>c \<in> set (piece m z p). c = ch CHR '' ''))
     | hl_ignore_line \<Rightarrow> True
     | hl_almost_done \<Rightarrow> named \<and> value_read m p ne vs ve
     | hl_header_almost_done \<Rightarrow> True)"

lemma trimmed_snoc:
  "trimmed v \<Longrightarrow> value_byte c \<Longrightarrow> c \<noteq> 0x20 \<Longrightarrow> trimmed (v @ [c])"
  by (cases v) (auto simp: trimmed_def)

lemma trimmed_spaces:
  "trimmed v \<Longrightarrow> v \<noteq> [] \<Longrightarrow> \<forall>c \<in> set w. c = 0x20 \<Longrightarrow> value_byte c \<Longrightarrow> c \<noteq> 0x20 \<Longrightarrow> trimmed (v @ w @ [c])"
  by (auto simp: trimmed_def value_byte_def)

lemma trimmed_Nil [simp]: "trimmed []"
  by (simp add: trimmed_def)

lemma piece_split:
  assumes "i \<le> j" "j \<le> k"
  shows "piece m i k = piece m i j @ piece m j k"
proof -
  have "k - i = (j - i) + (k - j)" using assms by simp
  then have "piece m i k = take (j - i) (drop i m) @ take (k - j) (drop (j - i) (drop i m))"
    by (simp only: piece_def take_add)
  then show ?thesis using assms by (simp add: piece_def)
qed

lemma name_char_name_byte: "name_char au c \<Longrightarrow> name_byte c"
  by (auto simp: name_char_def name_byte_def is_digit_def word_le_nat_alt word_less_nat_alt)

lemma nat_and_31: "(x :: nat) AND 31 = x mod 32"
proof -
  have "(31 :: nat) = mask 5" by (simp add: mask_eq_exp_minus_1)
  then have "x AND 31 = take_bit 5 x" by (simp only: take_bit_eq_mask)
  then show ?thesis by (simp add: take_bit_eq_mod)
qed

lemma name_hashed_snoc:
  assumes "name_hashed au n h i lc" "name_char au c" "length lc = 32"
  shows "name_hashed au (n @ [c]) (ngx_hash h (ngx_tolower c)) (Suc i mod 32) (lc[i := ngx_tolower c])"
proof -
  have "take (Suc (length n)) (lc[i := ngx_tolower c]) = map ngx_tolower (n @ [c])"
    if "Suc (length n) \<le> 32"
  proof -
    from that have "i = length n" using assms(1) by (simp add: name_hashed_def)
    then show ?thesis using assms(1,3) that
      by (simp add: name_hashed_def take_Suc_conv_app_nth)
  qed
  then show ?thesis using assms(1,2)
    by (simp add: name_hashed_def ngx_hash_key_lc_snoc mod_Suc_eq)
qed

lemma name_part_snoc:
  assumes "name_part au m p ns iv h i lc" "name_char au (m ! p)" "length lc = 32" "p < length m"
  shows "name_part au m (Suc p) ns iv (ngx_hash h (ngx_tolower (m ! p))) (Suc i mod 32)
    (lc[i := ngx_tolower (m ! p)])"
proof -
  from assms(1) obtain s where s: "ns = Some s" "s < p" "\<forall>c \<in> set (piece m s p). name_byte c"
    "\<not> iv \<longrightarrow> name_hashed au (piece m s p) h i lc" by (auto simp: name_part_def)
  then show ?thesis
    using assms(2-) name_hashed_snoc [of au "piece m s p" h i lc "m ! p"] name_char_name_byte
    by (auto simp: name_part_def piece_Suc)
qed

lemma name_part_init:
  assumes "name_char au (m ! p)" "length lc = 32" "p < length m"
  shows "name_part au m (Suc p) (Some p) iv (ngx_hash 0 (ngx_tolower (m ! p))) (Suc 0)
    (lc[0 := ngx_tolower (m ! p)])"
proof -
  have "name_hashed au [] 0 0 lc" by (simp add: name_hashed_def)
  from name_hashed_snoc [OF this assms(1,2)] show ?thesis
    using assms name_char_name_byte by (simp add: name_part_def piece_Suc)
qed

lemma name_part_invalid:
  "name_part au m p ns iv h i lc \<Longrightarrow> name_byte (m ! p) \<Longrightarrow> p < length m \<Longrightarrow>
     name_part au m (Suc p) ns True h' i' lc'"
  by (auto simp: name_part_def piece_Suc intro: less_imp_le_nat)

lemma name_part_invalid_init:
  "name_byte (m ! p) \<Longrightarrow> p < length m \<Longrightarrow> name_part au m (Suc p) (Some p) True h i lc"
  by (simp add: name_part_def piece_Suc)

definition hl_step_ok :: "bool \<Rightarrow> u_char list \<Rightarrow> nat \<Rightarrow> hl_verdict \<Rightarrow> bool" where
  "hl_step_ok au m p v \<longleftrightarrow> (case v of
     Next l r \<Rightarrow> hl_inv au m (p + 1) l r
   | Done rc r \<Rightarrow> length (r_lowcase_header r) = 32 \<and> (rc = NGX_OK \<longrightarrow> header_line_fields au m p r)
   | Reject rc r \<Rightarrow> length (r_lowcase_header r) = 32 \<and> rc \<noteq> NGX_OK)"

lemma hl_step_ok_intros:
  "hl_inv au m (Suc p) l r \<Longrightarrow> hl_step_ok au m p (Next l r)"
  "rc \<noteq> NGX_OK \<Longrightarrow> length (r_lowcase_header r) = 32 \<Longrightarrow> hl_step_ok au m p (Reject rc r)"
  "length (r_lowcase_header r) = 32 \<Longrightarrow> hl_step_ok au m p (hl_invalid q r)"
  "length (r_lowcase_header r) = 32 \<Longrightarrow> hl_step_ok au m p (hl_header_finish r)"
  "(b \<Longrightarrow> hl_step_ok au m p x) \<Longrightarrow> (\<not> b \<Longrightarrow> hl_step_ok au m p y) \<Longrightarrow>
     hl_step_ok au m p (if b then x else y)"
  by (simp_all add: hl_step_ok_def hl_invalid_def hl_header_finish_def)

lemma hl_step_ok_finish:
  assumes "r_header_name_end r = Some e" "name_part au m e (r_header_name_start r) (r_invalid_header r) h i (r_lowcase_header r)"
    "value_read m p (Some e) (r_header_start r) (r_header_end r)" "p < length m" "m ! p = LF"
    "length (r_lowcase_header r) = 32"
  shows "hl_step_ok au m p (hl_finish h i r)"
  using assms
  by (auto simp: hl_step_ok_def hl_finish_def header_line_fields_def name_part_def value_read_def)

lemma value_read_empty: "e \<le> p \<Longrightarrow> p \<le> length m \<Longrightarrow> p \<le> q \<Longrightarrow> q \<le> length m \<Longrightarrow> value_read m q (Some e) (Some p) (Some p)"
  by (simp add: value_read_def)

lemma value_read_step: "value_read m p ne vs ve \<Longrightarrow> p < length m \<Longrightarrow> value_read m (Suc p) ne vs ve"
  by (fastforce simp: value_read_def)

lemma not_name_byte: "\<not> (c \<le> 0x20 \<or> c = 0x7f) \<Longrightarrow> c \<noteq> 0x3a \<Longrightarrow> name_byte c"
  by (auto simp: name_byte_def not_le)

lemma hl_inv_start:
  assumes "p < length m" "length (r_lowcase_header r) = 32"
  shows "hl_step_ok au m p (hl_do_start au p (m ! p) h i r)"
  using assms name_part_init [of au m p "r_lowcase_header r" False]
    name_part_invalid_init [of m p au] name_char_underscore
  unfolding hl_do_start_def Let_def
  by (intro hl_step_ok_intros) 
    (auto simp: hl_inv_def lowcase_nth not_name_byte name_byte_def name_char_def split: if_splits)

lemma hl_inv_name:
  assumes "hl_inv au m p (hl_name, h, i) r" "p < length m"
  shows "hl_step_ok au m p (hl_do_name au m p (m ! p) h i r)"
proof -
  let ?c = "m ! p" and ?lc = "r_lowcase_header r"
  from assms have i: "length ?lc = 32" "i < 32"
    "name_part au m p (r_header_name_start r) (r_invalid_header r) h i ?lc"
    by (simp_all add: hl_inv_def Let_def)
  have char: "hl_step_ok au m p (hl_name_char (ngx_tolower ?c) h i r)" if "name_char au ?c"
    using name_part_snoc [OF i(3) that i(1) assms(2)] i assms(2)
    by (simp add: hl_name_char_def hl_step_ok_def hl_inv_def Let_def nat_and_31)
  have low: "hl_step_ok au m p (hl_name_char (lowcase ! unat ?c) h i r)" if "lowcase ! unat ?c \<noteq> 0"
    using that char name_char_underscore by (cases au) (auto simp: lowcase_nth split: if_splits)
  have under: "hl_step_ok au m p (hl_name_char ?c h i r)" if "?c = 0x5f" au
    using that char name_char_underscore by simp
  have bad: "hl_step_ok au m p (Next (hl_name, h, i) (r\<lparr>r_invalid_header := True\<rparr>))" if "name_byte ?c"
    using name_part_invalid [OF i(3) that assms(2)] i assms(2)
    by (simp add: hl_step_ok_def hl_inv_def Let_def)
  have fin: "hl_step_ok au m p (hl_finish h i
      (r\<lparr>r_header_name_end := Some p, r_header_start := Some p, r_header_end := Some p\<rparr>))" if "?c = LF"
    using i assms(2) that by (intro hl_step_ok_finish) (auto intro: value_read_empty)
  have nb: "name_byte 0x5f" by (simp add: name_byte_def)
  show ?thesis unfolding hl_do_name_def Let_def
    by (intro hl_step_ok_intros(5) low under bad fin)
      (use i assms(2) nb in \<open>auto simp: hl_step_ok_def hl_invalid_def hl_inv_def Let_def not_name_byte
        intro: value_read_empty\<close>)
qed

lemma hl_inv_values:
  assumes "hl_inv au m p (l, h, i) r" "p < length m"
    and "l \<in> {hl_space_before_value, hl_value, hl_space_after_value, hl_almost_done}"
  shows "hl_step_ok au m p (header_line_step au m p (m ! p) (l, h, i) r)"
proof -
  let ?c = "m ! p"
  from assms obtain e where e: "length (r_lowcase_header r) = 32" "r_header_name_end r = Some e" "e \<le> p"
    "name_part au m e (r_header_name_start r) (r_invalid_header r) h i (r_lowcase_header r)"
    by (auto simp: hl_inv_def Let_def)
  show ?thesis
  proof (cases l)
    case hl_space_before_value
    have "value_read m p (Some e) (Some p) (Some p)" "value_read m (Suc p) (Some e) (Some p) (Some p)"
      using e assms(2) by (auto simp: value_read_def)
    with hl_space_before_value show ?thesis using e assms(2)
      by (auto simp: hl_do_space_before_value_def hl_inv_def Let_def piece_Suc trimmed_def value_byte_def
          intro!: hl_step_ok_intros hl_step_ok_finish)
  next
    case hl_value
    then obtain a where a: "r_header_start r = Some a" "e \<le> a" "a < p" "trimmed (piece m a p)"
      using assms(1) e by (auto simp: hl_inv_def Let_def)
    then have "value_read m p (Some e) (Some a) (Some p)" "value_read m (Suc p) (Some e) (Some a) (Some p)"
      using assms(2) by (auto simp: value_read_def)
    moreover have "trimmed (piece m a (Suc p))" if "?c \<noteq> 0x20" "?c \<noteq> 13" "?c \<noteq> 10" "?c \<noteq> 0"
      using that a assms(2) by (simp add: piece_Suc trimmed_snoc value_byte_def)
    ultimately show ?thesis using hl_value e a assms(2)
      by (auto simp: hl_do_value_def hl_inv_def Let_def piece_Suc
          intro!: hl_step_ok_intros hl_step_ok_finish)
  next
    case hl_space_after_value
    then obtain a z where a: "r_header_start r = Some a" "r_header_end r = Some z" "e \<le> a" "a < z" "z \<le> p"
      "trimmed (piece m a z)" "\<forall>c \<in> set (piece m z p). c = 0x20" "value_read m p (Some e) (Some a) (Some z)"
      using assms(1) e by (auto simp: hl_inv_def Let_def value_read_def)
    then have "value_read m (Suc p) (Some e) (Some a) (Some z)" using assms(2) by (simp add: value_read_step)
    moreover have "trimmed (piece m a (Suc p))" if "?c \<noteq> 0x20" "?c \<noteq> 13" "?c \<noteq> 10" "?c \<noteq> 0"
    proof -
      have "piece m a z \<noteq> []" using a(4,5) assms(2) by (auto simp: piece_def)
      from trimmed_spaces [OF a(6) this a(7), of ?c] that
      show ?thesis using a assms(2) by (simp add: piece_Suc piece_split [of a z p] value_byte_def)
    qed
    ultimately show ?thesis using hl_space_after_value e a assms(2)
      by (auto simp: hl_do_space_after_value_def hl_inv_def Let_def piece_Suc
          intro!: hl_step_ok_intros hl_step_ok_finish)
  next
    case hl_almost_done
    then have "value_read m p (Some e) (r_header_start r) (r_header_end r)"
      using assms(1) e by (auto simp: hl_inv_def Let_def)
    then show ?thesis using hl_almost_done e assms(2)
      by (auto simp: hl_do_almost_done_def hl_inv_def Let_def intro!: hl_step_ok_intros hl_step_ok_finish
          intro: value_read_step)
  qed (use assms(3) in auto)
qed

lemma hl_inv_step:
  assumes "hl_inv au m p (l, h, i) r" "p < length m"
  shows "hl_step_ok au m p (header_line_step au m p (m ! p) (l, h, i) r)"
proof (cases "l \<in> {hl_space_before_value, hl_value, hl_space_after_value, hl_almost_done}")
  case True
  then show ?thesis by (rule hl_inv_values [OF assms])
next
  case False
  have len: "length (r_lowcase_header r) = 32" using assms by (simp add: hl_inv_def)
  show ?thesis
  proof (cases l)
    case hl_start
    then show ?thesis using hl_inv_start [OF assms(2) len] by simp
  next
    case hl_name
    then show ?thesis using hl_inv_name assms by simp
  next
    case hl_ignore_line
    then show ?thesis using len assms(2)
      by (auto simp: hl_do_ignore_line_def hl_step_ok_def hl_inv_def Let_def)
  next
    case hl_header_almost_done
    then show ?thesis using len by (simp add: hl_do_header_almost_done_def hl_step_ok_intros)
  qed (use False in auto)
qed


definition sample_header :: "u_char list" where
  "sample_header = bytes ''Host: a b  '' @ [CR, LF]"


text \<open>
  A header line does not depend on how it arrives: feeding the input in any sequence of
  reads gives the result of one call on the whole input, with the hash and the index saved in between.
\<close>

theorem ngx_http_parse_header_line_resumable:
  assumes "b_pos b \<le> length (b_mem b)" "ws \<noteq> []"
  shows "same_result hl_store (feed (\<lambda>r b. ngx_http_parse_header_line r b au) r b ws)
    (ngx_http_parse_header_line r (append_input (concat ws) b) au)"
  unfolding ngx_http_parse_header_line_def using assms by (rule hl.feed_eq_parse)

theorem ngx_http_parse_header_line_resumable_witness:
  "same_result hl_store
    (feed (\<lambda>r b. ngx_http_parse_header_line r b False) fresh_request \<lparr>b_mem = [], b_pos = 0\<rparr>
      [bytes ''Ho'', bytes ''st: a b'', bytes ''  '' @ [CR], [LF]])
    (ngx_http_parse_header_line fresh_request \<lparr>b_mem = sample_header, b_pos = 0\<rparr> False)"
  using ngx_http_parse_header_line_resumable [of "\<lparr>b_mem = [], b_pos = 0\<rparr>"
      "[bytes ''Ho'', bytes ''st: a b'', bytes ''  '' @ [CR], [LF]]" False fresh_request]
  by (simp add: append_input_def sample_header_def bytes_def)

end
