(* ===== verification/Ngx_Http_Status.thy ===== *)
theory Ngx_Http_Status
  imports Ngx_Http_Request
begin

text \<open>
  \<^verbatim>\<open>ngx_http_parse_status_line\<close>, the first line of an upstream response.  The memory of the machine is
  the request together with \<^verbatim>\<open>ngx_http_status_t\<close>.
\<close>

record ngx_http_status_t =
  s_http_version :: nat
  s_code :: u_int64
  s_count :: u_int64
  s_start :: ptr
  s_end :: ptr

definition fresh_status :: ngx_http_status_t where
  "fresh_status = \<lparr>s_http_version = 0, s_code = 0, s_count = 0, s_start = NULL, s_end = NULL\<rparr>"

datatype sl_state = sl_start | sl_H | sl_HT | sl_HTT | sl_HTTP | sl_first_major_digit
  | sl_major_digit | sl_first_minor_digit | sl_minor_digit | sl_status | sl_space_after_status
  | sl_status_text | sl_almost_done

definition sl_states :: "sl_state list" where
  "sl_states = [sl_start, sl_H, sl_HT, sl_HTT, sl_HTTP, sl_first_major_digit, sl_major_digit,
     sl_first_minor_digit, sl_minor_digit, sl_status, sl_space_after_status, sl_status_text,
     sl_almost_done]"

primrec sl_index :: "sl_state \<Rightarrow> nat" where
  "sl_index sl_start = 0" | "sl_index sl_H = 1" | "sl_index sl_HT = 2" | "sl_index sl_HTT = 3"
| "sl_index sl_HTTP = 4" | "sl_index sl_first_major_digit = 5" | "sl_index sl_major_digit = 6"
| "sl_index sl_first_minor_digit = 7" | "sl_index sl_minor_digit = 8" | "sl_index sl_status = 9"
| "sl_index sl_space_after_status = 10" | "sl_index sl_status_text = 11" | "sl_index sl_almost_done = 12"

type_synonym sl_mem = "ngx_http_request_t \<times> ngx_http_status_t"
type_synonym sl_verdict = "(sl_state, sl_mem) verdict"

text \<open>The label \<^verbatim>\<open>done\<close>.\<close>

fun sl_finish :: "nat \<Rightarrow> sl_mem \<Rightarrow> sl_verdict" where
  "sl_finish p (r, status) =
    (let status = (if s_end status = NULL then status\<lparr>s_end := Some p\<rparr> else status) in
     Done NGX_OK (r\<lparr>r_state := 0\<rparr>,
       status\<lparr>s_http_version := r_http_major r * 1000 + r_http_minor r\<rparr>))"

abbreviation (input) sl_error :: "sl_mem \<Rightarrow> sl_verdict" where
  "sl_error \<equiv> Reject NGX_ERROR"

definition sl_expect :: "char \<Rightarrow> sl_state \<Rightarrow> u_char \<Rightarrow> sl_mem \<Rightarrow> sl_verdict" where
  "sl_expect x l c rs = (if c = ch x then Next l rs else sl_error rs)"

fun sl_do_first_major_digit :: "u_char \<Rightarrow> sl_mem \<Rightarrow> sl_verdict" where
  "sl_do_first_major_digit c (r, status) =
    (if c < ch CHR ''1'' \<or> c > ch CHR ''9'' then sl_error (r, status)
     else Next sl_major_digit (r\<lparr>r_http_major := bits16 (unat c - 48)\<rparr>, status))"

fun sl_do_major_digit :: "u_char \<Rightarrow> sl_mem \<Rightarrow> sl_verdict" where
  "sl_do_major_digit c (r, status) =
    (if c = ch CHR ''.'' then Next sl_first_minor_digit (r, status)
     else if \<not> is_digit c then sl_error (r, status)
     else if r_http_major r > 99 then sl_error (r, status)
     else Next sl_major_digit
       (r\<lparr>r_http_major := bits16 (r_http_major r * 10 + (unat c - 48))\<rparr>, status))"

fun sl_do_first_minor_digit :: "u_char \<Rightarrow> sl_mem \<Rightarrow> sl_verdict" where
  "sl_do_first_minor_digit c (r, status) =
    (if \<not> is_digit c then sl_error (r, status)
     else Next sl_minor_digit (r\<lparr>r_http_minor := bits16 (unat c - 48)\<rparr>, status))"

fun sl_do_minor_digit :: "u_char \<Rightarrow> sl_mem \<Rightarrow> sl_verdict" where
  "sl_do_minor_digit c (r, status) =
    (if c = ch CHR '' '' then Next sl_status (r, status)
     else if \<not> is_digit c then sl_error (r, status)
     else if r_http_minor r > 99 then sl_error (r, status)
     else Next sl_minor_digit
       (r\<lparr>r_http_minor := bits16 (r_http_minor r * 10 + (unat c - 48))\<rparr>, status))"

fun sl_do_status :: "nat \<Rightarrow> u_char \<Rightarrow> sl_mem \<Rightarrow> sl_verdict" where
  "sl_do_status p c (r, status) =
    (if c = ch CHR '' '' then Next sl_status (r, status)
     else if \<not> is_digit c then sl_error (r, status)
     else
       let status = status\<lparr>s_code := s_code status * 10 + (ucast c - 48),
             s_count := s_count status + 1\<rparr> in
       if s_count status = 3 then Next sl_space_after_status (r, status\<lparr>s_start := Some (p - 2)\<rparr>)
       else Next sl_status (r, status))"

definition sl_do_space_after_status :: "nat \<Rightarrow> u_char \<Rightarrow> sl_mem \<Rightarrow> sl_verdict" where
  "sl_do_space_after_status p c rs =
    (if c = ch CHR '' '' then Next sl_status_text rs
     else if c = ch CHR ''.'' then Next sl_status_text rs
     else if c = CR then Next sl_almost_done rs
     else if c = LF then sl_finish p rs
     else sl_error rs)"

definition sl_do_status_text :: "nat \<Rightarrow> u_char \<Rightarrow> sl_mem \<Rightarrow> sl_verdict" where
  "sl_do_status_text p c rs =
    (if c = CR then Next sl_almost_done rs
     else if c = LF then sl_finish p rs
     else Next sl_status_text rs)"

fun sl_do_almost_done :: "nat \<Rightarrow> u_char \<Rightarrow> sl_mem \<Rightarrow> sl_verdict" where
  "sl_do_almost_done p c (r, status) =
    (let status = status\<lparr>s_end := Some (p - 1)\<rparr> in
     if c = LF then sl_finish p (r, status) else sl_error (r, status))"

fun status_line_step :: "(sl_state, sl_mem) stepper" where
  "status_line_step m p c sl_start rs = sl_expect CHR ''H'' sl_H c rs"
| "status_line_step m p c sl_H rs = sl_expect CHR ''T'' sl_HT c rs"
| "status_line_step m p c sl_HT rs = sl_expect CHR ''T'' sl_HTT c rs"
| "status_line_step m p c sl_HTT rs = sl_expect CHR ''P'' sl_HTTP c rs"
| "status_line_step m p c sl_HTTP rs = sl_expect CHR ''/'' sl_first_major_digit c rs"
| "status_line_step m p c sl_first_major_digit rs = sl_do_first_major_digit c rs"
| "status_line_step m p c sl_major_digit rs = sl_do_major_digit c rs"
| "status_line_step m p c sl_first_minor_digit rs = sl_do_first_minor_digit c rs"
| "status_line_step m p c sl_minor_digit rs = sl_do_minor_digit c rs"
| "status_line_step m p c sl_status rs = sl_do_status p c rs"
| "status_line_step m p c sl_space_after_status rs = sl_do_space_after_status p c rs"
| "status_line_step m p c sl_status_text rs = sl_do_status_text p c rs"
| "status_line_step m p c sl_almost_done rs = sl_do_almost_done p c rs"

fun sl_load :: "sl_mem \<Rightarrow> sl_state" where
  "sl_load (r, status) = sl_states ! r_state r"

fun sl_store :: "sl_state \<Rightarrow> sl_mem \<Rightarrow> sl_mem" where
  "sl_store l (r, status) = (r\<lparr>r_state := sl_index l\<rparr>, status)"

definition ngx_http_parse_status_line :: "sl_mem \<Rightarrow> ngx_buf_t \<Rightarrow> int \<times> sl_mem \<times> ngx_buf_t" where
  "ngx_http_parse_status_line rs b = run_parser status_line_step sl_load sl_store rs b"

section \<open>The parser is resumable\<close>

lemma sl_states_index [simp]: "sl_states ! sl_index l = l"
  by (cases l) (simp_all add: sl_states_def)

lemmas sl_do_defs = sl_expect_def sl_do_space_after_status_def sl_do_status_text_def

lemma sl_step_local: "status_line_step (m @ w) p c l rs = status_line_step m p c l rs"
  by (cases l) simp_all

lemma sl_step_codes:
  "status_line_step m p c l rs = Done rc s \<Longrightarrow> rc = NGX_OK"
  "status_line_step m p c l rs = Reject rc s \<Longrightarrow> rc = NGX_ERROR"
  by (cases rs; cases l; auto simp: sl_do_defs Let_def split: if_splits)+

lemma sl_step_stale:
  "stale_verdict sl_store k (status_line_step m p c l rs) (status_line_step m p c l (sl_store k rs))"
  by (cases rs; cases l; simp add: sl_do_defs Let_def)

interpretation sl: resumable status_line_step sl_load sl_store
proof
  show "sl_load (sl_store l r) = l" for l r by (cases r) simp
  show "sl_store l (sl_store k r) = sl_store l r" for l k r by (cases r) simp
qed (auto simp: sl_step_local sl_step_stale dest!: sl_step_codes)

section \<open>What an accepted status line looks like\<close>

text \<open>
  The parts of a line: a number of the version (below 1000), the three digits of the code, with spaces where the code
  skips them, and the text, which starts with a space or a dot.
\<close>

definition version_number :: "u_char list \<Rightarrow> nat \<Rightarrow> bool" where
  "version_number ds n \<longleftrightarrow> ds \<noteq> [] \<and> list_all is_digit ds \<and> n = dec_nat ds \<and> n \<le> 999"

definition line_start :: "u_char list \<Rightarrow> nat \<Rightarrow> nat \<Rightarrow> bool" where
  "line_start x major minor \<longleftrightarrow> (\<exists>ds es. x = bytes ''HTTP/'' @ ds @ bytes ''.'' @ es @ bytes '' '' \<and>
     version_number ds major \<and> hd ds \<noteq> ch CHR ''0'' \<and> version_number es minor)"

definition code_text :: "u_char list \<Rightarrow> nat \<Rightarrow> nat \<Rightarrow> bool" where
  "code_text s n k \<longleftrightarrow> (\<forall>c \<in> set s. is_digit c \<or> c = ch CHR '' '') \<and> n = length (filter is_digit s) \<and> k = dec_nat (filter is_digit s)"

definition reason_text :: "u_char list \<Rightarrow> bool" where
  "reason_text t \<longleftrightarrow> CR \<notin> set t \<and> LF \<notin> set t \<and> (t = [] \<or> hd t = ch CHR '' '' \<or> hd t = ch CHR ''.'')"

text \<open>The text up to the third digit, and the reason behind it.\<close>

definition line_coded :: "u_char list \<Rightarrow> u_char list \<Rightarrow> nat \<Rightarrow> nat \<Rightarrow> nat \<Rightarrow> nat \<Rightarrow> bool" where
  "line_coded w t i major minor code \<longleftrightarrow> (\<exists>x s. w = x @ s @ t \<and> line_start x major minor \<and> code_text s 3 code \<and>
     s \<noteq> [] \<and> is_digit (last s) \<and> reason_text t \<and> i = length x + length s - 3)"

definition status_line_fields :: "nat \<Rightarrow> u_char list \<Rightarrow> sl_mem \<Rightarrow> bool" where
  "status_line_fields p0 w rs \<longleftrightarrow> (case rs of (r, status) \<Rightarrow> (\<exists>v t i eol.
     w = v @ eol \<and> eol \<in> {[LF], [CR, LF]} \<and> line_coded v t i (r_http_major r) (r_http_minor r) (unat (s_code status)) \<and>
     s_count status = 3 \<and> s_start status = Some (p0 + i) \<and> s_end status = Some (p0 + length v) \<and>
     s_http_version status = r_http_major r * 1000 + r_http_minor r \<and> r_state r = 0))"

definition sl_inv :: "nat \<Rightarrow> u_char list \<Rightarrow> sl_state \<Rightarrow> sl_mem \<Rightarrow> bool" where
  "sl_inv p0 w l rs \<longleftrightarrow> (case rs of (r, status) \<Rightarrow> s_end status = NULL \<and>
     (let major = r_http_major r; minor = r_http_minor r; code = unat (s_code status);
          count = unat (s_count status); none = (s_code status = 0 \<and> s_count status = 0);
          coded = (\<lambda>v t. \<exists>i. s_start status = Some (p0 + i) \<and> s_count status = 3 \<and> line_coded v t i major minor code) in
      case l of
        sl_start \<Rightarrow> none \<and> w = [] | sl_H \<Rightarrow> none \<and> w = bytes ''H'' | sl_HT \<Rightarrow> none \<and> w = bytes ''HT''
      | sl_HTT \<Rightarrow> none \<and> w = bytes ''HTT'' | sl_HTTP \<Rightarrow> none \<and> w = bytes ''HTTP''
      | sl_first_major_digit \<Rightarrow> none \<and> w = bytes ''HTTP/''
      | sl_major_digit \<Rightarrow> none \<and> (\<exists>ds. w = bytes ''HTTP/'' @ ds \<and> version_number ds major \<and> hd ds \<noteq> ch CHR ''0'')
      | sl_first_minor_digit \<Rightarrow> none \<and> (\<exists>ds. w = bytes ''HTTP/'' @ ds @ bytes ''.'' \<and> version_number ds major \<and> hd ds \<noteq> ch CHR ''0'')
      | sl_minor_digit \<Rightarrow> none \<and> (\<exists>ds es. w = bytes ''HTTP/'' @ ds @ bytes ''.'' @ es \<and> version_number ds major \<and>
          hd ds \<noteq> ch CHR ''0'' \<and> version_number es minor)
      | sl_status \<Rightarrow> (\<exists>x s. w = x @ s \<and> line_start x major minor \<and> code_text s count code \<and> count < 3)
      | sl_space_after_status \<Rightarrow> coded w []
      | sl_status_text \<Rightarrow> (\<exists>t. t \<noteq> [] \<and> coded w t)
      | sl_almost_done \<Rightarrow> (\<exists>v t. w = v @ [CR] \<and> coded v t)))"

definition sl_step_ok :: "nat \<Rightarrow> u_char list \<Rightarrow> sl_verdict \<Rightarrow> bool" where
  "sl_step_ok p0 w v \<longleftrightarrow> (case v of
     Next l rs \<Rightarrow> sl_inv p0 w l rs
   | Done rc rs \<Rightarrow> status_line_fields p0 w rs
   | Reject rc rs \<Rightarrow> rc \<noteq> NGX_OK)"

lemma digit_word:
  fixes c :: u_char and x :: u_int64
  assumes "is_digit c" "unat x < 1000"
  shows "unat (x * 10 + (ucast c - 48)) = unat x * 10 + (unat c - 48)"
proof -
  have c: "48 \<le> unat c" "unat c \<le> 57" using assms by (simp_all add: is_digit_def word_le_nat_alt)
  have uc: "unat (ucast c :: u_int64) = unat c"
    by (simp add: unsigned_ucast_eq take_bit_nat_eq_self_iff less_trans [OF unat_byte_less])
  have "unat (ucast c - 48 :: u_int64) = unat c - 48"
    using c uc by (simp add: unat_sub word_le_nat_alt)
  moreover have "unat (x * 10) = unat x * 10"
    using assms(2) unat_mult_lem [of x 10] by simp
  moreover have "unat x * 10 + (unat c - 48) < 2 ^ 64" using assms(2) c by simp
  ultimately show ?thesis using unat_add_lem [of "x * 10" "ucast c - 48"] by simp
qed

lemma version_number_first: "is_digit c \<Longrightarrow> version_number [c] (unat c - 48)"
  by (auto simp: version_number_def is_digit_def word_le_nat_alt)

lemma version_number_snoc:
  "version_number ds n \<Longrightarrow> is_digit c \<Longrightarrow> \<not> n > 99 \<Longrightarrow> version_number (ds @ [c]) (n * 10 + (unat c - 48)) \<and> hd (ds @ [c]) = hd ds"
  by (auto simp: version_number_def is_digit_def word_le_nat_alt)

lemma version_number_16: "version_number ds n \<Longrightarrow> bits16 n = n"
  by (simp add: version_number_def bits16_def)

lemma code_text_space: "code_text s n k \<Longrightarrow> code_text (s @ [ch CHR '' '']) n k"
  by (auto simp: code_text_def is_digit_def)

lemma code_text_digit: "code_text s n k \<Longrightarrow> is_digit c \<Longrightarrow> code_text (s @ [c]) (n + 1) (k * 10 + (unat c - 48))"
  by (auto simp: code_text_def)

lemma dec_nat_bound: "list_all is_digit ds \<Longrightarrow> dec_nat ds < 10 ^ length ds"
proof (induction ds rule: rev_induct)
  case (snoc c ds)
  have "unat c - 48 < 10" using snoc.prems by (auto simp: is_digit_def word_le_nat_alt)
  then show ?case using snoc by simp
qed simp

lemma code_text_small: "code_text s n k \<Longrightarrow> n < 3 \<Longrightarrow> k < 100"
proof -
  assume c: "code_text s n k" "n < 3"
  have "list_all is_digit (filter is_digit s)" by (simp add: list_all_iff)
  from dec_nat_bound [OF this] c have "k < 10 ^ n" by (simp add: code_text_def)
  also have "(10 :: nat) ^ n \<le> 10 ^ 2" using c(2) by (intro power_increasing) auto
  finally show ?thesis by simp
qed

lemma sl_inv_status:
  assumes "sl_inv p0 w sl_status (r, status)"
  shows "sl_step_ok p0 (w @ [c]) (sl_do_status (p0 + length w) c (r, status))"
proof -
  from assms obtain x s where i: "s_end status = NULL" "w = x @ s" "line_start x (r_http_major r) (r_http_minor r)"
    "code_text s (unat (s_count status)) (unat (s_code status))" "unat (s_count status) < 3"
    by (auto simp: sl_inv_def Let_def)
  have cnt: "unat (s_count status + 1) = unat (s_count status) + 1"
    using i(5) unat_add_lem [of "s_count status" 1] by simp
  have code: "unat (s_code status * 10 + (ucast c - 48)) = unat (s_code status) * 10 + (unat c - 48)" if "is_digit c"
    using digit_word [OF that, of "s_code status"] code_text_small [OF i(4,5)] by simp
  have three: "s_count status + 1 = 3 \<longleftrightarrow> unat (s_count status) = 2"
    using cnt by (simp add: word_unat_eq_iff)
  consider (space) "c = 0x20" | (digit) "c \<noteq> 0x20" "is_digit c" | (bad) "c \<noteq> 0x20" "\<not> is_digit c" by blast
  then show ?thesis
  proof cases
    case space
    have "\<exists>x' s'. w @ [c] = x' @ s' \<and> line_start x' (r_http_major r) (r_http_minor r) \<and>
        code_text s' (unat (s_count status)) (unat (s_code status))"
      by (rule exI [of _ x], rule exI [of _ "s @ [c]"]) (use i space code_text_space [OF i(4)] in simp)
    then show ?thesis using i space by (simp add: sl_step_ok_def sl_inv_def Let_def)
  next
    case digit
    note t = code_text_digit [OF i(4) digit(2)]
    show ?thesis
    proof (cases "unat (s_count status) = 2")
      case True
      have "line_coded (w @ [c]) [] (length x + length (s @ [c]) - 3) (r_http_major r) (r_http_minor r) (unat (s_code status) * 10 + (unat c - 48))"
        unfolding line_coded_def using i t digit True
        by (intro exI [of _ x] exI [of _ "s @ [c]"]) (simp add: reason_text_def numeral_3_eq_3)
      moreover have l: "2 \<le> length s" using i(4) True length_filter_le [of is_digit s] by (simp add: code_text_def)
      ultimately have "\<exists>j. p0 + (length x + length s) - 2 = p0 + j \<and>
          line_coded (x @ s @ [c]) [] j (r_http_major r) (r_http_minor r) (unat (s_code status) * 10 + (unat c - 48))"
        using i(2) by (intro exI [of _ "length x + length s - 2"]) simp
      then show ?thesis using i digit True code [OF digit(2)] three
        by (auto simp: sl_step_ok_def sl_inv_def Let_def)
    next
      case False
      have "\<exists>x' s'. w @ [c] = x' @ s' \<and> line_start x' (r_http_major r) (r_http_minor r) \<and>
          code_text s' (unat (s_count status + 1)) (unat (s_code status) * 10 + (unat c - 48))"
        by (rule exI [of _ x], rule exI [of _ "s @ [c]"]) (use i t cnt in simp)
      moreover have "unat (s_count status + 1) < 3" using i(5) cnt False by simp
      ultimately show ?thesis using i digit code [OF digit(2)] three False by (simp add: sl_step_ok_def sl_inv_def Let_def)
    qed
  next
    case bad
    then show ?thesis by (simp add: sl_step_ok_def)
  qed
qed

lemma line_coded_snoc:
  "line_coded w t i major minor code \<Longrightarrow> c \<noteq> CR \<Longrightarrow> c \<noteq> LF \<Longrightarrow> t \<noteq> [] \<or> c = ch CHR '' '' \<or> c = ch CHR ''.'' \<Longrightarrow>
     line_coded (w @ [c]) (t @ [c]) i major minor code"
  by (fastforce simp: line_coded_def reason_text_def hd_append)

lemma sl_finish_fields:
  assumes "line_coded v t i (r_http_major r) (r_http_minor r) (unat (s_code status))" "s_count status = 3"
    "s_start status = Some (p0 + i)" "eol = [LF] \<or> eol = [CR, LF]"
    "s_end status = NULL \<and> p = p0 + length v \<or> s_end status = Some (p0 + length v)"
  shows "sl_step_ok p0 (v @ eol) (sl_finish p (r, status))"
  using assms by (auto simp: sl_step_ok_def status_line_fields_def Let_def)

lemma sl_inv_step:
  assumes "sl_inv p0 w l rs"
  shows "sl_step_ok p0 (w @ [c]) (status_line_step m (p0 + length w) c l rs)"
proof (cases rs)
  case rs: (Pair r status)
  note inv = assms [unfolded rs sl_inv_def Let_def]
  show ?thesis
  proof (cases l)
    case sl_status
    then show ?thesis using sl_inv_status assms rs by simp
  next
    case sl_space_after_status
    then obtain i where t: "s_start status = Some (p0 + i)" "s_count status = 3" "s_end status = NULL"
      "line_coded w [] i (r_http_major r) (r_http_minor r) (unat (s_code status))" using inv by auto
    have more: "\<exists>t. t \<noteq> [] \<and> line_coded (w @ [c]) t i (r_http_major r) (r_http_minor r) (unat (s_code status))" if "c = 0x20 \<or> c = 0x2e"
      using line_coded_snoc [OF t(4), of c] that by auto
    show ?thesis using sl_space_after_status t more sl_finish_fields [OF t(4,2,1), of "[LF]"]
      by (auto simp: rs sl_do_space_after_status_def sl_step_ok_def sl_inv_def Let_def simp del: sl_finish.simps)
  next
    case sl_status_text
    then obtain t i where t: "t \<noteq> []" "s_start status = Some (p0 + i)" "s_count status = 3" "s_end status = NULL"
      "line_coded w t i (r_http_major r) (r_http_minor r) (unat (s_code status))" using inv by auto
    then show ?thesis using sl_status_text line_coded_snoc [OF t(5), of c] sl_finish_fields [OF t(5,3,2), of "[LF]"]
      by (auto simp: rs sl_do_status_text_def sl_step_ok_def sl_inv_def Let_def simp del: sl_finish.simps)
  next
    case sl_almost_done
    then obtain v t i where t: "w = v @ [CR]" "s_start status = Some (p0 + i)" "s_count status = 3"
      "line_coded v t i (r_http_major r) (r_http_minor r) (unat (s_code status))" using inv by auto
    have "sl_step_ok p0 (v @ [CR, LF]) (sl_finish (p0 + length w) (r, status\<lparr>s_end := Some (p0 + length v)\<rparr>))"
      using t by (intro sl_finish_fields) auto
    then show ?thesis using sl_almost_done t(1)
      by (auto simp: rs Let_def sl_step_ok_def [of p0 _ "Reject rc rs" for rc rs] simp del: sl_finish.simps)
  next
    case sl_first_major_digit
    have "49 \<le> c \<Longrightarrow> 48 \<le> c" by (rule order_trans [of 48 49]) simp_all
    then show ?thesis using sl_first_major_digit inv version_number_first [of c] version_number_16 [OF version_number_first, of c]
      by (auto simp: rs sl_step_ok_def sl_inv_def Let_def is_digit_def not_less)
  next
    case sl_major_digit
    then obtain ds where ds: "w = bytes ''HTTP/'' @ ds" "version_number ds (r_http_major r)" "hd ds \<noteq> 0x30" using inv by auto
    then show ?thesis using sl_major_digit inv version_number_snoc [OF ds(2), of c]
        version_number_16 [of "ds @ [c]" "r_http_major r * 10 + (unat c - 48)"]
      by (auto simp: rs sl_step_ok_def sl_inv_def Let_def bytes_def)
  next
    case sl_first_minor_digit
    then obtain ds where ds: "w = bytes ''HTTP/'' @ ds @ bytes ''.''" "version_number ds (r_http_major r)" "hd ds \<noteq> 0x30" using inv by auto
    have "\<exists>ds' es. w @ [c] = bytes ''HTTP/'' @ ds' @ bytes ''.'' @ es \<and> version_number ds' (r_http_major r) \<and> hd ds' \<noteq> 0x30 \<and>
        version_number es (unat c - 48)" if "is_digit c"
      by (rule exI [of _ ds], rule exI [of _ "[c]"]) (use ds version_number_first [OF that] in simp)
    then show ?thesis using sl_first_minor_digit inv ds(1) version_number_16 [OF version_number_first, of c]
      by (simp add: rs sl_step_ok_def sl_inv_def Let_def)
  next
    case sl_minor_digit
    then obtain ds es where ds: "w = bytes ''HTTP/'' @ ds @ bytes ''.'' @ es" "version_number ds (r_http_major r)" "hd ds \<noteq> 0x30"
      "version_number es (r_http_minor r)" using inv by auto
    have start: "line_start (w @ [0x20]) (r_http_major r) (r_http_minor r)"
      using ds by (auto simp: line_start_def bytes_def)
    have start: "\<exists>x s. w @ [0x20] = x @ s \<and> line_start x (r_http_major r) (r_http_minor r) \<and> code_text s 0 0"
      by (rule exI [of _ "w @ [0x20]"], rule exI [of _ "[]"]) (use start in \<open>simp add: code_text_def\<close>)
    consider (space) "c = 0x20" | (digit) "c \<noteq> 0x20" "is_digit c" "\<not> r_http_minor r > 99" | (bad) "c \<noteq> 0x20" "\<not> is_digit c \<or> r_http_minor r > 99" by blast
    then show ?thesis
    proof cases
      case space
      then show ?thesis using sl_minor_digit inv start by (simp add: rs sl_step_ok_def sl_inv_def Let_def)
    next
      case digit
      note n = version_number_snoc [OF ds(4) digit(2,3)]
      have "\<exists>ds' es'. w @ [c] = bytes ''HTTP/'' @ ds' @ bytes ''.'' @ es' \<and> version_number ds' (r_http_major r) \<and> hd ds' \<noteq> 0x30 \<and>
          version_number es' (r_http_minor r * 10 + (unat c - 48))"
        by (rule exI [of _ ds], rule exI [of _ "es @ [c]"]) (use ds n in simp)
      then show ?thesis using sl_minor_digit inv digit version_number_16 [OF conjunct1 [OF n]]
        by (simp add: rs sl_step_ok_def sl_inv_def Let_def)
    qed (auto simp: rs sl_minor_digit sl_step_ok_def)
  qed (use inv in \<open>auto simp: rs sl_expect_def sl_step_ok_def sl_inv_def Let_def bytes_def\<close>)
qed

text \<open>
  C14: Soundness of a status line.  An accepted line is \<^verbatim>\<open>HTTP/\<close>, the two numbers of the version with a dot between them, a space, three digits, then a text that
  starts with a space or a dot, and the end of the line.  The version and the code are what these digits denote; \<^verbatim>\<open>start\<close> is two bytes before the third digit, which is
  the first digit unless there are spaces between them, \<^verbatim>\<open>end\<close> is the end of the text, and the position is behind the line feed.
\<close>

theorem ngx_http_parse_status_line_sound:
  assumes "ngx_http_parse_status_line (r, fresh_status) b = (NGX_OK, rs, b')"
    and "b_pos b \<le> length (b_mem b)" "r_state r = 0"
  shows "\<exists>w. b' = b\<lparr>b_pos := b_pos b + length w\<rparr> \<and> take (length w) (drop (b_pos b) (b_mem b)) = w \<and> status_line_fields (b_pos b) w rs"
proof -
  have init: "sl_inv (b_pos b) [] (sl_load (r, fresh_status)) (r, fresh_status)"
    using assms(3) by (simp add: sl_inv_def sl_states_def fresh_status_def)
  have "case status_line_step (b_mem b) (b_pos b + length w) c l rs of
      Next l' rs' \<Rightarrow> sl_inv (b_pos b) (w @ [c]) l' rs' | Done rc rs' \<Rightarrow> status_line_fields (b_pos b) (w @ [c]) rs'
    | Reject rc rs' \<Rightarrow> rc \<noteq> NGX_OK"
    if "sl_inv (b_pos b) w l rs" for w c l rs
    using sl_inv_step [OF that, of c "b_mem b"] by (simp add: sl_step_ok_def)
  from run_parser_text [where I = "sl_inv (b_pos b)" and P = "\<lambda>w rc rs'. status_line_fields (b_pos b) w rs'" and
      Q = "\<lambda>rc. rc \<noteq> NGX_OK", OF assms(1) [unfolded ngx_http_parse_status_line_def] assms(2) init this]
  show ?thesis by auto
qed

definition sample_status :: "u_char list" where
  "sample_status = bytes ''HTTP/1.1 404 Not Found'' @ [CR, LF]"

lemma sample_status_ok:
  "\<exists>rs. ngx_http_parse_status_line (fresh_request, fresh_status) \<lparr>b_mem = sample_status, b_pos = 0\<rparr>
     = (NGX_OK, rs, \<lparr>b_mem = sample_status, b_pos = 24\<rparr>) \<and> s_code (snd rs) = 404"
  by (simp add: ngx_http_parse_status_line_def run_parser_def sl_states_def sample_status_def bytes_def
      fresh_request_fields fresh_status_def sl_do_defs Let_def bits16_def is_digit_def)

theorem ngx_http_parse_status_line_sound_witness:
  "\<exists>rs. ngx_http_parse_status_line (fresh_request, fresh_status) \<lparr>b_mem = sample_status, b_pos = 0\<rparr>
     = (NGX_OK, rs, \<lparr>b_mem = sample_status, b_pos = 24\<rparr>) \<and> status_line_fields 0 sample_status rs"
proof -
  from sample_status_ok obtain rs where
    e: "ngx_http_parse_status_line (fresh_request, fresh_status) \<lparr>b_mem = sample_status, b_pos = 0\<rparr>
     = (NGX_OK, rs, \<lparr>b_mem = sample_status, b_pos = 24\<rparr>)" by blast
  moreover have "take 24 sample_status = sample_status" by (simp add: sample_status_def bytes_def)
  ultimately show ?thesis using ngx_http_parse_status_line_sound [OF e] by (auto simp: fresh_request_def)
qed

text \<open>
  A status line does not depend on how it arrives: feeding the input in any sequence of reads
  gives the result of one call on the whole input.
\<close>

theorem ngx_http_parse_status_line_resumable:
  assumes "b_pos b \<le> length (b_mem b)" "ws \<noteq> []"
  shows "same_result sl_store (feed ngx_http_parse_status_line rs b ws)
    (ngx_http_parse_status_line rs (append_input (concat ws) b))"
proof -
  have "ngx_http_parse_status_line = run_parser status_line_step sl_load sl_store"
    by (simp add: fun_eq_iff ngx_http_parse_status_line_def)
  then show ?thesis using sl.feed_eq_parse [OF assms] by simp
qed

theorem ngx_http_parse_status_line_resumable_witness:
  "same_result sl_store
    (feed ngx_http_parse_status_line (fresh_request, fresh_status) \<lparr>b_mem = [], b_pos = 0\<rparr>
      [bytes ''HTTP/1.1 4'', bytes ''04 Not Found'', [CR], [LF]])
    (ngx_http_parse_status_line (fresh_request, fresh_status) \<lparr>b_mem = sample_status, b_pos = 0\<rparr>)"
  using ngx_http_parse_status_line_resumable [of "\<lparr>b_mem = [], b_pos = 0\<rparr>"
      "[bytes ''HTTP/1.1 4'', bytes ''04 Not Found'', [CR], [LF]]" "(fresh_request, fresh_status)"]
  by (simp add: append_input_def sample_status_def bytes_def)

end
