(* ===== verification/Ngx_Http_Chunked.thy ===== *)
theory Ngx_Http_Chunked
  imports Ngx_Http_Machine
begin

text \<open>
  \<^verbatim>\<open>ngx_http_parse_chunked\<close>.  The switch only reads and writes \<^verbatim>\<open>ctx->size\<close>, which is the memory of
  the machine here; \<open>Reject NGX_OK\<close> is \<^verbatim>\<open>goto data\<close> with \<^verbatim>\<open>rc = NGX_OK\<close>, which leaves the byte unread.
  Sizes are of type \<^verbatim>\<open>off_t\<close>; they are unbounded integers here, and the theorems show that they never
  leave the range of the type.
\<close>

datatype ck_state = ck_chunk_start | ck_chunk_size | ck_chunk_extension
  | ck_chunk_extension_almost_done | ck_chunk_data | ck_after_data | ck_after_data_almost_done
  | ck_last_chunk_extension | ck_last_chunk_extension_almost_done | ck_trailer
  | ck_trailer_almost_done | ck_trailer_header | ck_trailer_header_almost_done

record ngx_http_chunked_t =
  c_state :: ck_state
  c_size :: int
  c_length :: int

definition fresh_chunked :: ngx_http_chunked_t where
  "fresh_chunked = \<lparr>c_state = ck_chunk_start, c_size = 0, c_length = 0\<rparr>"

type_synonym ck_verdict = "(ck_state, int) verdict"

abbreviation (input) ck_invalid :: "int \<Rightarrow> ck_verdict" where
  "ck_invalid \<equiv> Reject NGX_ERROR"

text \<open>The value of a hexadecimal digit, by the two tests each state makes.\<close>

definition hex_digit :: "u_char \<Rightarrow> int option" where
  "hex_digit c =
    (if is_digit c then Some (uint c - 48)
     else let l = c OR 0x20 in
       if ch CHR ''a'' \<le> l \<and> l \<le> ch CHR ''f'' then Some (uint l - 97 + 10) else None)"

definition ck_do_chunk_start :: "u_char \<Rightarrow> int \<Rightarrow> ck_verdict" where
  "ck_do_chunk_start c sz =
    (case hex_digit c of Some d \<Rightarrow> Next ck_chunk_size d | None \<Rightarrow> ck_invalid sz)"

text \<open>The two switches at the end of a chunk size: the size is zero, or it is not.\<close>

definition ck_end_of_size :: "ck_state \<Rightarrow> ck_state \<Rightarrow> ck_state \<Rightarrow> u_char \<Rightarrow> int \<Rightarrow> ck_verdict" where
  "ck_end_of_size on_cr on_lf on_ext c sz =
    (if c = CR then Next on_cr sz
     else if c = LF then Next on_lf sz
     else if c = ch CHR '';'' \<or> c = ch CHR '' '' \<or> c = 9 then Next on_ext sz
     else ck_invalid sz)"

definition ck_do_chunk_size :: "u_char \<Rightarrow> int \<Rightarrow> ck_verdict" where
  "ck_do_chunk_size c sz =
    (if sz > NGX_MAX_OFF_T_VALUE div 16 then ck_invalid sz
     else case hex_digit c of
       Some d \<Rightarrow> Next ck_chunk_size (sz * 16 + d)
     | None \<Rightarrow>
         if sz = 0 then
           ck_end_of_size ck_last_chunk_extension_almost_done ck_trailer ck_last_chunk_extension c sz
         else
           ck_end_of_size ck_chunk_extension_almost_done ck_chunk_data ck_chunk_extension c sz)"

definition ck_skip_line :: "ck_state \<Rightarrow> ck_state \<Rightarrow> ck_state \<Rightarrow> u_char \<Rightarrow> int \<Rightarrow> ck_verdict" where
  "ck_skip_line stay on_cr on_lf c sz =
    (if c = CR then Next on_cr sz else if c = LF then Next on_lf sz else Next stay sz)"

definition ck_expect_lf :: "ck_state \<Rightarrow> u_char \<Rightarrow> int \<Rightarrow> ck_verdict" where
  "ck_expect_lf l c sz = (if c = LF then Next l sz else ck_invalid sz)"

definition ck_do_after_data :: "u_char \<Rightarrow> int \<Rightarrow> ck_verdict" where
  "ck_do_after_data c sz =
    (if c = CR then Next ck_after_data_almost_done sz
     else if c = LF then Next ck_chunk_start sz
     else ck_invalid sz)"

definition ck_do_trailer :: "u_char \<Rightarrow> int \<Rightarrow> ck_verdict" where
  "ck_do_trailer c sz =
    (if c = CR then Next ck_trailer_almost_done sz
     else if c = LF then Done NGX_DONE sz
     else Next ck_trailer_header sz)"

definition ck_do_trailer_almost_done :: "u_char \<Rightarrow> int \<Rightarrow> ck_verdict" where
  "ck_do_trailer_almost_done c sz = (if c = LF then Done NGX_DONE sz else ck_invalid sz)"

fun chunked_step :: "(ck_state, int) stepper" where
  "chunked_step m p c ck_chunk_start sz = ck_do_chunk_start c sz"
| "chunked_step m p c ck_chunk_size sz = ck_do_chunk_size c sz"
| "chunked_step m p c ck_chunk_extension sz =
     ck_skip_line ck_chunk_extension ck_chunk_extension_almost_done ck_chunk_data c sz"
| "chunked_step m p c ck_chunk_extension_almost_done sz = ck_expect_lf ck_chunk_data c sz"
| "chunked_step m p c ck_chunk_data sz = Reject NGX_OK sz"
| "chunked_step m p c ck_after_data sz = ck_do_after_data c sz"
| "chunked_step m p c ck_after_data_almost_done sz = ck_expect_lf ck_chunk_start c sz"
| "chunked_step m p c ck_last_chunk_extension sz =
     ck_skip_line ck_last_chunk_extension ck_last_chunk_extension_almost_done ck_trailer c sz"
| "chunked_step m p c ck_last_chunk_extension_almost_done sz = ck_expect_lf ck_trailer c sz"
| "chunked_step m p c ck_trailer sz = ck_do_trailer c sz"
| "chunked_step m p c ck_trailer_almost_done sz = ck_do_trailer_almost_done c sz"
| "chunked_step m p c ck_trailer_header sz =
     ck_skip_line ck_trailer_header ck_trailer_header_almost_done ck_trailer c sz"
| "chunked_step m p c ck_trailer_header_almost_done sz = ck_expect_lf ck_trailer c sz"

text \<open>The last switch: the least number of bytes that can still follow.\<close>

fun ck_length :: "ck_state \<Rightarrow> int \<Rightarrow> int" where
  "ck_length ck_chunk_start sz = 3"
| "ck_length ck_chunk_size sz = 1 + (if sz \<noteq> 0 then sz + 4 else 1)"
| "ck_length ck_chunk_extension sz = 1 + sz + 4"
| "ck_length ck_chunk_extension_almost_done sz = 1 + sz + 4"
| "ck_length ck_chunk_data sz = sz + 4"
| "ck_length ck_after_data sz = 4"
| "ck_length ck_after_data_almost_done sz = 4"
| "ck_length ck_last_chunk_extension sz = 2"
| "ck_length ck_last_chunk_extension_almost_done sz = 2"
| "ck_length ck_trailer sz = 1"
| "ck_length ck_trailer_almost_done sz = 1"
| "ck_length ck_trailer_header sz = 2"
| "ck_length ck_trailer_header_almost_done sz = 2"

text \<open>The label \<^verbatim>\<open>data\<close>, reached with the local state \<open>l\<close> at byte \<open>p\<close>.\<close>

definition ck_data :: "int \<Rightarrow> ck_state \<Rightarrow> int \<Rightarrow> nat \<Rightarrow> ngx_http_chunked_t \<Rightarrow> ngx_buf_t
    \<Rightarrow> int \<times> ngx_http_chunked_t \<times> ngx_buf_t" where
  "ck_data rc l sz p ctx b =
    (let ctx = ctx\<lparr>c_state := l, c_size := sz\<rparr>; b = b\<lparr>b_pos := p\<rparr> in
     if sz > NGX_MAX_OFF_T_VALUE - 5 then (NGX_ERROR, ctx, b)
     else (rc, ctx\<lparr>c_length := ck_length l sz\<rparr>, b))"

definition ck_enter :: "ngx_http_chunked_t \<Rightarrow> ck_state" where
  "ck_enter ctx =
     (if c_state ctx = ck_chunk_data \<and> c_size ctx = 0 then ck_after_data else c_state ctx)"

definition ngx_http_parse_chunked ::
    "ngx_http_chunked_t \<Rightarrow> ngx_buf_t \<Rightarrow> int \<times> ngx_http_chunked_t \<times> ngx_buf_t" where
  "ngx_http_parse_chunked ctx b =
    (case scan chunked_step (b_mem b) (b_pos b) (drop (b_pos b) (b_mem b)) (ck_enter ctx) (c_size ctx) of
       (Next l sz, p) \<Rightarrow> ck_data NGX_AGAIN l sz p ctx b
     | (Done rc sz, p) \<Rightarrow> (rc, ctx\<lparr>c_state := ck_chunk_start, c_size := sz\<rparr>, b\<lparr>b_pos := p + 1\<rparr>)
     | (Reject rc sz, p) \<Rightarrow>
         if rc = NGX_OK then ck_data NGX_OK ck_chunk_data sz p ctx b
         else (rc, ctx\<lparr>c_size := sz\<rparr>, b))"

section \<open>Hexadecimal digits\<close>

lemma hex_digit_range: "hex_digit c = Some d \<Longrightarrow> 0 \<le> d \<and> d < 16"
  by (auto simp: hex_digit_def is_digit_def Let_def word_le_def split: if_splits)

lemma hex_digit_not_ctl: "hex_digit c = Some d \<Longrightarrow> c \<noteq> 13 \<and> c \<noteq> 10"
  by (auto simp: hex_digit_def is_digit_def Let_def split: if_splits)

lemma hex_digit_ctl [simp]: "hex_digit 13 = None" "hex_digit 10 = None"
  by (simp_all add: hex_digit_def is_digit_def)

section \<open>Sizes stay in the range of the type\<close>

text \<open>
  The size is between 0 and \<^verbatim>\<open>NGX_MAX_OFF_T_VALUE\<close>; between the end of a chunk size and the end of
  the data it is positive, and outside a chunk it is 0.  Between two calls the caller may have taken all
  of the data, which leaves the state at the data with size 0.
\<close>

definition ck_positive :: "ck_state \<Rightarrow> bool" where
  "ck_positive l \<longleftrightarrow> l \<in> {ck_chunk_extension, ck_chunk_extension_almost_done, ck_chunk_data}"

definition ck_inv :: "ck_state \<Rightarrow> int \<Rightarrow> bool" where
  "ck_inv l sz \<longleftrightarrow> 0 \<le> sz \<and> sz \<le> NGX_MAX_OFF_T_VALUE \<and> (ck_positive l \<longrightarrow> 0 < sz)
     \<and> (\<not> ck_positive l \<and> l \<noteq> ck_chunk_size \<longrightarrow> sz = 0)"

definition chunked_ok :: "ngx_http_chunked_t \<Rightarrow> bool" where
  "chunked_ok ctx \<longleftrightarrow> ck_inv (ck_enter ctx) (c_size ctx)"

lemmas ck_do_defs = ck_do_chunk_start_def ck_do_chunk_size_def ck_end_of_size_def ck_skip_line_def
  ck_expect_lf_def ck_do_after_data_def ck_do_trailer_def ck_do_trailer_almost_done_def

lemma ck_size_step:
  assumes "0 \<le> sz" "\<not> sz > NGX_MAX_OFF_T_VALUE div 16" "hex_digit c = Some d"
  shows "0 \<le> sz * 16 + d \<and> sz * 16 + d \<le> NGX_MAX_OFF_T_VALUE"
  using assms hex_digit_range [OF assms(3)] by (simp add: NGX_MAX_OFF_T_VALUE_def)

definition ck_step_ok :: "ck_verdict \<Rightarrow> bool" where
  "ck_step_ok v \<longleftrightarrow> (case v of Next l sz \<Rightarrow> ck_inv l sz
     | Done rc sz \<Rightarrow> rc = NGX_DONE \<and> sz = 0
     | Reject rc sz \<Rightarrow> 0 \<le> sz \<and> sz \<le> NGX_MAX_OFF_T_VALUE
         \<and> (rc = NGX_OK \<and> ck_inv ck_chunk_data sz \<or> rc = NGX_ERROR))"

lemma ck_inv_step: "ck_inv l sz \<Longrightarrow> ck_step_ok (chunked_step m p c l sz)"
proof (cases l)
  case ck_chunk_start
  then show "ck_inv l sz \<Longrightarrow> ?thesis"
    using hex_digit_range [of c]
    by (auto simp: ck_do_chunk_start_def ck_step_ok_def ck_inv_def ck_positive_def NGX_MAX_OFF_T_VALUE_def
        split: option.split)
next
  case ck_chunk_size
  then show "ck_inv l sz \<Longrightarrow> ?thesis"
    using ck_size_step [of sz c]
    by (auto simp: ck_do_chunk_size_def ck_end_of_size_def ck_step_ok_def ck_inv_def ck_positive_def
        split: option.split)
qed (auto simp: ck_do_defs ck_step_ok_def ck_inv_def ck_positive_def)

lemma ck_scan_inv: "ck_inv l sz \<Longrightarrow> scan chunked_step m p w l sz = (v, q) \<Longrightarrow> ck_step_ok v"
proof (induction w arbitrary: p l sz)
  case Nil
  then show ?case by (auto simp: ck_step_ok_def)
next
  case (Cons c w)
  then show ?case using ck_inv_step [of l sz m p c]
    by (cases "chunked_step m p c l sz") (auto simp: ck_step_ok_def)
qed

lemma ck_enter_inv: "ck_inv l sz \<Longrightarrow> ck_enter (ctx\<lparr>c_state := l, c_size := sz, c_length := n\<rparr>) = l"
  "ck_inv l sz \<Longrightarrow> ck_enter (ctx\<lparr>c_state := l, c_size := sz\<rparr>) = l"
  by (auto simp: ck_enter_def ck_inv_def ck_positive_def)

lemma ck_length_range:
  "ck_inv l sz \<Longrightarrow> sz \<le> NGX_MAX_OFF_T_VALUE - 5 \<Longrightarrow> 0 < ck_length l sz \<and> ck_length l sz \<le> NGX_MAX_OFF_T_VALUE"
  by (cases l) (auto simp: ck_inv_def NGX_MAX_OFF_T_VALUE_def)

text \<open>What holds after a call, by return code.\<close>

definition chunked_result :: "nat \<Rightarrow> int \<times> ngx_http_chunked_t \<times> ngx_buf_t \<Rightarrow> bool" where
  "chunked_result n x \<longleftrightarrow> (case x of (rc, ctx, b) \<Rightarrow>
     0 \<le> c_size ctx \<and> c_size ctx \<le> NGX_MAX_OFF_T_VALUE \<and> b_pos b \<le> n
     \<and> (if rc = NGX_OK then chunked_ok ctx \<and> c_state ctx = ck_chunk_data \<and> 0 < c_size ctx \<and> b_pos b < n
          \<and> c_length ctx = ck_length (c_state ctx) (c_size ctx) \<and> 0 < c_length ctx
          \<and> c_length ctx \<le> NGX_MAX_OFF_T_VALUE
        else if rc = NGX_AGAIN then chunked_ok ctx \<and> b_pos b = n
          \<and> c_length ctx = ck_length (c_state ctx) (c_size ctx) \<and> 0 < c_length ctx
          \<and> c_length ctx \<le> NGX_MAX_OFF_T_VALUE
        else if rc = NGX_DONE then chunked_ok ctx \<and> c_state ctx = ck_chunk_start \<and> c_size ctx = 0
        else rc = NGX_ERROR))"

lemma ck_data_result:
  assumes "ck_inv l sz" "p \<le> n" "rc = NGX_OK \<and> l = ck_chunk_data \<and> p < n \<or> rc = NGX_AGAIN \<and> p = n"
  shows "chunked_result n (ck_data rc l sz p ctx b)"
proof (cases "sz > NGX_MAX_OFF_T_VALUE - 5")
  case True
  then show ?thesis using assms by (simp add: ck_data_def chunked_result_def ck_inv_def)
next
  case False
  then show ?thesis using assms ck_length_range [OF assms(1)]
    by (auto simp: ck_data_def chunked_result_def chunked_ok_def ck_enter_inv)
      (auto simp: ck_inv_def ck_positive_def)
qed

lemma parse_chunked_result:
  assumes "chunked_ok ctx" "b_pos b \<le> length (b_mem b)"
  shows "chunked_result (length (b_mem b)) (ngx_http_parse_chunked ctx b)"
proof -
  let ?m = "b_mem b" and ?p = "b_pos b"
  obtain v q where s: "scan chunked_step ?m ?p (drop ?p ?m) (ck_enter ctx) (c_size ctx) = (v, q)"
    by fastforce
  have v: "ck_step_ok v" using assms(1) ck_scan_inv s by (auto simp: chunked_ok_def)
  show ?thesis
  proof (cases v)
    case (Next l sz)
    with scan_Next_pos s assms(2) have "q = length ?m" by fastforce
    with Next v s ck_data_result [of l sz q "length ?m" NGX_AGAIN] show ?thesis
      by (simp add: ngx_http_parse_chunked_def ck_step_ok_def)
  next
    case (Done rc sz)
    with scan_Stop_pos [OF s] have "q < length ?m" using assms(2) by auto
    with Done v s show ?thesis
      by (simp add: ngx_http_parse_chunked_def ck_step_ok_def chunked_result_def chunked_ok_def
          ck_enter_def ck_inv_def ck_positive_def NGX_MAX_OFF_T_VALUE_def)
  next
    case (Reject rc sz)
    with scan_Stop_pos [OF s] have "q < length ?m" using assms(2) by auto
    moreover from v Reject have "rc = NGX_OK \<and> ck_inv ck_chunk_data sz \<or> rc = NGX_ERROR"
      "0 \<le> sz" "sz \<le> NGX_MAX_OFF_T_VALUE" by (auto simp: ck_step_ok_def)
    ultimately show ?thesis
      using Reject s assms(2) ck_data_result [of ck_chunk_data sz q "length ?m" NGX_OK ctx b]
      by (elim disjE conjE) (simp_all add: ngx_http_parse_chunked_def chunked_result_def)
  qed
qed

section \<open>The promised length\<close>

text \<open>
  The rest of a chunked body as a language: \<open>completes l sz w\<close> when the bytes \<open>w\<close>, chunk data included,
  take the machine from state \<open>l\<close> with \<open>sz\<close> bytes of data outstanding exactly to the end of the body.
\<close>

fun completes :: "ck_state \<Rightarrow> int \<Rightarrow> u_char list \<Rightarrow> bool" where
  "completes l sz [] \<longleftrightarrow> False"
| "completes l sz (c # w) \<longleftrightarrow>
    (if l = ck_chunk_data \<and> sz \<noteq> 0 then completes ck_chunk_data (sz - 1) w
     else case chunked_step [] 0 c (if l = ck_chunk_data then ck_after_data else l) sz of
       Next l' sz' \<Rightarrow> completes l' sz' w
     | Done rc sz' \<Rightarrow> w = []
     | Reject rc sz' \<Rightarrow> False)"

lemma chunked_step_indep: "chunked_step m p c l sz = chunked_step [] 0 c l sz"
  by (cases l) simp_all

definition body_ok :: "ck_state \<Rightarrow> int \<Rightarrow> bool" where
  "body_ok l sz \<longleftrightarrow> ck_inv (if l = ck_chunk_data \<and> sz = 0 then ck_after_data else l) sz"

lemma ck_length_step:
  assumes "ck_inv l sz" "l \<noteq> ck_chunk_data" "chunked_step m p c l sz = Next l' sz'"
  shows "ck_length l sz \<le> ck_length l' sz' + 1"
  using assms hex_digit_range [of c]
  by (cases l) (auto simp: ck_do_defs ck_inv_def ck_positive_def split: if_splits option.splits)

lemma ck_length_done: "chunked_step m p c l sz = Done rc sz' \<Longrightarrow> ck_length l sz = 1"
  by (cases l) (auto simp: ck_do_defs split: if_splits option.splits)

lemma completes_length: "body_ok l sz \<Longrightarrow> completes l sz w \<Longrightarrow> ck_length l sz \<le> int (length w)"
proof (induction w arbitrary: l sz)
  case (Cons c w)
  show ?case
  proof (cases "l = ck_chunk_data \<and> sz \<noteq> 0")
    case True
    then have "body_ok ck_chunk_data (sz - 1)" "completes ck_chunk_data (sz - 1) w"
      using Cons.prems by (auto simp: body_ok_def ck_inv_def ck_positive_def)
    from Cons.IH [OF this] True show ?thesis by simp
  next
    case False
    let ?l = "if l = ck_chunk_data then ck_after_data else l"
    have inv: "ck_inv ?l sz" "?l \<noteq> ck_chunk_data" using Cons.prems(1) False by (auto simp: body_ok_def)
    have len: "ck_length l sz = ck_length ?l sz" using False by simp
    note rest = Cons.prems(2) [unfolded completes.simps if_not_P [OF False]]
    show ?thesis
    proof (cases "chunked_step [] 0 c ?l sz")
      case (Next l' sz')
      have "completes l' sz' w" using rest unfolding Next by simp
      moreover have "ck_inv l' sz'" using ck_inv_step [OF inv(1), of "[]" 0 c] Next
        by (simp add: ck_step_ok_def)
      then have "body_ok l' sz'" by (auto simp: body_ok_def ck_inv_def ck_positive_def)
      ultimately have "ck_length l' sz' \<le> int (length w)" by (intro Cons.IH)
      then show ?thesis using ck_length_step [OF inv Next] unfolding len by simp
    next
      case (Done rc sz')
      from ck_length_done [OF this] show ?thesis unfolding len by simp
    next
      case (Reject rc sz')
      show ?thesis using rest unfolding Reject by simp
    qed
  qed
qed simp

text \<open>The bound is attained: data bytes, and bare line feeds after them.\<close>

definition finish_from_start :: "u_char list" where
  "finish_from_start = [0x30, LF, LF]"

lemma completes_start: "completes ck_chunk_start sz finish_from_start"
  by (simp add: finish_from_start_def ck_do_chunk_start_def hex_digit_def is_digit_def ck_do_chunk_size_def
      ck_end_of_size_def ck_do_trailer_def NGX_MAX_OFF_T_VALUE_def)

lemma completes_data:
  "completes ck_chunk_data (int n) (replicate n 0 @ LF # finish_from_start)"
  by (induction n) (simp_all add: ck_do_after_data_def completes_start)

lemma completes_tight:
  assumes "body_ok l sz" "l = ck_chunk_size \<longrightarrow> sz \<le> NGX_MAX_OFF_T_VALUE div 16"
  shows "\<exists>w. completes l sz w \<and> int (length w) = ck_length l sz"
proof -
  let ?d = "replicate (nat sz) 0 @ LF # finish_from_start"
  have d: "0 \<le> sz \<Longrightarrow> completes ck_chunk_data sz ?d" using completes_data [of "nat sz"] by simp
  have len: "0 \<le> sz \<Longrightarrow> int (length ?d) = sz + 4" by (simp add: finish_from_start_def)
  have nn: "0 \<le> sz" "sz \<le> NGX_MAX_OFF_T_VALUE" using assms(1) by (auto simp: body_ok_def ck_inv_def)
  show ?thesis
  proof (cases l)
    case ck_chunk_size
    then show ?thesis using assms(2) d len nn
      by (cases "sz = 0")
        (auto simp: ck_do_chunk_size_def ck_end_of_size_def ck_do_trailer_def
          intro: exI [of _ "[LF, LF]"] exI [of _ "LF # ?d"])
  qed (use d len nn completes_start in
    \<open>auto simp: ck_do_defs finish_from_start_def intro: exI [of _ "LF # ?d"] exI [of _ "?d"]
      exI [of _ "LF # finish_from_start"] exI [of _ "[LF, LF]"] exI [of _ "[LF]"]
      exI [of _ finish_from_start]\<close>)
qed

section \<open>Chunk sizes\<close>

text \<open>The value of a string of hexadecimal digits.\<close>

definition is_hex :: "u_char \<Rightarrow> bool" where
  "is_hex c \<longleftrightarrow> hex_digit c \<noteq> None"

fun hex_value :: "int \<Rightarrow> u_char list \<Rightarrow> int" where
  "hex_value v [] = v"
| "hex_value v (c # w) = hex_value (v * 16 + the (hex_digit c)) w"

lemma hex_value_mono: "0 \<le> v \<Longrightarrow> \<forall>c \<in> set w. is_hex c \<Longrightarrow> v \<le> hex_value v w"
proof (induction w arbitrary: v)
  case (Cons c w)
  then obtain d where d: "hex_digit c = Some d" by (auto simp: is_hex_def)
  with hex_digit_range Cons.prems have "v \<le> v * 16 + d" "0 \<le> v * 16 + d" by fastforce+
  moreover have "v * 16 + d \<le> hex_value (v * 16 + d) w" using Cons calculation by simp
  ultimately show ?case using d by simp
qed simp

lemma scan_hex:
  "0 \<le> v \<Longrightarrow> \<forall>c \<in> set w. is_hex c \<Longrightarrow> hex_value v w \<le> NGX_MAX_OFF_T_VALUE \<Longrightarrow>
     scan chunked_step m p w ck_chunk_size v = (Next ck_chunk_size (hex_value v w), p + length w)"
proof (induction w arbitrary: v p)
  case (Cons c w)
  then obtain d where d: "hex_digit c = Some d" by (auto simp: is_hex_def)
  have nn: "0 \<le> v * 16 + d" using hex_digit_range [OF d] Cons.prems(1) by simp
  have "v * 16 + d \<le> NGX_MAX_OFF_T_VALUE"
    using hex_value_mono [OF nn, of w] Cons.prems d by simp
  then have "\<not> v > NGX_MAX_OFF_T_VALUE div 16"
    using hex_digit_range [OF d] by (simp add: NGX_MAX_OFF_T_VALUE_def)
  then show ?case using Cons.IH [OF nn] Cons.prems d by (simp add: ck_do_chunk_size_def)
qed simp

lemma scan_chunk_header:
  assumes "hx \<noteq> []" "\<forall>c \<in> set hx. is_hex c" "hex_value 0 hx \<le> NGX_MAX_OFF_T_VALUE div 16"
  shows "scan chunked_step m p (hx @ [CR, LF]) ck_chunk_start sz =
    (Next (if hex_value 0 hx = 0 then ck_trailer else ck_chunk_data) (hex_value 0 hx), p + length hx + 2)"
proof -
  from assms(1) obtain c w where hx: "hx = c # w" by (cases hx) auto
  with assms(2) obtain d where d: "hex_digit c = Some d" by (auto simp: is_hex_def)
  have "0 \<le> d" using hex_digit_range [OF d] by simp
  moreover have "hex_value d w \<le> NGX_MAX_OFF_T_VALUE"
    using assms(3) hx d by (simp add: NGX_MAX_OFF_T_VALUE_def)
  ultimately have "scan chunked_step m p hx ck_chunk_start sz =
      (Next ck_chunk_size (hex_value 0 hx), p + length hx)"
    using scan_hex [of d w m "p + 1"] assms(2) hx d by (simp add: ck_do_chunk_start_def)
  then show ?thesis using assms(3)
    by (simp add: scan_append ck_do_chunk_size_def ck_end_of_size_def ck_expect_lf_def)
qed

section \<open>Reads\<close>

text \<open>
  A size that is too large for the length to be computed is reported at the end of the input at hand; had
  more input been there, the parser would have failed on it.
\<close>

lemma scan_too_large:
  assumes "sz > NGX_MAX_OFF_T_VALUE - 5" "ck_inv l sz" "scan chunked_step m p w l sz = (v, q)"
  shows "(\<exists>l'. v = Next l' sz) \<or> v = Reject NGX_OK sz \<or> v = Reject NGX_ERROR sz"
  using assms(2,3)
proof (induction w arbitrary: l p)
  case (Cons c w)
  have big: "sz > NGX_MAX_OFF_T_VALUE div 16" "sz \<noteq> 0"
    using assms(1) by (simp_all add: NGX_MAX_OFF_T_VALUE_def)
  with Cons.prems(1) have "ck_positive l \<or> l = ck_chunk_size" by (auto simp: ck_inv_def)
  then have st: "case chunked_step m p c l sz of Next l' z \<Rightarrow> z = sz \<and> ck_inv l' sz
      | Done rc z \<Rightarrow> False | Reject rc z \<Rightarrow> z = sz \<and> (rc = NGX_OK \<or> rc = NGX_ERROR)"
    using big Cons.prems(1)
    by (cases l) (simp_all add: ck_positive_def ck_do_chunk_size_def ck_skip_line_def ck_expect_lf_def
        ck_inv_def)
  show ?case
  proof (cases "chunked_step m p c l sz")
    case (Next l' z)
    with st Cons.prems(2) have "ck_inv l' sz" "scan chunked_step m (p + 1) w l' sz = (v, q)" by auto
    from Cons.IH [OF this] show ?thesis .
  qed (use st Cons.prems(2) in auto)
qed auto

definition same_chunked :: "int \<times> ngx_http_chunked_t \<times> ngx_buf_t \<Rightarrow> int \<times> ngx_http_chunked_t \<times> ngx_buf_t \<Rightarrow> bool" where
  "same_chunked x y \<longleftrightarrow> fst x = fst y
     \<and> (fst x \<in> {NGX_OK, NGX_AGAIN} \<longrightarrow> fst (snd x) = fst (snd y))
     \<and> (fst x \<in> {NGX_OK, NGX_AGAIN, NGX_DONE} \<longrightarrow>
          c_state (fst (snd x)) = c_state (fst (snd y)) \<and> c_size (fst (snd x)) = c_size (fst (snd y))
          \<and> b_pos (snd (snd x)) = b_pos (snd (snd y)))"

lemma same_chunked_refl: "same_chunked x x"
  by (simp add: same_chunked_def)

lemma same_chunked_trans: "same_chunked x y \<Longrightarrow> same_chunked y z \<Longrightarrow> same_chunked x z"
  by (auto simp: same_chunked_def)

lemma chunked_scan_local: "scan chunked_step (m @ w) p xs l sz = scan chunked_step m p xs l sz"
  by (induction xs arbitrary: p l sz)
    (auto simp: chunked_step_indep [of "m @ w"] chunked_step_indep [of m] split: verdict.split)

lemma parse_chunked_split:
  assumes "chunked_ok ctx" "b_pos b \<le> length (b_mem b)"
    and e: "ngx_http_parse_chunked ctx b = (rc, ctx', b')"
  shows "same_chunked
    (if rc = NGX_AGAIN then ngx_http_parse_chunked ctx' (append_input w b') else (rc, ctx', b'))
    (ngx_http_parse_chunked ctx (append_input w b))"
proof -
  let ?m = "b_mem b" and ?p = "b_pos b"
  obtain v q where s: "scan chunked_step ?m ?p (drop ?p ?m) (ck_enter ctx) (c_size ctx) = (v, q)"
    by fastforce
  have whole: "scan chunked_step (?m @ w) ?p (drop ?p (?m @ w)) (ck_enter ctx) (c_size ctx) =
      (case (v, q) of (Next l sz, q) \<Rightarrow> scan chunked_step (?m @ w) q w l sz | x \<Rightarrow> x)"
    using assms(2) by (simp add: scan_append chunked_scan_local s)
  have ok: "ck_step_ok v" using assms(1) ck_scan_inv s by (auto simp: chunked_ok_def)
  show ?thesis
  proof (cases v)
    case (Next l sz)
    with scan_Next_pos s assms(2) have q: "q = length ?m" by fastforce
    have inv: "ck_inv l sz" using ok Next by (simp add: ck_step_ok_def)
    obtain v2 q2 where s2: "scan chunked_step (?m @ w) (length ?m) w l sz = (v2, q2)" by fastforce
    have one: "ngx_http_parse_chunked ctx (append_input w b) = (case v2 of
         Next l' sz' \<Rightarrow> ck_data NGX_AGAIN l' sz' q2 ctx (append_input w b)
       | Done rc sz' \<Rightarrow> (rc, ctx\<lparr>c_state := ck_chunk_start, c_size := sz'\<rparr>, (append_input w b)\<lparr>b_pos := q2 + 1\<rparr>)
       | Reject rc sz' \<Rightarrow> if rc = NGX_OK then ck_data NGX_OK ck_chunk_data sz' q2 ctx (append_input w b)
           else (rc, ctx\<lparr>c_size := sz'\<rparr>, append_input w b))"
      using whole Next q s2
      by (simp add: ngx_http_parse_chunked_def append_input_def split: verdict.split)
    show ?thesis
    proof (cases "sz > NGX_MAX_OFF_T_VALUE - 5")
      case True
      then have "rc = NGX_ERROR" using e s Next by (simp add: ngx_http_parse_chunked_def ck_data_def)
      with scan_too_large [OF True inv s2] one True show ?thesis
        by (auto simp: same_chunked_def ck_data_def)
    next
      case False
      then have e': "rc = NGX_AGAIN" "ctx' = ctx\<lparr>c_state := l, c_size := sz, c_length := ck_length l sz\<rparr>"
        "b' = b\<lparr>b_pos := length ?m\<rparr>"
        using e s Next q by (auto simp: ngx_http_parse_chunked_def ck_data_def)
      have two: "ngx_http_parse_chunked ctx' (append_input w b') = (case v2 of
         Next l' sz' \<Rightarrow> ck_data NGX_AGAIN l' sz' q2 ctx' (append_input w b')
       | Done rc sz' \<Rightarrow> (rc, ctx'\<lparr>c_state := ck_chunk_start, c_size := sz'\<rparr>, (append_input w b')\<lparr>b_pos := q2 + 1\<rparr>)
       | Reject rc sz' \<Rightarrow> if rc = NGX_OK then ck_data NGX_OK ck_chunk_data sz' q2 ctx' (append_input w b')
           else (rc, ctx'\<lparr>c_size := sz'\<rparr>, append_input w b'))"
        using s2 ck_enter_inv(1) [OF inv, where ctx = ctx and n = "ck_length l sz"] unfolding e'(2,3)
        by (simp add: ngx_http_parse_chunked_def append_input_def split: verdict.split)
      have "ck_step_ok v2" using ck_scan_inv [OF inv s2] .
      then show ?thesis unfolding one two e'(1) using e'(2)
        by (auto simp: same_chunked_def ck_data_def Let_def ck_step_ok_def split: verdict.splits)
    qed
  next
    case (Done rc' sz)
    then show ?thesis using e s whole ok
      by (auto simp: ngx_http_parse_chunked_def append_input_def same_chunked_def ck_step_ok_def)
  next
    case (Reject rc' sz)
    then have "rc \<noteq> NGX_AGAIN" using e s ok
      by (auto simp: ngx_http_parse_chunked_def ck_data_def Let_def ck_step_ok_def split: if_splits)
    then show ?thesis using Reject e s whole
      by (auto simp: ngx_http_parse_chunked_def append_input_def same_chunked_def ck_data_def Let_def)
  qed
qed

lemma feed_chunked:
  assumes "chunked_ok ctx" "b_pos b \<le> length (b_mem b)" "ws \<noteq> []"
  shows "same_chunked (feed ngx_http_parse_chunked ctx b ws)
    (ngx_http_parse_chunked ctx (append_input (concat ws) b))"
  using assms
proof (induction ws arbitrary: ctx b)
  case (Cons w ws)
  obtain rc ctx' b' where e: "ngx_http_parse_chunked ctx (append_input w b) = (rc, ctx', b')"
    by (metis prod_cases3)
  have le: "b_pos (append_input w b) \<le> length (b_mem (append_input w b))"
    using Cons.prems(2) by (simp add: append_input_def)
  note res = parse_chunked_result [OF Cons.prems(1) le, unfolded e]
  have mem: "b_mem b' = b_mem (append_input w b)" using e
    by (auto simp: ngx_http_parse_chunked_def ck_data_def Let_def split: prod.splits verdict.splits if_splits)
  have app: "append_input (concat ws) (append_input w b) = append_input (concat (w # ws)) b"
    by (simp add: append_input_def)
  note split = parse_chunked_split [OF Cons.prems(1) le e, of "concat ws", unfolded app]
  show ?case
  proof (cases "rc = NGX_AGAIN \<and> ws \<noteq> []")
    case True
    with res mem have "chunked_ok ctx'" "b_pos b' \<le> length (b_mem b')"
      by (auto simp: chunked_result_def)
    with Cons.IH True have "same_chunked (feed ngx_http_parse_chunked ctx' b' ws)
        (ngx_http_parse_chunked ctx' (append_input (concat ws) b'))" by blast
    with split True show ?thesis by (auto simp: e intro: same_chunked_trans)
  next
    case False
    then show ?thesis using split e by (cases ws) (auto simp: same_chunked_refl)
  qed
qed simp

section \<open>Properties\<close>

text \<open>
  C10: The chunked parser keeps its sizes in the range of \<^verbatim>\<open>off_t\<close>.  From any consistent context, on any
  input, the size stays between 0 and \<^verbatim>\<open>NGX_MAX_OFF_T_VALUE\<close> and the position inside the buffer; the
  return code is one of four; \<^verbatim>\<open>NGX_OK\<close> comes with a positive size and unread input; \<^verbatim>\<open>NGX_AGAIN\<close> with
  all input read; in both cases the length is positive, in range and the one of the state; and \<^verbatim>\<open>NGX_DONE\<close>
  leaves the context ready for the next body.
\<close>

theorem ngx_http_parse_chunked_in_range:
  assumes "chunked_ok ctx" "b_pos b \<le> length (b_mem b)"
  shows "chunked_result (length (b_mem b)) (ngx_http_parse_chunked ctx b)"
  using assms by (rule parse_chunked_result)

lemma fresh_chunked_ok: "chunked_ok fresh_chunked"
  by (simp add: chunked_ok_def fresh_chunked_def ck_enter_def ck_inv_def ck_positive_def
      NGX_MAX_OFF_T_VALUE_def)

definition sample_chunk :: "u_char list" where
  "sample_chunk = bytes ''7fffffffffffffff'' @ [CR, LF, 0]"

theorem ngx_http_parse_chunked_in_range_witness:
  "chunked_result (length sample_chunk)
     (ngx_http_parse_chunked fresh_chunked \<lparr>b_mem = sample_chunk, b_pos = 0\<rparr>)"
  using ngx_http_parse_chunked_in_range [OF fresh_chunked_ok, of "\<lparr>b_mem = sample_chunk, b_pos = 0\<rparr>"]
  by simp

text \<open>
  The length the chunked parser reports is the least number of bytes that can complete the body: no
  completion of the body from the state reached is shorter, and one of exactly this length exists
  (unless the size read so far already exceeds what a chunk size may be).
\<close>

theorem ngx_http_parse_chunked_length_exact:
  assumes "chunked_ok ctx" "b_pos b \<le> length (b_mem b)"
    and "ngx_http_parse_chunked ctx b = (rc, ctx', b')" "rc = NGX_OK \<or> rc = NGX_AGAIN"
  shows "(\<forall>w. completes (c_state ctx') (c_size ctx') w \<longrightarrow> c_length ctx' \<le> int (length w))
    \<and> (c_state ctx' \<noteq> ck_chunk_size \<or> c_size ctx' \<le> NGX_MAX_OFF_T_VALUE div 16 \<longrightarrow>
        (\<exists>w. completes (c_state ctx') (c_size ctx') w \<and> int (length w) = c_length ctx'))"
proof -
  from parse_chunked_result [OF assms(1,2)] assms(3,4)
  have "body_ok (c_state ctx') (c_size ctx')" "c_length ctx' = ck_length (c_state ctx') (c_size ctx')"
    by (auto simp: chunked_result_def chunked_ok_def ck_enter_def body_ok_def split: if_splits)
  then show ?thesis using completes_length completes_tight by auto
qed

theorem ngx_http_parse_chunked_length_exact_witness:
  "\<exists>w. completes ck_chunk_data 5 w \<and> int (length w) = 9"
proof -
  have e: "ngx_http_parse_chunked fresh_chunked \<lparr>b_mem = bytes ''5'' @ [CR, LF], b_pos = 0\<rparr> =
      (NGX_AGAIN, \<lparr>c_state = ck_chunk_data, c_size = 5, c_length = 9\<rparr>,
        \<lparr>b_mem = bytes ''5'' @ [CR, LF], b_pos = 3\<rparr>)"
    by (simp add: ngx_http_parse_chunked_def fresh_chunked_def ck_enter_def bytes_def hex_digit_def
        is_digit_def ck_do_chunk_start_def ck_do_chunk_size_def ck_end_of_size_def ck_expect_lf_def
        ck_data_def NGX_MAX_OFF_T_VALUE_def)
  from ngx_http_parse_chunked_length_exact [OF fresh_chunked_ok _ e] show ?thesis
    by (simp add: bytes_def NGX_MAX_OFF_T_VALUE_def)
qed

text \<open>
  Chunk headers are decoded.  A non-empty string of hexadecimal digits whose value is positive and at
  most a sixteenth of \<^verbatim>\<open>NGX_MAX_OFF_T_VALUE\<close>, followed by CR LF and at least one byte, is read as a chunk of
  exactly that size, with the position at the first byte of the data.
\<close>

theorem ngx_http_parse_chunked_header:
  assumes "drop (b_pos b) (b_mem b) = hx @ [CR, LF] @ c # rest"
    and "hx \<noteq> []" "\<forall>c \<in> set hx. is_hex c" "0 < hex_value 0 hx"
    "hex_value 0 hx \<le> NGX_MAX_OFF_T_VALUE div 16"
  shows "ngx_http_parse_chunked fresh_chunked b =
    (NGX_OK, \<lparr>c_state = ck_chunk_data, c_size = hex_value 0 hx, c_length = hex_value 0 hx + 4\<rparr>,
     b\<lparr>b_pos := b_pos b + length hx + 2\<rparr>)"
proof -
  have "scan chunked_step (b_mem b) (b_pos b) ((hx @ [CR, LF]) @ c # rest) ck_chunk_start 0 =
      (Reject NGX_OK (hex_value 0 hx), b_pos b + length hx + 2)"
    using assms(4) by (subst scan_append) (simp add: scan_chunk_header [OF assms(2,3,5)])
  then show ?thesis using assms(1,5)
    by (simp add: ngx_http_parse_chunked_def fresh_chunked_def ck_enter_def ck_data_def
        NGX_MAX_OFF_T_VALUE_def)
qed

theorem ngx_http_parse_chunked_header_witness:
  "ngx_http_parse_chunked fresh_chunked \<lparr>b_mem = bytes ''1aF'' @ [CR, LF, 0x41], b_pos = 0\<rparr> =
    (NGX_OK, \<lparr>c_state = ck_chunk_data, c_size = 431, c_length = 435\<rparr>,
     \<lparr>b_mem = bytes ''1aF'' @ [CR, LF, 0x41], b_pos = 5\<rparr>)"
  using ngx_http_parse_chunked_header
    [of "\<lparr>b_mem = bytes ''1aF'' @ [CR, LF, 0x41], b_pos = 0\<rparr>" "bytes ''1aF''" "0x41" "[]"]
  by (simp add: bytes_def is_hex_def hex_digit_def is_digit_def NGX_MAX_OFF_T_VALUE_def)

text \<open>
  C16: A chunked body may arrive in any reads.  Feeding the parser pieces of the input, calling it again
  after every \<^verbatim>\<open>NGX_AGAIN\<close>, gives the return code of one call on the whole input, the same context where
  there is one to continue with, and the same position.
\<close>

theorem ngx_http_parse_chunked_resumable:
  assumes "chunked_ok ctx" "b_pos b \<le> length (b_mem b)" "ws \<noteq> []"
  shows "same_chunked (feed ngx_http_parse_chunked ctx b ws)
    (ngx_http_parse_chunked ctx (append_input (concat ws) b))"
  using assms by (rule feed_chunked)

theorem ngx_http_parse_chunked_resumable_witness:
  "same_chunked (feed ngx_http_parse_chunked fresh_chunked \<lparr>b_mem = [], b_pos = 0\<rparr>
      [bytes ''1'', bytes ''a'' @ [CR], [LF, 0x41]])
    (ngx_http_parse_chunked fresh_chunked \<lparr>b_mem = bytes ''1a'' @ [CR, LF, 0x41], b_pos = 0\<rparr>)"
  using ngx_http_parse_chunked_resumable [OF fresh_chunked_ok, of "\<lparr>b_mem = [], b_pos = 0\<rparr>"
      "[bytes ''1'', bytes ''a'' @ [CR], [LF, 0x41]]"]
  by (simp add: append_input_def bytes_def)

end
