(* ===== verification/Ngx_Http_Body.thy ===== *)
theory Ngx_Http_Body
  imports Ngx_Http_Chunked
begin

text \<open>
  The readers of a chunked request body in \<^verbatim>\<open>ngx_http_request_body.c\<close>, on top of the chunked parser:
  \<^verbatim>\<open>ngx_http_request_body_chunked_filter\<close>, which hands the data on as a chain of buffers, and
  \<^verbatim>\<open>ngx_http_discard_request_body_filter\<close>, which drops it.

  An output buffer is the list of its bytes; \<open>out\<close> is the chain in order.  An output buffer shares its
  memory with the input buffer, and small chunks are moved down behind the previous chunk; the bytes
  overwritten there have been parsed already and belong to no buffer, so the input that is still to
  be read does not change.  \<open>alloc i\<close> tells whether the allocation of output buffer \<open>i\<close> succeeds.  The
  loops run as long as the parser returns \<^verbatim>\<open>NGX_OK\<close>; they take a bound on the number of iterations,
  and running out of it is \<^const>\<open>None\<close>.
\<close>

abbreviation (input) NGX_HTTP_BAD_REQUEST :: int where "NGX_HTTP_BAD_REQUEST \<equiv> 400"
abbreviation (input) NGX_HTTP_REQUEST_ENTITY_TOO_LARGE :: int where
  "NGX_HTTP_REQUEST_ENTITY_TOO_LARGE \<equiv> 413"
abbreviation (input) NGX_HTTP_INTERNAL_SERVER_ERROR :: int where
  "NGX_HTTP_INTERNAL_SERVER_ERROR \<equiv> 500"

record ngx_http_request_body_t =
  rb_rest :: int
  rb_chunked :: ngx_http_chunked_t
  rb_content_length_n :: int
  rb_last_buf :: bool

definition take_data :: "nat \<Rightarrow> ngx_buf_t \<Rightarrow> u_char list" where
  "take_data n b = take n (drop (b_pos b) (b_mem b))"

definition append_last :: "'a list list \<Rightarrow> 'a list \<Rightarrow> 'a list list" where
  "append_last out xs = butlast out @ [last out @ xs]"

text \<open>The \<^verbatim>\<open>NGX_OK\<close> branch: the error, or the new body, chain and input buffer.\<close>

definition chunked_filter_data :: "(nat \<Rightarrow> bool) \<Rightarrow> int \<Rightarrow> ngx_http_request_body_t \<Rightarrow> u_char list list
    \<Rightarrow> bool \<Rightarrow> ngx_buf_t \<Rightarrow> int + ngx_http_request_body_t \<times> u_char list list \<times> ngx_buf_t" where
  "chunked_filter_data alloc max_size rb out has_b buf =
    (let ctx = rb_chunked rb; sz = c_size ctx; avail = int (length (b_mem buf)) - int (b_pos buf) in
     if max_size \<noteq> 0 \<and> max_size - rb_content_length_n rb < sz
     then Inl NGX_HTTP_REQUEST_ENTITY_TOO_LARGE
     else if has_b \<and> sz \<le> 128 \<and> avail \<ge> sz then
       Inr (rb\<lparr>rb_content_length_n := rb_content_length_n rb + sz, rb_chunked := ctx\<lparr>c_size := 0\<rparr>\<rparr>,
            append_last out (take_data (nat sz) buf), buf\<lparr>b_pos := b_pos buf + nat sz\<rparr>)
     else if \<not> alloc (length out) then Inl NGX_HTTP_INTERNAL_SERVER_ERROR
     else if avail > sz then
       Inr (rb\<lparr>rb_content_length_n := rb_content_length_n rb + sz, rb_chunked := ctx\<lparr>c_size := 0\<rparr>\<rparr>,
            out @ [take_data (nat sz) buf], buf\<lparr>b_pos := b_pos buf + nat sz\<rparr>)
     else
       Inr (rb\<lparr>rb_content_length_n := rb_content_length_n rb + avail,
              rb_chunked := ctx\<lparr>c_size := sz - avail\<rparr>\<rparr>,
            out @ [take_data (nat avail) buf], buf\<lparr>b_pos := length (b_mem buf)\<rparr>))"

text \<open>The loop \<^verbatim>\<open>for ( ;; )\<close> over one input buffer; \<open>has_b\<close> is \<^verbatim>\<open>b != NULL\<close>.\<close>

fun chunked_filter_loop :: "nat \<Rightarrow> (nat \<Rightarrow> bool) \<Rightarrow> int \<Rightarrow> int \<Rightarrow> ngx_http_request_body_t
    \<Rightarrow> u_char list list \<Rightarrow> bool \<Rightarrow> ngx_buf_t
    \<Rightarrow> (int + ngx_http_request_body_t \<times> u_char list list \<times> ngx_buf_t) option" where
  "chunked_filter_loop 0 alloc max_size hdr_size rb out has_b buf = None"
| "chunked_filter_loop (Suc fuel) alloc max_size hdr_size rb out has_b buf =
    (case ngx_http_parse_chunked (rb_chunked rb) buf of (rc, ctx, buf) \<Rightarrow>
       let rb = rb\<lparr>rb_chunked := ctx\<rparr> in
       if rc = NGX_OK then
         (case chunked_filter_data alloc max_size rb out has_b buf of
            Inl e \<Rightarrow> Some (Inl e)
          | Inr (rb, out, buf) \<Rightarrow> chunked_filter_loop fuel alloc max_size hdr_size rb out True buf)
       else if rc = NGX_DONE then
         if \<not> alloc (length out) then Some (Inl NGX_HTTP_INTERNAL_SERVER_ERROR)
         else Some (Inr (rb\<lparr>rb_rest := 0, rb_last_buf := True\<rparr>, out, buf))
       else if rc = NGX_AGAIN then
         Some (Inr (rb\<lparr>rb_rest := max (c_length ctx) hdr_size\<rparr>, out, buf))
       else Some (Inl NGX_HTTP_BAD_REQUEST))"

text \<open>The bound on the iterations for one buffer: one per byte, and the last one.\<close>

definition buf_fuel :: "ngx_buf_t \<Rightarrow> nat" where
  "buf_fuel b = length (b_mem b) - b_pos b + 1"

fun chunked_filter_chain :: "(nat \<Rightarrow> bool) \<Rightarrow> int \<Rightarrow> int \<Rightarrow> ngx_http_request_body_t
    \<Rightarrow> u_char list list \<Rightarrow> ngx_buf_t list
    \<Rightarrow> (int + ngx_http_request_body_t \<times> u_char list list) option" where
  "chunked_filter_chain alloc max_size hdr_size rb out [] = Some (Inr (rb, out))"
| "chunked_filter_chain alloc max_size hdr_size rb out (buf # cl) =
    (case chunked_filter_loop (buf_fuel buf) alloc max_size hdr_size rb out False buf of
       None \<Rightarrow> None
     | Some (Inl e) \<Rightarrow> Some (Inl e)
     | Some (Inr (rb, out, buf)) \<Rightarrow> chunked_filter_chain alloc max_size hdr_size rb out cl)"

definition ngx_http_request_body_chunked_filter :: "(nat \<Rightarrow> bool) \<Rightarrow> bool \<Rightarrow> int \<Rightarrow> int
    \<Rightarrow> ngx_http_request_body_t \<Rightarrow> ngx_buf_t list
    \<Rightarrow> (int + ngx_http_request_body_t \<times> u_char list list) option" where
  "ngx_http_request_body_chunked_filter alloc alloc_ctx max_size hdr_size rb bufs =
    (if rb_rest rb = - 1 then
       if \<not> alloc_ctx then Some (Inl NGX_HTTP_INTERNAL_SERVER_ERROR)
       else chunked_filter_chain alloc max_size hdr_size
         (rb\<lparr>rb_chunked := fresh_chunked, rb_content_length_n := 0, rb_rest := hdr_size\<rparr>) [] bufs
     else chunked_filter_chain alloc max_size hdr_size rb [] bufs)"

text \<open>
  The discarding reader; the state is the chunked context, \<^verbatim>\<open>content_length_n\<close> and the buffer.
\<close>

fun discard_chunked_loop :: "nat \<Rightarrow> int \<Rightarrow> ngx_http_chunked_t \<Rightarrow> ngx_buf_t
    \<Rightarrow> (int + int \<times> ngx_http_chunked_t \<times> ngx_buf_t) option" where
  "discard_chunked_loop 0 hdr_size ctx b = None"
| "discard_chunked_loop (Suc fuel) hdr_size ctx b =
    (case ngx_http_parse_chunked ctx b of (rc, ctx, b) \<Rightarrow>
       let avail = int (length (b_mem b)) - int (b_pos b) in
       if rc = NGX_OK then
         if avail > c_size ctx then
           discard_chunked_loop fuel hdr_size (ctx\<lparr>c_size := 0\<rparr>)
             (b\<lparr>b_pos := b_pos b + nat (c_size ctx)\<rparr>)
         else
           discard_chunked_loop fuel hdr_size (ctx\<lparr>c_size := c_size ctx - avail\<rparr>)
             (b\<lparr>b_pos := length (b_mem b)\<rparr>)
       else if rc = NGX_DONE then Some (Inr (0, ctx, b))
       else if rc = NGX_AGAIN then Some (Inr (max (c_length ctx) hdr_size, ctx, b))
       else Some (Inl NGX_HTTP_BAD_REQUEST))"

definition ngx_http_discard_request_body_filter :: "bool \<Rightarrow> bool \<Rightarrow> int \<Rightarrow> int
    \<Rightarrow> ngx_http_chunked_t option \<Rightarrow> ngx_buf_t
    \<Rightarrow> (int + int \<times> ngx_http_chunked_t option \<times> ngx_buf_t) option" where
  "ngx_http_discard_request_body_filter alloc chunked hdr_size content_length_n rb b =
    (if chunked then
       if rb = None \<and> \<not> alloc then Some (Inl NGX_HTTP_INTERNAL_SERVER_ERROR)
       else
         let ctx = (case rb of None \<Rightarrow> fresh_chunked | Some ctx \<Rightarrow> ctx) in
         (case discard_chunked_loop (buf_fuel b) hdr_size ctx b of
            None \<Rightarrow> None
          | Some (Inl e) \<Rightarrow> Some (Inl e)
          | Some (Inr (n, ctx, b)) \<Rightarrow> Some (Inr (n, Some ctx, b)))
     else
       let avail = int (length (b_mem b)) - int (b_pos b) in
       if avail > content_length_n then
         Some (Inr (0, rb, b\<lparr>b_pos := b_pos b + nat content_length_n\<rparr>))
       else Some (Inr (content_length_n - avail, rb, b\<lparr>b_pos := length (b_mem b)\<rparr>)))"

section \<open>The loops end\<close>

lemma chunked_ok_drained:
  assumes "chunked_ok ctx" "c_state ctx = ck_chunk_data" "0 \<le> n" "n \<le> c_size ctx"
  shows "chunked_ok (ctx\<lparr>c_size := n\<rparr>)"
  using assms by (auto simp: chunked_ok_def ck_enter_def ck_inv_def ck_positive_def split: if_splits)

lemma parse_chunked_mem:
  "ngx_http_parse_chunked ctx b = (rc, ctx', b') \<Longrightarrow> b_mem b' = b_mem b"
  by (auto simp: ngx_http_parse_chunked_def ck_data_def Let_def split: prod.splits verdict.splits if_splits)

lemma parse_chunked_pos:
  assumes "ngx_http_parse_chunked ctx b = (NGX_OK, ctx', b')" "b_pos b \<le> length (b_mem b)"
  shows "b_pos b \<le> b_pos b'"
proof -
  obtain v q where s: "scan chunked_step (b_mem b) (b_pos b) (drop (b_pos b) (b_mem b)) (ck_enter ctx) (c_size ctx) = (v, q)"
    by fastforce
  show ?thesis
  proof (cases v)
    case (Next l sz)
    with s assms(1) show ?thesis by (auto simp: ngx_http_parse_chunked_def ck_data_def Let_def split: if_splits)
  next
    case (Done rc sz)
    with scan_Stop_pos [OF s] s assms(1) show ?thesis by (auto simp: ngx_http_parse_chunked_def)
  next
    case (Reject rc sz)
    with scan_Stop_pos [OF s] s assms(1) show ?thesis
      by (auto simp: ngx_http_parse_chunked_def ck_data_def Let_def split: if_splits)
  qed
qed

text \<open>
  What one \<^verbatim>\<open>NGX_OK\<close> iteration keeps: the context stays consistent, input is consumed, the bytes put out
  are counted in \<^verbatim>\<open>content_length_n\<close>, and the configured maximum is not exceeded.
\<close>

definition counted :: "int \<Rightarrow> ngx_http_request_body_t \<Rightarrow> u_char list list
    \<Rightarrow> ngx_http_request_body_t \<Rightarrow> u_char list list \<Rightarrow> bool" where
  "counted max_size rb out rb' out' \<longleftrightarrow>
     rb_content_length_n rb' = rb_content_length_n rb + int (length (concat out')) - int (length (concat out))
     \<and> (max_size \<noteq> 0 \<and> rb_content_length_n rb \<le> max_size \<longrightarrow> rb_content_length_n rb' \<le> max_size)"

lemma counted_refl: "counted max_size rb out rb out"
  by (simp add: counted_def)

lemma counted_trans:
  "counted max_size rb out rb1 out1 \<Longrightarrow> counted max_size rb1 out1 rb2 out2 \<Longrightarrow> counted max_size rb out rb2 out2"
  by (auto simp: counted_def)

lemma counted_cong:
  "rb_content_length_n rb1 = rb_content_length_n rb1' \<Longrightarrow> rb_content_length_n rb2 = rb_content_length_n rb2' \<Longrightarrow>
     counted max_size rb1 out rb2 out' = counted max_size rb1' out rb2' out'"
  by (simp add: counted_def)

lemma concat_append_last: "out \<noteq> [] \<Longrightarrow> concat (append_last out xs) = concat out @ xs"
  by (cases out rule: rev_cases) (simp_all add: append_last_def)

lemma chunked_filter_data_shape:
  assumes "chunked_filter_data alloc max_size rb out has_b buf = Inr (rb', out', buf')"
    and "0 < c_size (rb_chunked rb)" "b_pos buf < length (b_mem buf)"
  shows "\<exists>n. 0 < n \<and> int n \<le> c_size (rb_chunked rb) \<and> n \<le> length (b_mem buf) - b_pos buf
    \<and> rb' = rb\<lparr>rb_content_length_n := rb_content_length_n rb + int n,
         rb_chunked := (rb_chunked rb)\<lparr>c_size := c_size (rb_chunked rb) - int n\<rparr>\<rparr>
    \<and> buf' = buf\<lparr>b_pos := b_pos buf + n\<rparr>
    \<and> (out' = out @ [take_data n buf] \<or> has_b \<and> out' = append_last out (take_data n buf))
    \<and> (max_size \<noteq> 0 \<longrightarrow> c_size (rb_chunked rb) \<le> max_size - rb_content_length_n rb)"
proof -
  let ?sz = "c_size (rb_chunked rb)" and ?avail = "int (length (b_mem buf)) - int (b_pos buf)"
  have lim: "max_size \<noteq> 0 \<longrightarrow> ?sz \<le> max_size - rb_content_length_n rb"
    using assms(1) by (auto simp: chunked_filter_data_def Let_def split: if_splits)
  show ?thesis
  proof (cases "?avail < ?sz \<or> ?avail = ?sz \<and> \<not> (has_b \<and> ?sz \<le> 128)")
    case True
    then have "\<not> (has_b \<and> ?sz \<le> 128 \<and> ?avail \<ge> ?sz)" "\<not> ?avail > ?sz" by auto
    with assms(1) lim have "rb' = rb\<lparr>rb_content_length_n := rb_content_length_n rb + ?avail,
         rb_chunked := (rb_chunked rb)\<lparr>c_size := ?sz - ?avail\<rparr>\<rparr>"
      "out' = out @ [take_data (nat ?avail) buf]" "buf' = buf\<lparr>b_pos := length (b_mem buf)\<rparr>"
      by (auto simp: chunked_filter_data_def Let_def split: if_splits)
    then show ?thesis using True lim assms(3)
      by (intro exI [of _ "length (b_mem buf) - b_pos buf"]) (auto simp: of_nat_diff nat_diff_distrib)
  next
    case False
    then have av: "?sz \<le> ?avail" "\<not> (has_b \<and> ?sz \<le> 128) \<longrightarrow> ?avail > ?sz" by auto
    have "rb' = rb\<lparr>rb_content_length_n := rb_content_length_n rb + ?sz,
         rb_chunked := (rb_chunked rb)\<lparr>c_size := 0\<rparr>\<rparr>"
      "out' = out @ [take_data (nat ?sz) buf] \<or> has_b \<and> out' = append_last out (take_data (nat ?sz) buf)"
      "buf' = buf\<lparr>b_pos := b_pos buf + nat ?sz\<rparr>"
      using assms(1) av lim by (auto simp: chunked_filter_data_def Let_def split: if_splits)
    then show ?thesis using av lim assms(2) by (intro exI [of _ "nat ?sz"]) auto
  qed
qed

lemma chunked_filter_data_ok:
  assumes "chunked_filter_data alloc max_size rb out has_b buf = Inr (rb', out', buf')"
    and "chunked_ok (rb_chunked rb)" "c_state (rb_chunked rb) = ck_chunk_data"
    and "0 < c_size (rb_chunked rb)" "b_pos buf < length (b_mem buf)" "has_b \<longrightarrow> out \<noteq> []"
  shows "chunked_ok (rb_chunked rb') \<and> b_pos buf < b_pos buf' \<and> b_pos buf' \<le> length (b_mem buf')
    \<and> b_mem buf' = b_mem buf \<and> out' \<noteq> [] \<and> counted max_size rb out rb' out'"
proof -
  from chunked_filter_data_shape [OF assms(1,4,5)] obtain n where
    n: "0 < n" "int n \<le> c_size (rb_chunked rb)" "n \<le> length (b_mem buf) - b_pos buf"
    and rb': "rb' = rb\<lparr>rb_content_length_n := rb_content_length_n rb + int n,
         rb_chunked := (rb_chunked rb)\<lparr>c_size := c_size (rb_chunked rb) - int n\<rparr>\<rparr>"
    and buf': "buf' = buf\<lparr>b_pos := b_pos buf + n\<rparr>"
    and out': "out' = out @ [take_data n buf] \<or> has_b \<and> out' = append_last out (take_data n buf)"
    and lim: "max_size \<noteq> 0 \<longrightarrow> c_size (rb_chunked rb) \<le> max_size - rb_content_length_n rb" by blast
  have len: "length (take_data n buf) = n" using n by (simp add: take_data_def)
  have c: "out' \<noteq> [] \<and> concat out' = concat out @ take_data n buf"
    using out' assms(6) by (auto simp: concat_append_last) (auto simp: append_last_def)
  then have "counted max_size rb out rb' out'" using lim n(2) len by (auto simp: counted_def rb')
  moreover have "chunked_ok (rb_chunked rb')"
    using chunked_ok_drained [OF assms(2,3)] n(1,2) by (simp add: rb')
  ultimately show ?thesis using c n buf' by auto
qed

lemma chunked_filter_loop_ends:
  assumes "chunked_ok (rb_chunked rb)" "b_pos buf \<le> length (b_mem buf)"
    "length (b_mem buf) - b_pos buf < fuel" "has_b \<longrightarrow> out \<noteq> []"
  shows "case chunked_filter_loop fuel alloc max_size hdr_size rb out has_b buf of
      None \<Rightarrow> False | Some (Inl e) \<Rightarrow> e \<in> {400, 413, 500}
    | Some (Inr (rb', out', buf')) \<Rightarrow> chunked_ok (rb_chunked rb') \<and> counted max_size rb out rb' out'
        \<and> b_pos buf' \<le> length (b_mem buf')"
  using assms
proof (induction fuel arbitrary: rb out has_b buf)
  case (Suc fuel)
  obtain rc ctx b1 where e: "ngx_http_parse_chunked (rb_chunked rb) buf = (rc, ctx, b1)"
    by (metis prod_cases3)
  have res: "chunked_result (length (b_mem buf)) (rc, ctx, b1)"
    using parse_chunked_result [OF Suc.prems(1,2)] e by simp
  note mem = parse_chunked_mem [OF e]
  define rb1 where "rb1 = rb\<lparr>rb_chunked := ctx\<rparr>"
  have same: "rb_content_length_n rb1 = rb_content_length_n rb" by (simp add: rb1_def)
  show ?case
  proof (cases "rc = NGX_OK")
    case False
    then show ?thesis using res mem e
      by (auto simp: chunked_result_def counted_def Let_def split: if_splits)
  next
    case True
    with res mem have ok: "chunked_ok (rb_chunked rb1)" "c_state (rb_chunked rb1) = ck_chunk_data"
      "0 < c_size (rb_chunked rb1)" "b_pos b1 < length (b_mem b1)"
      by (simp_all add: chunked_result_def rb1_def)
    have le: "b_pos buf \<le> b_pos b1" using parse_chunked_pos e True Suc.prems(2) by simp
    show ?thesis
    proof (cases "chunked_filter_data alloc max_size rb1 out has_b b1")
      case (Inl x)
      then have "x \<in> {413, 500}"
        by (auto simp: chunked_filter_data_def Let_def split: if_splits)
      with Inl e True show ?thesis by (auto simp: rb1_def Let_def)
    next
      case (Inr y)
      obtain rb2 out2 b2 where y: "y = (rb2, out2, b2)" by (metis prod_cases3)
      note data = chunked_filter_data_ok [OF Inr [unfolded y] ok Suc.prems(4)]
      have loop: "chunked_filter_loop (Suc fuel) alloc max_size hdr_size rb out has_b buf =
          chunked_filter_loop fuel alloc max_size hdr_size rb2 out2 True b2"
        using Inr y e True by (simp add: rb1_def Let_def)
      have cnt: "counted max_size rb out rb2 out2"
        using data counted_cong [OF same [symmetric] refl] by blast
      have p: "b_pos b1 < b_pos b2" "b_pos b2 \<le> length (b_mem buf)" "b_mem b2 = b_mem buf"
        using data mem by auto
      have "length (b_mem buf) - b_pos b2 < fuel" using p(1,2) le Suc.prems(3) by arith
      then have "length (b_mem b2) - b_pos b2 < fuel" by (simp add: p(3))
      then have ih: "case chunked_filter_loop fuel alloc max_size hdr_size rb2 out2 True b2 of
          None \<Rightarrow> False | Some (Inl e) \<Rightarrow> e \<in> {400, 413, 500}
        | Some (Inr (rb', out', buf')) \<Rightarrow> chunked_ok (rb_chunked rb') \<and> counted max_size rb2 out2 rb' out'
            \<and> b_pos buf' \<le> length (b_mem buf')"
        using data by (intro Suc.IH) auto
      then show ?thesis unfolding loop
        by (auto split: option.splits sum.splits prod.splits intro: counted_trans [OF cnt])
    qed
  qed
qed simp

text \<open>The discarding loop takes at least one byte in each round, too.\<close>

lemma discard_chunked_loop_ends:
  assumes "chunked_ok ctx" "b_pos b \<le> length (b_mem b)" "length (b_mem b) - b_pos b < fuel"
  shows "case discard_chunked_loop fuel hdr_size ctx b of
      None \<Rightarrow> False | Some (Inl e) \<Rightarrow> e = 400
    | Some (Inr (n, ctx', b')) \<Rightarrow> chunked_ok ctx' \<and> b_mem b' = b_mem b \<and> b_pos b' \<le> length (b_mem b)"
  using assms
proof (induction fuel arbitrary: ctx b)
  case (Suc fuel)
  obtain rc ctx1 b1 where e: "ngx_http_parse_chunked ctx b = (rc, ctx1, b1)" by (metis prod_cases3)
  have res: "chunked_result (length (b_mem b)) (rc, ctx1, b1)" using parse_chunked_result [OF Suc.prems(1,2)] e by simp
  note mem = parse_chunked_mem [OF e]
  show ?case
  proof (cases "rc = NGX_OK")
    case False
    then show ?thesis using res mem e by (auto simp: chunked_result_def Let_def split: if_splits)
  next
    case True
    with res mem have ok: "chunked_ok ctx1" "c_state ctx1 = ck_chunk_data" "0 < c_size ctx1" "b_pos b1 < length (b_mem b1)"
      by (simp_all add: chunked_result_def)
    have le: "b_pos b \<le> b_pos b1" using parse_chunked_pos e True Suc.prems(2) by simp
    define avail where "avail = int (length (b_mem b1)) - int (b_pos b1)"
    define k where "k = (if avail > c_size ctx1 then nat (c_size ctx1) else nat avail)"
    let ?b = "b1\<lparr>b_pos := b_pos b1 + k\<rparr>" and ?ctx = "ctx1\<lparr>c_size := c_size ctx1 - int k\<rparr>"
    have k: "0 < k" "int k \<le> c_size ctx1" "b_pos b1 + k \<le> length (b_mem b1)" using ok(3,4) by (auto simp: k_def avail_def)
    have "b_pos b1 + nat (int (length (b_mem b1)) - int (b_pos b1)) = length (b_mem b1)" using ok(4) by simp
    then have loop: "discard_chunked_loop (Suc fuel) hdr_size ctx b = discard_chunked_loop fuel hdr_size ?ctx ?b"
      using e True ok(3,4) by (auto simp: Let_def avail_def k_def)
    have "chunked_ok ?ctx" using chunked_ok_drained [OF ok(1,2)] k(1,2) by simp
    moreover have "length (b_mem ?b) - b_pos ?b < fuel" using k le Suc.prems(3) mem by simp
    ultimately show ?thesis unfolding loop using Suc.IH [of ?ctx ?b] k(3) mem
      by (auto split: option.splits sum.splits prod.splits)
  qed
qed simp

lemma ngx_http_discard_request_body_filter_ends:
  assumes "case rb of None \<Rightarrow> True | Some ctx \<Rightarrow> chunked_ok ctx" "b_pos b \<le> length (b_mem b)"
  shows "ngx_http_discard_request_body_filter alloc chunked hdr_size content_length_n rb b \<noteq> None"
  using assms discard_chunked_loop_ends [of fresh_chunked b "buf_fuel b" hdr_size] discard_chunked_loop_ends [of "the rb" b "buf_fuel b" hdr_size]
    fresh_chunked_ok
  by (auto simp: ngx_http_discard_request_body_filter_def buf_fuel_def Let_def split: option.splits sum.splits prod.splits)

lemma chunked_filter_chain_ends:
  assumes "chunked_ok (rb_chunked rb)" "\<forall>b \<in> set bufs. b_pos b \<le> length (b_mem b)"
  shows "case chunked_filter_chain alloc max_size hdr_size rb out bufs of
      None \<Rightarrow> False | Some (Inl e) \<Rightarrow> e \<in> {400, 413, 500}
    | Some (Inr (rb', out')) \<Rightarrow> chunked_ok (rb_chunked rb') \<and> counted max_size rb out rb' out'"
  using assms
proof (induction bufs arbitrary: rb out)
  case (Cons b bufs)
  have loop: "case chunked_filter_loop (buf_fuel b) alloc max_size hdr_size rb out False b of
      None \<Rightarrow> False | Some (Inl e) \<Rightarrow> e \<in> {400, 413, 500}
    | Some (Inr (rb', out', buf')) \<Rightarrow> chunked_ok (rb_chunked rb') \<and> counted max_size rb out rb' out'
        \<and> b_pos buf' \<le> length (b_mem buf')"
    using Cons.prems by (intro chunked_filter_loop_ends) (auto simp: buf_fuel_def)
  show ?case
  proof (cases "chunked_filter_loop (buf_fuel b) alloc max_size hdr_size rb out False b")
    case None
    with loop show ?thesis by simp
  next
    case (Some x)
    show ?thesis
    proof (cases x)
      case (Inl e)
      with Some loop show ?thesis by simp
    next
      case (Inr y)
      obtain rb1 out1 b1 where y: "y = (rb1, out1, b1)" by (metis prod_cases3)
      have ok: "chunked_ok (rb_chunked rb1)" "counted max_size rb out rb1 out1"
        using loop Some Inr y by auto
      have "\<forall>b \<in> set bufs. b_pos b \<le> length (b_mem b)" using Cons.prems(2) by simp
      from Cons.IH [OF ok(1) this, of out1] show ?thesis using Some Inr y
        by (auto split: option.splits sum.splits prod.splits intro: counted_trans [OF ok(2)])
    qed
  qed
qed (simp add: counted_refl)

section \<open>Round trip\<close>

text \<open>
  A chunked body: each chunk is a pair of its size in hexadecimal, in any spelling, and its data; then the
  last chunk and an empty trailer.
\<close>

fun encode_chunks :: "(u_char list \<times> u_char list) list \<Rightarrow> u_char list" where
  "encode_chunks [] = bytes ''0'' @ [CR, LF, CR, LF]"
| "encode_chunks ((hx, d) # cs) = hx @ [CR, LF] @ d @ [CR, LF] @ encode_chunks cs"

definition chunk_wf :: "u_char list \<times> u_char list \<Rightarrow> bool" where
  "chunk_wf x \<longleftrightarrow> (case x of (hx, d) \<Rightarrow> hx \<noteq> [] \<and> (\<forall>c \<in> set hx. is_hex c) \<and> d \<noteq> []
     \<and> hex_value 0 hx = int (length d) \<and> int (length d) \<le> NGX_MAX_OFF_T_VALUE div 16)"

text \<open>Between chunks the parser is at the start, or at the drained data of the previous chunk.\<close>

definition between :: "ngx_http_chunked_t \<Rightarrow> u_char list \<Rightarrow> bool" where
  "between ctx pre \<longleftrightarrow> c_size ctx = 0 \<and>
     (c_state ctx = ck_chunk_start \<and> pre = [] \<or> c_state ctx = ck_chunk_data \<and> pre = [CR, LF])"

lemma scan_between:
  "between ctx pre \<Longrightarrow> scan chunked_step m p (pre @ w) (ck_enter ctx) (c_size ctx) =
     scan chunked_step m (p + length pre) w ck_chunk_start 0"
  by (auto simp: between_def ck_enter_def ck_do_after_data_def ck_expect_lf_def)

lemma parse_between_chunk:
  assumes "between ctx pre" "drop (b_pos b) (b_mem b) = pre @ hx @ [CR, LF] @ d @ rest"
    and "chunk_wf (hx, d)"
  shows "ngx_http_parse_chunked ctx b =
    (NGX_OK, \<lparr>c_state = ck_chunk_data, c_size = int (length d), c_length = int (length d) + 4\<rparr>,
     b\<lparr>b_pos := b_pos b + length pre + length hx + 2\<rparr>)"
proof -
  obtain c d' where d: "d = c # d'" using assms(3) by (cases d) (auto simp: chunk_wf_def)
  have wf: "hx \<noteq> []" "\<forall>c \<in> set hx. is_hex c" "hex_value 0 hx = int (length d)"
    "hex_value 0 hx \<le> NGX_MAX_OFF_T_VALUE div 16"
    using assms(3) by (auto simp: chunk_wf_def)
  have "scan chunked_step (b_mem b) p ((hx @ [CR, LF]) @ c # d' @ rest) ck_chunk_start 0 =
      (Reject NGX_OK (int (length d)), p + length hx + 2)" for p
    using wf(3) d by (subst scan_append) (simp add: scan_chunk_header [OF wf(1,2,4)])
  then have "scan chunked_step (b_mem b) (b_pos b) (drop (b_pos b) (b_mem b)) (ck_enter ctx) (c_size ctx) =
      (Reject NGX_OK (int (length d)), b_pos b + length pre + length hx + 2)"
    using assms(2) d by (simp add: scan_between [OF assms(1)])
  then show ?thesis using wf(3,4)
    by (simp add: ngx_http_parse_chunked_def ck_data_def NGX_MAX_OFF_T_VALUE_def)
qed

lemma parse_between_last:
  assumes "between ctx pre" "drop (b_pos b) (b_mem b) = pre @ bytes ''0'' @ [CR, LF, CR, LF] @ rest"
  shows "ngx_http_parse_chunked ctx b =
    (NGX_DONE, ctx\<lparr>c_state := ck_chunk_start, c_size := 0\<rparr>, b\<lparr>b_pos := b_pos b + length pre + 5\<rparr>)"
proof -
  have "scan chunked_step (b_mem b) p (bytes ''0'' @ [CR, LF, CR, LF] @ rest) ck_chunk_start 0 =
      (Done NGX_DONE 0, p + 4)" for p
    by (simp add: bytes_def ck_do_defs hex_digit_def is_digit_def NGX_MAX_OFF_T_VALUE_def)
  then show ?thesis using assms(2)
    by (simp add: ngx_http_parse_chunked_def scan_between [OF assms(1)])
qed

lemma chunked_filter_data_whole:
  assumes "c_size (rb_chunked rb) = int (length d)" "drop (b_pos buf) (b_mem buf) = d @ c # rest"
    "has_b \<longrightarrow> out \<noteq> []"
  shows "\<exists>out'. chunked_filter_data (\<lambda>_. True) 0 rb out has_b buf =
      Inr (rb\<lparr>rb_content_length_n := rb_content_length_n rb + int (length d),
          rb_chunked := (rb_chunked rb)\<lparr>c_size := 0\<rparr>\<rparr>, out', buf\<lparr>b_pos := b_pos buf + length d\<rparr>)
    \<and> concat out' = concat out @ d \<and> out' \<noteq> []"
proof -
  have "length (drop (b_pos buf) (b_mem buf)) = length d + 1 + length rest" using assms(2) by simp
  then have av: "int (length (b_mem buf)) - int (b_pos buf) > int (length d)" by simp
  have td: "take_data (length d) buf = d" using assms(2) by (simp add: take_data_def)
  show ?thesis
  proof (cases "has_b \<and> int (length d) \<le> 128")
    case True
    moreover have "append_last out d \<noteq> []" by (simp add: append_last_def)
    ultimately show ?thesis using av td assms(1,3)
      by (intro exI [of _ "append_last out d"])
        (auto simp: chunked_filter_data_def Let_def concat_append_last)
  next
    case False
    then show ?thesis using av td assms(1)
      by (intro exI [of _ "out @ [d]"]) (auto simp: chunked_filter_data_def Let_def)
  qed
qed

definition whole_body_read :: "ngx_http_request_body_t \<Rightarrow> u_char list list \<Rightarrow> u_char list \<Rightarrow> nat
    \<Rightarrow> (int + ngx_http_request_body_t \<times> u_char list list \<times> ngx_buf_t) option \<Rightarrow> bool" where
  "whole_body_read rb out data q x \<longleftrightarrow> (case x of
     Some (Inr (rb', out', buf')) \<Rightarrow> rb_rest rb' = 0 \<and> rb_last_buf rb'
       \<and> rb_content_length_n rb' = rb_content_length_n rb + int (length data)
       \<and> concat out' = concat out @ data \<and> b_pos buf' = q
   | _ \<Rightarrow> False)"

lemma chunked_filter_loop_roundtrip:
  assumes "between (rb_chunked rb) pre" "drop (b_pos buf) (b_mem buf) = pre @ encode_chunks cs @ rest"
    and "\<forall>x \<in> set cs. chunk_wf x" "length cs < fuel" "has_b \<longrightarrow> out \<noteq> []"
  shows "whole_body_read rb out (concat (map snd cs)) (b_pos buf + length pre + length (encode_chunks cs))
    (chunked_filter_loop fuel (\<lambda>_. True) 0 hdr_size rb out has_b buf)"
  using assms
proof (induction cs arbitrary: fuel rb pre out has_b buf)
  case Nil
  then obtain f where f: "fuel = Suc f" by (cases fuel) auto
  show ?case using parse_between_last [OF Nil.prems(1), of buf rest] Nil.prems(2)
    by (simp add: f whole_body_read_def bytes_def)
next
  case (Cons x cs)
  obtain hx d where x: "x = (hx, d)" by (cases x) auto
  from Cons.prems(4) obtain f where f: "fuel = Suc f" "length cs < f" by (cases fuel) auto
  define ctx1 where "ctx1 = \<lparr>c_state = ck_chunk_data, c_size = int (length d), c_length = int (length d) + 4\<rparr>"
  define b1 where "b1 = buf\<lparr>b_pos := b_pos buf + length pre + length hx + 2\<rparr>"
  define rb1 where "rb1 = rb\<lparr>rb_chunked := ctx1\<rparr>"
  let ?tail = "[CR, LF] @ encode_chunks cs @ rest"
  have dr: "drop (b_pos buf) (b_mem buf) = pre @ hx @ [CR, LF] @ d @ ?tail"
    using Cons.prems(2) x by simp
  have e: "ngx_http_parse_chunked (rb_chunked rb) buf = (NGX_OK, ctx1, b1)"
    unfolding ctx1_def b1_def using Cons.prems(3) x by (intro parse_between_chunk [OF Cons.prems(1) dr]) simp
  have dr1: "drop (b_pos b1) (b_mem b1) = d @ ?tail"
  proof -
    have "drop (b_pos b1) (b_mem b1) = drop (length pre + length hx + 2) (drop (b_pos buf) (b_mem buf))"
      by (simp add: b1_def add_ac)
    then show ?thesis unfolding dr by simp
  qed
  have "c_size (rb_chunked rb1) = int (length d)" by (simp add: rb1_def ctx1_def)
  from chunked_filter_data_whole [OF this, of b1 CR "LF # encode_chunks cs @ rest" has_b out] dr1 Cons.prems(5)
  obtain out2 where o2: "chunked_filter_data (\<lambda>_. True) 0 rb1 out has_b b1 =
      Inr (rb1\<lparr>rb_content_length_n := rb_content_length_n rb1 + int (length d),
          rb_chunked := (rb_chunked rb1)\<lparr>c_size := 0\<rparr>\<rparr>, out2, b1\<lparr>b_pos := b_pos b1 + length d\<rparr>)"
    "concat out2 = concat out @ d" "out2 \<noteq> []" by auto
  define rb2 where "rb2 = rb1\<lparr>rb_content_length_n := rb_content_length_n rb1 + int (length d),
      rb_chunked := (rb_chunked rb1)\<lparr>c_size := 0\<rparr>\<rparr>"
  define b2 where "b2 = b1\<lparr>b_pos := b_pos b1 + length d\<rparr>"
  have loop: "chunked_filter_loop fuel (\<lambda>_. True) 0 hdr_size rb out has_b buf =
      chunked_filter_loop f (\<lambda>_. True) 0 hdr_size rb2 out2 True b2"
    using e o2(1) f(1) by (simp add: rb1_def [symmetric] rb2_def [symmetric] b2_def [symmetric] Let_def)
  have bt: "between (rb_chunked rb2) [CR, LF]" by (simp add: rb2_def rb1_def ctx1_def between_def)
  have dr2: "drop (b_pos b2) (b_mem b2) = [CR, LF] @ encode_chunks cs @ rest"
  proof -
    have "drop (b_pos b2) (b_mem b2) = drop (length d) (drop (b_pos b1) (b_mem b1))"
      by (simp add: b2_def add_ac)
    then show ?thesis unfolding dr1 by simp
  qed
  have "whole_body_read rb2 out2 (concat (map snd cs)) (b_pos b2 + length [CR, LF] + length (encode_chunks cs))
      (chunked_filter_loop f (\<lambda>_. True) 0 hdr_size rb2 out2 True b2)"
    using Cons.prems(3) o2(3) f(2) by (intro Cons.IH [OF bt dr2]) auto
  moreover have "b_pos b2 + length [CR, LF] + length (encode_chunks cs) =
      b_pos buf + length pre + length (encode_chunks (x # cs))" by (simp add: b2_def b1_def x)
  moreover have "rb_content_length_n rb2 = rb_content_length_n rb + int (length d)"
    by (simp add: rb2_def rb1_def)
  ultimately show ?case unfolding loop using o2(2)
    by (auto simp: whole_body_read_def x split: option.splits sum.splits)
qed

section \<open>Properties\<close>

text \<open>
  C13: Reading a chunked body ends and keeps count.  For any chain of input buffers and any consistent
  state the filter returns within its bound, one iteration per input byte and one more; an error is
  400, 413 or 500; otherwise the context is consistent, \<^verbatim>\<open>content_length_n\<close> has grown by exactly the number
  of bytes handed on, and a configured maximum body size is not exceeded.
\<close>

theorem ngx_http_request_body_chunked_filter_total:
  assumes "rb_rest rb \<noteq> - 1 \<longrightarrow> chunked_ok (rb_chunked rb)"
    and "\<forall>b \<in> set bufs. b_pos b \<le> length (b_mem b)"
  shows "case ngx_http_request_body_chunked_filter alloc alloc_ctx max_size hdr_size rb bufs of
      None \<Rightarrow> False
    | Some (Inl e) \<Rightarrow> e \<in> {NGX_HTTP_BAD_REQUEST, NGX_HTTP_REQUEST_ENTITY_TOO_LARGE,
        NGX_HTTP_INTERNAL_SERVER_ERROR}
    | Some (Inr (rb', out)) \<Rightarrow> chunked_ok (rb_chunked rb')
        \<and> counted max_size (if rb_rest rb = - 1 then rb\<lparr>rb_content_length_n := 0\<rparr> else rb) [] rb' out"
proof (cases "rb_rest rb = - 1")
  case True
  let ?rb = "rb\<lparr>rb_chunked := fresh_chunked, rb_content_length_n := 0, rb_rest := hdr_size\<rparr>"
  have "chunked_ok (rb_chunked ?rb)" by (simp add: fresh_chunked_ok)
  from chunked_filter_chain_ends [OF this assms(2), where alloc = alloc and max_size = max_size
      and hdr_size = hdr_size and out = "[]"] True
  show ?thesis
    by (auto simp: ngx_http_request_body_chunked_filter_def counted_def
        split: option.splits sum.splits prod.splits)
next
  case False
  with assms chunked_filter_chain_ends [where rb = rb and bufs = bufs and alloc = alloc
      and max_size = max_size and hdr_size = hdr_size and out = "[]"] show ?thesis
    by (auto simp: ngx_http_request_body_chunked_filter_def split: option.splits sum.splits prod.splits)
qed

definition idle_body :: ngx_http_request_body_t where
  "idle_body = \<lparr>rb_rest = - 1, rb_chunked = fresh_chunked, rb_content_length_n = - 1, rb_last_buf = False\<rparr>"

definition sample_body :: "u_char list" where
  "sample_body = bytes ''3'' @ [CR, LF] @ bytes ''abc'' @ [CR, LF] @ bytes ''0'' @ [CR, LF, CR, LF]"

theorem ngx_http_request_body_chunked_filter_total_witness:
  "ngx_http_request_body_chunked_filter (\<lambda>_. True) True 2 1024 idle_body
     [\<lparr>b_mem = sample_body, b_pos = 0\<rparr>] \<noteq> None"
  using ngx_http_request_body_chunked_filter_total [where rb = idle_body and
      bufs = "[\<lparr>b_mem = sample_body, b_pos = 0\<rparr>]" and alloc = "\<lambda>_. True" and alloc_ctx = True and
      max_size = 2 and hdr_size = 1024]
  by (auto simp: idle_body_def split: option.splits)



end
