(* ===== verification/Ngx_Http_Uri.thy ===== *)
theory Ngx_Http_Uri
  imports Ngx_Http_Request Ngx_Escape
begin

text \<open>
  The URI of a request: \<^verbatim>\<open>ngx_http_parse_uri\<close> (the check of a URI that did not come with a request
  line), \<^verbatim>\<open>ngx_http_parse_complex_uri\<close> (decoding and normalisation), \<^verbatim>\<open>ngx_http_process_request_uri\<close>
  (which chooses between them) and \<^verbatim>\<open>ngx_http_parse_unsafe_uri\<close>.

  The URI stands at the offsets \<^verbatim>\<open>uri_start\<close> to \<^verbatim>\<open>uri_end\<close> of the request's memory \<open>m\<close>.  The pointer
  \<^verbatim>\<open>u\<close> into the output is the list of the bytes written so far.
\<close>

record ngx_http_uri_t =
  u_uri :: "u_char list"
  u_exten :: "u_char list"
  u_args :: "u_char list"
  u_unparsed_uri :: "u_char list"
  u_valid_unparsed_uri :: bool

section \<open>ngx\_http\_parse\_uri\<close>

datatype pu_state = pu_start | pu_after_slash_in_uri | pu_check_uri | pu_uri

definition pu_do_after_slash_in_uri ::
    "nat \<Rightarrow> u_char \<Rightarrow> ngx_http_request_t \<Rightarrow> (pu_state \<times> ngx_http_request_t) option" where
  "pu_do_after_slash_in_uri p c r =
    (if is_usual c then Some (pu_check_uri, r)
     else if c = ch CHR ''.'' then Some (pu_uri, r\<lparr>r_complex_uri := True\<rparr>)
     else if c = ch CHR ''%'' then Some (pu_uri, r\<lparr>r_quoted_uri := True\<rparr>)
     else if c = ch CHR ''/'' then Some (pu_uri, r\<lparr>r_complex_uri := True\<rparr>)
     else if c = ch CHR ''?'' then Some (pu_uri, r\<lparr>r_args_start := Some (p + 1)\<rparr>)
     else if c = ch CHR ''#'' then Some (pu_uri, r\<lparr>r_complex_uri := True\<rparr>)
     else if c = ch CHR ''+'' then Some (pu_after_slash_in_uri, r\<lparr>r_plus_in_uri := True\<rparr>)
     else if c \<le> 0x20 \<or> c = 0x7f then None
     else Some (pu_check_uri, r))"

definition pu_do_check_uri ::
    "nat \<Rightarrow> u_char \<Rightarrow> ngx_http_request_t \<Rightarrow> (pu_state \<times> ngx_http_request_t) option" where
  "pu_do_check_uri p c r =
    (if is_usual c then Some (pu_check_uri, r)
     else if c = ch CHR ''/'' then Some (pu_after_slash_in_uri, r\<lparr>r_uri_ext := NULL\<rparr>)
     else if c = ch CHR ''.'' then Some (pu_check_uri, r\<lparr>r_uri_ext := Some (p + 1)\<rparr>)
     else if c = ch CHR ''%'' then Some (pu_uri, r\<lparr>r_quoted_uri := True\<rparr>)
     else if c = ch CHR ''?'' then Some (pu_uri, r\<lparr>r_args_start := Some (p + 1)\<rparr>)
     else if c = ch CHR ''#'' then Some (pu_uri, r\<lparr>r_complex_uri := True\<rparr>)
     else if c = ch CHR ''+'' then Some (pu_check_uri, r\<lparr>r_plus_in_uri := True\<rparr>)
     else if c \<le> 0x20 \<or> c = 0x7f then None
     else Some (pu_check_uri, r))"

definition pu_do_uri :: "u_char \<Rightarrow> ngx_http_request_t \<Rightarrow> (pu_state \<times> ngx_http_request_t) option" where
  "pu_do_uri c r =
    (if is_usual c then Some (pu_uri, r)
     else if c = ch CHR ''#'' then Some (pu_uri, r\<lparr>r_complex_uri := True\<rparr>)
     else if c \<le> 0x20 \<or> c = 0x7f then None
     else Some (pu_uri, r))"

fun pu_step :: "nat \<Rightarrow> u_char \<Rightarrow> pu_state \<Rightarrow> ngx_http_request_t \<Rightarrow> (pu_state \<times> ngx_http_request_t) option" where
  "pu_step p c pu_start r = (if c \<noteq> ch CHR ''/'' then None else Some (pu_after_slash_in_uri, r))"
| "pu_step p c pu_after_slash_in_uri r = pu_do_after_slash_in_uri p c r"
| "pu_step p c pu_check_uri r = pu_do_check_uri p c r"
| "pu_step p c pu_uri r = pu_do_uri c r"

fun pu_loop :: "nat \<Rightarrow> u_char list \<Rightarrow> pu_state \<Rightarrow> ngx_http_request_t \<Rightarrow> ngx_http_request_t option" where
  "pu_loop p [] l r = Some r"
| "pu_loop p (c # cs) l r = (case pu_step p c l r of None \<Rightarrow> None | Some (l', r') \<Rightarrow> pu_loop (p + 1) cs l' r')"

text \<open>\<^verbatim>\<open>None\<close> is \<^verbatim>\<open>NGX_ERROR\<close>.\<close>

definition ngx_http_parse_uri :: "u_char list \<Rightarrow> ngx_http_request_t \<Rightarrow> ngx_http_request_t option" where
  "ngx_http_parse_uri m r =
     pu_loop (the (r_uri_start r)) (piece m (the (r_uri_start r)) (the (r_uri_end r))) pu_start r"

section \<open>ngx\_http\_parse\_complex\_uri\<close>

datatype cu_state = cu_usual | cu_slash | cu_dot | cu_dot_dot | cu_quoted | cu_quoted_second

text \<open>The local variables; \<open>cu_ext\<close> is \<^verbatim>\<open>r->uri_ext\<close> as an offset of the output.\<close>

record cu_vars =
  cu_st :: cu_state
  cu_quoted_st :: cu_state
  cu_decoded :: u_char
  cu_out :: "u_char list"
  cu_ext :: ptr
  cu_plus :: bool
  cu_quoted_uri :: bool

datatype cu_verdict = Cu_next cu_vars | Cu_args cu_vars | Cu_done cu_vars | Cu_invalid

definition emit :: "u_char \<Rightarrow> cu_vars \<Rightarrow> cu_vars" where
  "emit c s = s\<lparr>cu_out := cu_out s @ [c]\<rparr>"

definition enter_quoted :: "cu_vars \<Rightarrow> cu_vars" where
  "enter_quoted s = s\<lparr>cu_quoted_st := cu_st s, cu_st := cu_quoted\<rparr>"

text \<open>
  \<^verbatim>\<open>u -= 4\<close> and the search for the previous slash, from the offset \<open>i\<close> downwards.
\<close>

fun back_to_slash :: "u_char list \<Rightarrow> nat \<Rightarrow> u_char list option" where
  "back_to_slash out 0 = (if out ! 0 = ch CHR ''/'' then Some (take 1 out) else None)"
| "back_to_slash out (Suc i) =
     (if out ! Suc i = ch CHR ''/'' then Some (take (Suc i + 1) out) else back_to_slash out i)"

definition remove_dir :: "u_char list \<Rightarrow> u_char list option" where
  "remove_dir out = (if length out < 4 then None else back_to_slash out (length out - 4))"

definition cu_do_usual :: "u_char \<Rightarrow> cu_vars \<Rightarrow> cu_verdict" where
  "cu_do_usual c s =
    (if is_usual c then Cu_next (emit c s)
     else if c = ch CHR ''/'' then Cu_next ((emit c s)\<lparr>cu_ext := NULL, cu_st := cu_slash\<rparr>)
     else if c = ch CHR ''%'' then Cu_next (enter_quoted s)
     else if c = ch CHR ''?'' then Cu_args s
     else if c = ch CHR ''#'' then Cu_done s
     else if c = ch CHR ''.'' then Cu_next ((emit c s)\<lparr>cu_ext := Some (length (cu_out s) + 1)\<rparr>)
     else if c = ch CHR ''+'' then Cu_next ((emit c s)\<lparr>cu_plus := True\<rparr>)
     else Cu_next (emit c s))"

definition cu_do_slash :: "bool \<Rightarrow> u_char \<Rightarrow> cu_vars \<Rightarrow> cu_verdict" where
  "cu_do_slash merge_slashes c s =
    (if is_usual c then Cu_next ((emit c s)\<lparr>cu_st := cu_usual\<rparr>)
     else if c = ch CHR ''/'' then Cu_next (if \<not> merge_slashes then emit c s else s)
     else if c = ch CHR ''.'' then Cu_next ((emit c s)\<lparr>cu_st := cu_dot\<rparr>)
     else if c = ch CHR ''%'' then Cu_next (enter_quoted s)
     else if c = ch CHR ''?'' then Cu_args s
     else if c = ch CHR ''#'' then Cu_done s
     else if c = ch CHR ''+'' then Cu_next ((emit c s)\<lparr>cu_st := cu_usual, cu_plus := True\<rparr>)
     else Cu_next ((emit c s)\<lparr>cu_st := cu_usual\<rparr>))"

definition cu_do_dot :: "u_char \<Rightarrow> cu_vars \<Rightarrow> cu_verdict" where
  "cu_do_dot c s =
    (let back = s\<lparr>cu_out := butlast (cu_out s)\<rparr> in
     if is_usual c then Cu_next ((emit c s)\<lparr>cu_st := cu_usual\<rparr>)
     else if c = ch CHR ''/'' then Cu_next (back\<lparr>cu_st := cu_slash\<rparr>)
     else if c = ch CHR ''.'' then Cu_next ((emit c s)\<lparr>cu_st := cu_dot_dot\<rparr>)
     else if c = ch CHR ''%'' then Cu_next (enter_quoted s)
     else if c = ch CHR ''?'' then Cu_args back
     else if c = ch CHR ''#'' then Cu_done back
     else if c = ch CHR ''+'' then Cu_next ((emit c s)\<lparr>cu_st := cu_usual, cu_plus := True\<rparr>)
     else Cu_next ((emit c s)\<lparr>cu_st := cu_usual\<rparr>))"

definition cu_do_dot_dot :: "u_char \<Rightarrow> cu_vars \<Rightarrow> cu_verdict" where
  "cu_do_dot_dot c s =
    (if is_usual c then Cu_next ((emit c s)\<lparr>cu_st := cu_usual\<rparr>)
     else if c = ch CHR ''/'' \<or> c = ch CHR ''?'' \<or> c = ch CHR ''#'' then
       (case remove_dir (cu_out s) of
          None \<Rightarrow> Cu_invalid
        | Some out \<Rightarrow>
            let s = s\<lparr>cu_out := out\<rparr> in
            if c = ch CHR ''?'' then Cu_args s
            else if c = ch CHR ''#'' then Cu_done s
            else Cu_next (s\<lparr>cu_st := cu_slash\<rparr>))
     else if c = ch CHR ''%'' then Cu_next (enter_quoted s)
     else if c = ch CHR ''+'' then Cu_next ((emit c s)\<lparr>cu_st := cu_usual, cu_plus := True\<rparr>)
     else Cu_next ((emit c s)\<lparr>cu_st := cu_usual\<rparr>))"

definition cu_dispatch :: "bool \<Rightarrow> u_char \<Rightarrow> cu_vars \<Rightarrow> cu_verdict" where
  "cu_dispatch merge_slashes c s =
    (case cu_st s of
       cu_usual \<Rightarrow> cu_do_usual c s
     | cu_slash \<Rightarrow> cu_do_slash merge_slashes c s
     | cu_dot \<Rightarrow> cu_do_dot c s
     | cu_dot_dot \<Rightarrow> cu_do_dot_dot c s
     | _ \<Rightarrow> Cu_invalid)"

definition cu_do_quoted :: "u_char \<Rightarrow> cu_vars \<Rightarrow> cu_verdict" where
  "cu_do_quoted c s =
    (let s = s\<lparr>cu_quoted_uri := True\<rparr>; l = c OR 0x20 in
     if is_digit c then Cu_next (s\<lparr>cu_decoded := c - ch CHR ''0'', cu_st := cu_quoted_second\<rparr>)
     else if ch CHR ''a'' \<le> l \<and> l \<le> ch CHR ''f''
     then Cu_next (s\<lparr>cu_decoded := l - ch CHR ''a'' + 10, cu_st := cu_quoted_second\<rparr>)
     else Cu_invalid)"

text \<open>
  The decoded byte is handled in the state the escape was met in, except for the bytes that would
  otherwise start an escape, the arguments or the fragment.
\<close>

definition cu_do_quoted_second :: "bool \<Rightarrow> u_char \<Rightarrow> cu_vars \<Rightarrow> cu_verdict" where
  "cu_do_quoted_second merge_slashes c s =
    (let l = c OR 0x20 in
     if is_digit c then
       let d = push_bit 4 (cu_decoded s) + (c - ch CHR ''0'') in
       if d = ch CHR ''%'' \<or> d = ch CHR ''#'' then Cu_next ((emit d s)\<lparr>cu_st := cu_usual\<rparr>)
       else if d = 0 then Cu_invalid
       else cu_dispatch merge_slashes d (s\<lparr>cu_st := cu_quoted_st s\<rparr>)
     else if ch CHR ''a'' \<le> l \<and> l \<le> ch CHR ''f'' then
       let d = push_bit 4 (cu_decoded s) + (l - ch CHR ''a'') + 10 in
       if d = ch CHR ''?'' then Cu_next ((emit d s)\<lparr>cu_st := cu_usual\<rparr>)
       else
         let s = (if d = ch CHR ''+'' then s\<lparr>cu_plus := True\<rparr> else s) in
         cu_dispatch merge_slashes d (s\<lparr>cu_st := cu_quoted_st s\<rparr>)
     else Cu_invalid)"

definition cu_step :: "bool \<Rightarrow> u_char \<Rightarrow> cu_vars \<Rightarrow> cu_verdict" where
  "cu_step merge_slashes c s =
    (case cu_st s of
       cu_quoted \<Rightarrow> cu_do_quoted c s
     | cu_quoted_second \<Rightarrow> cu_do_quoted_second merge_slashes c s
     | _ \<Rightarrow> cu_dispatch merge_slashes c s)"

text \<open>
  The loop over the bytes of the URI; the result has the number of bytes read.
\<close>

fun cu_loop :: "bool \<Rightarrow> nat \<Rightarrow> u_char list \<Rightarrow> cu_vars \<Rightarrow> cu_verdict \<times> nat" where
  "cu_loop merge_slashes k [] s = (Cu_next s, k)"
| "cu_loop merge_slashes k (c # cs) s =
    (case cu_step merge_slashes c s of
       Cu_next s' \<Rightarrow> cu_loop merge_slashes (k + 1) cs s'
     | v \<Rightarrow> (v, k + 1))"

text \<open>After the loop, before the label \<^verbatim>\<open>done\<close>: the output, unless the URI ends too early.\<close>

definition cu_end :: "cu_vars \<Rightarrow> cu_vars option" where
  "cu_end s =
    (case cu_st s of
       cu_quoted \<Rightarrow> None
     | cu_quoted_second \<Rightarrow> None
     | cu_dot \<Rightarrow> Some (s\<lparr>cu_out := butlast (cu_out s)\<rparr>)
     | cu_dot_dot \<Rightarrow> map_option (\<lambda>out. s\<lparr>cu_out := out\<rparr>) (remove_dir (cu_out s))
     | _ \<Rightarrow> Some s)"

text \<open>The labels \<^verbatim>\<open>done\<close> and \<^verbatim>\<open>args\<close> store the path and the extension.\<close>

definition cu_store :: "cu_vars \<Rightarrow> ngx_http_uri_t \<Rightarrow> ngx_http_uri_t" where
  "cu_store s u =
    (let u = u\<lparr>u_uri := cu_out s\<rparr> in
     case cu_ext s of NULL \<Rightarrow> u | Some e \<Rightarrow> u\<lparr>u_exten := drop e (cu_out s)\<rparr>)"

text \<open>At the label \<^verbatim>\<open>args\<close>: a fragment ends the arguments.\<close>

definition cu_store_args :: "nat \<Rightarrow> u_char list \<Rightarrow> ngx_http_request_t \<Rightarrow> ngx_http_uri_t
    \<Rightarrow> ngx_http_request_t \<times> ngx_http_uri_t" where
  "cu_store_args args_start rest r u =
    (if ch CHR ''#'' \<in> set rest
     then (r\<lparr>r_args_start := NULL\<rparr>, u\<lparr>u_args := takeWhile (\<lambda>c. c \<noteq> ch CHR ''#'') rest\<rparr>)
     else (r\<lparr>r_args_start := Some args_start\<rparr>, u))"

definition cu_init :: "ngx_http_request_t \<Rightarrow> cu_vars" where
  "cu_init r = \<lparr>cu_st = cu_usual, cu_quoted_st = cu_usual, cu_decoded = 0,
     cu_out = (if r_empty_path_in_uri r then [ch CHR ''/''] else []), cu_ext = NULL,
     cu_plus = r_plus_in_uri r, cu_quoted_uri = r_quoted_uri r\<rparr>"

definition cu_flags :: "cu_vars \<Rightarrow> ngx_http_request_t \<Rightarrow> ngx_http_request_t" where
  "cu_flags s r = r\<lparr>r_plus_in_uri := cu_plus s, r_quoted_uri := cu_quoted_uri s\<rparr>"

text \<open>\<^verbatim>\<open>None\<close> is \<^verbatim>\<open>NGX_HTTP_PARSE_INVALID_REQUEST\<close>.\<close>

definition ngx_http_parse_complex_uri :: "u_char list \<Rightarrow> ngx_http_request_t \<Rightarrow> ngx_http_uri_t \<Rightarrow> bool
    \<Rightarrow> (ngx_http_request_t \<times> ngx_http_uri_t) option" where
  "ngx_http_parse_complex_uri m r u merge_slashes =
    (let start = the (r_uri_start r); src = piece m start (the (r_uri_end r));
         r0 = r\<lparr>r_uri_ext := NULL, r_args_start := NULL\<rparr> in
     case cu_loop merge_slashes 0 src (cu_init r) of
       (Cu_invalid, k) \<Rightarrow> None
     | (Cu_next s, k) \<Rightarrow>
         (case cu_end s of
            None \<Rightarrow> None
          | Some s' \<Rightarrow> Some (cu_flags s' r0, cu_store s' u))
     | (Cu_done s, k) \<Rightarrow> Some (cu_flags s r0, cu_store s u)
     | (Cu_args s, k) \<Rightarrow> Some (cu_store_args (start + k) (drop k src) (cu_flags s r0) (cu_store s u)))"

section \<open>ngx\_http\_process\_request\_uri\<close>

text \<open>
  \<open>alloc\<close> is whether the allocation of the output succeeds; \<^verbatim>\<open>Inl\<close> has the status the request is
  finalised with.
\<close>

definition ngx_http_process_request_uri :: "bool \<Rightarrow> u_char list \<Rightarrow> ngx_http_request_t \<Rightarrow> ngx_http_uri_t \<Rightarrow> bool
    \<Rightarrow> int + ngx_http_request_t \<times> ngx_http_uri_t" where
  "ngx_http_process_request_uri alloc m r u merge_slashes =
    (let start = the (r_uri_start r); stop = the (r_uri_end r);
         uri_end = (case r_args_start r of NULL \<Rightarrow> stop | Some a \<Rightarrow> a - 1);
         res = (if r_complex_uri r \<or> r_quoted_uri r \<or> r_empty_path_in_uri r then
                  if \<not> alloc then Inl 500
                  else case ngx_http_parse_complex_uri m r u merge_slashes of
                    None \<Rightarrow> Inl 400 | Some x \<Rightarrow> Inr x
                else Inr (r, u\<lparr>u_uri := piece m start uri_end\<rparr>)) in
     case res of
       Inl e \<Rightarrow> Inl e
     | Inr (r, u) \<Rightarrow>
         let u = u\<lparr>u_unparsed_uri := piece m start stop,
                   u_valid_unparsed_uri := \<not> r_empty_path_in_uri r\<rparr>;
             u = (case r_uri_ext r of NULL \<Rightarrow> u
                  | Some x \<Rightarrow> (case r_args_start r of
                      NULL \<Rightarrow> u\<lparr>u_exten := piece m x stop\<rparr>
                    | Some a \<Rightarrow> u\<lparr>u_exten := piece m x (a - 1)\<rparr>));
             u = (case r_args_start r of NULL \<Rightarrow> u
                  | Some a \<Rightarrow> if stop > a then u\<lparr>u_args := piece m a stop\<rparr> else u) in
         Inr (r, u))"

section \<open>ngx\_http\_parse\_unsafe\_uri\<close>

text \<open>The test for \<^verbatim>\<open>..\<close> and \<^verbatim>\<open>../\<close> at the start of the remaining bytes.\<close>

definition dot_dot_prefix :: "u_char list \<Rightarrow> bool" where
  "dot_dot_prefix w \<longleftrightarrow> length w > 1 \<and> w ! 0 = ch CHR ''.'' \<and> w ! 1 = ch CHR ''.''
     \<and> (length w = 2 \<or> w ! 2 = ch CHR ''/'')"

text \<open>
  The first loop: \<^verbatim>\<open>None\<close> is \<^verbatim>\<open>goto unsafe\<close>; otherwise whether an escape was seen, and the
  path and the arguments, if there is a question mark.  \<open>w\<close> are the bytes from \<^verbatim>\<open>p\<close> on.
\<close>

fun unsafe_scan :: "bool \<Rightarrow> u_char list \<Rightarrow> u_char list \<Rightarrow> (bool \<times> u_char list \<times> u_char list option) option" where
  "unsafe_scan quoted seen [] = Some (quoted, seen, None)"
| "unsafe_scan quoted seen (c # w) =
    (if c = ch CHR ''%'' then unsafe_scan True (seen @ [c]) w
     else if is_usual c then unsafe_scan quoted (seen @ [c]) w
     else if c = ch CHR ''?'' then Some (quoted, seen, Some w)
     else if c = 0 then None
     else if c = ch CHR ''/'' \<and> length (c # w) > 2 \<and> w ! 0 = ch CHR ''.'' \<and> w ! 1 = ch CHR ''.''
       \<and> (length (c # w) = 3 \<or> w ! 2 = ch CHR ''/'') then None
     else unsafe_scan quoted (seen @ [c]) w)"

text \<open>The second loop, on the unescaped path: whether it passes.\<close>

fun unsafe_rescan :: "u_char list \<Rightarrow> bool" where
  "unsafe_rescan [] = True"
| "unsafe_rescan (c # w) =
    (if c = 0 then False
     else if c = ch CHR ''/'' \<and> length (c # w) > 2 \<and> w ! 0 = ch CHR ''.'' \<and> w ! 1 = ch CHR ''.''
       \<and> (length (c # w) = 3 \<or> w ! 2 = ch CHR ''/'') then False
     else unsafe_rescan w)"

text \<open>
  The new \<^verbatim>\<open>uri\<close> and, if it is set, \<^verbatim>\<open>args\<close>; \<^verbatim>\<open>None\<close> is \<^verbatim>\<open>NGX_ERROR\<close>.  An unescaped path that has
  become empty would be read at its first byte; the test on its length comes first here.
\<close>

definition ngx_http_parse_unsafe_uri :: "bool \<Rightarrow> u_char list \<Rightarrow> (u_char list \<times> u_char list option) option" where
  "ngx_http_parse_unsafe_uri alloc uri =
    (if uri = [] \<or> hd uri = ch CHR ''?'' then None
     else if dot_dot_prefix uri then None
     else case unsafe_scan False [] uri of
       None \<Rightarrow> None
     | Some (quoted, path, args) \<Rightarrow>
         if quoted then
           if \<not> alloc then None
           else
             let path = fst (ngx_unescape_uri path 0) in
             if dot_dot_prefix path then None
             else if unsafe_rescan path then Some (path, args) else None
         else Some (path, args))"

end
