(* ===== verification/Ngx_Http_Uri_Correct.thy ===== *)
theory Ngx_Http_Uri_Correct
  imports Ngx_Http_Uri
begin

text \<open>
  Correctness of the URI functions: the path that comes out of the normalisation has no segment
  \<^verbatim>\<open>.\<close> or \<^verbatim>\<open>..\<close>, starts with a slash and is not longer than what was read; a URI without special
  characters may skip the normalisation; and what \<^verbatim>\<open>ngx_http_parse_unsafe_uri\<close> accepts does not
  climb out of its directory.
\<close>

section \<open>Paths\<close>

text \<open>
  The segment under construction, and paths whose complete segments, those ended by a slash, are
  neither \<^verbatim>\<open>.\<close> nor \<^verbatim>\<open>..\<close>.
\<close>

definition last_seg :: "u_char list \<Rightarrow> u_char list" where
  "last_seg out = rev (takeWhile (\<lambda>c. c \<noteq> ch CHR ''/'') (rev out))"

definition dot_seg :: "u_char list \<Rightarrow> bool" where
  "dot_seg s \<longleftrightarrow> s = bytes ''.'' \<or> s = bytes ''..''"

definition clean_dirs :: "u_char list \<Rightarrow> bool" where
  "clean_dirs out \<longleftrightarrow> (\<forall>i < length out. out ! i = ch CHR ''/'' \<longrightarrow> \<not> dot_seg (last_seg (take i out)))"

text \<open>A path with no segment \<^verbatim>\<open>.\<close> or \<^verbatim>\<open>..\<close> at all, the last one included.\<close>

definition clean_path :: "u_char list \<Rightarrow> bool" where
  "clean_path out \<longleftrightarrow> out \<noteq> [] \<and> hd out = ch CHR ''/'' \<and> clean_dirs out \<and> \<not> dot_seg (last_seg out)"

lemma last_seg_Nil [simp]: "last_seg [] = []"
  by (simp add: last_seg_def)

lemma last_seg_snoc [simp]: "last_seg (out @ [c]) = (if c = 0x2f then [] else last_seg out @ [c])"
  by (simp add: last_seg_def)

lemma clean_dirs_Nil [simp]: "clean_dirs []"
  by (simp add: clean_dirs_def)

lemma clean_dirs_snoc [simp]:
  "clean_dirs (out @ [c]) \<longleftrightarrow> clean_dirs out \<and> (c = 0x2f \<longrightarrow> \<not> dot_seg (last_seg out))"
  by (auto simp: clean_dirs_def nth_append less_Suc_eq)

lemma clean_dirs_take: "clean_dirs out \<Longrightarrow> clean_dirs (take n out)"
  by (simp add: clean_dirs_def)

lemma dot_seg_Nil [simp]: "\<not> dot_seg []"
  by (simp add: dot_seg_def bytes_def)

lemma dot_seg_snoc: "dot_seg (s @ [c]) \<longleftrightarrow> (s = [] \<or> s = [0x2e]) \<and> c = 0x2e"
  by (cases s) (auto simp: dot_seg_def bytes_def)

lemma last_seg_dot: "last_seg out = s @ [0x2e] \<Longrightarrow> \<exists>out'. out = out' @ [0x2e] \<and> last_seg out' = s"
  by (cases out rule: rev_cases) (auto split: if_splits)

section \<open>The directory is removed\<close>

lemma back_to_slash_Some:
  "back_to_slash out i = Some out' \<Longrightarrow> i < length out \<Longrightarrow>
     \<exists>j \<le> i. out ! j = 0x2f \<and> out' = take (Suc j) out"
  by (induction i) (auto split: if_splits intro: le_SucI)

lemma remove_dir_Some:
  assumes "remove_dir out = Some out'" "clean_dirs out" "hd out = 0x2f"
  shows "out' \<noteq> [] \<and> hd out' = 0x2f \<and> clean_dirs out' \<and> last_seg out' = [] \<and> length out' + 3 \<le> length out
    \<and> (\<exists>o1. out' = o1 @ [0x2f])"
proof -
  from assms(1) have len: "4 \<le> length out" "back_to_slash out (length out - 4) = Some out'"
    by (auto simp: remove_dir_def split: if_splits)
  have "length out - 4 < length out" using len(1) by simp
  from back_to_slash_Some [OF len(2) this] obtain j where
    j: "j \<le> length out - 4" "out ! j = 0x2f" "out' = take (Suc j) out" by auto
  then have o: "out' = take j out @ [0x2f]" using len(1) by (simp add: take_Suc_conv_app_nth)
  have "last_seg out' = []" unfolding o by simp
  moreover have "out' \<noteq> [] \<and> hd out' = 0x2f" using j(3) assms(3) len(1) by (cases out) auto
  moreover have "clean_dirs out'" using clean_dirs_take [OF assms(2)] j(3) by simp
  moreover have "length out' + 3 \<le> length out" using j(1,3) len(1) by simp
  ultimately show ?thesis using o by blast
qed

section \<open>The invariant\<close>

text \<open>
  What the state knows of the segment under construction; \<open>n\<close> is the number of bytes read, \<open>e\<close> the
  slash written in advance for an empty path.
\<close>

definition seg_inv :: "cu_state \<Rightarrow> u_char list \<Rightarrow> bool" where
  "seg_inv st out \<longleftrightarrow> out \<noteq> [] \<and> hd out = 0x2f \<and> clean_dirs out \<and> (case st of
     cu_usual \<Rightarrow> last_seg out \<noteq> [] \<and> \<not> dot_seg (last_seg out)
   | cu_slash \<Rightarrow> last_seg out = []
   | cu_dot \<Rightarrow> last_seg out = [0x2e]
   | cu_dot_dot \<Rightarrow> last_seg out = [0x2e, 0x2e]
   | _ \<Rightarrow> False)"

definition ext_inv :: "cu_vars \<Rightarrow> bool" where
  "ext_inv s \<longleftrightarrow> (case cu_ext s of NULL \<Rightarrow> True | Some e \<Rightarrow> e \<le> length (cu_out s))"

definition cu_inv :: "nat \<Rightarrow> cu_vars \<Rightarrow> bool" where
  "cu_inv n s \<longleftrightarrow> length (cu_out s) \<le> n \<and>
    (case cu_st s of
       cu_quoted \<Rightarrow> seg_inv (cu_quoted_st s) (cu_out s) \<and> length (cu_out s) + 1 \<le> n
     | cu_quoted_second \<Rightarrow> seg_inv (cu_quoted_st s) (cu_out s) \<and> length (cu_out s) + 2 \<le> n
     | st \<Rightarrow> seg_inv st (cu_out s))"

definition cu_verdict_ok :: "nat \<Rightarrow> cu_verdict \<Rightarrow> bool" where
  "cu_verdict_ok n v \<longleftrightarrow> (case v of
     Cu_next s \<Rightarrow> cu_inv n s
   | Cu_args s \<Rightarrow> clean_path (cu_out s) \<and> length (cu_out s) \<le> n
   | Cu_done s \<Rightarrow> clean_path (cu_out s) \<and> length (cu_out s) \<le> n
   | Cu_invalid \<Rightarrow> True)"

lemma seg_inv_clean:
  "seg_inv cu_usual out \<Longrightarrow> clean_path out" "seg_inv cu_slash out \<Longrightarrow> clean_path out"
  by (auto simp: seg_inv_def clean_path_def)

lemma seg_inv_char:
  "seg_inv cu_usual out \<Longrightarrow> c \<noteq> 0x2f \<Longrightarrow> seg_inv cu_usual (out @ [c])"
  "seg_inv cu_slash out \<Longrightarrow> c \<noteq> 0x2f \<Longrightarrow> c \<noteq> 0x2e \<Longrightarrow> seg_inv cu_usual (out @ [c])"
  "seg_inv cu_dot out \<Longrightarrow> c \<noteq> 0x2f \<Longrightarrow> c \<noteq> 0x2e \<Longrightarrow> seg_inv cu_usual (out @ [c])"
  "seg_inv cu_dot_dot out \<Longrightarrow> c \<noteq> 0x2f \<Longrightarrow> seg_inv cu_usual (out @ [c])"
  "seg_inv cu_usual out \<Longrightarrow> seg_inv cu_slash (out @ [0x2f])"
  "seg_inv cu_slash out \<Longrightarrow> seg_inv cu_slash (out @ [0x2f])"
  "seg_inv cu_slash out \<Longrightarrow> seg_inv cu_dot (out @ [0x2e])"
  "seg_inv cu_dot out \<Longrightarrow> seg_inv cu_dot_dot (out @ [0x2e])"
  by (auto simp: seg_inv_def dot_seg_snoc) (auto simp: dot_seg_def bytes_def)

lemma seg_inv_undo_dot: "seg_inv cu_dot out \<Longrightarrow> seg_inv cu_slash (butlast out)"
proof -
  assume inv: "seg_inv cu_dot out"
  then obtain out' where "out = out' @ [0x2e]" "last_seg out' = []"
    using last_seg_dot [of out "[]"] by (auto simp: seg_inv_def)
  moreover from this inv have "clean_dirs out'" by (simp add: seg_inv_def)
  moreover from calculation inv have "out' \<noteq> [] \<and> hd out' = 0x2f"
    by (cases out') (auto simp: seg_inv_def)
  ultimately show ?thesis by (simp add: seg_inv_def)
qed

lemma seg_inv_remove_dir:
  "seg_inv cu_dot_dot out \<Longrightarrow> remove_dir out = Some out' \<Longrightarrow> seg_inv cu_slash out' \<and> length out' < length out"
  using remove_dir_Some [of out out'] by (auto simp: seg_inv_def)

lemma cu_inv_plain: "cu_st s = st \<Longrightarrow> st \<notin> {cu_quoted, cu_quoted_second} \<Longrightarrow>
    cu_inv n s \<longleftrightarrow> length (cu_out s) \<le> n \<and> seg_inv st (cu_out s)"
  by (cases st) (auto simp: cu_inv_def)

lemma cu_next_ok:
  "st \<notin> {cu_quoted, cu_quoted_second} \<Longrightarrow> seg_inv st (cu_out s) \<Longrightarrow> length (cu_out s) \<le> n \<Longrightarrow> cu_st s = st \<Longrightarrow>
     cu_verdict_ok n (Cu_next s)"
  by (simp add: cu_verdict_ok_def cu_inv_plain)

lemma is_usual_not_special: "is_usual c \<Longrightarrow> c \<noteq> 0x2f \<and> c \<noteq> 0x2e"
  by (auto simp: is_usual_iff bytes_def)

lemma cu_quote_ok:
  assumes "seg_inv (cu_st s) (cu_out s)" "length (cu_out s) + 1 \<le> n"
  shows "cu_verdict_ok n (Cu_next (enter_quoted s))"
  using assms by (simp add: cu_verdict_ok_def cu_inv_def enter_quoted_def)

text \<open>The plain states, on the next byte of the URI or on a decoded one.\<close>

lemma cu_dispatch_ok:
  assumes "seg_inv (cu_st s) (cu_out s)" "length (cu_out s) + 1 \<le> n"
  shows "cu_verdict_ok n (cu_dispatch merge_slashes c s)"
proof (cases "cu_st s")
  case cu_usual
  have i: "seg_inv cu_usual (cu_out s)" using assms(1) cu_usual by simp
  show ?thesis
    using assms(2) cu_quote_ok [OF assms] seg_inv_clean(1) [OF i] seg_inv_char(1,5) [OF i]
      is_usual_not_special [of c]
    by (auto simp: cu_dispatch_def cu_usual cu_do_usual_def cu_verdict_ok_def emit_def cu_inv_plain)
next
  case cu_slash
  have i: "seg_inv cu_slash (cu_out s)" using assms(1) cu_slash by simp
  show ?thesis
    using assms(2) cu_quote_ok [OF assms] seg_inv_clean(2) [OF i] seg_inv_char(2,6,7) [OF i] i
      is_usual_not_special [of c]
    by (auto simp: cu_dispatch_def cu_slash cu_do_slash_def cu_verdict_ok_def emit_def cu_inv_plain)
next
  case cu_dot
  have i: "seg_inv cu_dot (cu_out s)" using assms(1) cu_dot by simp
  show ?thesis
    using assms(2) cu_quote_ok [OF assms] seg_inv_clean(2) [OF seg_inv_undo_dot [OF i]]
      seg_inv_char(3,8) [OF i] seg_inv_undo_dot [OF i] is_usual_not_special [of c]
    by (auto simp: cu_dispatch_def cu_dot cu_do_dot_def cu_verdict_ok_def emit_def cu_inv_plain Let_def)
next
  case cu_dot_dot
  have i: "seg_inv cu_dot_dot (cu_out s)" using assms(1) cu_dot_dot by simp
  show ?thesis
    using assms(2) cu_quote_ok [OF assms] seg_inv_remove_dir [OF i] seg_inv_char(4) [OF i]
      is_usual_not_special [of c]
    by (auto simp: cu_dispatch_def cu_dot_dot cu_do_dot_dot_def cu_verdict_ok_def emit_def cu_inv_plain
        Let_def split: option.split dest: seg_inv_clean(2))
qed (use assms in \<open>simp_all add: cu_dispatch_def cu_verdict_ok_def\<close>)

lemma cu_verdict_ok_if:
  "(b \<Longrightarrow> cu_verdict_ok n x) \<Longrightarrow> (\<not> b \<Longrightarrow> cu_verdict_ok n y) \<Longrightarrow> cu_verdict_ok n (if b then x else y)"
  by simp

lemma cu_step_ok:
  assumes "cu_inv n s"
  shows "cu_verdict_ok (n + 1) (cu_step merge_slashes c s)"
proof (cases "cu_st s")
  case cu_quoted
  with assms show ?thesis
    by (auto simp: cu_step_def cu_do_quoted_def cu_verdict_ok_def cu_inv_def Let_def)
next
  case cu_quoted_second
  with assms have i: "seg_inv (cu_quoted_st s) (cu_out s)" "length (cu_out s) + 2 \<le> n"
    by (simp_all add: cu_inv_def)
  have literal: "cu_verdict_ok (n + 1) (Cu_next ((emit d s)\<lparr>cu_st := cu_usual\<rparr>))"
    if "d \<noteq> 0x2f" "d \<noteq> 0x2e" for d
  proof -
    have "seg_inv cu_usual (cu_out s @ [d])"
      using i(1) that seg_inv_char(1-4) [of "cu_out s" d]
      by (cases "cu_quoted_st s") (auto simp: seg_inv_def)
    then show ?thesis using i(2) by (simp add: cu_verdict_ok_def cu_inv_plain emit_def)
  qed
  have disp: "cu_verdict_ok (n + 1) (cu_dispatch merge_slashes d (t\<lparr>cu_st := cu_quoted_st t\<rparr>))"
    if "cu_quoted_st t = cu_quoted_st s" "cu_out t = cu_out s" for d t
    using i that by (intro cu_dispatch_ok) auto
  show ?thesis
    unfolding cu_step_def cu_quoted_second cu_state.case cu_do_quoted_second_def Let_def
    by (intro cu_verdict_ok_if literal disp) (auto simp: cu_verdict_ok_def)
qed (use assms cu_dispatch_ok [of s "n + 1" merge_slashes c] in \<open>auto simp: cu_step_def cu_inv_def\<close>)

lemma cu_loop_ok:
  assumes "cu_inv (k + e) s" "cu_loop merge_slashes k src s = (v, k')"
  shows "cu_verdict_ok (k' + e) v \<and> k' \<le> k + length src"
  using assms
proof (induction src arbitrary: k s)
  case Nil
  then show ?case by (auto simp: cu_verdict_ok_def)
next
  case (Cons c src)
  note st = cu_step_ok [OF Cons.prems(1), of merge_slashes c]
  show ?case
  proof (cases "cu_step merge_slashes c s")
    case (Cu_next s')
    with st Cons.prems(2) have inv: "cu_inv (k + 1 + e) s'" "cu_loop merge_slashes (k + 1) src s' = (v, k')"
      by (auto simp: cu_verdict_ok_def)
    from Cons.IH [OF this] show ?thesis by simp
  qed (use st Cons.prems(2) in auto)
qed

lemma cu_end_ok:
  assumes "cu_inv n s" "cu_end s = Some s'"
  shows "clean_path (cu_out s') \<and> length (cu_out s') \<le> n"
  using assms seg_inv_clean seg_inv_undo_dot [of "cu_out s"] seg_inv_remove_dir [of "cu_out s"]
  by (cases "cu_st s") (fastforce simp: cu_end_def cu_inv_def)+

text \<open>
  A URI as the request line parser leaves it: it starts with a slash, or the path is empty and the
  arguments follow at once.
\<close>

definition uri_start_ok :: "bool \<Rightarrow> u_char list \<Rightarrow> bool" where
  "uri_start_ok empty_path src \<longleftrightarrow>
     src \<noteq> [] \<and> hd src = (if empty_path then ch CHR ''?'' else ch CHR ''/'')"

lemma cu_run_ok:
  assumes "uri_start_ok (r_empty_path_in_uri r) src" "cu_loop merge_slashes 0 src (cu_init r) = (v, k)"
  shows "k \<le> length src \<and> cu_verdict_ok (k + (if r_empty_path_in_uri r then 1 else 0)) v"
proof -
  obtain c cs where src: "src = c # cs" using assms(1) by (cases src) (auto simp: uri_start_ok_def)
  have nu: "\<not> is_usual 0x2f" "\<not> is_usual 0x3f" by (auto simp: is_usual_iff bytes_def)
  show ?thesis
  proof (cases "r_empty_path_in_uri r")
    case True
    then have "c = 0x3f" using assms(1) src by (simp add: uri_start_ok_def)
    with True assms(2) src nu have "v = Cu_args (cu_init r)" "k = 1"
      by (simp_all add: cu_step_def cu_dispatch_def cu_do_usual_def cu_init_def)
    moreover have "clean_path [0x2f]"
      using clean_dirs_snoc [of "[]" "0x2f"] last_seg_snoc [of "[]" "0x2f"] by (simp add: clean_path_def)
    ultimately show ?thesis using True src by (simp add: cu_verdict_ok_def cu_init_def)
  next
    case False
    then have c: "c = 0x2f" using assms(1) src by (simp add: uri_start_ok_def)
    define s1 where "s1 = (cu_init r)\<lparr>cu_out := [0x2f], cu_ext := NULL, cu_st := cu_slash\<rparr>"
    have "seg_inv cu_slash [0x2f]"
      using clean_dirs_snoc [of "[]" "0x2f"] last_seg_snoc [of "[]" "0x2f"] by (simp add: seg_inv_def)
    then have inv: "cu_inv 1 s1" by (simp add: s1_def cu_inv_def)
    have "cu_loop merge_slashes 1 cs s1 = (v, k)"
      using assms(2) src c nu False
      by (simp add: cu_step_def cu_dispatch_def cu_do_usual_def cu_init_def emit_def s1_def)
    from cu_loop_ok [where e = 0, OF _ this] inv show ?thesis using src False by simp
  qed
qed

text \<open>
  C4: Normalised paths stay below the root.  When \<^verbatim>\<open>ngx_http_parse_complex_uri\<close> accepts a URI, its path
  starts with a slash and has no segment \<^verbatim>\<open>.\<close> or \<^verbatim>\<open>..\<close>, however these were escaped, and it is
  not longer than the URI (and the slash written for an empty path).
\<close>

theorem ngx_http_parse_complex_uri_clean:
  assumes "ngx_http_parse_complex_uri m r u merge_slashes = Some (r', u')"
    and "uri_start_ok (r_empty_path_in_uri r) (piece m (the (r_uri_start r)) (the (r_uri_end r)))"
  shows "clean_path (u_uri u') \<and> length (u_uri u') \<le>
    length (piece m (the (r_uri_start r)) (the (r_uri_end r))) + (if r_empty_path_in_uri r then 1 else 0)"
proof -
  let ?src = "piece m (the (r_uri_start r)) (the (r_uri_end r))"
  obtain v k where l: "cu_loop merge_slashes 0 ?src (cu_init r) = (v, k)" by fastforce
  note run = cu_run_ok [OF assms(2) l]
  have st: "u_uri (cu_store s u) = cu_out s" for s
    by (simp add: cu_store_def Let_def split: option.split)
  show ?thesis
  proof (cases v)
    case (Cu_next s)
    then obtain s' where "cu_end s = Some s'" "u' = cu_store s' u"
      using assms(1) l by (auto simp: ngx_http_parse_complex_uri_def Let_def split: option.splits)
    with cu_end_ok run Cu_next st show ?thesis by (fastforce simp: cu_verdict_ok_def)
  next
    case (Cu_args s)
    then have "u_uri u' = cu_out s"
      using assms(1) l st
      by (auto simp: ngx_http_parse_complex_uri_def Let_def cu_store_args_def split: if_splits)
    with run Cu_args show ?thesis by (auto simp: cu_verdict_ok_def)
  next
    case (Cu_done s)
    then have "u_uri u' = cu_out s"
      using assms(1) l st by (auto simp: ngx_http_parse_complex_uri_def Let_def)
    with run Cu_done show ?thesis by (auto simp: cu_verdict_ok_def)
  next
    case Cu_invalid
    then show ?thesis using assms(1) l by (simp add: ngx_http_parse_complex_uri_def Let_def)
  qed
qed

definition sample_uri :: "u_char list" where
  "sample_uri = bytes ''/a/%2E%2e/./b?c''"

definition sample_uri_request :: ngx_http_request_t where
  "sample_uri_request = fresh_request\<lparr>r_uri_start := Some 0, r_uri_end := Some 15\<rparr>"

definition no_uri :: ngx_http_uri_t where
  "no_uri = \<lparr>u_uri = [], u_exten = [], u_args = [], u_unparsed_uri = [], u_valid_unparsed_uri = False\<rparr>"

lemma sample_uri_fields:
  "the (r_uri_start sample_uri_request) = 0" "the (r_uri_end sample_uri_request) = 15"
  "r_empty_path_in_uri sample_uri_request = False" "r_plus_in_uri sample_uri_request = False"
  "r_quoted_uri sample_uri_request = False"
  by (simp_all add: sample_uri_request_def fresh_request_def)

lemma sample_uri_piece: "piece sample_uri 0 15 = sample_uri"
  by (simp add: piece_def sample_uri_def bytes_def)

lemma sample_uri_result:
  "map_option (\<lambda>x. (u_uri (snd x), r_args_start (fst x)))
    (ngx_http_parse_complex_uri sample_uri sample_uri_request no_uri True) = Some (bytes ''/b'', Some 14)"
proof -
  have "cu_loop True 0 sample_uri (cu_init sample_uri_request) =
      (Cu_args \<lparr>cu_st = cu_usual, cu_quoted_st = cu_dot, cu_decoded = 2, cu_out = bytes ''/b'',
         cu_ext = NULL, cu_plus = False, cu_quoted_uri = True\<rparr>, 14)"
    unfolding cu_init_def sample_uri_fields
    by (simp add: sample_uri_def bytes_def cu_step_def cu_dispatch_def cu_do_usual_def cu_do_slash_def
        cu_do_dot_def cu_do_dot_dot_def cu_do_quoted_def cu_do_quoted_second_def emit_def
        enter_quoted_def remove_dir_def is_usual_iff is_digit_def)
  moreover have "drop 14 sample_uri = bytes ''c''" by (simp add: sample_uri_def bytes_def)
  ultimately show ?thesis
    by (simp add: ngx_http_parse_complex_uri_def sample_uri_fields sample_uri_piece Let_def
        cu_store_args_def cu_store_def bytes_def)
qed

theorem ngx_http_parse_complex_uri_clean_witness:
  "\<exists>r u. ngx_http_parse_complex_uri sample_uri sample_uri_request no_uri True = Some (r, u)
    \<and> clean_path (u_uri u)"
proof -
  obtain r u where e: "ngx_http_parse_complex_uri sample_uri sample_uri_request no_uri True = Some (r, u)"
    using sample_uri_result by (auto simp: map_option_case split: option.splits)
  have "uri_start_ok False sample_uri" by (simp add: uri_start_ok_def sample_uri_def bytes_def)
  with ngx_http_parse_complex_uri_clean [OF e] e show ?thesis
    by (auto simp: sample_uri_fields sample_uri_piece)
qed

section \<open>The output fits\<close>

lemma cu_step_question: "cu_step merge_slashes 0x3f s \<noteq> Cu_next s'"
proof -
  have nu: "\<not> is_usual 0x3f" by (simp add: is_usual_iff bytes_def)
  show ?thesis
    by (cases "cu_st s")
      (auto simp: cu_step_def cu_dispatch_def cu_do_usual_def cu_do_slash_def cu_do_dot_def
        cu_do_dot_dot_def cu_do_quoted_def cu_do_quoted_second_def nu is_digit_def Let_def
        split: option.split)
qed

lemma cu_loop_no_question:
  "cu_loop merge_slashes k xs s = (Cu_next s', k') \<Longrightarrow> 0x3f \<notin> set xs"
proof (induction xs arbitrary: k s)
  case (Cons c xs)
  show ?case
  proof (cases "cu_step merge_slashes c s")
    case (Cu_next s1)
    with Cons cu_step_question [of merge_slashes s s1] show ?thesis by (auto split: if_splits)
  qed (use Cons.prems in auto)
qed simp

text \<open>
  The normalisation does not write outside its output.  After any number of bytes read, what has
  been written is at most what the caller allocates: the bytes before the first question mark, and
  the slash for an empty path.
\<close>

theorem complex_uri_output_fits:
  assumes "uri_start_ok (r_empty_path_in_uri r) (xs @ ys)" "xs \<noteq> []"
    and "cu_loop merge_slashes 0 xs (cu_init r) = (Cu_next s, k)"
  shows "length (cu_out s) \<le>
    length (takeWhile (\<lambda>c. c \<noteq> ch CHR ''?'') (xs @ ys)) + (if r_empty_path_in_uri r then 1 else 0)"
proof -
  have "uri_start_ok (r_empty_path_in_uri r) xs" using assms(1,2) by (auto simp: uri_start_ok_def)
  from cu_run_ok [OF this assms(3)]
  have "length (cu_out s) \<le> length xs + (if r_empty_path_in_uri r then 1 else 0)"
    by (auto simp: cu_verdict_ok_def cu_inv_def)
  moreover have "\<forall>c \<in> set xs. c \<noteq> ch CHR ''?''" using cu_loop_no_question [OF assms(3)] by auto
  ultimately show ?thesis by simp
qed

theorem complex_uri_output_fits_witness:
  "\<exists>s. cu_loop True 0 (bytes ''/%41'') (cu_init fresh_request) = (Cu_next s, 4)
    \<and> length (cu_out s) \<le> length (takeWhile (\<lambda>c. c \<noteq> ch CHR ''?'') (bytes ''/%41b?c''))"
proof -
  have "\<exists>s. cu_loop True 0 (bytes ''/%41'') (cu_init fresh_request) = (Cu_next s, 4)"
    by (simp add: cu_init_def bytes_def cu_step_def cu_dispatch_def cu_do_usual_def cu_do_slash_def
        cu_do_quoted_def cu_do_quoted_second_def emit_def enter_quoted_def is_usual_iff is_digit_def)
  then obtain s where s: "cu_loop True 0 (bytes ''/%41'') (cu_init fresh_request) = (Cu_next s, 4)" ..
  have "r_empty_path_in_uri fresh_request = False" by (simp add: fresh_request_def)
  with complex_uri_output_fits [OF _ _ s, of "bytes ''b?c''"] s show ?thesis
    by (auto simp: uri_start_ok_def bytes_def)
qed

section \<open>URIs that need no normalisation\<close>

lemma pu_step_sticky:
  assumes "pu_step p c l r = Some (l', r')"
  shows "(r_complex_uri r \<longrightarrow> r_complex_uri r') \<and> (r_quoted_uri r \<longrightarrow> r_quoted_uri r')"
  using assms
  by (cases l) (auto simp: pu_do_after_slash_in_uri_def pu_do_check_uri_def pu_do_uri_def split: if_splits)

lemma pu_loop_sticky:
  "pu_loop p cs l r = Some r' \<Longrightarrow>
     (r_complex_uri r \<longrightarrow> r_complex_uri r') \<and> (r_quoted_uri r \<longrightarrow> r_quoted_uri r')"
proof (induction cs arbitrary: p l r)
  case (Cons c cs)
  then obtain l1 r1 where s: "pu_step p c l r = Some (l1, r1)" "pu_loop (p + 1) cs l1 r1 = Some r'"
    by (auto split: option.splits)
  from Cons.IH [OF s(2)] pu_step_sticky [OF s(1)] show ?case by blast
qed simp

lemma pu_loop_args:
  "pu_loop p cs pu_uri r = Some r' \<Longrightarrow> \<not> r_complex_uri r' \<Longrightarrow> r' = r \<and> 0x23 \<notin> set cs"
proof (induction cs arbitrary: p)
  case (Cons c cs)
  show ?case
  proof (cases "c = 0x23 \<and> \<not> is_usual c")
    case True
    then have "pu_loop (p + 1) cs pu_uri (r\<lparr>r_complex_uri := True\<rparr>) = Some r'"
      using Cons.prems(1) by (auto simp: pu_do_uri_def)
    from pu_loop_sticky [OF this] Cons.prems(2) show ?thesis by simp
  next
    case False
    then have "pu_loop (p + 1) cs pu_uri r = Some r'"
      using Cons.prems(1) by (auto simp: pu_do_uri_def split: if_splits)
    moreover have "c \<noteq> 0x23" using False by (auto simp: is_usual_iff bytes_def)
    ultimately show ?thesis using Cons.IH [OF _ Cons.prems(2)] by simp
  qed
qed simp

text \<open>
  The check of the URI and the normalisation side by side: while the check sees nothing that needs
  normalisation, the normalisation copies.
\<close>

definition uri_sim :: "nat \<Rightarrow> nat \<Rightarrow> pu_state \<Rightarrow> ngx_http_request_t \<Rightarrow> cu_vars \<Rightarrow> bool" where
  "uri_sim start k l r s \<longleftrightarrow>
     (l = pu_after_slash_in_uri \<and> cu_st s \<in> {cu_slash, cu_usual} \<or> l = pu_check_uri \<and> cu_st s = cu_usual)
     \<and> length (cu_out s) = k \<and> r_args_start r = NULL
     \<and> cu_ext s = map_option (\<lambda>x. x - start) (r_uri_ext r)
     \<and> (\<forall>x. r_uri_ext r = Some x \<longrightarrow> start \<le> x \<and> x \<le> start + k)"

lemma emit_fields [simp]:
  "cu_out (emit c s) = cu_out s @ [c]" "cu_ext (emit c s) = cu_ext s" "cu_st (emit c s) = cu_st s"
  by (simp_all add: emit_def)

lemma uri_sim_step:
  assumes "uri_sim start k l r s" "pu_step (start + k) c l r = Some (l', r')"
    and "\<not> r_complex_uri r'" "\<not> r_quoted_uri r'"
  shows "if c = 0x3f then l' = pu_uri \<and> r_args_start r' = Some (start + k + 1) \<and> r_uri_ext r' = r_uri_ext r
        \<and> cu_step ms c s = Cu_args s
      else \<exists>s'. cu_step ms c s = Cu_next s' \<and> uri_sim start (k + 1) l' r' s' \<and> cu_out s' = cu_out s @ [c]"
proof -
  have nq: "\<not> is_usual 0x3f" by (simp add: is_usual_iff bytes_def)
  from assms(1) consider (slash) "l = pu_after_slash_in_uri" "cu_st s = cu_slash"
    | (usual) "l = pu_after_slash_in_uri" "cu_st s = cu_usual" | (check) "l = pu_check_uri" "cu_st s = cu_usual"
    by (auto simp: uri_sim_def)
  then show ?thesis
  proof cases
    case slash
    show ?thesis using assms nq
      by (auto simp: slash uri_sim_def pu_do_after_slash_in_uri_def cu_step_def cu_dispatch_def cu_do_slash_def
          split: if_splits)
  next
    case usual
    show ?thesis using assms nq
      by (auto simp: usual uri_sim_def pu_do_after_slash_in_uri_def cu_step_def cu_dispatch_def cu_do_usual_def
          split: if_splits)
  next
    case check
    show ?thesis using assms nq
      by (auto simp: check uri_sim_def pu_do_check_uri_def cu_step_def cu_dispatch_def cu_do_usual_def
          split: if_splits)
  qed
qed

text \<open>The result of the normalisation, when the check has left the request \<open>r'\<close>.\<close>

definition uri_copied :: "nat \<Rightarrow> u_char list \<Rightarrow> ngx_http_request_t \<Rightarrow> cu_verdict \<times> nat \<Rightarrow> bool" where
  "uri_copied start src r' x \<longleftrightarrow> (\<exists>s.
     cu_ext s = map_option (\<lambda>x. x - start) (r_uri_ext r')
     \<and> (\<forall>x. r_uri_ext r' = Some x \<longrightarrow> start \<le> x \<and> x \<le> start + length (cu_out s))
     \<and> (case r_args_start r' of
          NULL \<Rightarrow> x = (Cu_next s, length src) \<and> cu_st s \<in> {cu_usual, cu_slash} \<and> cu_out s = src
        | Some a \<Rightarrow> \<exists>j < length src. a = start + j + 1 \<and> x = (Cu_args s, j + 1) \<and> cu_out s = take j src
            \<and> 0x23 \<notin> set (drop (j + 1) src)))"

lemma uri_sim_loop:
  assumes "uri_sim start (length xs) l r s" "cu_out s = xs" "src = xs @ cs"
    "pu_loop (start + length xs) cs l r = Some r'" "\<not> r_complex_uri r'" "\<not> r_quoted_uri r'"
  shows "uri_copied start src r' (cu_loop ms (length xs) cs s)"
  using assms
proof (induction cs arbitrary: xs l r s)
  case Nil
  then have "r' = r" by simp
  with Nil show ?case
    by (auto simp: uri_copied_def uri_sim_def intro!: exI [of _ s])
next
  case (Cons c cs)
  then obtain l1 r1 where
    st: "pu_step (start + length xs) c l r = Some (l1, r1)" "pu_loop (start + length xs + 1) cs l1 r1 = Some r'"
    by (auto split: option.splits)
  have fl: "\<not> r_complex_uri r1" "\<not> r_quoted_uri r1"
    using pu_loop_sticky [OF st(2)] Cons.prems(5,6) by auto
  note sim = uri_sim_step [OF Cons.prems(1) st(1) fl, of ms]
  show ?case
  proof (cases "c = 0x3f")
    case True
    with sim have q: "l1 = pu_uri" "r_args_start r1 = Some (start + length xs + 1)" "r_uri_ext r1 = r_uri_ext r"
      "cu_step ms c s = Cu_args s" by simp_all
    from pu_loop_args [of _ cs r1 r'] st(2) q(1) Cons.prems(5) have "r' = r1" "0x23 \<notin> set cs" by auto
    with q Cons.prems(1-3) show ?thesis
      by (auto simp: uri_copied_def uri_sim_def intro!: exI [of _ s])
  next
    case False
    with sim obtain s' where s': "cu_step ms c s = Cu_next s'" "uri_sim start (length xs + 1) l1 r1 s'"
      "cu_out s' = cu_out s @ [c]" by auto
    have "uri_copied start src r' (cu_loop ms (length (xs @ [c])) cs s')"
      using Cons.prems s' st(2) by (intro Cons.IH) auto
    then show ?thesis using s'(1) by simp
  qed
qed

lemma simple_uri_copied:
  assumes "pu_loop start src pu_start r = Some r'" "\<not> r_complex_uri r'" "\<not> r_quoted_uri r'" "src \<noteq> []"
    and "r_args_start r = NULL" "r_uri_ext r = NULL" "r_empty_path_in_uri r2 = False"
  shows "uri_copied start src r' (cu_loop ms 0 src (cu_init r2))"
proof -
  obtain c cs where src: "src = c # cs" using assms(4) by (cases src) auto
  with assms(1) have c: "c = 0x2f" and l: "pu_loop (start + 1) cs pu_after_slash_in_uri r = Some r'"
    by (auto split: if_splits)
  define s1 where "s1 = (emit 0x2f (cu_init r2))\<lparr>cu_ext := NULL, cu_st := cu_slash\<rparr>"
  have nu: "\<not> is_usual 0x2f" by (simp add: is_usual_iff bytes_def)
  have st: "cu_step ms c (cu_init r2) = Cu_next s1"
    using nu by (simp add: c cu_step_def cu_dispatch_def cu_do_usual_def cu_init_def s1_def emit_def)
  have "uri_sim start (length [c]) pu_after_slash_in_uri r s1"
    using assms(5,6,7) by (simp add: uri_sim_def s1_def cu_init_def emit_def)
  then have "uri_copied start src r' (cu_loop ms (length [c]) cs s1)"
    using assms(2,3,7) l src c
    by (intro uri_sim_loop) (simp_all add: s1_def cu_init_def emit_def)
  then show ?thesis using st src by simp
qed

lemma drop_piece: "start \<le> x \<Longrightarrow> drop (x - start) (piece m start stop) = piece m x stop"
  by (simp add: piece_def drop_take)

text \<open>
  C11: Skipping the normalisation is sound.  When \<^verbatim>\<open>ngx_http_parse_uri\<close> accepts a URI and leaves neither
  \<^verbatim>\<open>complex_uri\<close> nor \<^verbatim>\<open>quoted_uri\<close> set, \<^verbatim>\<open>ngx_http_process_request_uri\<close> uses the bytes of the request
  as they are.  Running the normalisation all the same would give the same path, extension and
  arguments.
\<close>

theorem simple_uri_fast_path:
  assumes "ngx_http_parse_uri m r = Some r'" "\<not> r_complex_uri r'" "\<not> r_quoted_uri r'"
    and "r_args_start r = NULL" "r_uri_ext r = NULL" "r_empty_path_in_uri r' = False"
    and "r_uri_start r = Some start" "r_uri_end r = Some stop" "start < stop" "stop \<le> length m"
    and "r_uri_start r' = Some start" "r_uri_end r' = Some stop"
  shows "map_sum id snd (ngx_http_process_request_uri True m (r'\<lparr>r_complex_uri := True\<rparr>) u ms) =
    map_sum id snd (ngx_http_process_request_uri True m r' u ms)"
proof -
  let ?src = "piece m start stop" and ?r2 = "r'\<lparr>r_complex_uri := True\<rparr>"
  have len: "length ?src = stop - start" using assms(10) by simp
  then have ne: "?src \<noteq> []" using assms(9) by (auto simp flip: length_0_conv)
  have "uri_copied start ?src r' (cu_loop ms 0 ?src (cu_init ?r2))"
    using assms(1,6,7,8) by (intro simple_uri_copied [OF _ assms(2,3) ne assms(4,5)])
      (simp_all add: ngx_http_parse_uri_def)
  then obtain s where s: "cu_ext s = map_option (\<lambda>x. x - start) (r_uri_ext r')"
    "\<forall>x. r_uri_ext r' = Some x \<longrightarrow> start \<le> x \<and> x \<le> start + length (cu_out s)"
    "case r_args_start r' of
          NULL \<Rightarrow> cu_loop ms 0 ?src (cu_init ?r2) = (Cu_next s, length ?src) \<and> cu_st s \<in> {cu_usual, cu_slash}
            \<and> cu_out s = ?src
        | Some a \<Rightarrow> \<exists>j < length ?src. a = start + j + 1 \<and> cu_loop ms 0 ?src (cu_init ?r2) = (Cu_args s, j + 1)
            \<and> cu_out s = take j ?src \<and> 0x23 \<notin> set (drop (j + 1) ?src)"
    unfolding uri_copied_def by blast
  show ?thesis
  proof (cases "r_args_start r'")
    case None
    with s(3) have l: "cu_loop ms 0 ?src (cu_init ?r2) = (Cu_next s, length ?src)" "cu_out s = ?src"
      "cu_end s = Some s" by (auto simp: cu_end_def)
    then show ?thesis using None s(1,2) assms(2,3,6,11,12)
      by (auto simp: ngx_http_process_request_uri_def ngx_http_parse_complex_uri_def Let_def cu_store_def
          cu_flags_def drop_piece split: option.split)
  next
    case (Some a)
    with s(3) obtain j where j: "j < length ?src" "a = start + j + 1"
      "cu_loop ms 0 ?src (cu_init ?r2) = (Cu_args s, j + 1)" "cu_out s = take j ?src"
      "0x23 \<notin> set (drop (j + 1) ?src)" by auto
    have tk: "take j ?src = piece m start (start + j)" using j(1) len by (simp add: piece_def min_def)
    show ?thesis using Some s(1,2) assms(2,3,6,11,12) j
      by (auto simp: ngx_http_process_request_uri_def ngx_http_parse_complex_uri_def Let_def cu_store_def
          cu_store_args_def cu_flags_def tk drop_piece split: option.split)
  qed
qed

text \<open>A request with the simple URI \<^verbatim>\<open>/a.b?c\<close>, before and after \<^verbatim>\<open>ngx_http_parse_uri\<close>.\<close>

definition simple_request :: ngx_http_request_t where
  "simple_request = fresh_request\<lparr>r_uri_start := Some 0, r_uri_end := Some 6\<rparr>"

definition simple_request_parsed :: ngx_http_request_t where
  "simple_request_parsed = simple_request\<lparr>r_uri_ext := Some 3, r_args_start := Some 5\<rparr>"

lemma simple_request_parse: "ngx_http_parse_uri (bytes ''/a.b?c'') simple_request = Some simple_request_parsed"
  by (simp add: ngx_http_parse_uri_def simple_request_def simple_request_parsed_def piece_def bytes_def
      pu_do_after_slash_in_uri_def pu_do_check_uri_def pu_do_uri_def is_usual_iff)

theorem simple_uri_fast_path_witness:
  "ngx_http_parse_uri (bytes ''/a.b?c'') simple_request = Some simple_request_parsed \<and>
   map_sum id snd (ngx_http_process_request_uri True (bytes ''/a.b?c'')
      (simple_request_parsed\<lparr>r_complex_uri := True\<rparr>) no_uri True) =
    map_sum id snd (ngx_http_process_request_uri True (bytes ''/a.b?c'') simple_request_parsed no_uri True)"
  using simple_uri_fast_path [OF simple_request_parse, of 0 6 no_uri True] simple_request_parse
  by (simp add: simple_request_def simple_request_parsed_def fresh_request_def bytes_def)

section \<open>Unsafe URIs\<close>

text \<open>The segments of a path.\<close>

fun segments :: "u_char list \<Rightarrow> u_char list list" where
  "segments [] = [[]]"
| "segments (c # w) = (if c = ch CHR ''/'' then [] # segments w
     else (c # hd (segments w)) # tl (segments w))"

definition climbs :: "u_char list list \<Rightarrow> bool" where
  "climbs segs \<longleftrightarrow> bytes ''..'' \<in> set segs"

definition no_qmark :: "u_char list \<Rightarrow> bool" where
  "no_qmark w \<longleftrightarrow> ch CHR ''?'' \<notin> set w"

lemma segments_not_Nil [simp]: "segments w \<noteq> []"
  by (cases w) simp_all

lemma hd_segments_Nil: "hd (segments w) = [] \<longleftrightarrow> w = [] \<or> hd w = ch CHR ''/''"
  by (cases w) simp_all

lemma tl_segments_Nil: "hd (segments w) = v \<Longrightarrow> tl (segments w) = [] \<longleftrightarrow> w = v"
proof (induction w arbitrary: v)
  case (Cons c w)
  then show ?case by auto
qed auto

text \<open>The test of the code is on the first segment of what follows.\<close>

lemma dot_dot_prefix_iff: "dot_dot_prefix w \<longleftrightarrow> hd (segments w) = bytes ''..''"
proof -
  consider "w = []" | a where "w = [a]" | a b where "w = [a, b]" | a b c v where "w = a # b # c # v"
    by (metis neq_Nil_conv)
  then show ?thesis by cases (auto simp: dot_dot_prefix_def bytes_def hd_segments_Nil)
qed

lemma dot_dot_prefix_args:
  "dot_dot_prefix (w @ 0x3f # v) \<longleftrightarrow> hd (segments w) = bytes ''..'' \<and> tl (segments w) \<noteq> []"
proof -
  consider "w = []" | a where "w = [a]" | a b where "w = [a, b]" | a b c v where "w = a # b # c # v"
    by (metis neq_Nil_conv)
  then show ?thesis by cases (auto simp: dot_dot_prefix_def bytes_def hd_segments_Nil)
qed

lemma unsafe_rescan_Cons:
  "unsafe_rescan (c # w) \<longleftrightarrow> c \<noteq> 0 \<and> \<not> (c = 0x2f \<and> dot_dot_prefix w) \<and> unsafe_rescan w"
  by (auto simp: dot_dot_prefix_def)

lemma unsafe_scan_Cons:
  "unsafe_scan q seen (c # w) =
    (if c = 0x3f then Some (q, seen, Some w)
     else if c = 0 \<or> c = 0x2f \<and> dot_dot_prefix w then None
     else unsafe_scan (q \<or> c = 0x25) (seen @ [c]) w)"
  by (auto simp: dot_dot_prefix_def is_usual_iff bytes_def)

lemma climbs_Cons [simp]: "climbs (s # segs) \<longleftrightarrow> s = bytes ''..'' \<or> climbs segs"
  by (auto simp: climbs_def)

lemma climbs_Nil [simp]: "\<not> climbs []"
  by (simp add: climbs_def)

lemma climbs_segments: "climbs (segments w) \<longleftrightarrow> hd (segments w) = bytes ''..'' \<or> climbs (tl (segments w))"
  by (metis climbs_Cons list.collapse segments_not_Nil)

lemma climbs_butlast: "climbs (butlast (segments w)) \<longleftrightarrow>
  hd (segments w) = bytes ''..'' \<and> tl (segments w) \<noteq> [] \<or> climbs (butlast (tl (segments w)))"
  by (cases "segments w") (use segments_not_Nil in auto)

lemma unsafe_rescan_iff: "unsafe_rescan w \<longleftrightarrow> 0 \<notin> set w \<and> \<not> climbs (tl (segments w))"
  by (induction w) (auto simp: unsafe_rescan_Cons dot_dot_prefix_iff climbs_segments simp del: unsafe_rescan.simps(2))

lemma unsafe_scan_path:
  "no_qmark w \<Longrightarrow> unsafe_scan q seen w =
    (if 0 \<in> set w \<or> climbs (tl (segments w)) then None
     else Some (q \<or> ch CHR ''%'' \<in> set w, seen @ w, None))"
  by (induction w arbitrary: q seen)
    (auto simp: no_qmark_def unsafe_scan_Cons dot_dot_prefix_iff climbs_segments simp del: unsafe_scan.simps(2))

lemma unsafe_scan_args:
  "no_qmark w \<Longrightarrow> unsafe_scan q seen (w @ 0x3f # v) =
    (if 0 \<in> set w \<or> climbs (butlast (tl (segments w))) then None
     else Some (q \<or> ch CHR ''%'' \<in> set w, seen @ w, Some v))"
  by (induction w arbitrary: q seen)
    (auto simp: no_qmark_def unsafe_scan_Cons dot_dot_prefix_args climbs_butlast simp del: unsafe_scan.simps(2))

text \<open>What remains once the path has passed the first loop.\<close>

definition unescaped :: "u_char list \<Rightarrow> u_char list option \<Rightarrow> (u_char list \<times> u_char list option) option" where
  "unescaped path args =
    (let path' = fst (ngx_unescape_uri path 0) in
     if ch CHR ''%'' \<notin> set path then Some (path, args)
     else if 0 \<in> set path' \<or> climbs (segments path') then None
     else Some (path', args))"

lemma unsafe_uri_path:
  assumes "no_qmark path"
  shows "ngx_http_parse_unsafe_uri True path =
    (if path = [] \<or> 0 \<in> set path \<or> climbs (segments path) then None else unescaped path None)"
proof (cases "path = []")
  case False
  then have "hd path \<noteq> ch CHR ''?''" using assms by (metis no_qmark_def hd_in_set)
  with False show ?thesis
    by (simp add: ngx_http_parse_unsafe_uri_def unsafe_scan_path [OF assms] dot_dot_prefix_iff climbs_segments
        unsafe_rescan_iff unescaped_def Let_def)
qed (simp add: ngx_http_parse_unsafe_uri_def)

lemma unsafe_uri_args:
  assumes "no_qmark path"
  shows "ngx_http_parse_unsafe_uri True (path @ 0x3f # args) =
    (if path = [] \<or> 0 \<in> set path \<or> climbs (butlast (segments path)) then None else unescaped path (Some args))"
proof (cases "path = []")
  case False
  then have "hd path \<noteq> ch CHR ''?''" using assms by (metis no_qmark_def hd_in_set)
  with False show ?thesis
    by (simp add: ngx_http_parse_unsafe_uri_def unsafe_scan_args [OF assms] dot_dot_prefix_args
        dot_dot_prefix_iff [of "fst (ngx_unescape_uri path 0)"] climbs_butlast climbs_segments unsafe_rescan_iff unescaped_def Let_def)
qed (simp add: ngx_http_parse_unsafe_uri_def)

text \<open>
  C12: \<^verbatim>\<open>ngx_http_parse_unsafe_uri\<close>, given its memory, splits the URI at the first question mark,
  unescapes the path if it has an escape, and accepts exactly the non-empty paths that have no zero
  byte and no segment \<^verbatim>\<open>..\<close>, before and after unescaping, with one exception: a path without escapes
  that is followed by arguments may end with \<^verbatim>\<open>..\<close>.
\<close>

theorem ngx_http_parse_unsafe_uri_exact:
  "ngx_http_parse_unsafe_uri True uri =
    (let path = takeWhile (\<lambda>c. c \<noteq> ch CHR ''?'') uri; rest = drop (length path) uri;
         checked = (if rest = [] then segments path else butlast (segments path)) in
     if path = [] \<or> 0 \<in> set path \<or> climbs checked then None
     else unescaped path (if rest = [] then None else Some (tl rest)))"
proof -
  define path where "path = takeWhile (\<lambda>c. c \<noteq> ch CHR ''?'') uri"
  have nq: "no_qmark path" by (auto simp: path_def no_qmark_def dest: set_takeWhileD)
  consider "uri = path" | v where "uri = path @ 0x3f # v"
  proof (cases "dropWhile (\<lambda>c. c \<noteq> ch CHR ''?'') uri")
    case Nil
    then have "uri = path" using takeWhile_dropWhile_id [of "\<lambda>c. c \<noteq> ch CHR ''?''" uri]
      by (simp only: path_def append_Nil2)
    then show ?thesis by (rule that(1))
  next
    case (Cons c v)
    then have "c = 0x3f" using hd_dropWhile [of "\<lambda>c. c \<noteq> ch CHR ''?''" uri] by auto
    then have "uri = path @ 0x3f # v" using Cons takeWhile_dropWhile_id [of "\<lambda>c. c \<noteq> ch CHR ''?''" uri]
      by (simp only: path_def)
    then show ?thesis by (rule that(2))
  qed
  then show ?thesis
  proof cases
    case 1
    then show ?thesis using unsafe_uri_path [OF nq] unfolding path_def [symmetric] Let_def by simp
  next
    case (2 v)
    then show ?thesis using unsafe_uri_args [OF nq, of v] unfolding path_def [symmetric] Let_def by simp
  qed
qed

text \<open>The exception is real: \<^verbatim>\<open>/a/..?x\<close> passes, although \<^verbatim>\<open>/a/..\<close> does not.\<close>

lemma unsafe_uri_dot_dot_before_args:
  "ngx_http_parse_unsafe_uri True (bytes ''/a/..?x'') = Some (bytes ''/a/..'', Some (bytes ''x''))"
  "ngx_http_parse_unsafe_uri True (bytes ''/a/..'') = None"
  by (simp_all add: ngx_http_parse_unsafe_uri_def dot_dot_prefix_def is_usual_iff bytes_def)

end
