(* ===== verification/Ngx_Rwlock.thy ===== *)
theory Ngx_Rwlock
  imports Ngx_Prelude
begin

text \<open>
  The reader-writer lock of \<^verbatim>\<open>core/ngx_rwlock.c\<close>, as it is used by several processes on one word of
  shared memory.

  A process runs one of the functions \<^verbatim>\<open>ngx_rwlock_wlock\<close>, \<^verbatim>\<open>ngx_rwlock_rlock\<close>, \<^verbatim>\<open>ngx_rwlock_unlock\<close> and
  \<^verbatim>\<open>ngx_rwlock_downgrade\<close>; its program counter stands at the next access to the shared word.  One step is
  one such access: a load, a compare-and-set, a fetch-and-add or a store.  The steps of the processes
  interleave freely, in a sequentially consistent memory.  \<^verbatim>\<open>ngx_cpu_pause\<close> and \<^verbatim>\<open>ngx_sched_yield\<close> do not
  change the state; the spin count \<^verbatim>\<open>n\<close> is kept, where 0 is the attempt outside the spin loop.
\<close>

definition NGX_RWLOCK_SPIN :: nat where
  "NGX_RWLOCK_SPIN = 2048"

definition NGX_RWLOCK_WLOCK :: u_int64 where
  "NGX_RWLOCK_WLOCK = - 1"

datatype rw_mode = Wr | Rd

datatype rw_pc =
    Idle
  | Wload nat | Wcas nat | Writing
  | Rload nat | Rcas nat u_int64 | Reading
  | Uload rw_mode | Ucas rw_mode | Udec rw_mode
  | Dload | Dstore

text \<open>\<^verbatim>\<open>ngx_atomic_cmp_set\<close>: the new value of the word, and whether it was set.\<close>

definition ngx_atomic_cmp_set :: "u_int64 \<Rightarrow> u_int64 \<Rightarrow> u_int64 \<Rightarrow> u_int64 \<times> bool" where
  "ngx_atomic_cmp_set lock old new = (if lock = old then (new, True) else (lock, False))"

text \<open>The attempt after a failed one: the spin loop, if there is more than one CPU, or the outer loop.\<close>

definition next_spin :: "nat \<Rightarrow> nat \<Rightarrow> nat" where
  "next_spin ngx_ncpu n =
    (let n' = (if n = 0 then 1 else n * 2) in
     if ngx_ncpu > 1 \<and> n' < NGX_RWLOCK_SPIN then n' else 0)"

definition ngx_rwlock_wlock_load :: "nat \<Rightarrow> nat \<Rightarrow> u_int64 \<Rightarrow> u_int64 \<times> rw_pc" where
  "ngx_rwlock_wlock_load ngx_ncpu n lock = (lock, if lock = 0 then Wcas n else Wload (next_spin ngx_ncpu n))"

definition ngx_rwlock_wlock_cas :: "nat \<Rightarrow> nat \<Rightarrow> u_int64 \<Rightarrow> u_int64 \<times> rw_pc" where
  "ngx_rwlock_wlock_cas ngx_ncpu n lock =
    (case ngx_atomic_cmp_set lock 0 NGX_RWLOCK_WLOCK of (lock, ok) \<Rightarrow>
       (lock, if ok then Writing else Wload (next_spin ngx_ncpu n)))"

definition ngx_rwlock_rlock_load :: "nat \<Rightarrow> nat \<Rightarrow> u_int64 \<Rightarrow> u_int64 \<times> rw_pc" where
  "ngx_rwlock_rlock_load ngx_ncpu n lock =
    (let readers = lock in
     (lock, if readers \<noteq> NGX_RWLOCK_WLOCK then Rcas n readers else Rload (next_spin ngx_ncpu n)))"

definition ngx_rwlock_rlock_cas :: "nat \<Rightarrow> nat \<Rightarrow> u_int64 \<Rightarrow> u_int64 \<Rightarrow> u_int64 \<times> rw_pc" where
  "ngx_rwlock_rlock_cas ngx_ncpu n readers lock =
    (case ngx_atomic_cmp_set lock readers (readers + 1) of (lock, ok) \<Rightarrow>
       (lock, if ok then Reading else Rload (next_spin ngx_ncpu n)))"

definition ngx_rwlock_unlock_load :: "rw_mode \<Rightarrow> u_int64 \<Rightarrow> u_int64 \<times> rw_pc" where
  "ngx_rwlock_unlock_load k lock = (lock, if lock = NGX_RWLOCK_WLOCK then Ucas k else Udec k)"

definition ngx_rwlock_downgrade_load :: "u_int64 \<Rightarrow> u_int64 \<times> rw_pc" where
  "ngx_rwlock_downgrade_load lock = (lock, if lock = NGX_RWLOCK_WLOCK then Dstore else Writing)"

text \<open>One access by a process inside a function; at the other program counters there is none.\<close>

fun rw_next :: "nat \<Rightarrow> u_int64 \<Rightarrow> rw_pc \<Rightarrow> (u_int64 \<times> rw_pc) option" where
  "rw_next ngx_ncpu lock (Wload n) = Some (ngx_rwlock_wlock_load ngx_ncpu n lock)"
| "rw_next ngx_ncpu lock (Wcas n) = Some (ngx_rwlock_wlock_cas ngx_ncpu n lock)"
| "rw_next ngx_ncpu lock (Rload n) = Some (ngx_rwlock_rlock_load ngx_ncpu n lock)"
| "rw_next ngx_ncpu lock (Rcas n readers) = Some (ngx_rwlock_rlock_cas ngx_ncpu n readers lock)"
| "rw_next ngx_ncpu lock (Uload k) = Some (ngx_rwlock_unlock_load k lock)"
| "rw_next ngx_ncpu lock (Ucas k) = Some (fst (ngx_atomic_cmp_set lock NGX_RWLOCK_WLOCK 0), Idle)"
| "rw_next ngx_ncpu lock (Udec k) = Some (lock - 1, Idle)"
| "rw_next ngx_ncpu lock Dload = Some (ngx_rwlock_downgrade_load lock)"
| "rw_next ngx_ncpu lock Dstore = Some (1, Reading)"
| "rw_next ngx_ncpu lock _ = None"

text \<open>
  The calls a process makes: it locks when it holds nothing, and unlocks or downgrades what it holds.
\<close>

fun rw_calls :: "rw_pc \<Rightarrow> rw_pc list" where
  "rw_calls Idle = [Wload 0, Rload 0]"
| "rw_calls Writing = [Uload Wr, Dload]"
| "rw_calls Reading = [Uload Rd]"
| "rw_calls _ = []"

type_synonym rw_system = "u_int64 \<times> (nat \<Rightarrow> rw_pc)"

inductive rw_step :: "nat \<Rightarrow> nat \<Rightarrow> rw_system \<Rightarrow> rw_system \<Rightarrow> bool" for procs ngx_ncpu where
  access: "t < procs \<Longrightarrow> rw_next ngx_ncpu lock (pcs t) = Some (lock', pc) \<Longrightarrow>
    rw_step procs ngx_ncpu (lock, pcs) (lock', pcs(t := pc))"
| call: "t < procs \<Longrightarrow> pc \<in> set (rw_calls (pcs t)) \<Longrightarrow>
    rw_step procs ngx_ncpu (lock, pcs) (lock, pcs(t := pc))"

inductive_cases rw_stepE [elim!]: "rw_step procs ngx_ncpu s s'"

definition rw_init :: rw_system where
  "rw_init = (0, \<lambda>_. Idle)"

inductive rw_reachable :: "nat \<Rightarrow> nat \<Rightarrow> rw_system \<Rightarrow> bool" for procs ngx_ncpu where
  start: "rw_reachable procs ngx_ncpu rw_init"
| move: "rw_reachable procs ngx_ncpu s \<Longrightarrow> rw_step procs ngx_ncpu s s' \<Longrightarrow> rw_reachable procs ngx_ncpu s'"

section \<open>Who holds the lock\<close>

text \<open>A process holds the lock until the access that gives it up.\<close>

fun holds_write :: "rw_pc \<Rightarrow> bool" where
  "holds_write pc \<longleftrightarrow> pc \<in> {Writing, Uload Wr, Ucas Wr, Dload, Dstore}"

fun holds_read :: "rw_pc \<Rightarrow> bool" where
  "holds_read pc \<longleftrightarrow> pc \<in> {Reading, Uload Rd, Udec Rd}"

definition writers :: "(nat \<Rightarrow> rw_pc) \<Rightarrow> nat set" where
  "writers pcs = {t. holds_write (pcs t)}"

definition readers :: "(nat \<Rightarrow> rw_pc) \<Rightarrow> nat set" where
  "readers pcs = {t. holds_read (pcs t)}"

text \<open>
  The invariant: the word counts the readers, or is \<^const>\<open>NGX_RWLOCK_WLOCK\<close> and there is one
  writer.
\<close>

fun rw_inv :: "nat \<Rightarrow> rw_system \<Rightarrow> bool" where
  "rw_inv procs (lock, pcs) \<longleftrightarrow>
     (\<forall>t \<ge> procs. pcs t = Idle) \<and> (\<forall>t. pcs t \<noteq> Ucas Rd \<and> pcs t \<noteq> Udec Wr) \<and>
     (\<forall>t n v. pcs t = Rcas n v \<longrightarrow> v \<noteq> NGX_RWLOCK_WLOCK) \<and>
     (if writers pcs = {} then lock = of_nat (card (readers pcs))
      else readers pcs = {} \<and> (\<exists>t. writers pcs = {t}) \<and> lock = NGX_RWLOCK_WLOCK)"

lemma writers_upd: "writers (pcs(t := pc)) = (if holds_write pc then insert t (writers pcs) else writers pcs - {t})"
  by (auto simp: writers_def)

lemma readers_upd: "readers (pcs(t := pc)) = (if holds_read pc then insert t (readers pcs) else readers pcs - {t})"
  by (auto simp: readers_def)

lemma readers_subset:
  assumes "\<forall>t \<ge> procs. pcs t = Idle"
  shows "readers pcs \<subseteq> {..<procs}"
proof
  fix t assume "t \<in> readers pcs"
  then have "pcs t \<noteq> Idle" by (auto simp: readers_def)
  then show "t \<in> {..<procs}" using assms by (meson lessThan_iff not_less)
qed

lemma finite_readers: "(\<forall>t \<ge> procs. pcs t = Idle) \<Longrightarrow> finite (readers pcs)"
  by (meson finite_lessThan finite_subset readers_subset)

lemma card_readers: "(\<forall>t \<ge> procs. pcs t = Idle) \<Longrightarrow> card (readers pcs) \<le> procs"
  using card_mono [OF _ readers_subset, of procs pcs] by simp

lemma of_nat_not_wlock: "n < 2 ^ 64 - 1 \<Longrightarrow> of_nat n \<noteq> NGX_RWLOCK_WLOCK"
proof
  assume "n < 2 ^ 64 - 1" "of_nat n = NGX_RWLOCK_WLOCK"
  then have "unat (of_nat n :: u_int64) = 2 ^ 64 - 1" by (simp add: NGX_RWLOCK_WLOCK_def unsigned_minus_1_eq_mask mask_eq_exp_minus_1)
  then show False using \<open>n < 2 ^ 64 - 1\<close> by (simp add: unsigned_of_nat take_bit_nat_eq_self)
qed

text \<open>A process that neither takes nor gives up the lock changes nobody's hold.\<close>

lemma inv_local:
  assumes "rw_inv procs (lock, pcs)" "t < procs"
    and "holds_write pc = holds_write (pcs t)" "holds_read pc = holds_read (pcs t)"
    and "pc \<noteq> Ucas Rd" "pc \<noteq> Udec Wr" "\<And>n v. pc = Rcas n v \<Longrightarrow> v \<noteq> NGX_RWLOCK_WLOCK"
  shows "rw_inv procs (lock, pcs(t := pc))"
proof -
  have "writers (pcs(t := pc)) = writers pcs" "readers (pcs(t := pc)) = readers pcs"
    using assms(3,4) by (auto simp: writers_def readers_def)
  then show ?thesis using assms by (auto split: if_splits)
qed

lemma inv_writer:
  assumes "rw_inv procs (lock, pcs)" "holds_write (pcs t)"
  shows "writers pcs = {t}" "readers pcs = {}" "lock = NGX_RWLOCK_WLOCK"
proof -
  have t: "t \<in> writers pcs" using assms(2) by (simp add: writers_def)
  then have "readers pcs = {} \<and> (\<exists>t. writers pcs = {t}) \<and> lock = NGX_RWLOCK_WLOCK"
    using assms(1) by (auto split: if_splits)
  then show "writers pcs = {t}" "readers pcs = {}" "lock = NGX_RWLOCK_WLOCK" using t by auto
qed

lemma inv_reader:
  assumes "rw_inv procs (lock, pcs)" "holds_read (pcs t)" "procs < 2 ^ 64 - 1"
  shows "writers pcs = {}" "lock = of_nat (card (readers pcs))" "lock \<noteq> NGX_RWLOCK_WLOCK" "t \<in> readers pcs"
proof -
  show r: "t \<in> readers pcs" using assms(2) by (simp add: readers_def)
  then show w: "writers pcs = {}" using assms(1) by (auto split: if_splits)
  then show l: "lock = of_nat (card (readers pcs))" using assms(1) by simp
  have "card (readers pcs) \<le> procs" using assms(1) by (auto intro: card_readers)
  then show "lock \<noteq> NGX_RWLOCK_WLOCK" unfolding l using assms(3) by (intro of_nat_not_wlock) (rule le_less_trans)
qed

text \<open>The accesses that take the lock.\<close>

lemma inv_take_write:
  assumes "rw_inv procs (0, pcs)" "t < procs" "procs < 2 ^ 64 - 1"
  shows "rw_inv procs (NGX_RWLOCK_WLOCK, pcs(t := Writing))"
proof -
  have w: "writers pcs = {}" using assms(1) by (auto simp: NGX_RWLOCK_WLOCK_def split: if_splits)
  then have "of_nat (card (readers pcs)) = (0 :: u_int64)" using assms(1) by simp
  moreover have "card (readers pcs) < 2 ^ 64" using card_readers [of procs pcs] assms(1,3) by auto
  then have "unat (of_nat (card (readers pcs)) :: u_int64) = card (readers pcs)"
    by (simp add: unsigned_of_nat take_bit_nat_eq_self)
  ultimately have "card (readers pcs) = 0" by simp
  then have "readers pcs = {}" using finite_readers [of procs pcs] assms(1) by auto
  then show ?thesis using assms w by (auto simp: writers_upd readers_upd)
qed

lemma inv_take_read:
  assumes "rw_inv procs (lock, pcs)" "t < procs" "lock \<noteq> NGX_RWLOCK_WLOCK" "\<not> holds_read (pcs t)"
  shows "rw_inv procs (lock + 1, pcs(t := Reading))"
proof -
  have "writers pcs = {}" "lock = of_nat (card (readers pcs))" using assms(1,3) by (auto split: if_splits)
  moreover have "t \<notin> readers pcs" using assms(4) by (simp add: readers_def)
  ultimately show ?thesis using assms finite_readers [of procs pcs] by (auto simp: writers_upd readers_upd)
qed

text \<open>The accesses that give it up.\<close>

lemma inv_drop_write:
  assumes "rw_inv procs (lock, pcs)" "holds_write (pcs t)" "t < procs"
  shows "rw_inv procs (0, pcs(t := Idle))" "rw_inv procs (1, pcs(t := Reading))"
  using assms inv_writer [OF assms(1,2)] by (auto simp: writers_upd readers_upd)

lemma inv_drop_read:
  assumes "rw_inv procs (lock, pcs)" "holds_read (pcs t)" "t < procs" "procs < 2 ^ 64 - 1"
  shows "rw_inv procs (lock - 1, pcs(t := Idle))"
proof -
  note r = inv_reader [OF assms(1,2,4)]
  have "finite (readers pcs)" using assms(1) by (auto intro: finite_readers)
  then have "card (readers pcs) = Suc (card (readers pcs - {t}))" using r(4) by (rule card.remove)
  then have "lock - 1 = of_nat (card (readers pcs - {t}))" using r(2) by simp
  then show ?thesis using assms(1) r(1) by (auto simp: writers_upd readers_upd)
qed

lemmas rw_access_defs = ngx_rwlock_wlock_load_def ngx_rwlock_wlock_cas_def ngx_rwlock_rlock_load_def
  ngx_rwlock_rlock_cas_def ngx_rwlock_unlock_load_def ngx_rwlock_downgrade_load_def ngx_atomic_cmp_set_def Let_def

lemma inv_access:
  assumes inv: "rw_inv procs (lock, pcs)" and t: "t < procs" and bound: "procs < 2 ^ 64 - 1"
    and step: "rw_next ngx_ncpu lock (pcs t) = Some (lock', pc)"
  shows "rw_inv procs (lock', pcs(t := pc))"
proof (cases "pcs t")
  case (Wcas n)
  then show ?thesis using step inv_take_write [of procs pcs t] inv_local [OF inv t, of pc] inv t bound
    by (auto simp: rw_access_defs simp del: rw_inv.simps split: if_splits)
next
  case (Rcas n v)
  then have "v \<noteq> NGX_RWLOCK_WLOCK" using inv by simp
  then show ?thesis using step inv_take_read [OF inv t] inv_local [OF inv t, of pc] Rcas
    by (auto simp: rw_access_defs simp del: rw_inv.simps split: if_splits)
next
  case (Uload k)
  then show ?thesis using step inv_local [OF inv t, of pc] inv_writer [OF inv, of t] inv_reader [OF inv _ bound, of t]
    by (cases k) (auto simp: rw_access_defs simp del: rw_inv.simps split: if_splits)
next
  case (Ucas k)
  then have "k = Wr" using inv by (cases k) auto
  then show ?thesis using step Ucas inv_drop_write(1) [OF inv _ t] inv_writer [OF inv, of t]
    by (auto simp: rw_access_defs simp del: rw_inv.simps split: if_splits)
next
  case (Udec k)
  then have "k = Rd" using inv by (cases k) auto
  then show ?thesis using step Udec inv_drop_read [OF inv _ t bound] by (simp del: rw_inv.simps)
next
  case Dload
  then show ?thesis using step inv_local [OF inv t, of pc] inv_writer [OF inv, of t]
    by (auto simp: rw_access_defs simp del: rw_inv.simps split: if_splits)
next
  case Dstore
  then show ?thesis using step inv_drop_write(2) [OF inv _ t] by (simp del: rw_inv.simps)
qed (use step inv_local [OF inv t, of pc] in \<open>auto simp: rw_access_defs simp del: rw_inv.simps split: if_splits\<close>)

lemma inv_step:
  assumes "rw_step procs ngx_ncpu s s'" "rw_inv procs s" "procs < 2 ^ 64 - 1"
  shows "rw_inv procs s'"
  using assms(1)
proof cases
  case (access t lock pcs lock' pc)
  then show ?thesis using inv_access assms by (simp del: rw_inv.simps)
next
  case (call t pc pcs lock)
  then show ?thesis using assms(2) inv_local [of procs lock pcs t pc]
    by (cases "pcs t") (auto simp del: rw_inv.simps)
qed

lemma inv_reachable: "rw_reachable procs ngx_ncpu s \<Longrightarrow> procs < 2 ^ 64 - 1 \<Longrightarrow> rw_inv procs s"
proof (induction rule: rw_reachable.induct)
  case start
  show ?case by (simp add: rw_init_def writers_def readers_def)
next
  case (move s s')
  then show ?case using inv_step by (metis (no_types))
qed

text \<open>
  C30: Mutual exclusion.  For fewer processes than \<^verbatim>\<open>NGX_RWLOCK_WLOCK\<close>, in every reachable state at most one
  process holds the lock for writing, and then none holds it for reading; and the word is the number of
  readers, 0 when nobody holds the lock, or \<^verbatim>\<open>NGX_RWLOCK_WLOCK\<close>.  So unlocking never makes the count wrap,
  and a downgrade lets no other writer in between.
\<close>

theorem ngx_rwlock_mutual_exclusion:
  assumes "rw_reachable procs ngx_ncpu (lock, pcs)" "procs < 2 ^ 64 - 1"
  shows "if writers pcs = {} then lock = of_nat (card (readers pcs)) \<and> card (readers pcs) \<le> procs
    else readers pcs = {} \<and> (\<exists>t. writers pcs = {t}) \<and> lock = NGX_RWLOCK_WLOCK"
  using inv_reachable [OF assms] card_readers [of procs pcs] by auto

definition one_pc :: "rw_pc \<Rightarrow> nat \<Rightarrow> rw_pc" where
  "one_pc pc = (\<lambda>_. Idle)(0 := pc)"

lemma one_pc_call:
  assumes "rw_reachable 2 1 (lock, one_pc pc)" "pc' \<in> set (rw_calls pc)"
  shows "rw_reachable 2 1 (lock, one_pc pc')"
  using rw_reachable.move [OF assms(1) rw_step.call [of 0 2 pc']] assms(2) by (simp add: one_pc_def)

lemma one_pc_access:
  assumes "rw_reachable 2 1 (lock, one_pc pc)" "rw_next 1 lock pc = Some (lock', pc')"
  shows "rw_reachable 2 1 (lock', one_pc pc')"
  using rw_reachable.move [OF assms(1) rw_step.access [of 0 2 1 lock _ lock' pc']] assms(2) by (simp add: one_pc_def)

lemma one_pc_locking: "rw_reachable 2 1 (0, one_pc (Wload 0))" "rw_reachable 2 1 (0, one_pc (Rload 0))"
proof -
  have "one_pc Idle = (\<lambda>_. Idle)" by (simp add: one_pc_def fun_eq_iff)
  then have "rw_reachable 2 1 (0, one_pc Idle)" using rw_reachable.start [of 2 1] by (simp add: rw_init_def)
  then show "rw_reachable 2 1 (0, one_pc (Wload 0))" "rw_reachable 2 1 (0, one_pc (Rload 0))"
    by (rule one_pc_call, simp)+
qed

lemma one_pc_reading: "rw_reachable 2 1 (1, one_pc Reading)"
proof -
  have "rw_reachable 2 1 (0, one_pc (Rcas 0 0))"
    by (rule one_pc_access [OF one_pc_locking(2)]) (simp add: rw_access_defs NGX_RWLOCK_WLOCK_def)
  then show ?thesis by (rule one_pc_access) (simp add: rw_access_defs)
qed

theorem ngx_rwlock_mutual_exclusion_witness:
  "rw_reachable 2 1 (1, one_pc Reading) \<and> writers (one_pc Reading) = {}
    \<and> (1 :: u_int64) = of_nat (card (readers (one_pc Reading)))"
proof -
  have "writers (one_pc Reading) = {}" by (auto simp: writers_def one_pc_def)
  then show ?thesis using ngx_rwlock_mutual_exclusion [OF one_pc_reading] one_pc_reading by simp
qed

text \<open>
  C31: The lock can be taken.  When nobody holds it, a process that tries to lock, for reading or for
  writing, and is not interrupted by the others, has it after two accesses; so no state is a deadlock.
\<close>

theorem ngx_rwlock_available:
  assumes "rw_reachable procs ngx_ncpu (lock, pcs)" "procs < 2 ^ 64 - 1" "t < procs"
    and "writers pcs = {}" "readers pcs = {}" "pcs t = Wload n \<or> pcs t = Rload n"
  shows "\<exists>s lock' pcs'. rw_step procs ngx_ncpu (lock, pcs) s \<and> rw_step procs ngx_ncpu s (lock', pcs')
    \<and> (if pcs t = Wload n then writers pcs' = {t} else readers pcs' = {t})"
proof -
  have l: "lock = 0" using inv_reachable [OF assms(1,2)] assms(4,5) by simp
  have a: "rw_step procs ngx_ncpu (l, ps) (l', ps(t := pc))" if "rw_next ngx_ncpu l (ps t) = Some (l', pc)" for l ps l' pc
    using assms(3) that by (rule rw_step.access)
  from assms(6) show ?thesis
  proof
    assume w: "pcs t = Wload n"
    have "rw_step procs ngx_ncpu (lock, pcs) (0, pcs(t := Wcas n))" by (rule a) (simp add: w l rw_access_defs)
    moreover have "rw_step procs ngx_ncpu (0, pcs(t := Wcas n)) (NGX_RWLOCK_WLOCK, (pcs(t := Wcas n))(t := Writing))"
      by (rule a) (simp add: rw_access_defs)
    moreover have "writers ((pcs(t := Wcas n))(t := Writing)) = {t}" using assms(4) by (simp add: writers_upd)
    ultimately show ?thesis using w by (intro exI conjI) auto
  next
    assume r: "pcs t = Rload n"
    have "rw_step procs ngx_ncpu (lock, pcs) (0, pcs(t := Rcas n 0))"
      by (rule a) (simp add: r l rw_access_defs NGX_RWLOCK_WLOCK_def)
    moreover have "rw_step procs ngx_ncpu (0, pcs(t := Rcas n 0)) (1, (pcs(t := Rcas n 0))(t := Reading))"
      by (rule a) (simp add: rw_access_defs)
    moreover have "readers ((pcs(t := Rcas n 0))(t := Reading)) = {t}" using assms(5) by (simp add: readers_upd)
    ultimately show ?thesis using r by (intro exI conjI) auto
  qed
qed

theorem ngx_rwlock_available_witness:
  "\<exists>s lock' pcs'. rw_step 2 1 (0, one_pc (Wload 0)) s \<and> rw_step 2 1 s (lock', pcs') \<and> writers pcs' = {0}"
proof -
  have "writers (one_pc (Wload 0)) = {}" "readers (one_pc (Wload 0)) = {}"
    by (auto simp: writers_def readers_def one_pc_def)
  then show ?thesis using ngx_rwlock_available [OF one_pc_locking(1), of 0 0] by (simp add: one_pc_def)
qed

end
