(* ===== verification/Ngx_Radix.thy ===== *)
theory Ngx_Radix
  imports Ngx_Prelude
begin

text \<open>
  The radix trees of \<^verbatim>\<open>core/ngx_radix_tree.c\<close>, which map IPv4 and IPv6 prefixes to values, and their use
  by \<^verbatim>\<open>ngx_http_geo_cidr_add\<close> in \<^verbatim>\<open>http/modules/ngx_http_geo_module.c\<close>.

  The nodes are in a store, a function from addresses to nodes: insertion and deletion change
  nodes in place, deleted nodes are chained into a free list through their right
  pointers, and deletion climbs through the parent pointers.  The store also has the memory the pool can
  still give: \<open>rt_pages\<close> are the addresses that \<^verbatim>\<open>ngx_pmemalign\<close> will return, one after the other; the empty
  list is the end of memory.  (When the memory ends, the code also sets \<^verbatim>\<open>tree->start\<close> to \<^verbatim>\<open>NULL\<close>; as \<^verbatim>\<open>size\<close> is then too small for a
  node, \<^verbatim>\<open>start\<close> is not read again before it is set.)

  The functions for 32-bit keys walk with a word \<^verbatim>\<open>bit\<close>, those for 128-bit keys with an index \<^verbatim>\<open>i\<close>
  and a byte \<^verbatim>\<open>bit\<close>, and are the same otherwise.  The model computes, as a list, the two bits
  that round \<open>k\<close> of the loop looks at, \<^verbatim>\<open>bit & mask\<close> and \<^verbatim>\<open>key & bit\<close>, and shares the loops.
\<close>

definition NGX_RADIX_NO_VALUE :: u_int64 where
  "NGX_RADIX_NO_VALUE = - 1"

record ngx_radix_node_t =
  rn_right :: ptr
  rn_left :: ptr
  rn_parent :: ptr
  rn_value :: u_int64

record ngx_radix_tree_t =
  rt_root :: nat
  rt_free :: ptr
  rt_start :: nat
  rt_size :: nat
  rt_pages :: "nat list"
  rt_mem :: "nat \<Rightarrow> ngx_radix_node_t"

definition node_size :: nat where "node_size = 32"
definition ngx_pagesize :: nat where "ngx_pagesize = 4096"

definition ngx_radix_alloc :: "ngx_radix_tree_t \<Rightarrow> (nat \<times> ngx_radix_tree_t) option" where
  "ngx_radix_alloc tree =
    (case rt_free tree of
       Some p \<Rightarrow> Some (p, tree\<lparr>rt_free := rn_right (rt_mem tree p)\<rparr>)
     | NULL \<Rightarrow>
         let got = (if rt_size tree < node_size then
                      (case rt_pages tree of
                         [] \<Rightarrow> None
                       | a # pages \<Rightarrow> Some (tree\<lparr>rt_start := a, rt_size := ngx_pagesize, rt_pages := pages\<rparr>))
                    else Some tree) in
         (case got of
            None \<Rightarrow> None
          | Some tree \<Rightarrow> Some (rt_start tree,
              tree\<lparr>rt_start := rt_start tree + node_size, rt_size := rt_size tree - node_size\<rparr>)))"

section \<open>The bits a loop looks at\<close>

definition radix32_bits :: "u_int32 \<Rightarrow> u_int32 \<Rightarrow> (bool \<times> bool) list" where
  "radix32_bits key msk =
    map (\<lambda>k. let b = drop_bit k 0x80000000 in (b AND msk \<noteq> 0, key AND b \<noteq> 0)) [0..<32]"

definition radix128_bits :: "u_char list \<Rightarrow> u_char list \<Rightarrow> (bool \<times> bool) list" where
  "radix128_bits key msk =
    map (\<lambda>k. let i = k div 8; b = drop_bit (k mod 8) 0x80 in (b AND msk ! i \<noteq> 0, key ! i AND b \<noteq> 0)) [0..<128]"

section \<open>Insertion\<close>

definition rn_child :: "bool \<Rightarrow> ngx_radix_node_t \<Rightarrow> ptr" where
  "rn_child b nd = (if b then rn_right nd else rn_left nd)"

definition rn_set_child :: "bool \<Rightarrow> ptr \<Rightarrow> ngx_radix_node_t \<Rightarrow> ngx_radix_node_t" where
  "rn_set_child b p nd = (if b then nd\<lparr>rn_right := p\<rparr> else nd\<lparr>rn_left := p\<rparr>)"

text \<open>The first loop: the node reached, whether \<^verbatim>\<open>next\<close> is not \<^verbatim>\<open>NULL\<close>, and the bits not yet used.\<close>

fun insert_walk :: "(nat \<Rightarrow> ngx_radix_node_t) \<Rightarrow> (bool \<times> bool) list \<Rightarrow> nat \<Rightarrow> nat \<times> bool \<times> (bool \<times> bool) list" where
  "insert_walk mem [] node = (node, True, [])"
| "insert_walk mem ((m, k) # bits) node =
    (if \<not> m then (node, True, (m, k) # bits)
     else case rn_child k (mem node) of
       NULL \<Rightarrow> (node, False, (m, k) # bits)
     | Some next \<Rightarrow> insert_walk mem bits next)"

text \<open>The second loop: whether the memory sufficed, the tree and the last node.\<close>

fun insert_grow :: "ngx_radix_tree_t \<Rightarrow> (bool \<times> bool) list \<Rightarrow> nat \<Rightarrow> bool \<times> ngx_radix_tree_t \<times> nat" where
  "insert_grow tree [] node = (True, tree, node)"
| "insert_grow tree ((m, k) # bits) node =
    (if \<not> m then (True, tree, node)
     else case ngx_radix_alloc tree of
       None \<Rightarrow> (False, tree, node)
     | Some (next, tree) \<Rightarrow>
         let mem = (rt_mem tree)(next := \<lparr>rn_right = NULL, rn_left = NULL, rn_parent = Some node,
                     rn_value = NGX_RADIX_NO_VALUE\<rparr>);
             mem = mem(node := rn_set_child k (Some next) (mem node)) in
         insert_grow (tree\<lparr>rt_mem := mem\<rparr>) bits next)"

definition set_value :: "ngx_radix_tree_t \<Rightarrow> nat \<Rightarrow> u_int64 \<Rightarrow> ngx_radix_tree_t" where
  "set_value tree node v = tree\<lparr>rt_mem := (rt_mem tree)(node := (rt_mem tree node)\<lparr>rn_value := v\<rparr>)\<rparr>"

definition radix_insert :: "ngx_radix_tree_t \<Rightarrow> (bool \<times> bool) list \<Rightarrow> u_int64 \<Rightarrow> int \<times> ngx_radix_tree_t" where
  "radix_insert tree bits v =
    (case insert_walk (rt_mem tree) bits (rt_root tree) of (node, found, rest) \<Rightarrow>
       if found then
         if rn_value (rt_mem tree node) \<noteq> NGX_RADIX_NO_VALUE then (NGX_BUSY, tree)
         else (NGX_OK, set_value tree node v)
       else case insert_grow tree rest node of (ok, tree, node) \<Rightarrow>
         if \<not> ok then (NGX_ERROR, tree) else (NGX_OK, set_value tree node v))"

definition ngx_radix32tree_insert :: "ngx_radix_tree_t \<Rightarrow> u_int32 \<Rightarrow> u_int32 \<Rightarrow> u_int64 \<Rightarrow> int \<times> ngx_radix_tree_t" where
  "ngx_radix32tree_insert tree key msk v = radix_insert tree (radix32_bits key msk) v"

definition ngx_radix128tree_insert ::
    "ngx_radix_tree_t \<Rightarrow> u_char list \<Rightarrow> u_char list \<Rightarrow> u_int64 \<Rightarrow> int \<times> ngx_radix_tree_t" where
  "ngx_radix128tree_insert tree key msk v = radix_insert tree (radix128_bits key msk) v"

section \<open>Deletion\<close>

fun delete_walk :: "(nat \<Rightarrow> ngx_radix_node_t) \<Rightarrow> (bool \<times> bool) list \<Rightarrow> ptr \<Rightarrow> ptr" where
  "delete_walk mem bits NULL = NULL"
| "delete_walk mem [] (Some node) = Some node"
| "delete_walk mem ((m, k) # bits) (Some node) =
    (if \<not> m then Some node else delete_walk mem bits (rn_child k (mem node)))"

text \<open>A node is cut off its parent \<open>parent\<close> and put on the free list.\<close>

definition cut_leaf :: "ngx_radix_tree_t \<Rightarrow> nat \<Rightarrow> nat \<Rightarrow> ngx_radix_tree_t" where
  "cut_leaf tree parent node =
    (let mem = rt_mem tree;
         mem = mem(parent := (if rn_right (mem parent) = Some node then (mem parent)\<lparr>rn_right := NULL\<rparr>
                              else (mem parent)\<lparr>rn_left := NULL\<rparr>)) in
     tree\<lparr>rt_mem := mem(node := (mem node)\<lparr>rn_right := rt_free tree\<rparr>), rt_free := Some node\<rparr>)"

text \<open>
  The loop \<^verbatim>\<open>for ( ;; )\<close> that frees the node and its parents without children and value.
  \<^const>\<open>None\<close> is the access to the parent of the root, which is \<^verbatim>\<open>NULL\<close>, or the end of the fuel.
\<close>

fun delete_prune :: "nat \<Rightarrow> ngx_radix_tree_t \<Rightarrow> nat \<Rightarrow> ngx_radix_tree_t option" where
  "delete_prune 0 tree node = None"
| "delete_prune (Suc fuel) tree node =
    (case rn_parent (rt_mem tree node) of
       NULL \<Rightarrow> None
     | Some parent \<Rightarrow>
         let tree = cut_leaf tree parent node; nd = rt_mem tree parent in
         if rn_right nd \<noteq> NULL \<or> rn_left nd \<noteq> NULL then Some tree
         else if rn_value nd \<noteq> NGX_RADIX_NO_VALUE then Some tree
         else if rn_parent nd = NULL then Some tree
         else delete_prune fuel tree parent)"

definition radix_delete :: "ngx_radix_tree_t \<Rightarrow> (bool \<times> bool) list \<Rightarrow> (int \<times> ngx_radix_tree_t) option" where
  "radix_delete tree bits =
    (case delete_walk (rt_mem tree) bits (Some (rt_root tree)) of
       NULL \<Rightarrow> Some (NGX_ERROR, tree)
     | Some node \<Rightarrow>
         let nd = rt_mem tree node in
         if rn_right nd \<noteq> NULL \<or> rn_left nd \<noteq> NULL then
           if rn_value nd \<noteq> NGX_RADIX_NO_VALUE then Some (NGX_OK, set_value tree node NGX_RADIX_NO_VALUE)
           else Some (NGX_ERROR, tree)
         else map_option (\<lambda>tree. (NGX_OK, tree)) (delete_prune (length bits) tree node))"

definition ngx_radix32tree_delete :: "ngx_radix_tree_t \<Rightarrow> u_int32 \<Rightarrow> u_int32 \<Rightarrow> (int \<times> ngx_radix_tree_t) option" where
  "ngx_radix32tree_delete tree key msk = radix_delete tree (radix32_bits key msk)"

definition ngx_radix128tree_delete ::
    "ngx_radix_tree_t \<Rightarrow> u_char list \<Rightarrow> u_char list \<Rightarrow> (int \<times> ngx_radix_tree_t) option" where
  "ngx_radix128tree_delete tree key msk = radix_delete tree (radix128_bits key msk)"

section \<open>Search\<close>

text \<open>
  The loop over the bits of the key.  At the deepest node the word \<^verbatim>\<open>bit\<close> is 0, so the 33rd bit is
  false; with 128-bit keys the code reads the byte behind the key, \<open>past\<close>.  \<^const>\<open>None\<close> is a node
  deeper than that.
\<close>

fun find_loop :: "(nat \<Rightarrow> ngx_radix_node_t) \<Rightarrow> bool list \<Rightarrow> ptr \<Rightarrow> u_int64 \<Rightarrow> u_int64 option" where
  "find_loop mem ks NULL v = Some v"
| "find_loop mem [] (Some node) v = None"
| "find_loop mem (k # ks) (Some node) v =
    find_loop mem ks (rn_child k (mem node))
      (if rn_value (mem node) \<noteq> NGX_RADIX_NO_VALUE then rn_value (mem node) else v)"

definition ngx_radix32tree_find :: "ngx_radix_tree_t \<Rightarrow> u_int32 \<Rightarrow> u_int64 option" where
  "ngx_radix32tree_find tree key =
    find_loop (rt_mem tree) (map snd (radix32_bits key 0) @ [False]) (Some (rt_root tree)) NGX_RADIX_NO_VALUE"

definition ngx_radix128tree_find :: "u_char \<Rightarrow> ngx_radix_tree_t \<Rightarrow> u_char list \<Rightarrow> u_int64 option" where
  "ngx_radix128tree_find past tree key =
    find_loop (rt_mem tree) (map snd (radix128_bits key (replicate 16 0)) @ [past AND 0x80 \<noteq> 0])
      (Some (rt_root tree)) NGX_RADIX_NO_VALUE"

section \<open>Creation\<close>

text \<open>
  The inner loop of the preallocation inserts the keys of one length; \<open>fuel\<close> bounds the number of
  rounds.  \<^const>\<open>None\<close> is a \<^verbatim>\<open>NULL\<close> result.
\<close>

fun prealloc_keys :: "nat \<Rightarrow> ngx_radix_tree_t \<Rightarrow> u_int32 \<Rightarrow> u_int32 \<Rightarrow> u_int32 \<Rightarrow> ngx_radix_tree_t option" where
  "prealloc_keys 0 tree key msk inc = None"
| "prealloc_keys (Suc fuel) tree key msk inc =
    (case ngx_radix32tree_insert tree key msk NGX_RADIX_NO_VALUE of (rc, tree) \<Rightarrow>
       if rc \<noteq> NGX_OK then None
       else if key + inc \<noteq> 0 then prealloc_keys fuel tree (key + inc) msk inc
       else Some tree)"

fun prealloc_levels :: "nat \<Rightarrow> ngx_radix_tree_t \<Rightarrow> nat \<Rightarrow> u_int32 \<Rightarrow> u_int32 \<Rightarrow> ngx_radix_tree_t option" where
  "prealloc_levels 0 tree level msk inc = Some tree"
| "prealloc_levels (Suc n) tree level msk inc =
    (let msk = drop_bit 1 msk OR 0x80000000 in
     case prealloc_keys (2 ^ level) tree 0 msk inc of
       None \<Rightarrow> None
     | Some tree \<Rightarrow> prealloc_levels n tree (level + 1) msk (drop_bit 1 inc))"

text \<open>\<open>preallocate\<close> is -1 or not negative; on this platform a page has 128 nodes.\<close>

definition ngx_radix_tree_create ::
    "(nat \<Rightarrow> ngx_radix_node_t) \<Rightarrow> nat list \<Rightarrow> int \<Rightarrow> ngx_radix_tree_t option" where
  "ngx_radix_tree_create mem pages preallocate =
    (let tree = \<lparr>rt_root = 0, rt_free = NULL, rt_start = 0, rt_size = 0, rt_pages = pages, rt_mem = mem\<rparr> in
     case ngx_radix_alloc tree of
       None \<Rightarrow> None
     | Some (root, tree) \<Rightarrow>
         let tree = tree\<lparr>rt_root := root, rt_mem := (rt_mem tree)(root := \<lparr>rn_right = NULL, rn_left = NULL,
                       rn_parent = NULL, rn_value = NGX_RADIX_NO_VALUE\<rparr>)\<rparr>;
             preallocate = (if preallocate = - 1 then
                              if ngx_pagesize div node_size = 128 then 6
                              else if ngx_pagesize div node_size = 256 then 7 else 8
                            else preallocate) in
         prealloc_levels (nat preallocate) tree 1 0 0x80000000)"

section \<open>The geo module\<close>

text \<open>
  The branches of \<^verbatim>\<open>ngx_http_geo_cidr_add\<close> for one family, with \<^verbatim>\<open>val\<close> already made: an
  existing network is deleted and inserted again.  \<^const>\<open>None\<close> is a crash, \<^const>\<open>False\<close> is \<^verbatim>\<open>NGX_CONF_ERROR\<close>.
\<close>

definition geo_cidr_add :: "('s \<Rightarrow> int \<times> 's) \<Rightarrow> ('s \<Rightarrow> (int \<times> 's) option) \<Rightarrow> 's \<Rightarrow> (bool \<times> 's) option" where
  "geo_cidr_add ins del tree =
    (case ins tree of (rc, tree) \<Rightarrow>
       if rc = NGX_OK then Some (True, tree)
       else if rc = NGX_ERROR then Some (False, tree)
       else case del tree of
         None \<Rightarrow> None
       | Some (rc, tree) \<Rightarrow>
           if rc = NGX_ERROR then Some (False, tree)
           else case ins tree of (rc, tree) \<Rightarrow> Some (rc = NGX_OK, tree))"

definition ngx_http_geo_cidr_add32 :: "ngx_radix_tree_t \<Rightarrow> u_int32 \<Rightarrow> u_int32 \<Rightarrow> u_int64 \<Rightarrow> (bool \<times> ngx_radix_tree_t) option" where
  "ngx_http_geo_cidr_add32 tree addr msk val =
    geo_cidr_add (\<lambda>tree. ngx_radix32tree_insert tree addr msk val) (\<lambda>tree. ngx_radix32tree_delete tree addr msk) tree"

definition ngx_http_geo_cidr_add128 ::
    "ngx_radix_tree_t \<Rightarrow> u_char list \<Rightarrow> u_char list \<Rightarrow> u_int64 \<Rightarrow> (bool \<times> ngx_radix_tree_t) option" where
  "ngx_http_geo_cidr_add128 tree addr msk val =
    geo_cidr_add (\<lambda>tree. ngx_radix128tree_insert tree addr msk val) (\<lambda>tree. ngx_radix128tree_delete tree addr msk) tree"

end
