(* ===== verification/Ngx_Radix_Correct.thy ===== *)
theory Ngx_Radix_Correct
  imports Ngx_Radix "HOL-Library.Sublist" "HOL-Library.Multiset"
begin

text \<open>
  The radix trees implement a table from prefixes to values with longest-prefix search.

  The nodes in the store form a binary tree, and together with the free list and the memory not yet
  used they are all different; no operation loses a node.  The table is read off the store.
\<close>

section \<open>Trees in the store\<close>

datatype rtree = Tip | Nd nat u_int64 rtree rtree

fun tree_at :: "(nat \<Rightarrow> ngx_radix_node_t) \<Rightarrow> ptr \<Rightarrow> ptr \<Rightarrow> rtree \<Rightarrow> bool" where
  "tree_at m par p Tip \<longleftrightarrow> p = NULL"
| "tree_at m par p (Nd a v l r) \<longleftrightarrow> p = Some a \<and> rn_parent (m a) = par \<and> rn_value (m a) = v
     \<and> tree_at m (Some a) (rn_left (m a)) l \<and> tree_at m (Some a) (rn_right (m a)) r"

fun addrs :: "rtree \<Rightarrow> nat list" where
  "addrs Tip = []"
| "addrs (Nd a v l r) = a # addrs l @ addrs r"

fun subtree :: "rtree \<Rightarrow> bool list \<Rightarrow> rtree" where
  "subtree t [] = t"
| "subtree Tip (b # w) = Tip"
| "subtree (Nd a v l r) (b # w) = subtree (if b then r else l) w"

fun put :: "rtree \<Rightarrow> bool list \<Rightarrow> rtree \<Rightarrow> rtree" where
  "put t [] s = s"
| "put Tip (b # w) s = Tip"
| "put (Nd a v l r) (b # w) s = (if b then Nd a v l (put r w s) else Nd a v (put l w s) r)"

definition stored :: "u_int64 \<Rightarrow> u_int64 option" where
  "stored v = (if v = NGX_RADIX_NO_VALUE then None else Some v)"

fun root_value :: "rtree \<Rightarrow> u_int64 option" where
  "root_value Tip = None"
| "root_value (Nd a v l r) = stored v"

definition tval :: "rtree \<Rightarrow> bool list \<Rightarrow> u_int64 option" where
  "tval t w = root_value (subtree t w)"

fun child :: "bool \<Rightarrow> rtree \<Rightarrow> rtree" where
  "child b Tip = Tip"
| "child b (Nd a v l r) = (if b then r else l)"

fun set_child :: "bool \<Rightarrow> rtree \<Rightarrow> rtree \<Rightarrow> rtree" where
  "set_child b s Tip = Tip"
| "set_child b s (Nd a v l r) = (if b then Nd a v l s else Nd a v s r)"

lemma subtree_Tip [simp]: "subtree Tip w = Tip"
  by (cases w) simp_all

lemma subtree_append: "subtree t (u @ w) = subtree (subtree t u) w"
  by (induction t u rule: subtree.induct) simp_all

lemma subtree_snoc: "subtree t (u @ [b]) = child b (subtree t u)"
  by (cases "subtree t u") (simp_all add: subtree_append)

lemma tree_at_NULL [simp]: "tree_at m par NULL t \<longleftrightarrow> t = Tip"
  by (cases t) simp_all

lemma tree_at_cong: "tree_at m par p t \<Longrightarrow> (\<And>x. x \<in> set (addrs t) \<Longrightarrow> m' x = m x) \<Longrightarrow> tree_at m' par p t"
  by (induction t arbitrary: par p) auto

lemma addrs_subtree: "set (addrs (subtree t w)) \<subseteq> set (addrs t)"
  by (induction t w rule: subtree.induct) auto

lemma distinct_subtree: "distinct (addrs t) \<Longrightarrow> distinct (addrs (subtree t w))"
  by (induction t w rule: subtree.induct) auto

lemma tree_at_subtree:
  "tree_at m par p t \<Longrightarrow> subtree t w = Nd a v l r \<Longrightarrow> \<exists>par'. tree_at m par' (Some a) (Nd a v l r) \<and> (par' = NULL \<longleftrightarrow> w = [] \<and> par = NULL)"
  by (induction t w arbitrary: par p rule: subtree.induct) (auto split: if_splits)

lemma mset_addrs_put:
  "subtree t w \<noteq> Tip \<Longrightarrow> mset (addrs (put t w s)) + mset (addrs (subtree t w)) = mset (addrs t) + mset (addrs s)"
  by (induction t w s rule: put.induct) (auto simp: ac_simps)

lemma tree_at_put:
  assumes "tree_at m par p t" "subtree t w = Nd a v l r" "distinct (addrs t)"
    and "\<And>x. x \<in> set (addrs t) \<Longrightarrow> x \<notin> set (addrs (Nd a v l r)) \<Longrightarrow> m' x = m x"
    and "tree_at m' (rn_parent (m a)) (Some a) s"
  shows "tree_at m' par p (put t w s)"
  using assms
proof (induction t w s arbitrary: par p rule: put.induct)
  case (3 a0 v0 l0 r0 b w s)
  let ?other = "if b then l0 else r0" and ?this = "if b then r0 else l0"
  have sub: "set (addrs (Nd a v l r)) \<subseteq> set (addrs ?this)"
    using addrs_subtree [of ?this w] 3(4) by (simp split: if_splits)
  then have a0: "m' a0 = m a0" using 3(5,6) by (auto split: if_splits)
  have other: "tree_at m' par' q ?other" if "tree_at m par' q ?other" for par' q
    using that sub 3(5,6) by (intro tree_at_cong [OF that]) (auto split: if_splits)
  show ?case using 3 a0 other by (auto split: if_splits)
qed simp_all

text \<open>What a replaced subtree changes.\<close>

lemma tval_put:
  "subtree t u \<noteq> Tip \<Longrightarrow> tval (put t u s) w = (if prefix u w then tval s (drop (length u) w) else tval t w)"
proof (induction t u s arbitrary: w rule: put.induct)
  case (3 a v l r b u s)
  then show ?case by (cases w) (auto simp: tval_def)
qed (simp_all add: tval_def)

lemma subtree_put_Tip:
  "subtree t u \<noteq> Tip \<Longrightarrow>
    subtree (put t u s) w = Tip \<longleftrightarrow> (if prefix u w then subtree s (drop (length u) w) = Tip else subtree t w = Tip)"
proof (induction t u s arbitrary: w rule: put.induct)
  case (3 a v l r b u s)
  then show ?case by (cases w) auto
qed simp_all

lemma subtree_put [simp]: "subtree t u \<noteq> Tip \<Longrightarrow> subtree (put t u s) (u @ w) = subtree s w"
  by (induction t u s rule: put.induct) (auto split: if_splits)

lemma subtree_put_self [simp]: "subtree t u \<noteq> Tip \<Longrightarrow> subtree (put t u s) u = s"
  using subtree_put [of t u s "[]"] by simp

section \<open>Memory that can be used\<close>

fun freelist :: "(nat \<Rightarrow> ngx_radix_node_t) \<Rightarrow> ptr \<Rightarrow> nat list \<Rightarrow> bool" where
  "freelist m p [] \<longleftrightarrow> p = NULL"
| "freelist m p (a # xs) \<longleftrightarrow> p = Some a \<and> freelist m (rn_right (m a)) xs"

definition chunk :: "nat \<Rightarrow> nat \<Rightarrow> nat list" where
  "chunk start n = map (\<lambda>i. start + node_size * i) [0..<n div node_size]"

definition available :: "ngx_radix_tree_t \<Rightarrow> nat list \<Rightarrow> bool" where
  "available T xs \<longleftrightarrow> (\<exists>fs. freelist (rt_mem T) (rt_free T) fs
     \<and> xs = fs @ chunk (rt_start T) (rt_size T) @ concat (map (\<lambda>a. chunk a ngx_pagesize) (rt_pages T)))"

lemma freelist_cong: "freelist m p fs \<Longrightarrow> (\<And>x. x \<in> set fs \<Longrightarrow> m' x = m x) \<Longrightarrow> freelist m' p fs"
  by (induction fs arbitrary: p) auto

lemma available_mem:
  assumes "available T xs" "\<And>x. x \<in> set xs \<Longrightarrow> m' x = rt_mem T x"
  shows "available (T\<lparr>rt_mem := m'\<rparr>) xs"
proof -
  obtain fs where fs: "freelist (rt_mem T) (rt_free T) fs"
    "xs = fs @ chunk (rt_start T) (rt_size T) @ concat (map (\<lambda>a. chunk a ngx_pagesize) (rt_pages T))"
    using assms(1) by (auto simp: available_def)
  then have "freelist m' (rt_free T) fs" using assms(2) by (intro freelist_cong [OF fs(1)]) simp
  then show ?thesis using fs(2) by (auto simp: available_def)
qed

lemma available_free:
  assumes "available T xs" "a \<notin> set xs"
  shows "available (T\<lparr>rt_mem := (rt_mem T)(a := (rt_mem T a)\<lparr>rn_right := rt_free T\<rparr>), rt_free := Some a\<rparr>) (a # xs)"
proof -
  obtain fs where fs: "freelist (rt_mem T) (rt_free T) fs"
    "xs = fs @ chunk (rt_start T) (rt_size T) @ concat (map (\<lambda>a. chunk a ngx_pagesize) (rt_pages T))"
    using assms(1) by (auto simp: available_def)
  let ?m = "(rt_mem T)(a := (rt_mem T a)\<lparr>rn_right := rt_free T\<rparr>)"
  have "freelist ?m (rt_free T) fs" using fs assms(2) by (intro freelist_cong [OF fs(1)]) auto
  then have "freelist ?m (Some a) (a # fs)" by simp
  then show ?thesis using fs(2) unfolding available_def by (intro exI [of _ "a # fs"]) simp
qed

lemma chunk_small: "n < node_size \<Longrightarrow> chunk start n = []"
  by (simp add: chunk_def)

lemma chunk_Cons: "node_size \<le> n \<Longrightarrow> chunk start n = start # chunk (start + node_size) (n - node_size)"
proof -
  assume n: "node_size \<le> n"
  then have "n div node_size = Suc ((n - node_size) div node_size)"
    by (simp add: node_size_def div_if)
  then show ?thesis by (simp add: chunk_def upt_conv_Cons map_Suc_upt [symmetric] del: upt_Suc)
qed

lemma alloc_available:
  assumes "available T (a # xs)"
  shows "\<exists>T'. ngx_radix_alloc T = Some (a, T') \<and> available T' xs \<and> rt_mem T' = rt_mem T \<and> rt_root T' = rt_root T"
proof -
  obtain fs where fs: "freelist (rt_mem T) (rt_free T) fs"
    "a # xs = fs @ chunk (rt_start T) (rt_size T) @ concat (map (\<lambda>a. chunk a ngx_pagesize) (rt_pages T))"
    using assms by (auto simp: available_def)
  show ?thesis
  proof (cases fs)
    case (Cons b fs')
    then show ?thesis using fs by (auto simp: ngx_radix_alloc_def available_def)
  next
    case Nil
    then have free: "rt_free T = NULL" using fs by simp
    show ?thesis
    proof (cases "rt_size T < node_size")
      case True
      then show ?thesis using fs(2) Nil free chunk_Cons [of ngx_pagesize]
        by (cases "rt_pages T") (auto simp: ngx_radix_alloc_def available_def chunk_small ngx_pagesize_def node_size_def)
    next
      case False
      then show ?thesis using fs(2) Nil free chunk_Cons [of "rt_size T"]
        by (auto simp: ngx_radix_alloc_def available_def)
    qed
  qed
qed

lemma alloc_none: "available T [] \<Longrightarrow> ngx_radix_alloc T = None"
  by (cases "rt_size T < node_size"; cases "rt_pages T")
    (auto simp: available_def ngx_radix_alloc_def chunk_Cons ngx_pagesize_def node_size_def)

section \<open>The invariant\<close>

definition radix_inv :: "nat \<Rightarrow> ngx_radix_tree_t \<Rightarrow> rtree \<Rightarrow> nat list \<Rightarrow> bool" where
  "radix_inv N T t xs \<longleftrightarrow> tree_at (rt_mem T) NULL (Some (rt_root T)) t \<and> available T xs
     \<and> distinct (addrs t @ xs) \<and> (\<forall>w. subtree t w \<noteq> Tip \<longrightarrow> length w \<le> N)"

lemma radix_inv_node:
  assumes "radix_inv N T t xs" "subtree t u = Nd a v l r"
  shows "tree_at (rt_mem T) (rn_parent (rt_mem T a)) (Some a) (Nd a v l r)"
    "rn_parent (rt_mem T a) = NULL \<longleftrightarrow> u = []" "a \<in> set (addrs t)" "length u \<le> N"
proof -
  obtain par where "tree_at (rt_mem T) par (Some a) (Nd a v l r)" "par = NULL \<longleftrightarrow> u = []"
    using assms tree_at_subtree [of "rt_mem T" NULL "Some (rt_root T)" t u a v l r] by (auto simp: radix_inv_def)
  then show "tree_at (rt_mem T) (rn_parent (rt_mem T a)) (Some a) (Nd a v l r)"
    "rn_parent (rt_mem T a) = NULL \<longleftrightarrow> u = []" by auto
  show "a \<in> set (addrs t)" using addrs_subtree [of t u] assms(2) by auto
  show "length u \<le> N" using assms by (auto simp: radix_inv_def)
qed

lemma radix_inv_depth:
  assumes "radix_inv N T t xs" "subtree t u = s" "subtree s w \<noteq> Tip"
  shows "length u + length w \<le> N"
proof -
  have "subtree t (u @ w) \<noteq> Tip" using assms(2,3) by (simp add: subtree_append)
  then show ?thesis using assms(1) unfolding radix_inv_def by (metis length_append)
qed

lemma radix_inv_distinct:
  assumes "radix_inv N T t xs" "subtree t u = s"
  shows "distinct (addrs s @ xs)"
  using assms distinct_subtree [of t u] addrs_subtree [of t u] by (auto simp: radix_inv_def)

text \<open>Every change of the tree replaces the subtree at a node and moves nodes from or to the free memory.\<close>

lemma radix_inv_put:
  assumes inv: "radix_inv N T t xs" and sub: "subtree t u = Nd a v l r" and root: "rt_root T' = rt_root T"
    and new: "tree_at (rt_mem T') (rn_parent (rt_mem T a)) (Some a) s"
    and same: "\<And>x. x \<in> set (addrs t) \<Longrightarrow> x \<notin> set (addrs (Nd a v l r)) \<Longrightarrow> rt_mem T' x = rt_mem T x"
    and avail: "available T' xs'" and nodes: "mset (addrs s @ xs') = mset (addrs (Nd a v l r) @ xs)"
    and depth: "\<And>w. subtree s w \<noteq> Tip \<Longrightarrow> length u + length w \<le> N"
  shows "radix_inv N T' (put t u s) xs'"
proof -
  let ?A = "mset (addrs (Nd a v l r))"
  have "mset (addrs (put t u s) @ xs') + ?A = (mset (addrs (put t u s)) + ?A) + mset xs'" by (simp add: ac_simps)
  also have "\<dots> = mset (addrs t) + mset (addrs s @ xs')"
    using mset_addrs_put [of t u s] sub by (simp add: ac_simps)
  also have "\<dots> = mset (addrs t @ xs) + ?A" unfolding nodes by (simp add: ac_simps)
  finally have "mset (addrs (put t u s) @ xs') = mset (addrs t @ xs)" by simp
  then have "distinct (addrs (put t u s) @ xs')"
    using inv mset_eq_imp_distinct_iff by (metis radix_inv_def)
  moreover have "tree_at (rt_mem T') NULL (Some (rt_root T')) (put t u s)"
    using inv sub root new same by (intro tree_at_put) (auto simp: radix_inv_def)
  moreover have "length w \<le> N" if "subtree (put t u s) w \<noteq> Tip" for w
  proof (cases "prefix u w")
    case True
    then obtain w' where "w = u @ w'" by (auto simp: prefix_def)
    then show ?thesis using that depth [of w'] sub by simp
  next
    case False
    then show ?thesis using that inv sub by (simp add: subtree_put_Tip radix_inv_def)
  qed
  ultimately show ?thesis using avail by (simp add: radix_inv_def)
qed

text \<open>The value of a node is set.\<close>

lemma tval_set_root:
  "tval (Nd a v l r) w = (if w = [] then stored v else tval (child (hd w) (Nd a v l r)) (tl w))"
  by (cases w) (simp_all add: tval_def)

lemma drop_prefix_Nil: "prefix u w \<Longrightarrow> drop (length u) w = [] \<longleftrightarrow> w = u"
  by (auto simp: prefix_def)

lemma tval_subtree: "prefix u w \<Longrightarrow> tval (subtree t u) (drop (length u) w) = tval t w"
  by (auto simp: prefix_def tval_def subtree_append)

lemma tval_put_value:
  assumes "subtree t u = Nd a v l r"
  shows "tval (put t u (Nd a v' l r)) = (tval t)(u := stored v')"
proof
  fix w
  show "tval (put t u (Nd a v' l r)) w = ((tval t)(u := stored v')) w"
  proof (cases "prefix u w")
    case True
    then have "tval (Nd a v' l r) (drop (length u) w) = (if w = u then stored v' else tval (Nd a v l r) (drop (length u) w))"
      using drop_prefix_Nil [OF True] by (simp add: tval_set_root)
    then show ?thesis using True assms tval_subtree [OF True, of t] by (simp add: tval_put)
  qed (use assms in \<open>auto simp: tval_put\<close>)
qed

lemma set_value_inv:
  assumes "radix_inv N T t xs" "subtree t u = Nd a v l r"
  shows "radix_inv N (set_value T a v') (put t u (Nd a v' l r)) xs"
proof -
  note n = radix_inv_node [OF assms]
  have d: "a \<notin> set (addrs l)" "a \<notin> set (addrs r)" "a \<notin> set xs"
    using radix_inv_distinct [OF assms] by auto
  show ?thesis
  proof (rule radix_inv_put [OF assms])
    show "tree_at (rt_mem (set_value T a v')) (rn_parent (rt_mem T a)) (Some a) (Nd a v' l r)"
      using n(1) d(1,2) by (auto simp: set_value_def elim: tree_at_cong)
    show "available (set_value T a v') xs"
      using assms(1) d(3) unfolding set_value_def radix_inv_def by (intro available_mem) auto
    show "length u + length w \<le> N" if "subtree (Nd a v' l r) w \<noteq> Tip" for w
    proof -
      have "subtree (Nd a v l r) w \<noteq> Tip" using that by (cases w) auto
      then show ?thesis using radix_inv_depth [OF assms] by simp
    qed
  qed (auto simp: set_value_def)
qed

text \<open>A new node is hung below a node.\<close>

definition new_node :: "nat \<Rightarrow> ngx_radix_node_t" where
  "new_node par = \<lparr>rn_right = NULL, rn_left = NULL, rn_parent = Some par, rn_value = NGX_RADIX_NO_VALUE\<rparr>"

lemma new_node_fields [simp]:
  "rn_right (new_node p) = NULL" "rn_left (new_node p) = NULL" "rn_parent (new_node p) = Some p"
  "rn_value (new_node p) = NGX_RADIX_NO_VALUE"
  by (simp_all add: new_node_def)

lemma rn_set_child_fields [simp]:
  "rn_parent (rn_set_child b p nd) = rn_parent nd" "rn_value (rn_set_child b p nd) = rn_value nd"
  "rn_left (rn_set_child b p nd) = (if b then rn_left nd else p)"
  "rn_right (rn_set_child b p nd) = (if b then p else rn_right nd)"
  by (simp_all add: rn_set_child_def)

lemma stored_NO [simp]: "stored NGX_RADIX_NO_VALUE = None"
  by (simp add: stored_def)

lemma tval_Tip [simp]: "tval Tip w = None"
  by (simp add: tval_def)

text \<open>Replacing a child that holds no values by another one changes no value.\<close>

lemma tval_put_child:
  assumes "subtree t u = Nd a v l r" "\<And>w. tval s w = tval (child k (Nd a v l r)) w"
  shows "tval (put t u (set_child k s (Nd a v l r))) = tval t"
proof
  fix w
  have "tval (set_child k s (Nd a v l r)) w' = tval (Nd a v l r) w'" for w'
    using assms(2) by (cases w') (auto simp: tval_def)
  then show "tval (put t u (set_child k s (Nd a v l r))) w = tval t w"
    using assms(1) tval_subtree [of u w t] by (simp add: tval_put)
qed

lemma tval_leaf: "tval (Nd b NGX_RADIX_NO_VALUE Tip Tip) w = None"
  by (simp add: tval_set_root)

lemma grow_inv:
  assumes inv: "radix_inv N T t (b # xs)" and sub: "subtree t u = Nd a v l r" and tip: "child k (Nd a v l r) = Tip"
    and len: "length u < N" and T1: "available T1 xs" "rt_mem T1 = rt_mem T" "rt_root T1 = rt_root T"
  defines "m \<equiv> (rt_mem T)(b := new_node a)"
  shows "radix_inv N (T1\<lparr>rt_mem := m(a := rn_set_child k (Some b) (m a))\<rparr>)
    (put t u (set_child k (Nd b NGX_RADIX_NO_VALUE Tip Tip) (Nd a v l r))) xs"
proof (rule radix_inv_put [OF inv sub])
  note n = radix_inv_node [OF inv sub]
  have d: "a \<noteq> b" "a \<notin> set (addrs l)" "a \<notin> set (addrs r)" "b \<notin> set (addrs l)" "b \<notin> set (addrs r)"
    "a \<notin> set xs" "b \<notin> set xs" using radix_inv_distinct [OF inv sub] by auto
  let ?m = "m(a := rn_set_child k (Some b) (m a))"
  have same: "?m x = rt_mem T x" if "x \<noteq> a" "x \<noteq> b" for x using that by (simp add: m_def)
  have keep: "tree_at ?m par p s" if "tree_at (rt_mem T) par p s" "set (addrs s) \<subseteq> set (addrs l) \<union> set (addrs r)" for par p s
    by (rule tree_at_cong [OF that(1)]) (rule same, use that(2) d in auto)
  show "tree_at (rt_mem (T1\<lparr>rt_mem := ?m\<rparr>)) (rn_parent (rt_mem T a)) (Some a)
    (set_child k (Nd b NGX_RADIX_NO_VALUE Tip Tip) (Nd a v l r))"
    using n(1) d(1) keep by (auto simp: m_def)
  show "available (T1\<lparr>rt_mem := ?m\<rparr>) xs"
    using T1 d(6,7) by (intro available_mem [OF T1(1)]) (auto simp: m_def)
  show "mset (addrs (set_child k (Nd b NGX_RADIX_NO_VALUE Tip Tip) (Nd a v l r)) @ xs) =
    mset (addrs (Nd a v l r) @ b # xs)" using tip by auto
  show "length u + length w \<le> N"
    if "subtree (set_child k (Nd b NGX_RADIX_NO_VALUE Tip Tip) (Nd a v l r)) w \<noteq> Tip" for w
  proof (cases w)
    case (Cons c w')
    then show ?thesis using that len radix_inv_depth [OF inv sub, of w]
      by (cases "c = k"; cases w') (auto split: if_splits)
  qed (use len in simp)
  show "rt_mem (T1\<lparr>rt_mem := ?m\<rparr>) x = rt_mem T x" if "x \<in> set (addrs t)" "x \<notin> set (addrs (Nd a v l r))" for x
    using that inv by (auto simp: m_def radix_inv_def)
  show "rt_root (T1\<lparr>rt_mem := ?m\<rparr>) = rt_root T" using T1(3) by simp
qed

text \<open>A leaf is cut off and put on the free list.\<close>

lemma cut_leaf_inv:
  assumes inv: "radix_inv N T t xs" and sub: "subtree t u = Nd a v l r" and leaf: "child b (Nd a v l r) = Nd n vn Tip Tip"
  shows "radix_inv N (cut_leaf T a n) (put t u (set_child b Tip (Nd a v l r))) (n # xs)"
    "rt_mem (cut_leaf T a n) a = rn_set_child b NULL (rt_mem T a)"
proof -
  note nd = radix_inv_node [OF inv sub]
  have d: "distinct (addrs (Nd a v l r) @ xs)" by (rule radix_inv_distinct [OF inv sub])
  have an: "a \<noteq> n" "n \<notin> set xs" "a \<notin> set xs" using d leaf by (auto split: if_splits)
  have right: "rn_right (rt_mem T a) = Some n \<longleftrightarrow> b"
  proof (cases b)
    case False
    have "n \<notin> set (addrs r)" using d leaf False by auto
    then show ?thesis using nd(1) False by (cases r) auto
  qed (use nd(1) leaf in auto)
  let ?m = "(rt_mem T)(a := rn_set_child b NULL (rt_mem T a))"
  have cut: "cut_leaf T a n = T\<lparr>rt_mem := ?m(n := (?m n)\<lparr>rn_right := rt_free T\<rparr>), rt_free := Some n\<rparr>"
    using right an(1) by (simp add: cut_leaf_def rn_set_child_def Let_def)
  show "rt_mem (cut_leaf T a n) a = rn_set_child b NULL (rt_mem T a)" using an by (simp add: cut)
  show "radix_inv N (cut_leaf T a n) (put t u (set_child b Tip (Nd a v l r))) (n # xs)"
  proof (rule radix_inv_put [OF inv sub])
    have keep: "tree_at (rt_mem (cut_leaf T a n)) par p s"
      if "tree_at (rt_mem T) par p s" "a \<notin> set (addrs s)" "n \<notin> set (addrs s)" for par p s
      by (rule tree_at_cong [OF that(1)]) (use that(2,3) in \<open>auto simp: cut\<close>)
    show "tree_at (rt_mem (cut_leaf T a n)) (rn_parent (rt_mem T a)) (Some a) (set_child b Tip (Nd a v l r))"
      using nd(1) keep d leaf an by (auto simp: cut split: if_splits)
    show "available (cut_leaf T a n) (n # xs)"
    proof -
      have "available (T\<lparr>rt_mem := ?m\<rparr>) xs"
        using inv an(3) unfolding radix_inv_def by (intro available_mem) auto
      from available_free [OF this an(2)] show ?thesis using an(1) by (simp add: cut)
    qed
    show "mset (addrs (set_child b Tip (Nd a v l r)) @ n # xs) = mset (addrs (Nd a v l r) @ xs)"
      using leaf by (auto split: if_splits)
    show "length u + length w \<le> N" if "subtree (set_child b Tip (Nd a v l r)) w \<noteq> Tip" for w
      using that radix_inv_depth [OF inv sub, of w] nd(4) by (cases w) (auto split: if_splits)
    show "rt_mem (cut_leaf T a n) x = rt_mem T x" if "x \<in> set (addrs t)" "x \<notin> set (addrs (Nd a v l r))" for x
      using that leaf by (auto simp: cut split: if_splits)
  qed (simp add: cut)
qed

section \<open>The table\<close>

fun walk :: "(nat \<Rightarrow> ngx_radix_node_t) \<Rightarrow> bool list \<Rightarrow> ptr \<Rightarrow> ptr" where
  "walk m w NULL = NULL"
| "walk m [] (Some a) = Some a"
| "walk m (b # w) (Some a) = walk m w (rn_child b (m a))"

definition table :: "ngx_radix_tree_t \<Rightarrow> bool list \<Rightarrow> u_int64 option" where
  "table T w = (case walk (rt_mem T) w (Some (rt_root T)) of NULL \<Rightarrow> None | Some a \<Rightarrow> stored (rn_value (rt_mem T a)))"

definition radix_ok :: "nat \<Rightarrow> ngx_radix_tree_t \<Rightarrow> bool" where
  "radix_ok N T \<longleftrightarrow> (\<exists>t xs. radix_inv N T t xs)"

text \<open>The same with memory for at least \<open>n\<close> more nodes.\<close>

definition radix_room :: "nat \<Rightarrow> ngx_radix_tree_t \<Rightarrow> nat \<Rightarrow> bool" where
  "radix_room N T n \<longleftrightarrow> (\<exists>t xs. radix_inv N T t xs \<and> n \<le> length xs)"

lemma radix_room_0: "radix_room N T 0 \<longleftrightarrow> radix_ok N T"
  by (simp add: radix_room_def radix_ok_def)

lemma radix_room_mono: "radix_room N T n \<Longrightarrow> n' \<le> n \<Longrightarrow> radix_room N T n'"
  by (meson radix_room_def order_trans)

lemma walk_tree: "tree_at m par p t \<Longrightarrow> (case walk m w p of NULL \<Rightarrow> None | Some a \<Rightarrow> stored (rn_value (m a))) = tval t w"
proof (induction t arbitrary: par p w)
  case Tip
  then show ?case by simp
next
  case (Nd a v l r)
  then show ?case by (cases w) (auto simp: tval_set_root rn_child_def)
qed

lemma table_tval: "radix_inv N T t xs \<Longrightarrow> table T = tval t"
  using walk_tree by (auto simp: table_def radix_inv_def fun_eq_iff)

text \<open>The prefix that key and mask describe.\<close>

definition pfx :: "(bool \<times> bool) list \<Rightarrow> bool list" where
  "pfx bits = map snd (takeWhile fst bits)"

lemma pfx_simps [simp]: "pfx [] = []" "pfx ((True, k) # bits) = k # pfx bits" "pfx ((False, k) # bits) = []"
  by (simp_all add: pfx_def)

lemma length_pfx: "length (pfx bits) \<le> length bits"
  by (simp add: pfx_def length_takeWhile_le)

section \<open>Insertion\<close>

lemma insert_walk_subtree:
  "tree_at m par (Some n) t \<Longrightarrow>
    (case insert_walk m bits n of (n', found, rest) \<Rightarrow> \<exists>u v l r. pfx bits = u @ pfx rest \<and> subtree t u = Nd n' v l r
       \<and> (if found then pfx rest = [] else \<exists>k w. rest = (True, k) # w \<and> child k (Nd n' v l r) = Tip))"
proof (induction m bits n arbitrary: par t rule: insert_walk.induct)
  case (1 m n)
  then show ?case by (cases t) auto
next
  case (2 m b k bits n)
  then obtain v l r where t: "t = Nd n v l r" by (cases t) auto
  show ?case
  proof (cases "b \<and> rn_child k (m n) \<noteq> NULL")
    case True
    then obtain n1 where n1: "rn_child k (m n) = Some n1" by auto
    then have "tree_at m (Some n) (Some n1) (child k t)" using 2(2) t by (auto simp: rn_child_def)
    from 2(1) [OF _ n1 this] True obtain n' found rest u v l r where
      "insert_walk m bits n1 = (n', found, rest)" "pfx bits = u @ pfx rest" "subtree (child k t) u = Nd n' v l r"
      "if found then pfx rest = [] else \<exists>k w. rest = (True, k) # w \<and> child k (Nd n' v l r) = Tip" by auto
    then show ?thesis using True n1 t
      by (auto intro!: exI [of _ "k # u"] split del: if_split)
  next
    case False
    then show ?thesis using 2(2) t
      by (cases b) (auto simp: rn_child_def intro!: exI [of _ "[]"] split: if_splits)
  qed
qed

lemma insert_grow_inv:
  assumes "radix_inv N T t xs" "subtree t u = Nd n v l r" "length u + length (pfx bits) \<le> N"
    and "\<And>k w. pfx bits = k # w \<Longrightarrow> child k (Nd n v l r) = Tip"
  shows "case insert_grow T bits n of (ok, T', n') \<Rightarrow> \<exists>t' xs'. radix_inv N T' t' xs' \<and> tval t' = tval t
    \<and> (if ok then (\<exists>v' l' r'. subtree t' (u @ pfx bits) = Nd n' v' l' r') \<and> length xs \<le> length xs' + length (pfx bits)
       else xs' = [] \<and> length xs < length (pfx bits))"
  using assms
proof (induction bits arbitrary: T n t xs u v l r)
  case Nil
  then show ?case by (auto intro!: exI [of _ t] exI [of _ xs])
next
  case (Cons mk bits)
  obtain m k where mk: "mk = (m, k)" by (cases mk)
  show ?case
  proof (cases "m \<and> xs \<noteq> []")
    case True
    then obtain b xs' where m: "m" and xs: "xs = b # xs'" by (cases xs) auto
    obtain T1 where a: "ngx_radix_alloc T = Some (b, T1)" "available T1 xs'" "rt_mem T1 = rt_mem T" "rt_root T1 = rt_root T"
      using alloc_available [of T b xs'] Cons.prems(1) xs by (auto simp: radix_inv_def)
    let ?m = "(rt_mem T)(b := new_node n)" and ?leaf = "Nd b NGX_RADIX_NO_VALUE Tip Tip"
    let ?T = "T1\<lparr>rt_mem := ?m(n := rn_set_child k (Some b) (?m n))\<rparr>" and ?t = "put t u (set_child k ?leaf (Nd n v l r))"
    have tip: "child k (Nd n v l r) = Tip" using Cons.prems(4) m mk by simp
    have inv: "radix_inv N ?T ?t xs'"
      using Cons.prems(1,3) xs m mk by (intro grow_inv [OF _ Cons.prems(2) tip _ a(2-4)]) auto
    have tv: "tval ?t = tval t" using tip by (intro tval_put_child [OF Cons.prems(2)]) (simp add: tval_leaf)
    have leaf: "subtree ?t (u @ [k]) = ?leaf" using Cons.prems(2) by (simp add: subtree_snoc)
    have eq: "insert_grow T (mk # bits) n = insert_grow ?T bits b"
      using m a(1,3) mk by (simp add: new_node_def Let_def)
    have len: "length (u @ [k]) + length (pfx bits) \<le> N" using Cons.prems(3) m mk by simp
    have p: "(u @ [k]) @ pfx bits = u @ pfx (mk # bits)" using m mk by simp
    have tips: "child k' ?leaf = Tip" if "pfx bits = k' # w" for k' w by simp
    have l: "length xs = Suc (length xs')" "length (pfx (mk # bits)) = Suc (length (pfx bits))" using m mk xs by simp_all
    from Cons.IH [OF inv leaf len tips] show ?thesis unfolding eq tv p l add_Suc_right Suc_le_mono Suc_less_eq .
  next
    case False
    have "m \<Longrightarrow> ngx_radix_alloc T = None" using Cons.prems(1) alloc_none [of T] False by (auto simp: radix_inv_def)
    then show ?thesis using Cons.prems(1,2) mk False
      by (cases m) (auto intro!: exI [of _ t] exI [of _ xs])
  qed
qed

text \<open>
  Insertion: \<^verbatim>\<open>NGX_BUSY\<close> if the prefix has a value, \<^verbatim>\<open>NGX_ERROR\<close> if the memory is used up, and else the prefix
  has the new value.
\<close>

lemma radix_insert_room:
  assumes "radix_room N T free" "length bits \<le> N"
  shows "case radix_insert T bits v of (rc, T') \<Rightarrow> radix_room N T' (free - length (pfx bits)) \<and>
    (if table T (pfx bits) \<noteq> None then rc = NGX_BUSY \<and> T' = T
     else rc = NGX_OK \<and> table T' = (table T)(pfx bits := stored v)
       \<or> rc = NGX_ERROR \<and> table T' = table T \<and> ngx_radix_alloc T' = None \<and> free < length (pfx bits))"
proof -
  obtain t xs where inv: "radix_inv N T t xs" and room: "free \<le> length xs" using assms(1) by (auto simp: radix_room_def)
  then have at: "tree_at (rt_mem T) NULL (Some (rt_root T)) t" by (simp add: radix_inv_def)
  obtain n found rest where w: "insert_walk (rt_mem T) bits (rt_root T) = (n, found, rest)" by (cases "insert_walk (rt_mem T) bits (rt_root T)")
  obtain u v0 l r where u: "pfx bits = u @ pfx rest" "subtree t u = Nd n v0 l r"
    "if found then pfx rest = [] else \<exists>k w. rest = (True, k) # w \<and> child k (Nd n v0 l r) = Tip"
    using insert_walk_subtree [OF at, of bits] w by auto
  have tab: "table T = tval t" by (rule table_tval [OF inv])
  show ?thesis
  proof (cases found)
    case True
    then have "table T (pfx bits) = stored v0" "rn_value (rt_mem T n) = v0"
      using u radix_inv_node(1) [OF inv u(2)] tab by (simp_all add: tval_def)
    moreover have "radix_inv N (set_value T n v) (put t u (Nd n v l r)) xs" by (rule set_value_inv [OF inv u(2)])
    moreover from this have "table (set_value T n v) = (table T)(u := stored v)"
      using table_tval tval_put_value [OF u(2)] tab by metis
    moreover have "radix_room N T (free - length (pfx bits))" by (rule radix_room_mono [OF assms(1)]) simp
    moreover have "radix_room N (set_value T n v) (free - length (pfx bits))" if "radix_inv N (set_value T n v) (put t u (Nd n v l r)) xs"
      using that room unfolding radix_room_def by (meson diff_le_self order_trans)
    ultimately show ?thesis using True w u(1,3) by (auto simp: radix_insert_def stored_def)
  next
    case False
    then obtain k ws where k: "rest = (True, k) # ws" "child k (Nd n v0 l r) = Tip" using u(3) by auto
    then have none: "table T (pfx bits) = None" using u tab by (simp add: tval_def subtree_append)
    have len: "length u + length (pfx rest) \<le> N" using u(1) length_pfx [of bits] assms(2) by simp
    obtain ok T1 n1 where g: "insert_grow T rest n = (ok, T1, n1)" by (cases "insert_grow T rest n")
    then obtain t1 xs1 where t1: "radix_inv N T1 t1 xs1" "tval t1 = tval t"
      "ok \<Longrightarrow> \<exists>v' l' r'. subtree t1 (pfx bits) = Nd n1 v' l' r'" "ok \<Longrightarrow> length xs \<le> length xs1 + length (pfx rest)"
      "\<not> ok \<Longrightarrow> xs1 = [] \<and> length xs < length (pfx rest)"
      using insert_grow_inv [OF inv u(2) len] k u(1) by (auto split: if_splits)
    show ?thesis
    proof (cases ok)
      case True
      then obtain v1 l1 r1 where s: "subtree t1 (pfx bits) = Nd n1 v1 l1 r1" using t1(3) by auto
      have "radix_inv N (set_value T1 n1 v) (put t1 (pfx bits) (Nd n1 v l1 r1)) xs1" by (rule set_value_inv [OF t1(1) s])
      moreover from this have "table (set_value T1 n1 v) = (table T)(pfx bits := stored v)"
        using table_tval tval_put_value [OF s] tab t1(2) by metis
      moreover have "free - length (pfx bits) \<le> length xs1" using t1(4) [OF True] room u(1) by simp
      ultimately show ?thesis using False w g True none by (auto simp: radix_insert_def radix_room_def)
    next
      case not_ok: False
      have "table T1 = table T" using table_tval [OF t1(1)] tab t1(2) by simp
      moreover have "ngx_radix_alloc T1 = None" using t1(1,5) not_ok by (intro alloc_none) (simp add: radix_inv_def)
      moreover have "free < length (pfx bits)" using t1(5) not_ok room u(1) by simp
      ultimately show ?thesis using False w g not_ok none t1(1) by (auto simp: radix_insert_def radix_room_def)
    qed
  qed
qed

lemma radix_insert_spec:
  assumes "radix_ok N T" "length bits \<le> N"
  shows "case radix_insert T bits v of (rc, T') \<Rightarrow> radix_ok N T' \<and>
    (if table T (pfx bits) \<noteq> None then rc = NGX_BUSY \<and> T' = T
     else rc = NGX_OK \<and> table T' = (table T)(pfx bits := stored v)
       \<or> rc = NGX_ERROR \<and> table T' = table T \<and> ngx_radix_alloc T' = None)"
  using radix_insert_room [of N T 0 bits v] assms by (auto simp: radix_room_0)

section \<open>Search\<close>

text \<open>A value is the one of the longest prefix of the key in a table, or a default if there is none.\<close>

definition longest_match :: "u_int64 \<Rightarrow> (bool list \<Rightarrow> u_int64 option) \<Rightarrow> bool list \<Rightarrow> u_int64 \<Rightarrow> bool" where
  "longest_match d M ks v \<longleftrightarrow>
     (v = d \<and> (\<forall>w. prefix w ks \<longrightarrow> M w = None)) \<or>
     (\<exists>w. prefix w ks \<and> M w = Some v \<and> (\<forall>w'. prefix w' ks \<and> length w < length w' \<longrightarrow> M w' = None))"

lemma longest_match_Nil: "longest_match d M [] (case M [] of None \<Rightarrow> d | Some y \<Rightarrow> y)"
  by (auto simp: longest_match_def split: option.split)

lemma longest_match_Cons:
  assumes "longest_match (case M [] of None \<Rightarrow> d | Some y \<Rightarrow> y) (\<lambda>w. M (k # w)) ks v"
  shows "longest_match d M (k # ks) v"
proof -
  from assms consider (none) "v = (case M [] of None \<Rightarrow> d | Some y \<Rightarrow> y)" "\<And>w. prefix w ks \<Longrightarrow> M (k # w) = None"
    | (some) w where "prefix w ks" "M (k # w) = Some v" "\<And>w'. prefix w' ks \<Longrightarrow> length w < length w' \<Longrightarrow> M (k # w') = None"
    unfolding longest_match_def by blast
  then show ?thesis
  proof cases
    case none
    have longer: "M w' = None" if "prefix w' (k # ks)" "w' \<noteq> []" for w'
      using that none(2) by (auto simp: prefix_Cons)
    show ?thesis
    proof (cases "M []")
      case None
      then show ?thesis using none(1) longer unfolding longest_match_def by (metis option.simps(4))
    next
      case (Some y)
      then show ?thesis using none(1) longer unfolding longest_match_def
        by (intro disjI2 exI [of _ "[]"]) auto
    qed
  next
    case some
    then show ?thesis unfolding longest_match_def
      by (intro disjI2 exI [of _ "k # w"]) (auto simp: prefix_Cons)
  qed
qed

lemma longest_match_none: "(\<And>w. M w = None) \<Longrightarrow> longest_match d M ks d"
  by (simp add: longest_match_def)

lemma find_loop_tree:
  "tree_at m par p t \<Longrightarrow> (\<And>w. subtree t w \<noteq> Tip \<Longrightarrow> length w \<le> length ks) \<Longrightarrow>
    \<exists>v'. find_loop m (ks @ [x]) p v = Some v' \<and> longest_match v (tval t) ks v'"
proof (induction t arbitrary: par p ks v)
  case Tip
  then show ?case by (auto intro: longest_match_none)
next
  case (Nd a y l r)
  let ?t = "Nd a y l r" and ?v = "case stored y of None \<Rightarrow> v | Some z \<Rightarrow> z"
  have p: "p = Some a" and y: "rn_value (m a) = y" and v: "(if y \<noteq> NGX_RADIX_NO_VALUE then y else v) = ?v"
    using Nd.prems(1) by (auto simp: stored_def)
  have root: "tval ?t [] = stored y" by (simp add: tval_def)
  show ?case
  proof (cases ks)
    case Nil
    have "l = Tip" "r = Tip" using Nd.prems(2) [of "[False]"] Nd.prems(2) [of "[True]"] Nil by auto
    then show ?thesis using Nd.prems(1) longest_match_Nil [of v "tval ?t"] Nil root
      by (cases x) (auto simp: rn_child_def stored_def split: if_splits)
  next
    case (Cons k ks')
    have c: "tree_at m (Some a) (rn_child k (m a)) (child k ?t)" using Nd.prems(1) by (simp add: rn_child_def)
    have d: "length w \<le> length ks'" if "subtree (child k ?t) w \<noteq> Tip" for w
      using Nd.prems(2) [of "k # w"] that Cons by simp
    have "\<exists>v'. find_loop m (ks' @ [x]) (rn_child k (m a)) ?v = Some v' \<and> longest_match ?v (tval (child k ?t)) ks' v'"
      using Nd.IH c d by (cases k) auto
    moreover have "(\<lambda>w. tval ?t (k # w)) = tval (child k ?t)" by (simp add: tval_def fun_eq_iff)
    ultimately show ?thesis using longest_match_Cons [where M = "tval ?t" and d = v and k = k and ks = ks'] Cons p y v root by (auto simp del: child.simps)
  qed
qed

lemma radix_find_spec:
  assumes "radix_ok N T" "length ks = N"
  shows "\<exists>v. find_loop (rt_mem T) (ks @ [x]) (Some (rt_root T)) NGX_RADIX_NO_VALUE = Some v
    \<and> longest_match NGX_RADIX_NO_VALUE (table T) ks v"
proof -
  obtain t xs where inv: "radix_inv N T t xs" using assms(1) by (auto simp: radix_ok_def)
  then show ?thesis using find_loop_tree [of "rt_mem T" NULL "Some (rt_root T)" t ks] table_tval [OF inv] assms(2)
    by (auto simp: radix_inv_def)
qed

section \<open>Deletion\<close>

lemma delete_walk_subtree:
  "tree_at m par p t \<Longrightarrow> delete_walk m bits p = (case subtree t (pfx bits) of Tip \<Rightarrow> NULL | Nd a v l r \<Rightarrow> Some a)"
proof (induction m bits p arbitrary: par t rule: delete_walk.induct)
  case (2 m n)
  then show ?case by (cases t) auto
next
  case (3 m b k bits n)
  then show ?case by (cases t; cases b) (auto simp: rn_child_def)
qed simp

lemma tval_put_cut:
  assumes "subtree t u = Nd a v l r" "child b (Nd a v l r) = Nd n vn Tip Tip"
  shows "tval (put t u (set_child b Tip (Nd a v l r))) = (tval t)(u @ [b] := None)"
proof
  fix w
  have leaf: "tval (Nd a v l r) (b # x) = (if x = [] then stored vn else None)" for x
    using assms(2) by (cases x) (auto simp: tval_def)
  show "tval (put t u (set_child b Tip (Nd a v l r))) w = ((tval t)(u @ [b] := None)) w"
  proof (cases "prefix u w")
    case True
    then obtain x where w: "w = u @ x" by (auto simp: prefix_def)
    have "tval t w = tval (Nd a v l r) x" using w assms(1) by (simp add: tval_def subtree_append)
    moreover have "tval (set_child b Tip (Nd a v l r)) x = (if x = [b] then None else tval (Nd a v l r) x)"
      using leaf by (cases x) (auto simp: tval_def)
    ultimately show ?thesis using assms(1) w by (simp add: tval_put)
  qed (use assms(1) in \<open>auto simp: tval_put\<close>)
qed

lemma delete_prune_step:
  assumes "rn_parent (rt_mem T n) = Some a"
  shows "delete_prune (Suc fuel) T n =
    (let nd = rt_mem (cut_leaf T a n) a in
     if rn_right nd \<noteq> NULL \<or> rn_left nd \<noteq> NULL \<or> rn_value nd \<noteq> NGX_RADIX_NO_VALUE \<or> rn_parent nd = NULL
     then Some (cut_leaf T a n) else delete_prune fuel (cut_leaf T a n) a)"
  using assms by (auto simp: Let_def)

lemma delete_prune_inv:
  "radix_inv N T t xs \<Longrightarrow> subtree t (u @ [b]) = Nd n v Tip Tip \<Longrightarrow> length u < fuel \<Longrightarrow>
    \<exists>T' t' xs'. delete_prune fuel T n = Some T' \<and> radix_inv N T' t' xs' \<and> tval t' = (tval t)(u @ [b] := None)"
proof (induction u arbitrary: fuel T t xs n v b rule: rev_induct)
  case (Nil fuel T t xs n v b)
  obtain a va l r where a: "subtree t [] = Nd a va l r" "child b (Nd a va l r) = Nd n v Tip Tip"
    using Nil(2) by (cases t) (auto simp: subtree_snoc)
  have par: "rn_parent (rt_mem T n) = Some a" "rn_parent (rt_mem T a) = NULL"
    using radix_inv_node [OF Nil(1) a(1)] a(2) by (auto split: if_splits)
  obtain f where "fuel = Suc f" using Nil(3) by (cases fuel) auto
  then have "delete_prune fuel T n = Some (cut_leaf T a n)"
    using delete_prune_step [OF par(1)] cut_leaf_inv(2) [OF Nil(1) a] par(2) by (simp add: Let_def)
  then show ?case using cut_leaf_inv(1) [OF Nil(1) a] tval_put_cut [OF a] by blast
next
  case (snoc b' u fuel T t xs n v b)
  obtain a va l r where a: "subtree t (u @ [b']) = Nd a va l r" "child b (Nd a va l r) = Nd n v Tip Tip"
    using snoc(3) unfolding subtree_snoc [of t "u @ [b']"] by (cases "subtree t (u @ [b'])") simp_all
  note c = cut_leaf_inv [OF snoc(2) a] and tv = tval_put_cut [OF a]
  have par: "rn_parent (rt_mem T n) = Some a" "rn_parent (rt_mem T a) \<noteq> NULL"
    using radix_inv_node [OF snoc(2) a(1)] a(2) by (auto split: if_splits)
  obtain f where f: "fuel = Suc f" "length u < f" using snoc(4) by (cases fuel) auto
  let ?t = "put t (u @ [b']) (set_child b Tip (Nd a va l r))"
  have sub: "subtree ?t (u @ [b']) = set_child b Tip (Nd a va l r)" using a(1) by simp
  show ?case
  proof (cases "child (\<not> b) (Nd a va l r) = Tip \<and> va = NGX_RADIX_NO_VALUE")
    case True
    then have leaf: "subtree ?t (u @ [b']) = Nd a NGX_RADIX_NO_VALUE Tip Tip" using sub by (auto split: if_splits)
    have "rn_value (rt_mem T a) = va" "rn_child (\<not> b) (rt_mem T a) = NULL"
      using radix_inv_node(1) [OF snoc(2) a(1)] True by (auto simp: rn_child_def)
    then have "delete_prune fuel T n = delete_prune f (cut_leaf T a n) a"
      using delete_prune_step [OF par(1), of f] c(2) par(2) f True by (auto simp: Let_def rn_child_def)
    moreover obtain T' t' xs' where r: "delete_prune f (cut_leaf T a n) a = Some T'" "radix_inv N T' t' xs'"
      "tval t' = (tval ?t)(u @ [b'] := None)" using snoc(1) [OF c(1) leaf f(2)] by blast
    moreover have "(tval ?t)(u @ [b'] := None) = tval ?t" using leaf by (auto simp: tval_def fun_eq_iff)
    then have "tval t' = (tval t)((u @ [b']) @ [b] := None)" using r(3) tv by (simp only:)
    ultimately show ?thesis by metis
  next
    case False
    have "rn_value (rt_mem T a) = va" "rn_child (\<not> b) (rt_mem T a) = NULL \<longleftrightarrow> child (\<not> b) (Nd a va l r) = Tip"
      using radix_inv_node(1) [OF snoc(2) a(1)] by (cases l; cases r; auto simp: rn_child_def)+
    then have "delete_prune fuel T n = Some (cut_leaf T a n)"
      using delete_prune_step [OF par(1), of f] c(2) f False by (auto simp: Let_def rn_child_def)
    then show ?thesis using c(1) tv by blast
  qed
qed

text \<open>
  Deletion crashes exactly for the empty prefix when the root is the only node.  Else the prefix
  has no value afterwards, nothing else changes, and a prefix that had a value is reported as deleted.
\<close>

definition only_root :: "ngx_radix_tree_t \<Rightarrow> bool" where
  "only_root T \<longleftrightarrow> rn_left (rt_mem T (rt_root T)) = NULL \<and> rn_right (rt_mem T (rt_root T)) = NULL"

lemma inner_iff:
  assumes "radix_inv N T t xs" "subtree t u = Nd a v l r"
  shows "rn_right (rt_mem T a) \<noteq> NULL \<or> rn_left (rt_mem T a) \<noteq> NULL \<longleftrightarrow> l \<noteq> Tip \<or> r \<noteq> Tip" "rn_value (rt_mem T a) = v"
  using radix_inv_node(1) [OF assms] by (cases l; cases r; auto)+

lemma radix_delete_spec:
  assumes "radix_ok N T" "length bits \<le> N"
  shows "case radix_delete T bits of
      None \<Rightarrow> pfx bits = [] \<and> only_root T
    | Some (rc, T') \<Rightarrow> \<not> (pfx bits = [] \<and> only_root T) \<and> radix_ok N T' \<and> table T' = (table T)(pfx bits := None)
        \<and> (rc = NGX_OK \<or> rc = NGX_ERROR \<and> table T (pfx bits) = None)"
proof -
  obtain t xs where inv: "radix_inv N T t xs" using assms(1) by (auto simp: radix_ok_def)
  then have at: "tree_at (rt_mem T) NULL (Some (rt_root T)) t" by (simp add: radix_inv_def)
  have tab: "table T = tval t" by (rule table_tval [OF inv])
  obtain v0 l0 r0 where root: "subtree t [] = Nd (rt_root T) v0 l0 r0" using at by (cases t) auto
  have only: "only_root T \<longleftrightarrow> l0 = Tip \<and> r0 = Tip" using inner_iff(1) [OF inv root] by (auto simp: only_root_def)
  show ?thesis
  proof (cases "subtree t (pfx bits)")
    case Tip
    then have "pfx bits \<noteq> []" "tval t (pfx bits) = None" using root by (auto simp: tval_def)
    then show ?thesis using Tip assms(1) tab
      by (auto simp: radix_delete_def delete_walk_subtree [OF at] fun_upd_idem)
  next
    case (Nd a v l r)
    note nd = inner_iff [OF inv Nd]
    show ?thesis
    proof (cases "l \<noteq> Tip \<or> r \<noteq> Tip")
      case True
      then have crash: "\<not> (pfx bits = [] \<and> only_root T)" using Nd root only by auto
      have set: "radix_inv N (set_value T a NGX_RADIX_NO_VALUE) (put t (pfx bits) (Nd a NGX_RADIX_NO_VALUE l r)) xs"
        by (rule set_value_inv [OF inv Nd])
      have "table (set_value T a NGX_RADIX_NO_VALUE) = (table T)(pfx bits := None)"
        using table_tval [OF set] tval_put_value [OF Nd] tab by simp
      moreover have "v = NGX_RADIX_NO_VALUE \<Longrightarrow> table T (pfx bits) = None" using Nd tab by (simp add: tval_def)
      ultimately show ?thesis using True Nd nd set crash assms(1)
        by (auto simp: radix_delete_def delete_walk_subtree [OF at] radix_ok_def fun_upd_idem Let_def)
    next
      case False
      then have leaf: "subtree t (pfx bits) = Nd a v Tip Tip" using Nd by simp
      have del: "radix_delete T bits = map_option (\<lambda>tree. (NGX_OK, tree)) (delete_prune (length bits) T a)"
        using leaf nd(1) False by (simp add: radix_delete_def delete_walk_subtree [OF at] Let_def)
      show ?thesis
      proof (cases "pfx bits" rule: rev_cases)
        case Nil
        then have "a = rt_root T" "only_root T" using root leaf only by auto
        moreover have "rn_parent (rt_mem T (rt_root T)) = NULL" using radix_inv_node(2) [OF inv root] by simp
        ultimately show ?thesis using Nil del by (cases "length bits") simp_all
      next
        case (snoc u b)
        then have "length u < length bits" using length_pfx [of bits] by simp
        from delete_prune_inv [OF inv _ this, of b a v] leaf snoc obtain T' t' xs' where
          p: "delete_prune (length bits) T a = Some T'" "radix_inv N T' t' xs'" "tval t' = (tval t)(pfx bits := None)"
          by auto
        then show ?thesis using del snoc tab table_tval [OF p(2)] by (auto simp: radix_ok_def)
      qed
    qed
  qed
qed

section \<open>Tables with longest-prefix search\<close>

text \<open>
  The contract the users of a radix tree rely on: \<open>pre\<close> tells which prefix a key stands for, \<open>nets\<close> is the
  table.
\<close>

locale prefix_table =
  fixes ok :: "'s \<Rightarrow> bool" and nets :: "'s \<Rightarrow> bool list \<Rightarrow> u_int64 option" and pre :: "'k \<Rightarrow> bool list"
    and ins :: "'s \<Rightarrow> 'k \<Rightarrow> u_int64 \<Rightarrow> int \<times> 's" and del :: "'s \<Rightarrow> 'k \<Rightarrow> (int \<times> 's) option"
    and stuck :: "'s \<Rightarrow> bool" and full :: "'s \<Rightarrow> bool"
  assumes ins_law: "ok s \<Longrightarrow> case ins s k v of (rc, s') \<Rightarrow> ok s' \<and>
      (if nets s (pre k) \<noteq> None then rc = NGX_BUSY \<and> s' = s
       else rc = NGX_OK \<and> nets s' = (nets s)(pre k := stored v) \<or> rc = NGX_ERROR \<and> nets s' = nets s \<and> full s')"
    and del_law: "ok s \<Longrightarrow> case del s k of
      None \<Rightarrow> pre k = [] \<and> stuck s
    | Some (rc, s') \<Rightarrow> \<not> (pre k = [] \<and> stuck s) \<and> ok s' \<and> nets s' = (nets s)(pre k := None)
        \<and> (rc = NGX_OK \<or> rc = NGX_ERROR \<and> nets s (pre k) = None)"
begin

text \<open>Deleting and inserting again replaces a value; only the memory can be short.\<close>

lemma replace:
  assumes "ok s" "\<not> (pre k = [] \<and> stuck s)"
  shows "\<exists>b s'. geo_cidr_add (\<lambda>s. ins s k v) (\<lambda>s. del s k) s = Some (b, s') \<and> ok s'
    \<and> (if b then nets s' = (nets s)(pre k := stored v)
       else full s' \<and> (nets s' = nets s \<or> nets s' = (nets s)(pre k := None)))"
proof -
  obtain rc s1 where i: "ins s k v = (rc, s1)" by (cases "ins s k v")
  show ?thesis
  proof (cases "nets s (pre k) = None")
    case True
    then have "ok s1" "rc = NGX_OK \<and> nets s1 = (nets s)(pre k := stored v) \<or> rc = NGX_ERROR \<and> nets s1 = nets s \<and> full s1"
      using ins_law [OF assms(1), of k v] i by simp_all
    then show ?thesis using i unfolding geo_cidr_add_def by (elim disjE) (simp_all, blast+)
  next
    case False
    then have s1: "s1 = s" "rc = NGX_BUSY" using ins_law [OF assms(1), of k v] i by auto
    obtain rc2 s2 where d: "del s k = Some (rc2, s2)"
      using del_law [OF assms(1), of k] assms(2) by (cases "del s k") auto
    then have d2: "ok s2" "nets s2 = (nets s)(pre k := None)" "rc2 = NGX_OK"
      using del_law [OF assms(1), of k] False by auto
    obtain rc3 s3 where i3: "ins s2 k v = (rc3, s3)" by (cases "ins s2 k v")
    then have "ok s3" "rc3 = NGX_OK \<and> nets s3 = (nets s)(pre k := stored v) \<or> rc3 = NGX_ERROR \<and> nets s3 = (nets s)(pre k := None) \<and> full s3"
      using ins_law [OF d2(1), of k v] d2(2) by simp_all
    then show ?thesis using i s1 d d2(3) i3 unfolding geo_cidr_add_def by (elim disjE) (simp_all, blast+)
  qed
qed

lemma replace_done:
  assumes "ok s" "geo_cidr_add (\<lambda>s. ins s k v) (\<lambda>s. del s k) s = Some (True, s')"
  shows "ok s' \<and> nets s' = (nets s)(pre k := stored v)"
proof (cases "pre k = [] \<and> stuck s")
  case True
  then have del: "del s k = None" using del_law [OF assms(1), of k] by (auto split: option.splits)
  obtain rc s1 where i: "ins s k v = (rc, s1)" by (cases "ins s k v")
  note law = ins_law [OF assms(1), of k v, unfolded i, simplified]
  show ?thesis
  proof (cases "nets s (pre k) = None")
    case True
    then show ?thesis using law assms(2) i by (auto simp: geo_cidr_add_def split: option.splits prod.splits if_splits)
  next
    case False
    then show ?thesis using law assms(2) i del by (auto simp: geo_cidr_add_def)
  qed
next
  case False
  then show ?thesis using replace [OF assms(1) False, of v] assms(2) by auto
qed

end

lemma length_radix32_bits [simp]: "length (radix32_bits key msk) = 32"
  by (simp add: radix32_bits_def)

lemma length_radix128_bits [simp]: "length (radix128_bits key msk) = 128"
  by (simp add: radix128_bits_def)

interpretation r32: prefix_table "radix_ok 32" table "\<lambda>k. pfx (radix32_bits (fst k) (snd k))"
  "\<lambda>T k v. ngx_radix32tree_insert T (fst k) (snd k) v" "\<lambda>T k. ngx_radix32tree_delete T (fst k) (snd k)" only_root "\<lambda>T. ngx_radix_alloc T = None"
  unfolding ngx_radix32tree_insert_def ngx_radix32tree_delete_def
  by unfold_locales (rule radix_insert_spec radix_delete_spec; simp)+

interpretation r128: prefix_table "radix_ok 128" table "\<lambda>k. pfx (radix128_bits (fst k) (snd k))"
  "\<lambda>T k v. ngx_radix128tree_insert T (fst k) (snd k) v" "\<lambda>T k. ngx_radix128tree_delete T (fst k) (snd k)" only_root "\<lambda>T. ngx_radix_alloc T = None"
  unfolding ngx_radix128tree_insert_def ngx_radix128tree_delete_def
  by unfold_locales (rule radix_insert_spec radix_delete_spec; simp)+

section \<open>Creation\<close>

text \<open>The keys of one level are the multiples of the increment.\<close>

lemma of_nat_mult_power_eq_0_iff:
  assumes "L \<le> 32"
  shows "(of_nat n * 2 ^ (32 - L) :: u_int32) = 0 \<longleftrightarrow> 2 ^ L dvd n"
proof -
  have "(of_nat n * 2 ^ (32 - L) :: u_int32) = of_nat (n * 2 ^ (32 - L))" by simp
  also have "\<dots> = 0 \<longleftrightarrow> (2::nat) ^ 32 dvd n * 2 ^ (32 - L)" by (subst word_of_nat_eq_0_iff) simp
  also have "(2::nat) ^ 32 = 2 ^ L * 2 ^ (32 - L)" using assms by (simp flip: power_add)
  also have "2 ^ L * 2 ^ (32 - L) dvd n * 2 ^ (32 - L) \<longleftrightarrow> 2 ^ L dvd n" by (subst dvd_times_right_cancel_iff) simp_all
  finally show ?thesis .
qed

lemma prealloc_keys_ok:
  assumes "radix_room 32 T (32 * n + m)" "table T = (\<lambda>w. None)" "L \<le> 32" "0 < n" "n \<le> 2 ^ L"
  shows "\<exists>T'. prealloc_keys n T (of_nat (2 ^ L - n) * 2 ^ (32 - L)) msk (2 ^ (32 - L)) = Some T'
    \<and> radix_room 32 T' m \<and> table T' = (\<lambda>w. None)"
  using assms
proof (induction n arbitrary: T)
  case 0
  then show ?case by simp
next
  case (Suc n)
  let ?key = "of_nat (2 ^ L - Suc n) * 2 ^ (32 - L) :: u_int32"
  obtain rc T1 where i: "ngx_radix32tree_insert T ?key msk NGX_RADIX_NO_VALUE = (rc, T1)"
    by (cases "ngx_radix32tree_insert T ?key msk NGX_RADIX_NO_VALUE")
  have len: "length (pfx (radix32_bits ?key msk)) \<le> 32" using length_pfx [of "radix32_bits ?key msk"] by simp
  have T1: "rc = NGX_OK" "table T1 = (\<lambda>w. None)" "radix_room 32 T1 (32 * Suc n + m - length (pfx (radix32_bits ?key msk)))"
    using radix_insert_room [OF Suc.prems(1), of "radix32_bits ?key msk" NGX_RADIX_NO_VALUE] i Suc.prems(2) len
    by (auto simp: ngx_radix32tree_insert_def)
  then have room: "radix_room 32 T1 (32 * n + m)" using len by (elim radix_room_mono) simp
  have "2 ^ L - n = Suc (2 ^ L - Suc n)" using Suc.prems(5) by simp
  then have key: "?key + 2 ^ (32 - L) = of_nat (2 ^ L - n) * 2 ^ (32 - L)" by (simp add: algebra_simps)
  have zero: "?key + 2 ^ (32 - L) = 0 \<longleftrightarrow> n = 0"
    unfolding key of_nat_mult_power_eq_0_iff [OF Suc.prems(3)] using Suc.prems(5) by (auto dest: dvd_imp_le)
  show ?case
  proof (cases "n = 0")
    case True
    then show ?thesis using i T1 zero room by simp
  next
    case False
    then show ?thesis using Suc.IH [OF room T1(2) Suc.prems(3)] Suc.prems(5) i T1(1) zero key by simp
  qed
qed

lemma prealloc_levels_ok:
  assumes "radix_room 32 T (32 * (2 ^ (L + p) - 2 ^ L) + m)" "table T = (\<lambda>w. None)" "0 < L" "L + p \<le> 33"
  shows "\<exists>T'. prealloc_levels p T L msk (2 ^ (32 - L)) = Some T' \<and> radix_room 32 T' m \<and> table T' = (\<lambda>w. None)"
  using assms
proof (induction p arbitrary: T L msk)
  case 0
  then show ?case by simp
next
  case (Suc p)
  have "(2::nat) ^ Suc L \<le> 2 ^ (Suc L + p)" by (intro power_increasing) simp_all
  then have "32 * (2 ^ (L + Suc p) - 2 ^ L) = 32 * 2 ^ L + 32 * (2 ^ (Suc L + p) - (2::nat) ^ Suc L)" by (simp add: algebra_simps)
  then have "32 * (2 ^ (L + Suc p) - 2 ^ L) + m = 32 * 2 ^ L + (32 * (2 ^ (Suc L + p) - (2::nat) ^ Suc L) + m)" by simp
  then obtain T1 where T1: "prealloc_keys (2 ^ L) T 0 (drop_bit 1 msk OR 0x80000000) (2 ^ (32 - L)) = Some T1"
    "radix_room 32 T1 (32 * (2 ^ (Suc L + p) - 2 ^ Suc L) + m)" "table T1 = (\<lambda>w. None)"
    using prealloc_keys_ok [of T "2 ^ L" "32 * (2 ^ (Suc L + p) - 2 ^ Suc L) + m" L] Suc.prems by (auto simp: add.assoc)
  show ?case
  proof (cases p)
    case 0
    then show ?thesis using T1 by simp
  next
    case (Suc p')
    then have "32 - L = Suc (32 - Suc L)" using Suc.prems(4) by simp
    then have "drop_bit 1 (2 ^ (32 - L) :: u_int32) = 2 ^ (32 - Suc L)"
      using Suc.prems(3) by (intro bit_word_eqI) (auto simp: bit_simps)
    then show ?thesis using Suc.IH [OF T1(2,3)] Suc.prems T1(1) by (simp add: Let_def)
  qed
qed

lemma length_chunks: "length (concat (map (\<lambda>a. chunk a ngx_pagesize) pages)) = 128 * length pages"
  by (induction pages) (simp_all add: chunk_def ngx_pagesize_def node_size_def)

lemma create_root:
  fixes mem :: "nat \<Rightarrow> ngx_radix_node_t"
  assumes "distinct (concat (map (\<lambda>a. chunk a ngx_pagesize) (a # pages)))"
  defines "T \<equiv> \<lparr>rt_root = a, rt_free = NULL, rt_start = a + node_size, rt_size = ngx_pagesize - node_size, rt_pages = pages,
     rt_mem = mem(a := \<lparr>rn_right = NULL, rn_left = NULL, rn_parent = NULL, rn_value = NGX_RADIX_NO_VALUE\<rparr>)\<rparr>"
  shows "radix_room 32 T (128 * length pages + 127)" "table T = (\<lambda>w. None)"
proof -
  let ?t = "Nd a NGX_RADIX_NO_VALUE Tip Tip"
  let ?xs = "chunk (a + node_size) (ngx_pagesize - node_size) @ concat (map (\<lambda>a. chunk a ngx_pagesize) pages)"
  have pages: "concat (map (\<lambda>a. chunk a ngx_pagesize) (a # pages)) = a # ?xs"
    by (simp add: chunk_Cons ngx_pagesize_def node_size_def)
  have "available T ?xs" by (auto simp: available_def T_def intro!: exI [of _ "[]"])
  moreover have "length w \<le> 32" if "subtree ?t w \<noteq> Tip" for w using that by (cases w) simp_all
  ultimately have inv: "radix_inv 32 T ?t ?xs" using assms(1) unfolding pages by (auto simp: radix_inv_def T_def)
  have "length (a # ?xs) = 128 * length (a # pages)" unfolding pages [symmetric] by (rule length_chunks)
  then show "radix_room 32 T (128 * length pages + 127)" unfolding radix_room_def
    by (intro exI conjI) (rule inv, simp)
  show "table T = (\<lambda>w. None)" using table_tval [OF inv] tval_leaf by (simp add: fun_eq_iff)
qed

definition prealloc_bits :: "int \<Rightarrow> nat" where
  "prealloc_bits preallocate = (if preallocate = - 1 then 6 else nat preallocate)"

lemma radix_inv_mono: "radix_inv N T t xs \<Longrightarrow> N \<le> M \<Longrightarrow> radix_inv M T t xs"
  unfolding radix_inv_def by (meson order_trans)

lemma radix_ok_mono: "radix_ok N T \<Longrightarrow> N \<le> M \<Longrightarrow> radix_ok M T"
  unfolding radix_ok_def by (meson radix_inv_mono)

text \<open>Creation with memory for \<open>m\<close> nodes more than the preallocated prefixes may need.\<close>

lemma create_room:
  assumes "distinct (concat (map (\<lambda>a. chunk a ngx_pagesize) pages))" "prealloc_bits preallocate \<le> 32"
    and "32 * (2 ^ (prealloc_bits preallocate + 1) - 2) + m < 128 * length pages"
  shows "\<exists>T. ngx_radix_tree_create mem pages preallocate = Some T \<and> radix_room 32 T m \<and> table T = (\<lambda>w. None)"
proof -
  obtain a ps where pages: "pages = a # ps" using assms(3) by (cases pages) simp_all
  let ?p = "prealloc_bits preallocate"
  let ?T = "\<lparr>rt_root = a, rt_free = NULL, rt_start = a + node_size, rt_size = ngx_pagesize - node_size, rt_pages = ps,
     rt_mem = mem(a := \<lparr>rn_right = NULL, rn_left = NULL, rn_parent = NULL, rn_value = NGX_RADIX_NO_VALUE\<rparr>)\<rparr>"
  note root = create_root [OF assms(1) [unfolded pages], where mem = mem]
  have "radix_room 32 ?T (32 * (2 ^ (1 + ?p) - 2 ^ 1) + m)" using assms(3) pages
    by (intro radix_room_mono [OF root(1)]) simp
  then obtain T where T: "prealloc_levels ?p ?T 1 0 (2 ^ (32 - 1)) = Some T" "radix_room 32 T m" "table T = (\<lambda>w. None)"
    using prealloc_levels_ok [of ?T 1 ?p m 0] root(2) assms(2) by auto
  then have "ngx_radix_tree_create mem pages preallocate = Some T" unfolding pages
    by (auto simp: ngx_radix_tree_create_def ngx_radix_alloc_def prealloc_bits_def ngx_pagesize_def node_size_def split: if_splits)
  then show ?thesis using T by auto
qed

lemma create_ok:
  assumes "distinct (concat (map (\<lambda>a. chunk a ngx_pagesize) pages))" "prealloc_bits preallocate \<le> 32"
    and "32 * (2 ^ (prealloc_bits preallocate + 1) - 2) < 128 * length pages"
  shows "\<exists>T. ngx_radix_tree_create mem pages preallocate = Some T \<and> radix_ok 32 T \<and> radix_ok 128 T \<and> table T = (\<lambda>w. None)"
  using create_room [OF assms(1,2), of 0 mem] assms(3) radix_ok_mono [of 32 _ 128] by (auto simp: radix_room_0)

section \<open>The trees as tables\<close>

text \<open>
  C29: a tree for 32-bit keys that satisfies the invariant is a table from prefixes to values.  Insertion adds a
  prefix that has no value, leaves the tree alone with \<^verbatim>\<open>NGX_BUSY\<close> if it has one, and fails with
  \<^verbatim>\<open>NGX_ERROR\<close>, the table being unchanged, only when the allocator has nothing left; deletion removes the prefix and nothing else,
  reporting \<^verbatim>\<open>NGX_ERROR\<close> only if it had no value, and crashes (\<^const>\<open>None\<close>) exactly for the empty prefix in a tree that
  is only a root; search returns the value of the longest prefix of the key.  All keep the
  invariant.
\<close>

theorem ngx_radix32tree_refines_table:
  assumes "radix_ok 32 T"
  shows "(case ngx_radix32tree_insert T key msk v of (rc, T') \<Rightarrow> radix_ok 32 T' \<and>
      (if table T (pfx (radix32_bits key msk)) \<noteq> None then rc = NGX_BUSY \<and> T' = T
       else rc = NGX_OK \<and> table T' = (table T)(pfx (radix32_bits key msk) := stored v)
         \<or> rc = NGX_ERROR \<and> table T' = table T \<and> ngx_radix_alloc T' = None))
    \<and> (case ngx_radix32tree_delete T key msk of
        None \<Rightarrow> pfx (radix32_bits key msk) = [] \<and> only_root T
      | Some (rc, T') \<Rightarrow> \<not> (pfx (radix32_bits key msk) = [] \<and> only_root T) \<and> radix_ok 32 T'
          \<and> table T' = (table T)(pfx (radix32_bits key msk) := None)
          \<and> (rc = NGX_OK \<or> rc = NGX_ERROR \<and> table T (pfx (radix32_bits key msk)) = None))
    \<and> (\<exists>x. ngx_radix32tree_find T key = Some x
        \<and> longest_match NGX_RADIX_NO_VALUE (table T) (map snd (radix32_bits key 0)) x)" (is "?ins \<and> ?del \<and> ?find")
proof (intro conjI)
  note laws = r32.ins_law [OF assms, of "(key, msk)" v] r32.del_law [OF assms, of "(key, msk)"]
  show "?ins" by (rule laws(1) [unfolded fst_conv snd_conv])
  show "?del" by (rule laws(2) [unfolded fst_conv snd_conv])
  show "?find" unfolding ngx_radix32tree_find_def by (rule radix_find_spec [OF assms]) simp
qed

text \<open>A small tree: no preallocation, one page of memory.\<close>

definition blank_node :: ngx_radix_node_t where
  "blank_node = \<lparr>rn_right = NULL, rn_left = NULL, rn_parent = NULL, rn_value = 0\<rparr>"

definition sample_tree :: ngx_radix_tree_t where
  "sample_tree = the (ngx_radix_tree_create (\<lambda>_. blank_node) [0] 0)"

lemma distinct_chunk: "distinct (chunk a n)"
  by (simp add: chunk_def distinct_map inj_on_def node_size_def)

lemma sample_tree_ok:
  "ngx_radix_tree_create (\<lambda>_. blank_node) [0] 0 = Some sample_tree" "radix_ok 32 sample_tree" "radix_ok 128 sample_tree"
  using create_ok [of "[0]" 0 "\<lambda>_. blank_node"] distinct_chunk [of 0 ngx_pagesize]
  by (auto simp: sample_tree_def prealloc_bits_def)

theorem ngx_radix32tree_refines_table_witness:
  "case ngx_radix32tree_insert sample_tree 0x0A000000 0xFF000000 7 of (rc, T') \<Rightarrow> radix_ok 32 T'"
  using conjunct1 [OF ngx_radix32tree_refines_table [OF sample_tree_ok(2), of "0x0A000000" "0xFF000000" 7]] by (auto split: prod.splits)

text \<open>
  The same for the trees with 128-bit keys; search does not depend on the byte that the loop reads behind the key.
\<close>

theorem ngx_radix128tree_refines_table:
  assumes "radix_ok 128 T"
  shows "(case ngx_radix128tree_insert T key msk v of (rc, T') \<Rightarrow> radix_ok 128 T' \<and>
      (if table T (pfx (radix128_bits key msk)) \<noteq> None then rc = NGX_BUSY \<and> T' = T
       else rc = NGX_OK \<and> table T' = (table T)(pfx (radix128_bits key msk) := stored v)
         \<or> rc = NGX_ERROR \<and> table T' = table T \<and> ngx_radix_alloc T' = None))
    \<and> (case ngx_radix128tree_delete T key msk of
        None \<Rightarrow> pfx (radix128_bits key msk) = [] \<and> only_root T
      | Some (rc, T') \<Rightarrow> \<not> (pfx (radix128_bits key msk) = [] \<and> only_root T) \<and> radix_ok 128 T'
          \<and> table T' = (table T)(pfx (radix128_bits key msk) := None)
          \<and> (rc = NGX_OK \<or> rc = NGX_ERROR \<and> table T (pfx (radix128_bits key msk)) = None))
    \<and> (\<exists>x. ngx_radix128tree_find past T key = Some x
        \<and> longest_match NGX_RADIX_NO_VALUE (table T) (map snd (radix128_bits key (replicate 16 0))) x)" (is "?ins \<and> ?del \<and> ?find")
proof (intro conjI)
  note laws = r128.ins_law [OF assms, of "(key, msk)" v] r128.del_law [OF assms, of "(key, msk)"]
  show "?ins" by (rule laws(1) [unfolded fst_conv snd_conv])
  show "?del" by (rule laws(2) [unfolded fst_conv snd_conv])
  show "?find" unfolding ngx_radix128tree_find_def by (rule radix_find_spec [OF assms]) simp
qed

theorem ngx_radix128tree_refines_table_witness:
  "case ngx_radix128tree_insert sample_tree (replicate 16 0) (replicate 16 0xFF) 7 of (rc, T') \<Rightarrow> radix_ok 128 T'"
  using conjunct1 [OF ngx_radix128tree_refines_table [OF sample_tree_ok(3), of "replicate 16 0" "replicate 16 0xFF" 7]] by (auto split: prod.splits)

text \<open>The crash: deleting the default network from a tree of one node follows the root's \<^verbatim>\<open>NULL\<close> parent.\<close>

lemma ngx_radix32tree_delete_default_crash:
  assumes "radix_ok 32 T" "only_root T"
  shows "ngx_radix32tree_delete T key 0 = None"
proof -
  have "radix32_bits key 0 = (False, key AND 0x80000000 \<noteq> 0) # map (\<lambda>k. (False, key AND drop_bit k 0x80000000 \<noteq> 0)) [1..<32]"
    by (simp add: radix32_bits_def upt_conv_Cons Let_def)
  then have "pfx (radix32_bits key 0) = []" by simp
  then show ?thesis using r32.del_law [OF assms(1), of "(key, 0)"] assms(2) by (auto split: option.splits)
qed

section \<open>The networks of a geo block\<close>

fun geo_add_networks :: "ngx_radix_tree_t \<Rightarrow> (u_int32 \<times> u_int32 \<times> u_int64) list \<Rightarrow> ngx_radix_tree_t option" where
  "geo_add_networks tree [] = Some tree"
| "geo_add_networks tree ((addr, msk, val) # nets) =
    (case ngx_http_geo_cidr_add32 tree addr msk val of
       Some (True, tree) \<Rightarrow> geo_add_networks tree nets
     | _ \<Rightarrow> None)"

text \<open>What the block means: a later line for the same network overrides an earlier one.\<close>

fun networks :: "(u_int32 \<times> u_int32 \<times> u_int64) list \<Rightarrow> bool list \<Rightarrow> u_int64 option" where
  "networks [] w = None"
| "networks ((addr, msk, val) # nets) w =
    (case networks nets w of
       Some v \<Rightarrow> Some v
     | None \<Rightarrow> if w = pfx (radix32_bits addr msk) then Some val else None)"

lemma geo_cidr_add32_table:
  assumes "radix_ok 32 T" "ngx_http_geo_cidr_add32 T addr msk val = Some (True, T')"
  shows "radix_ok 32 T' \<and> table T' = (table T)(pfx (radix32_bits addr msk) := stored val)"
  using r32.replace_done [OF assms(1), of "(addr, msk)" val T'] assms(2) by (simp add: ngx_http_geo_cidr_add32_def)

lemma geo_add_networks_table:
  assumes "radix_ok 32 T" "geo_add_networks T nets = Some T'" "\<forall>(addr, msk, val) \<in> set nets. val \<noteq> NGX_RADIX_NO_VALUE"
  shows "radix_ok 32 T' \<and> table T' = (\<lambda>w. case networks nets w of Some v \<Rightarrow> Some v | None \<Rightarrow> table T w)"
  using assms
proof (induction T nets rule: geo_add_networks.induct)
  case (2 T addr msk val nets)
  then obtain T1 where T1: "ngx_http_geo_cidr_add32 T addr msk val = Some (True, T1)" "geo_add_networks T1 nets = Some T'"
    by (auto split: option.splits bool.splits)
  from geo_cidr_add32_table [OF 2(2) T1(1)] have ok1: "radix_ok 32 T1"
    and tab: "table T1 = (table T)(pfx (radix32_bits addr msk) := Some val)" using 2(4) by (simp_all add: stored_def)
  have "radix_ok 32 T' \<and> table T' = (\<lambda>w. case networks nets w of Some v \<Rightarrow> Some v | None \<Rightarrow> table T1 w)"
    using 2(4) by (intro 2(1) [OF T1(1) refl refl ok1 T1(2)]) simp
  then show ?case using tab by (auto simp: fun_eq_iff split: option.split)
qed simp

text \<open>
  After the networks of a \<^verbatim>\<open>geo\<close> block are added to a new tree, by \<^verbatim>\<open>ngx_http_geo_cidr_add\<close>, which replaces
  the value of a network that is there already, the search for an address returns the value of the longest network
  of the block that contains it (the last line for it counts), and \<^verbatim>\<open>NGX_RADIX_NO_VALUE\<close> if there is none.  The pages
  that the pool returns must not overlap; values are pointers and never \<^verbatim>\<open>NGX_RADIX_NO_VALUE\<close>.
\<close>

theorem ngx_http_geo_lookup_correct:
  assumes "distinct (concat (map (\<lambda>a. chunk a ngx_pagesize) pages))" "prealloc_bits preallocate \<le> 32"
    and "32 * (2 ^ (prealloc_bits preallocate + 1) - 2) < 128 * length pages"
    and "ngx_radix_tree_create mem pages preallocate = Some T"
    and "geo_add_networks T nets = Some T'" "\<forall>(addr, msk, val) \<in> set nets. val \<noteq> NGX_RADIX_NO_VALUE"
  shows "\<exists>x. ngx_radix32tree_find T' addr = Some x
    \<and> longest_match NGX_RADIX_NO_VALUE (networks nets) (map snd (radix32_bits addr 0)) x"
proof -
  have T: "radix_ok 32 T" "table T = (\<lambda>w. None)" using create_ok [OF assms(1-3), of mem] assms(4) by auto
  have "(\<lambda>w. case networks nets w of None \<Rightarrow> None | Some v \<Rightarrow> Some v) = networks nets"
    by (auto simp: fun_eq_iff split: option.split)
  then have "radix_ok 32 T'" "table T' = networks nets" using geo_add_networks_table [OF T(1) assms(5,6), unfolded T(2)] by auto
  then show ?thesis using radix_find_spec [of 32 T' "map snd (radix32_bits addr 0)" False]
    by (simp add: ngx_radix32tree_find_def)
qed

text \<open>With memory for 32 nodes a new network can be added.\<close>

lemma geo_cidr_add32_new:
  assumes "radix_room 32 T (32 + n)" "table T (pfx (radix32_bits addr msk)) = None"
  shows "\<exists>T'. ngx_http_geo_cidr_add32 T addr msk val = Some (True, T') \<and> radix_room 32 T' n
    \<and> table T' = (table T)(pfx (radix32_bits addr msk) := stored val)"
proof -
  obtain rc T' where i: "radix_insert T (radix32_bits addr msk) val = (rc, T')" by (cases "radix_insert T (radix32_bits addr msk) val")
  have "length (pfx (radix32_bits addr msk)) \<le> 32" using length_pfx [of "radix32_bits addr msk"] by simp
  then show ?thesis using radix_insert_room [OF assms(1), of "radix32_bits addr msk" val] assms(2) i
      radix_room_mono [of 32 T' "32 + n - length (pfx (radix32_bits addr msk))" n]
    by (auto simp: ngx_http_geo_cidr_add32_def geo_cidr_add_def ngx_radix32tree_insert_def)
qed

lemma sample_networks:
  "\<exists>T'. geo_add_networks sample_tree [(0x0A000000, 0xFF000000, 7), (0x0A010000, 0xFFFF0000, 8)] = Some T'"
proof -
  have "ngx_radix_tree_create (\<lambda>_. blank_node) [0] 0 = Some
     \<lparr>rt_root = 0, rt_free = NULL, rt_start = 0 + node_size, rt_size = ngx_pagesize - node_size, rt_pages = [],
      rt_mem = (\<lambda>_. blank_node)(0 := \<lparr>rn_right = NULL, rn_left = NULL, rn_parent = NULL, rn_value = NGX_RADIX_NO_VALUE\<rparr>)\<rparr>"
    by (simp add: ngx_radix_tree_create_def ngx_radix_alloc_def node_size_def ngx_pagesize_def)
  then have "radix_room 32 sample_tree 127" "table sample_tree = (\<lambda>w. None)"
    using create_root [of 0 "[]" "\<lambda>_. blank_node"] distinct_chunk [of 0 ngx_pagesize] by (simp_all add: sample_tree_def)
  then obtain T1 where T1: "ngx_http_geo_cidr_add32 sample_tree 0x0A000000 0xFF000000 7 = Some (True, T1)" "radix_room 32 T1 95"
    "table T1 = (\<lambda>w. None)(pfx (radix32_bits 0x0A000000 0xFF000000) := stored 7)"
    using geo_cidr_add32_new [of sample_tree 95 "0x0A000000" "0xFF000000" 7] by auto
  have "pfx (radix32_bits 0x0A000000 0xFF000000) \<noteq> pfx (radix32_bits 0x0A010000 0xFFFF0000)"
    by code_simp
  then obtain T2 where "ngx_http_geo_cidr_add32 T1 0x0A010000 0xFFFF0000 8 = Some (True, T2)"
    using geo_cidr_add32_new [of T1 63 "0x0A010000" "0xFFFF0000" 8] T1(2,3) by auto
  then show ?thesis using T1(1) by simp
qed

theorem ngx_http_geo_lookup_correct_witness:
  "\<exists>T' x. geo_add_networks sample_tree [(0x0A000000, 0xFF000000, 7), (0x0A010000, 0xFFFF0000, 8)] = Some T'
    \<and> ngx_radix32tree_find T' 0x0A020304 = Some x
    \<and> longest_match NGX_RADIX_NO_VALUE (networks [(0x0A000000, 0xFF000000, 7), (0x0A010000, 0xFFFF0000, 8)])
        (map snd (radix32_bits 0x0A020304 0)) x"
proof -
  obtain T' where T': "geo_add_networks sample_tree [(0x0A000000, 0xFF000000, 7), (0x0A010000, 0xFFFF0000, 8)] = Some T'"
    using sample_networks by blast
  have vals: "\<forall>(addr, msk, val) \<in> set [(0x0A000000 :: u_int32, 0xFF000000 :: u_int32, 7 :: u_int64), (0x0A010000, 0xFFFF0000, 8)]. val \<noteq> NGX_RADIX_NO_VALUE"
    by (simp add: NGX_RADIX_NO_VALUE_def)
  show ?thesis
    using T' ngx_http_geo_lookup_correct [OF _ _ _ sample_tree_ok(1) T' vals, of "0x0A020304"] distinct_chunk [of 0 ngx_pagesize]
    by (simp add: prealloc_bits_def)
qed

text \<open>
  With memory for 32 nodes for each of the \<^verbatim>\<open>2^(n+1) - 2\<close> preallocated prefixes, \<^verbatim>\<open>ngx_radix_tree_create\<close> succeeds, for \<open>n\<close> bits up to 32: the
  preallocation never finds a prefix busy, its inner loop ends after \<^verbatim>\<open>2^level\<close> rounds, when the key wraps around to 0,
  and the tree it returns is well formed, for both lengths of keys, and has no values.
\<close>

theorem ngx_radix_tree_create_succeeds:
  assumes "distinct (concat (map (\<lambda>a. chunk a ngx_pagesize) pages))" "prealloc_bits preallocate \<le> 32"
    and "32 * (2 ^ (prealloc_bits preallocate + 1) - 2) < 128 * length pages"
  shows "\<exists>T. ngx_radix_tree_create mem pages preallocate = Some T \<and> radix_ok 32 T \<and> radix_ok 128 T \<and> table T = (\<lambda>w. None)"
  by (rule create_ok [OF assms])

theorem ngx_radix_tree_create_succeeds_witness:
  "\<exists>T. ngx_radix_tree_create (\<lambda>_. blank_node) [4096] 1 = Some T \<and> radix_ok 32 T \<and> radix_ok 128 T \<and> table T = (\<lambda>w. None)"
  using distinct_chunk [of 4096 ngx_pagesize]
  by (intro ngx_radix_tree_create_succeeds) (simp_all add: prealloc_bits_def)

end
