(* ===== verification/Ngx_Inet.thy ===== *)
theory Ngx_Inet
  imports Ngx_Printf
begin

text \<open>
  Internet addresses, from \<^verbatim>\<open>core/ngx_inet.c\<close>: \<^verbatim>\<open>ngx_inet_addr\<close>, \<^verbatim>\<open>ngx_inet6_addr\<close>, \<^verbatim>\<open>ngx_inet_ntop\<close>,
  \<^verbatim>\<open>ngx_inet6_ntop\<close>, \<^verbatim>\<open>ngx_ptocidr\<close>, \<^verbatim>\<open>ngx_cidr_match\<close>, \<^verbatim>\<open>ngx_parse_addr\<close> and \<^verbatim>\<open>ngx_parse_addr_port\<close>.

  An IPv4 address is a word in network byte order, as in \<^verbatim>\<open>struct sockaddr_in\<close>; an IPv6 address is the list of its 16 bytes.
\<close>

section \<open>IPv4\<close>

definition INADDR_NONE :: u_int32 where
  "INADDR_NONE = - 1"

text \<open>\<^verbatim>\<open>htonl\<close> of a little-endian machine; \<^verbatim>\<open>ntohl\<close> is the same function.\<close>

definition htonl :: "u_int32 \<Rightarrow> u_int32" where
  "htonl w = push_bit 24 w OR push_bit 8 (w AND 0xff00) OR (drop_bit 8 w AND 0xff00) OR drop_bit 24 w"

abbreviation ntohl :: "u_int32 \<Rightarrow> u_int32" where
  "ntohl \<equiv> htonl"

fun inet_addr_loop :: "u_char list \<Rightarrow> u_int32 \<Rightarrow> nat \<Rightarrow> nat \<Rightarrow> u_int32" where
  "inet_addr_loop [] addr octet n =
    (if n = 3 then htonl (push_bit 8 addr + of_nat octet) else INADDR_NONE)"
| "inet_addr_loop (c # p) addr octet n =
    (if c \<ge> ch CHR ''0'' \<and> c \<le> ch CHR ''9'' then
       let octet = octet * 10 + (unat c - 48) in
       if octet > 255 then INADDR_NONE else inet_addr_loop p addr octet n
     else if c = ch CHR ''.'' then inet_addr_loop p (push_bit 8 addr + of_nat octet) 0 (n + 1)
     else INADDR_NONE)"

definition ngx_inet_addr :: "u_char list \<Rightarrow> u_int32" where
  "ngx_inet_addr txt = inet_addr_loop txt 0 0 0"

text \<open>The bytes of an address in memory.\<close>

definition in_addr_bytes :: "u_int32 \<Rightarrow> u_char list" where
  "in_addr_bytes a = map (\<lambda>k. ucast (drop_bit (8 * k) a)) [0..<4]"

section \<open>IPv6\<close>

text \<open>
  The variables of \<^verbatim>\<open>ngx_inet6_addr\<close>.  \<open>v_mem\<close> is the array the address is written to and \<open>v_addr\<close> the place of the
  next byte; \<open>v_digit\<close> is the text from \<^verbatim>\<open>digit\<close> on, \<^verbatim>\<open>len4 - 1\<close> bytes.
\<close>

record inet6_vars =
  v_zero :: ptr
  v_digit :: "u_char list option"
  v_nibbles :: nat
  v_word :: nat
  v_n :: nat
  v_addr :: nat
  v_mem :: "u_char list"

text \<open>A write behind the array, \<^verbatim>\<open>NGX_ERROR\<close>, or a result.\<close>

datatype 'a inet6_result = Outside | Invalid | Done 'a

definition store2 :: "u_char \<Rightarrow> u_char \<Rightarrow> inet6_vars \<Rightarrow> inet6_vars inet6_result" where
  "store2 hi lo v =
    (if v_addr v + 1 < length (v_mem v)
     then Done (v\<lparr>v_mem := (v_mem v)[v_addr v := hi, v_addr v + 1 := lo], v_addr := v_addr v + 2\<rparr>)
     else Outside)"

definition store_word :: "inet6_vars \<Rightarrow> inet6_vars inet6_result" where
  "store_word v = store2 (of_nat (v_word v div 256)) (of_nat (v_word v)) v"

text \<open>The dotted end: the four bytes are parsed, two are stored, and the loop ends.\<close>

definition inet6_dot :: "inet6_vars \<Rightarrow> inet6_vars inet6_result" where
  "inet6_dot v =
    (case v_digit v of
       None \<Rightarrow> Invalid
     | Some digit \<Rightarrow>
         if v_n v < 2 then Invalid
         else let w = ngx_inet_addr digit in
           if w = INADDR_NONE then Invalid
           else let w = ntohl w in
             (case store2 (ucast (drop_bit 24 w)) (ucast (drop_bit 16 w)) v of
                Done v \<Rightarrow> Done (v\<lparr>v_n := v_n v - 1, v_word := unat w\<rparr>)
              | r \<Rightarrow> r))"

fun inet6_loop :: "u_char list \<Rightarrow> inet6_vars \<Rightarrow> inet6_vars inet6_result" where
  "inet6_loop [] v = Done v"
| "inet6_loop (c # p) v =
    (if c = ch CHR '':'' then
       if v_nibbles v \<noteq> 0 then
         case store_word (v\<lparr>v_digit := Some p\<rparr>) of
           Done v \<Rightarrow>
             if v_n v - 1 \<noteq> 0 then inet6_loop p (v\<lparr>v_n := v_n v - 1, v_nibbles := 0, v_word := 0\<rparr>)
             else Invalid
         | r \<Rightarrow> r
       else if v_zero v = NULL then inet6_loop p (v\<lparr>v_digit := Some p, v_zero := Some (v_addr v)\<rparr>)
       else Invalid
     else if c = ch CHR ''.'' \<and> v_nibbles v \<noteq> 0 then inet6_dot v
     else if v_nibbles v + 1 > 4 then Invalid
     else let v = v\<lparr>v_nibbles := v_nibbles v + 1\<rparr> in
       if c \<ge> ch CHR ''0'' \<and> c \<le> ch CHR ''9'' then inet6_loop p (v\<lparr>v_word := v_word v * 16 + (unat c - 48)\<rparr>)
       else let c = c OR 0x20 in
         if c \<ge> ch CHR ''a'' \<and> c \<le> ch CHR ''f'' then inet6_loop p (v\<lparr>v_word := v_word v * 16 + (unat c - 97) + 10\<rparr>)
         else Invalid)"

text \<open>The loop that moves \<open>k\<close> bytes at \<open>z\<close> up by \<open>n\<close>, from the last one on.\<close>

fun move_up :: "nat \<Rightarrow> nat \<Rightarrow> nat \<Rightarrow> u_char list \<Rightarrow> u_char list inet6_result" where
  "move_up z 0 n mem = Done mem"
| "move_up z (Suc k) n mem =
    (if z + k + n < length mem then move_up z k n (mem[z + k + n := mem ! (z + k)]) else Outside)"

definition inet6_end :: "inet6_vars \<Rightarrow> u_char list inet6_result" where
  "inet6_end v =
    (if v_nibbles v = 0 \<and> v_zero v = NULL then Invalid
     else case store_word v of
       Outside \<Rightarrow> Outside
     | Invalid \<Rightarrow> Invalid
     | Done v \<Rightarrow>
         let n = v_n v - 1 in
         if n \<noteq> 0 then
           case v_zero v of
             NULL \<Rightarrow> Invalid
           | Some z \<Rightarrow>
               (case move_up z (v_addr v - z) (n * 2) (v_mem v) of
                  Done mem \<Rightarrow> Done (take z mem @ replicate (n * 2) 0 @ drop (z + n * 2) mem)
                | r \<Rightarrow> r)
         else if v_zero v = NULL then Done (v_mem v) else Invalid)"

definition ngx_inet6_addr :: "u_char list \<Rightarrow> u_char list \<Rightarrow> u_char list inet6_result" where
  "ngx_inet6_addr p addr =
    (if p = [] then Invalid
     else let p = (if hd p = ch CHR '':'' then tl p else p) in
       case inet6_loop p \<lparr>v_zero = NULL, v_digit = None, v_nibbles = 0, v_word = 0, v_n = 8, v_addr = 0, v_mem = addr\<rparr> of
         Done v \<Rightarrow> inet6_end v
       | Outside \<Rightarrow> Outside
       | Invalid \<Rightarrow> Invalid)"

section \<open>Printing\<close>

definition NGX_INET6_ADDRSTRLEN :: nat where
  "NGX_INET6_ADDRSTRLEN = length ''ffff:ffff:ffff:ffff:ffff:ffff:255.255.255.255''"

definition ud_dotted :: "u_char list" where
  "ud_dotted = bytes ''%ud.%ud.%ud.%ud''"

definition byte_arg :: "u_char \<Rightarrow> varg" where
  "byte_arg c = V_int (uint c)"

text \<open>The search for the longest run of zero words: \<^verbatim>\<open>zero\<close>, \<^verbatim>\<open>last\<close>, \<^verbatim>\<open>max\<close> and \<^verbatim>\<open>n\<close>; \<^verbatim>\<open>(ngx_uint_t) -1\<close> is \<^const>\<open>None\<close>.\<close>

fun ntop_scan :: "u_char list \<Rightarrow> nat list \<Rightarrow> ptr \<Rightarrow> ptr \<Rightarrow> nat \<Rightarrow> nat \<Rightarrow> ptr \<times> nat" where
  "ntop_scan p [] zero lst mx n = (if mx < n then (lst, n) else (zero, mx))"
| "ntop_scan p (i # is) zero lst mx n =
    (if p ! i \<noteq> 0 \<or> p ! (i + 1) \<noteq> 0 then
       if mx < n then ntop_scan p is lst lst n 0 else ntop_scan p is zero lst mx 0
     else ntop_scan p is zero (if n = 0 then Some i else lst) mx (n + 1))"

text \<open>The loop that prints; \<open>txt\<close> is the address of the buffer and \<open>dst\<close> what is in it.\<close>

function ntop_loop :: "nat \<Rightarrow> u_char list \<Rightarrow> ptr \<Rightarrow> nat \<Rightarrow> nat \<Rightarrow> nat \<Rightarrow> u_char list \<Rightarrow> u_char list option" where
  "ntop_loop txt p zero mx n i dst =
    (if i < n then
       if Some i = zero then ntop_loop txt p zero mx n (i + (mx - 1) * 2 + 2) (dst @ [ch CHR '':''])
       else case ngx_sprintf (txt + length dst) (bytes ''%xd'') [V_int (uint (p ! i) * 256 + uint (p ! (i + 1)))] of
         None \<Rightarrow> None
       | Some s \<Rightarrow> ntop_loop txt p zero mx n (i + 2) (dst @ s @ (if i < 14 then [ch CHR '':''] else []))
     else Some dst)"
  by pat_completeness auto
termination by (relation "measure (\<lambda>(txt, p, zero, mx, n, i, dst). n - i)") auto

declare ntop_loop.simps [simp del]

definition ngx_inet6_ntop :: "u_char list \<Rightarrow> nat \<Rightarrow> nat \<Rightarrow> u_char list option" where
  "ngx_inet6_ntop p txt len =
    (if len < NGX_INET6_ADDRSTRLEN then Some []
     else let (zero, mx) = ntop_scan p [0, 2, 4, 6, 8, 10, 12, 14] NULL NULL 1 0;
         n = (if zero = Some 0 \<and> (mx = 5 \<and> p ! 10 = 0xff \<and> p ! 11 = 0xff \<or> mx = 6 \<or> mx = 7 \<and> p ! 14 \<noteq> 0 \<and> p ! 15 \<noteq> 1)
              then 12 else 16) in
       case ntop_loop txt p zero mx n 0 (if zero = Some 0 then [ch CHR '':''] else []) of
         None \<Rightarrow> None
       | Some dst \<Rightarrow>
           if n = 12 then
             map_option ((@) dst) (ngx_sprintf (txt + length dst) ud_dotted (map byte_arg [p ! 12, p ! 13, p ! 14, p ! 15]))
           else Some dst)"

text \<open>An address of a family, as the callers pass it.\<close>

datatype inet_address = AF_INET u_int32 | AF_INET6 "u_char list"

fun ngx_inet_ntop :: "inet_address \<Rightarrow> nat \<Rightarrow> nat \<Rightarrow> u_char list option" where
  "ngx_inet_ntop (AF_INET a) txt len = ngx_snprintf len ud_dotted (map byte_arg (in_addr_bytes a))"
| "ngx_inet_ntop (AF_INET6 p) txt len = ngx_inet6_ntop p txt len"

section \<open>Networks\<close>

text \<open>\<open>ngx_cidr_t\<close>: the family and the union.\<close>

datatype ngx_cidr_t = Cidr_in u_int32 u_int32 | Cidr_in6 "u_char list" "u_char list" | Cidr_unix

text \<open>\<^verbatim>\<open>ngx_strlchr\<close>: the text up to the first \<open>c\<close> and the text behind it.\<close>

fun ngx_strlchr :: "u_char list \<Rightarrow> u_char \<Rightarrow> nat option" where
  "ngx_strlchr [] c = None"
| "ngx_strlchr (x # p) c = (if x = c then Some 0 else map_option Suc (ngx_strlchr p c))"

text \<open>The masks, and whether the address has bits outside of them.\<close>

fun cidr_mask6 :: "nat \<Rightarrow> u_char list \<Rightarrow> (u_char list \<times> u_char list) \<times> int" where
  "cidr_mask6 shift [] = (([], []), NGX_OK)"
| "cidr_mask6 shift (a # addr) =
    (let s = (if shift > 8 then 8 else shift);
         m = push_bit (8 - s) 0xff :: u_char in
     case cidr_mask6 (shift - s) addr of ((as, ms), rc) \<Rightarrow>
       (((a AND m) # as, m # ms), if a \<noteq> a AND m then NGX_DONE else rc))"

definition cidr_mask4 :: "nat \<Rightarrow> u_int32" where
  "cidr_mask4 shift = (if shift \<noteq> 0 then htonl (push_bit (32 - shift) 0xffffffff) else 0)"

text \<open>
  The result is \<^const>\<open>Inl\<close> \<^verbatim>\<open>NGX_ERROR\<close>, or the network and whether it is \<^verbatim>\<open>NGX_DONE\<close>.  \<open>buf\<close> is what the member
  \<^verbatim>\<open>in6.addr\<close> of \<open>cidr\<close> has when \<^verbatim>\<open>ngx_inet6_addr\<close> is called.
\<close>

definition ngx_ptocidr :: "u_char list \<Rightarrow> u_char list \<Rightarrow> int + ngx_cidr_t \<times> int" where
  "ngx_ptocidr txt buf =
    (let slash = ngx_strlchr txt (ch CHR ''/'');
         addr = (case slash of NULL \<Rightarrow> txt | Some k \<Rightarrow> take k txt);
         inaddr = ngx_inet_addr addr in
     if inaddr \<noteq> INADDR_NONE then
       case slash of
         NULL \<Rightarrow> Inr (Cidr_in inaddr 0xffffffff, NGX_OK)
       | Some k \<Rightarrow>
           let shift = ngx_atoi (drop (k + 1) txt) in
           if shift = NGX_ERROR then Inl NGX_ERROR
           else if shift > 32 then Inl NGX_ERROR
           else let msk = cidr_mask4 (nat shift) in
             if inaddr = inaddr AND msk then Inr (Cidr_in inaddr msk, NGX_OK)
             else Inr (Cidr_in (inaddr AND msk) msk, NGX_DONE)
     else case ngx_inet6_addr addr buf of
       Done a \<Rightarrow>
         (case slash of
            NULL \<Rightarrow> Inr (Cidr_in6 a (replicate 16 0xff), NGX_OK)
          | Some k \<Rightarrow>
              let shift = ngx_atoi (drop (k + 1) txt) in
              if shift = NGX_ERROR then Inl NGX_ERROR
              else if shift > 128 then Inl NGX_ERROR
              else case cidr_mask6 (nat shift) a of ((a, m), rc) \<Rightarrow> Inr (Cidr_in6 a m, rc))
     | _ \<Rightarrow> Inl NGX_ERROR)"

datatype sockaddr = Sa_in u_int32 | Sa_in6 "u_char list" | Sa_unix | Sa_other nat

definition IN6_IS_ADDR_V4MAPPED :: "u_char list \<Rightarrow> bool" where
  "IN6_IS_ADDR_V4MAPPED p \<longleftrightarrow> take 12 p = replicate 10 0 @ [0xff, 0xff]"

text \<open>The family and address that are compared: a mapped IPv4 address is one.\<close>

fun cidr_subject :: "sockaddr \<Rightarrow> sockaddr" where
  "cidr_subject (Sa_in6 p) =
    (if IN6_IS_ADDR_V4MAPPED p
     then Sa_in (htonl (push_bit 24 (ucast (p ! 12)) + push_bit 16 (ucast (p ! 13)) + push_bit 8 (ucast (p ! 14)) + ucast (p ! 15)))
     else Sa_in6 p)"
| "cidr_subject sa = sa"

fun cidr_match6 :: "u_char list \<Rightarrow> u_char list \<Rightarrow> u_char list \<Rightarrow> bool" where
  "cidr_match6 (p # ps) (m # ms) (a # as) \<longleftrightarrow> p AND m = a \<and> cidr_match6 ps ms as"
| "cidr_match6 _ _ _ \<longleftrightarrow> True"

fun cidr_match_one :: "sockaddr \<Rightarrow> ngx_cidr_t \<Rightarrow> bool" where
  "cidr_match_one (Sa_in inaddr) (Cidr_in a m) \<longleftrightarrow> inaddr AND m = a"
| "cidr_match_one (Sa_in6 p) (Cidr_in6 a m) \<longleftrightarrow> cidr_match6 p m a"
| "cidr_match_one Sa_unix Cidr_unix \<longleftrightarrow> True"
| "cidr_match_one _ _ \<longleftrightarrow> False"

fun cidr_loop :: "sockaddr \<Rightarrow> ngx_cidr_t list \<Rightarrow> int" where
  "cidr_loop sa [] = NGX_DECLINED"
| "cidr_loop sa (cidr # cidrs) = (if cidr_match_one sa cidr then NGX_OK else cidr_loop sa cidrs)"

definition ngx_cidr_match :: "sockaddr \<Rightarrow> ngx_cidr_t list \<Rightarrow> int" where
  "ngx_cidr_match sa cidrs = cidr_loop (cidr_subject sa) cidrs"

section \<open>Addresses with ports\<close>

text \<open>
  The address and the port of the socket address that is made (the port is 0 at first); \<open>pool_ok\<close> tells whether there is
  memory for it.
\<close>

definition ngx_parse_addr :: "bool \<Rightarrow> u_char list \<Rightarrow> int + inet_address" where
  "ngx_parse_addr pool_ok txt =
    (let inaddr = ngx_inet_addr txt in
     if inaddr \<noteq> INADDR_NONE then if pool_ok then Inr (AF_INET inaddr) else Inl NGX_ERROR
     else case ngx_inet6_addr txt (replicate 16 0) of
       Done a \<Rightarrow> if pool_ok then Inr (AF_INET6 a) else Inl NGX_ERROR
     | _ \<Rightarrow> Inl NGX_DECLINED)"

definition addr_port_rest :: "bool \<Rightarrow> u_char list \<Rightarrow> u_char list \<Rightarrow> int + inet_address \<times> int" where
  "addr_port_rest pool_ok txt p =
    (let port = ngx_atoi p in
     if port < 1 \<or> port > 65535 then Inl NGX_DECLINED
     else case ngx_parse_addr pool_ok txt of
       Inl rc \<Rightarrow> Inl rc
     | Inr a \<Rightarrow> Inr (a, port))"

definition ngx_parse_addr_port :: "bool \<Rightarrow> u_char list \<Rightarrow> int + inet_address \<times> int" where
  "ngx_parse_addr_port pool_ok txt =
    (case ngx_parse_addr pool_ok txt of
       Inr a \<Rightarrow> Inr (a, 0)
     | Inl rc \<Rightarrow>
         if rc \<noteq> NGX_DECLINED then Inl rc
         else if txt \<noteq> [] \<and> hd txt = ch CHR ''['' then
           case ngx_strlchr txt (ch CHR '']'') of
             NULL \<Rightarrow> Inl NGX_DECLINED
           | Some k \<Rightarrow>
               if k = length txt - 1 \<or> txt ! (k + 1) \<noteq> ch CHR '':'' then Inl NGX_DECLINED
               else addr_port_rest pool_ok (take (k - 1) (drop 1 txt)) (drop (k + 2) txt)
         else case ngx_strlchr txt (ch CHR '':'') of
           NULL \<Rightarrow> Inl NGX_DECLINED
         | Some k \<Rightarrow> addr_port_rest pool_ok (take k txt) (drop (k + 1) txt))"

end
