(* ===== verification/Ngx_Inet_Correct.thy ===== *)
theory Ngx_Inet_Correct
  imports Ngx_Inet
begin

text \<open>
  Correctness of the address functions: what \<^verbatim>\<open>ngx_inet_addr\<close> accepts, that \<^verbatim>\<open>ngx_inet6_addr\<close> stays inside its array and
  reads back what \<^verbatim>\<open>ngx_inet6_ntop\<close> prints, and what the networks of \<^verbatim>\<open>ngx_ptocidr\<close> and \<^verbatim>\<open>ngx_cidr_match\<close> mean.
\<close>

section \<open>The parser of IPv6 addresses stays in its array\<close>

text \<open>
  The state after the words \<open>ws\<close>: they are at the start of the array, and \<^verbatim>\<open>n\<close> counts the missing ones.
\<close>

definition word_bytes :: "nat \<Rightarrow> u_char list" where
  "word_bytes w = [of_nat (w div 256), of_nat w]"

definition words_bytes :: "nat list \<Rightarrow> u_char list" where
  "words_bytes ws = concat (map word_bytes ws)"

definition at_words :: "inet6_vars \<Rightarrow> nat list \<Rightarrow> bool" where
  "at_words v ws \<longleftrightarrow> length (v_mem v) = 16 \<and> v_addr v = 2 * length ws \<and> take (v_addr v) (v_mem v) = words_bytes ws
     \<and> v_n v + length ws = 8"

lemma words_bytes_simps [simp]:
  "words_bytes [] = []" "words_bytes (w # ws) = word_bytes w @ words_bytes ws"
  "words_bytes (us @ ws) = words_bytes us @ words_bytes ws"
  by (simp_all add: words_bytes_def)

lemma length_word_bytes [simp]: "length (word_bytes w) = 2" "length (words_bytes ws) = 2 * length ws"
proof -
  show w: "length (word_bytes w) = 2" for w by (simp add: word_bytes_def)
  show "length (words_bytes ws) = 2 * length ws" by (induction ws) (simp_all add: w)
qed

lemma at_words_fields [simp]:
  "at_words (v\<lparr>v_zero := z\<rparr>) ws \<longleftrightarrow> at_words v ws" "at_words (v\<lparr>v_digit := d\<rparr>) ws \<longleftrightarrow> at_words v ws"
  "at_words (v\<lparr>v_nibbles := k\<rparr>) ws \<longleftrightarrow> at_words v ws" "at_words (v\<lparr>v_word := w\<rparr>) ws \<longleftrightarrow> at_words v ws"
  by (simp_all add: at_words_def)

text \<open>A pair of bytes that fits goes behind the words.\<close>

lemma take_store2:
  assumes "a + 1 < length m"
  shows "take (a + 2) (m[a := x, a + 1 := y]) = take a m @ [x, y]"
  using assms by (auto simp: list_eq_iff_nth_eq nth_append nth_list_update nth_Cons' less_Suc_eq)

lemma store2_words:
  assumes "at_words v ws" "0 < v_n v" "[hi, lo] = word_bytes w"
  shows "\<exists>m. store2 hi lo v = Done (v\<lparr>v_mem := m, v_addr := 2 * length ws + 2\<rparr>)
    \<and> at_words (v\<lparr>v_mem := m, v_addr := 2 * length ws + 2, v_n := v_n v - 1\<rparr>) (ws @ [w])"
proof -
  have fit: "v_addr v + 1 < length (v_mem v)" using assms(1,2) by (simp add: at_words_def)
  show ?thesis
    using assms fit take_store2 [OF fit, of hi lo]
    by (intro exI [of _ "(v_mem v)[v_addr v := hi, v_addr v + 1 := lo]"]) (auto simp: store2_def at_words_def)
qed

lemma store_word_words:
  assumes "at_words v ws" "0 < v_n v"
  shows "\<exists>m. store_word v = Done (v\<lparr>v_mem := m, v_addr := 2 * length ws + 2\<rparr>)
    \<and> at_words (v\<lparr>v_mem := m, v_addr := 2 * length ws + 2, v_n := v_n v - 1\<rparr>) (ws @ [v_word v])"
  unfolding store_word_def by (rule store2_words [OF assms]) (simp add: word_bytes_def)

text \<open>The place of the double colon is before the words read after it.\<close>

definition zero_ok :: "inet6_vars \<Rightarrow> bool" where
  "zero_ok v \<longleftrightarrow> (case v_zero v of NULL \<Rightarrow> True | Some z \<Rightarrow> z \<le> v_addr v)"

definition inet6_inv :: "inet6_vars \<Rightarrow> bool" where
  "inet6_inv v \<longleftrightarrow> (\<exists>ws. at_words v ws) \<and> 0 < v_n v \<and> zero_ok v"

lemma ntohl_bytes:
  "[ucast (drop_bit 24 w), ucast (drop_bit 16 w)] = word_bytes (unat (w :: u_int32) div 65536)"
proof -
  have "(ucast (drop_bit 24 w) :: u_char) = of_nat (unat w div 65536 div 256)"
    "(ucast (drop_bit 16 w) :: u_char) = of_nat (unat w div 65536)"
    by (simp_all add: word_unat_eq_iff unsigned_ucast_eq unat_drop_bit_eq drop_bit_eq_div take_bit_eq_mod unat_of_nat
        div_mult2_eq [symmetric] unat_div)
  then show ?thesis by (simp add: word_bytes_def)
qed

lemma inet6_dot_inv:
  assumes "inet6_inv v"
  shows "case inet6_dot v of Outside \<Rightarrow> False | Invalid \<Rightarrow> True | Done v' \<Rightarrow> inet6_inv v'"
proof (cases "v_digit v")
  case (Some d)
  obtain ws where ws: "at_words v ws" "0 < v_n v" "zero_ok v" using assms by (auto simp: inet6_inv_def)
  let ?w = "ntohl (ngx_inet_addr d)"
  from store2_words [OF ws(1,2) ntohl_bytes, of ?w] obtain m where
    m: "store2 (ucast (drop_bit 24 ?w)) (ucast (drop_bit 16 ?w)) v = Done (v\<lparr>v_mem := m, v_addr := 2 * length ws + 2\<rparr>)"
    "at_words (v\<lparr>v_mem := m, v_addr := 2 * length ws + 2, v_n := v_n v - 1\<rparr>) (ws @ [unat ?w div 65536])" by blast
  have "inet6_inv (v\<lparr>v_mem := m, v_addr := 2 * length ws + 2, v_n := v_n v - 1, v_word := unat ?w\<rparr>)" if "\<not> v_n v < 2"
    using m(2) ws(1,3) that unfolding inet6_inv_def
    by (intro conjI exI [of _ "ws @ [unat ?w div 65536]"]) (auto simp: zero_ok_def at_words_def split: option.splits)
  then show ?thesis using m(1) Some by (simp add: inet6_dot_def Let_def)
qed (simp add: inet6_dot_def)

lemma inet6_inv_fields:
  "inet6_inv v \<Longrightarrow> inet6_inv (v\<lparr>v_nibbles := k\<rparr>)" "inet6_inv v \<Longrightarrow> inet6_inv (v\<lparr>v_nibbles := k, v_word := w\<rparr>)"
  "inet6_inv v \<Longrightarrow> inet6_inv (v\<lparr>v_digit := d, v_zero := Some (v_addr v)\<rparr>)"
  unfolding inet6_inv_def by (auto simp: zero_ok_def split: option.splits)

lemma inet6_loop_inv:
  "inet6_inv v \<Longrightarrow> case inet6_loop p v of Outside \<Rightarrow> False | Invalid \<Rightarrow> True | Done v' \<Rightarrow> inet6_inv v'"
proof (induction p v rule: inet6_loop.induct)
  case (2 c p v)
  obtain ws where ws: "at_words v ws" "0 < v_n v" "zero_ok v" using 2(5) by (auto simp: inet6_inv_def)
  let ?v = "v\<lparr>v_digit := Some p\<rparr>"
  obtain m where m: "store_word ?v = Done (?v\<lparr>v_mem := m, v_addr := 2 * length ws + 2\<rparr>)"
    "at_words (?v\<lparr>v_mem := m, v_addr := 2 * length ws + 2, v_n := v_n v - 1\<rparr>) (ws @ [v_word v])"
    using store_word_words [of ?v ws] ws(1,2) by auto
  have next_word: "inet6_inv (?v\<lparr>v_mem := m, v_addr := 2 * length ws + 2, v_n := v_n v - 1, v_nibbles := 0, v_word := 0\<rparr>)"
    if "v_n v - 1 \<noteq> 0"
    using m(2) ws(1,3) that unfolding inet6_inv_def
    by (intro conjI exI [of _ "ws @ [v_word v]"]) (auto simp: zero_ok_def at_words_def split: option.splits)
  consider "c = ch CHR '':''" "v_nibbles v \<noteq> 0" | "c = ch CHR '':''" "v_nibbles v = 0"
    | "c \<noteq> ch CHR '':''" "c = ch CHR ''.'' \<and> v_nibbles v \<noteq> 0" | "c \<noteq> ch CHR '':''" "\<not> (c = ch CHR ''.'' \<and> v_nibbles v \<noteq> 0)"
    by blast
  then show ?case
  proof cases
    case 1
    then show ?thesis using 2(1) [OF 1 m(1)] m(1) next_word by simp
  next
    case 2
    then show ?thesis using "2.IH"(2) [OF 2(1)] inet6_inv_fields(3) [OF "2.prems"] by simp
  next
    case 3
    then show ?thesis using inet6_dot_inv [OF "2.prems"] by simp
  next
    case 4
    then show ?thesis using "2.IH"(3,4) [OF 4] inet6_inv_fields [OF "2.prems"] by (auto simp: Let_def)
  qed
qed simp

lemma length_move_up: "z + k + n \<le> length m \<Longrightarrow> \<exists>m'. move_up z k n m = Done m' \<and> length m' = length m"
  by (induction z k n m rule: move_up.induct) auto

lemma inet6_end_inv:
  assumes "inet6_inv v"
  shows "case inet6_end v of Outside \<Rightarrow> False | Invalid \<Rightarrow> True | Done a \<Rightarrow> length a = 16"
proof -
  obtain ws where ws: "at_words v ws" "0 < v_n v" "zero_ok v" using assms by (auto simp: inet6_inv_def)
  obtain m where m: "store_word v = Done (v\<lparr>v_mem := m, v_addr := 2 * length ws + 2\<rparr>)"
    "at_words (v\<lparr>v_mem := m, v_addr := 2 * length ws + 2, v_n := v_n v - 1\<rparr>) (ws @ [v_word v])"
    using store_word_words [OF ws(1,2)] by auto
  show ?thesis
  proof (cases "v_zero v")
    case None
    then show ?thesis using m by (simp add: inet6_end_def at_words_def Let_def)
  next
    case (Some z)
    then have z: "z \<le> 2 * length ws" using ws(1,3) by (simp add: zero_ok_def at_words_def)
    have len: "length m = 16" "v_n v - 1 + length ws = 7" using m(2) by (simp_all add: at_words_def)
    then have "z + (2 * length ws + 2 - z) + (v_n v - 1) * 2 \<le> length m" using z by simp
    then obtain m' where "move_up z (2 * length ws + 2 - z) ((v_n v - 1) * 2) m = Done m'" "length m' = 16"
      using length_move_up len(1) by metis
    then show ?thesis using m(1) Some z len by (simp add: inet6_end_def Let_def)
  qed
qed

lemma inet6_inv_init:
  "length buf = 16 \<Longrightarrow>
    inet6_inv \<lparr>v_zero = NULL, v_digit = None, v_nibbles = 0, v_word = 0, v_n = 8, v_addr = 0, v_mem = buf\<rparr>"
  unfolding inet6_inv_def by (intro conjI exI [of _ "[]"]) (simp_all add: zero_ok_def at_words_def)

lemma inet6_addr_length:
  assumes "length buf = 16"
  shows "case ngx_inet6_addr txt buf of Outside \<Rightarrow> False | Invalid \<Rightarrow> True | Done a \<Rightarrow> length a = 16"
proof -
  let ?v = "\<lparr>v_zero = NULL, v_digit = None, v_nibbles = 0, v_word = 0, v_n = 8, v_addr = 0, v_mem = buf\<rparr>"
  have run: "case (case inet6_loop p ?v of Done v \<Rightarrow> inet6_end v | Outside \<Rightarrow> Outside | Invalid \<Rightarrow> Invalid)
      of Outside \<Rightarrow> False | Invalid \<Rightarrow> True | Done a \<Rightarrow> length a = 16" for p
    using inet6_loop_inv [OF inet6_inv_init [OF assms], of p] by (cases "inet6_loop p ?v") (simp_all add: inet6_end_inv)
  show ?thesis unfolding ngx_inet6_addr_def using run by (simp add: Let_def)
qed

text \<open>
  C20: \<^verbatim>\<open>ngx_inet6_addr\<close> writes only into the 16 bytes of its array, whatever the text is, also when it moves the words
  after a double colon up; the array keeps its length.
\<close>

theorem ngx_inet6_addr_in_bounds:
  assumes "length buf = 16"
  shows "case ngx_inet6_addr txt buf of Outside \<Rightarrow> False | Invalid \<Rightarrow> True | Done a \<Rightarrow> length a = 16"
  by (rule inet6_addr_length [OF assms])

theorem ngx_inet6_addr_in_bounds_witness:
  "case ngx_inet6_addr (bytes ''::1'') (replicate 16 7) of Outside \<Rightarrow> False | Invalid \<Rightarrow> True | Done a \<Rightarrow> length a = 16"
  by (rule ngx_inet6_addr_in_bounds) simp

section \<open>Reading words\<close>

definition hexw :: "nat \<Rightarrow> u_char list" where
  "hexw w = hex_loop hex_lower w []"

definition seg :: "nat list \<Rightarrow> u_char list" where
  "seg ws = concat (map (\<lambda>w. hexw w @ [ch CHR '':'']) ws)"

lemma seg_simps [simp]: "seg [] = []" "seg (w # ws) = hexw w @ ch CHR '':'' # seg ws" "seg (us @ ws) = seg us @ seg ws"
  by (simp_all add: seg_def)

lemma hexw_facts:
  "list_all is_hex (hexw w)" "hex_val (hexw w) = int w" "hexw w \<noteq> []" "w < 65536 \<Longrightarrow> length (hexw w) \<le> 4"
  using hex_loop_digits [of hex_lower w] hex_loop_length [of w 4 hex_lower] hex_loop_rec [of hex_lower w]
  by (simp_all add: hexw_def)

text \<open>A hexadecimal digit, in both cases, is added to the word.\<close>

lemma inet6_loop_hex:
  assumes "is_hex c" "v_nibbles v < 4"
  shows "inet6_loop (c # p) v = inet6_loop p (v\<lparr>v_nibbles := v_nibbles v + 1, v_word := v_word v * 16 + nat (hex_digit_val c)\<rparr>)"
proof -
  have "list_all (\<lambda>c. is_hex c \<longrightarrow> c \<noteq> ch CHR '':'' \<and> c \<noteq> ch CHR ''.'' \<and>
      (if c \<ge> ch CHR ''0'' \<and> c \<le> ch CHR ''9'' then nat (hex_digit_val c) = unat c - 48
       else ch CHR ''a'' \<le> (c OR 0x20) \<and> (c OR 0x20) \<le> ch CHR ''f'' \<and> nat (hex_digit_val c) = unat (c OR 0x20) - 97 + 10)) all_bytes"
    by code_simp
  from byte_all [OF this, of c] assms show ?thesis by (auto simp: Let_def add.assoc split: if_splits)
qed

lemma inet6_loop_digits:
  assumes "list_all is_hex h" "v_nibbles v + length h \<le> 4"
  shows "inet6_loop (h @ p) v = inet6_loop p (v\<lparr>v_nibbles := v_nibbles v + length h,
      v_word := nat (radix_val 16 hex_digit_val (int (v_word v)) h)\<rparr>)"
  using assms
proof (induction h arbitrary: v)
  case (Cons c h)
  have "0 \<le> hex_digit_val c" using Cons.prems(1) hex_digit_val_bounds [of c] by simp
  then have "int (v_word v * 16 + nat (hex_digit_val c)) = int (v_word v) * 16 + hex_digit_val c" by simp
  then show ?case using Cons.prems Cons.IH [of "v\<lparr>v_nibbles := v_nibbles v + 1, v_word := v_word v * 16 + nat (hex_digit_val c)\<rparr>"]
    by (simp add: inet6_loop_hex ac_simps del: inet6_loop.simps)
qed simp

lemma inet6_loop_hexw:
  assumes "w < 65536" "v_nibbles v = 0" "v_word v = 0"
  shows "inet6_loop (hexw w @ p) v = inet6_loop p (v\<lparr>v_nibbles := length (hexw w), v_word := w\<rparr>)"
  using inet6_loop_digits [of "hexw w" v p] hexw_facts [of w] assms by simp

text \<open>Between two words: nothing of the next word is read.\<close>

definition between :: "inet6_vars \<Rightarrow> nat list \<Rightarrow> ptr \<Rightarrow> bool" where
  "between v ws z \<longleftrightarrow> at_words v ws \<and> v_nibbles v = 0 \<and> v_word v = 0 \<and> v_zero v = z"

lemma inet6_loop_word:
  assumes "between v ws z" "w < 65536" "length ws < 7"
  shows "\<exists>v'. inet6_loop (hexw w @ ch CHR '':'' # p) v = inet6_loop p v' \<and> between v' (ws @ [w]) z \<and> v_digit v' = Some p"
proof -
  let ?v = "v\<lparr>v_nibbles := length (hexw w), v_word := w, v_digit := Some p\<rparr>"
  have at: "at_words v ws" "v_nibbles v = 0" "v_word v = 0" "v_zero v = z" and n: "v_n v = 8 - length ws"
    using assms(1) by (auto simp: between_def at_words_def)
  obtain m where m: "store_word ?v = Done (?v\<lparr>v_mem := m, v_addr := 2 * length ws + 2\<rparr>)"
    "at_words (?v\<lparr>v_mem := m, v_addr := 2 * length ws + 2, v_n := v_n v - 1\<rparr>) (ws @ [w])"
    using store_word_words [of ?v ws] at(1) assms(3) n by auto
  let ?v' = "?v\<lparr>v_mem := m, v_addr := 2 * length ws + 2, v_n := v_n v - 1, v_nibbles := 0, v_word := 0\<rparr>"
  have "inet6_loop (hexw w @ ch CHR '':'' # p) v = inet6_loop p ?v'"
    using assms(3) n m(1) hexw_facts(3) [of w] by (simp add: inet6_loop_hexw [OF assms(2) at(2,3)])
  moreover have "between ?v' (ws @ [w]) z \<and> v_digit ?v' = Some p" using m(2) at(4) by (simp add: between_def at_words_def)
  ultimately show ?thesis by blast
qed

lemma inet6_loop_seg:
  assumes "between v ws z" "\<forall>u \<in> set us. u < 65536" "length ws + length us < 8"
  shows "\<exists>v'. inet6_loop (seg us @ p) v = inet6_loop p v' \<and> between v' (ws @ us) z"
  using assms
proof (induction us arbitrary: v ws)
  case (Cons u us)
  obtain v1 where v1: "inet6_loop (hexw u @ ch CHR '':'' # seg us @ p) v = inet6_loop (seg us @ p) v1" "between v1 (ws @ [u]) z"
    using inet6_loop_word [of v ws z u "seg us @ p"] Cons.prems by auto
  then show ?case using Cons.IH [OF v1(2)] Cons.prems by (simp del: inet6_loop.simps)
qed auto

lemma inet6_loop_zero:
  assumes "between v ws NULL"
  shows "\<exists>v'. inet6_loop (ch CHR '':'' # p) v = inet6_loop p v' \<and> between v' ws (Some (2 * length ws)) \<and> v_digit v' = Some p"
  using assms by (intro exI [of _ "v\<lparr>v_digit := Some p, v_zero := Some (v_addr v)\<rparr>"]) (auto simp: between_def at_words_def)

section \<open>The end of an address\<close>

lemma move_up_nth:
  assumes "z + k + n \<le> length m"
  shows "\<exists>m'. move_up z k n m = Done m' \<and> length m' = length m
    \<and> (\<forall>i < length m. m' ! i = (if z + n \<le> i \<and> i < z + n + k then m ! (i - n) else m ! i))"
  using assms
proof (induction z k n m rule: move_up.induct)
  case (2 z k n m)
  then show ?case by (auto simp: nth_list_update less_Suc_eq)
qed auto

text \<open>The words behind the double colon move to the end, and zeros fill the gap.\<close>

lemma move_up_fill:
  assumes "length m = z + k + n" 
  shows "\<exists>m'. move_up z k n m = Done m' \<and>
    take z m' @ replicate n 0 @ drop (z + n) m' = take z m @ replicate n 0 @ take k (drop z m)"
proof -
  obtain m' where m': "move_up z k n m = Done m'" "length m' = length m"
    "\<And>i. i < length m \<Longrightarrow> m' ! i = (if z + n \<le> i \<and> i < z + n + k then m ! (i - n) else m ! i)"
    using move_up_nth [of z k n m] assms by auto
  have "take z m' = take z m" using m' assms by (simp add: list_eq_iff_nth_eq)
  moreover have "drop (z + n) m' = take k (drop z m)" using m' assms by (simp add: list_eq_iff_nth_eq ac_simps)
  ultimately show ?thesis using m'(1) by auto
qed

definition expand :: "nat list \<Rightarrow> nat \<Rightarrow> nat list" where
  "expand ws k = take k ws @ replicate (8 - length ws) 0 @ drop k ws"

lemma words_bytes_zeros [simp]: "words_bytes (replicate k 0) = replicate (2 * k) 0"
  by (induction k) (simp_all add: word_bytes_def)

lemma words_bytes_take: "words_bytes (take k ws) = take (2 * k) (words_bytes ws)"
proof (induction ws arbitrary: k)
  case (Cons w ws)
  then show ?case by (cases k) (simp_all add: word_bytes_def)
qed simp

lemma words_bytes_drop: "words_bytes (drop k ws) = drop (2 * k) (words_bytes ws)"
proof (induction ws arbitrary: k)
  case (Cons w ws)
  then show ?case by (cases k) (simp_all add: word_bytes_def)
qed simp

lemma inet6_end_full:
  assumes "at_words v ws" "length ws = 7" "v_zero v = NULL" "v_nibbles v \<noteq> 0"
  shows "inet6_end v = Done (words_bytes (ws @ [v_word v]))"
  using assms store_word_words [of v ws] by (auto simp: inet6_end_def at_words_def Let_def)

lemma inet6_end_zero:
  assumes "at_words v ws" "length ws < 7" "v_zero v = Some (2 * z)" "z \<le> length ws"
  shows "inet6_end v = Done (words_bytes (expand (ws @ [v_word v]) z))"
proof -
  have n: "v_n v = 8 - length ws" using assms(1) by (auto simp: at_words_def)
  obtain m where m: "store_word v = Done (v\<lparr>v_mem := m, v_addr := 2 * length ws + 2\<rparr>)"
    "length m = 16" "take (2 * length ws + 2) m = words_bytes (ws @ [v_word v])"
    using store_word_words [OF assms(1)] assms(2) n by (auto simp: at_words_def)
  let ?k = "2 * length ws + 2 - 2 * z" and ?n = "(7 - length ws) * 2"
  have len: "length m = 2 * z + ?k + ?n" using m(2) assms(2,4) by simp
  obtain m' where m': "move_up (2 * z) ?k ?n m = Done m'"
    "take (2 * z) m' @ replicate ?n 0 @ drop (2 * z + ?n) m' = take (2 * z) m @ replicate ?n 0 @ take ?k (drop (2 * z) m)"
    using move_up_fill [OF len] by auto
  have "take (2 * z) m = take (2 * z) (words_bytes ws)"
    using arg_cong [OF m(3), of "take (2 * z)"] assms(4) by (simp add: min_def)
  moreover have "take ?k (drop (2 * z) m) = drop (2 * z) (words_bytes ws) @ word_bytes (v_word v)"
    using arg_cong [OF m(3), of "drop (2 * z)"] assms(4) by (simp add: drop_take)
  ultimately have "take (2 * z) m @ replicate ?n 0 @ take ?k (drop (2 * z) m) = words_bytes (expand (ws @ [v_word v]) z)"
    using assms(4) by (simp add: expand_def words_bytes_take words_bytes_drop mult.commute)
  then show ?thesis using m(1) m' assms(2,3) n by (simp add: inet6_end_def Let_def)
qed

section \<open>Dotted addresses\<close>

lemma bit_0xff00: "bit (0xff00 :: u_int32) i \<longleftrightarrow> 8 \<le> i \<and> i < 16"
proof -
  have eq: "(0xff00 :: u_int32) = push_bit 8 (mask 8)" by (simp add: mask_eq_exp_minus_1 push_bit_eq_mult)
  show ?thesis unfolding eq by (auto simp: bit_push_bit_iff bit_mask_iff)
qed

lemma bit_htonl: "bit (htonl w) i \<longleftrightarrow> i < 32 \<and> bit w (if i < 8 then i + 24 else if i < 16 then i + 8 else if i < 24 then i - 8 else i - 24)"
  unfolding htonl_def bit_or_iff bit_push_bit_iff bit_and_iff bit_drop_bit_eq bit_0xff00
  by (auto simp: add.commute dest: bit_imp_le_length)

lemma htonl_htonl [simp]: "htonl (htonl w) = w"
  by (rule bit_word_eqI) (auto simp: bit_htonl)

lemma ones: "(0xffffffff :: u_int32) = - 1" "(0xff :: u_char) = - 1"
  by simp_all

lemma htonl_ones: "htonl (- 1) = - 1"
  by (rule bit_word_eqI) (auto simp: bit_htonl)

definition octet :: "u_char list \<Rightarrow> bool" where
  "octet f \<longleftrightarrow> list_all is_digit f \<and> dec_val f \<le> 255"

definition dotted :: "u_char list \<Rightarrow> u_char list \<Rightarrow> u_char list \<Rightarrow> u_char list \<Rightarrow> u_char list" where
  "dotted a b c d = a @ ch CHR ''.'' # b @ ch CHR ''.'' # c @ ch CHR ''.'' # d"

definition quad :: "nat \<Rightarrow> nat \<Rightarrow> nat \<Rightarrow> nat \<Rightarrow> nat" where
  "quad a b c d = ((a * 256 + b) * 256 + c) * 256 + d"

lemma digit_nat: "is_digit c \<Longrightarrow> int (unat c - 48) = digit_val c"
proof -
  have "list_all (\<lambda>c. is_digit c \<longrightarrow> int (unat c - 48) = digit_val c) all_bytes" by code_simp
  from byte_all [OF this, of c] show "is_digit c \<Longrightarrow> int (unat c - 48) = digit_val c" by simp
qed

lemma inet_addr_loop_digits:
  assumes "list_all is_digit f" "radix_val 10 digit_val (int o') f \<le> 255"
  shows "inet_addr_loop (f @ p) addr o' n = inet_addr_loop p addr (nat (radix_val 10 digit_val (int o') f)) n"
  using assms
proof (induction f arbitrary: o')
  case (Cons c f)
  have c: "int (o' * 10 + (unat c - 48)) = int o' * 10 + digit_val c" using digit_nat [of c] Cons.prems(1) by simp
  have "int o' * 10 + digit_val c \<le> radix_val 10 digit_val (int o' * 10 + digit_val c) f"
    using Cons.prems(1) digits_nonneg [of f] digit_val_bounds [of c] by (intro radix_val_ge) auto
  then have "o' * 10 + (unat c - 48) \<le> 255" using Cons.prems(2) c by simp
  then show ?case using Cons.IH [of "o' * 10 + (unat c - 48)"] Cons.prems c by (simp add: Let_def is_digit_def)
qed simp

lemma inet_addr_loop_field:
  assumes "octet f"
  shows "inet_addr_loop (f @ p) addr 0 n = inet_addr_loop p addr (nat (dec_val f)) n"
  using inet_addr_loop_digits [of f 0] assms by (simp add: octet_def)

lemma push_byte: "push_bit 8 (of_nat x :: u_int32) + of_nat y = of_nat (x * 256 + y)"
  by (simp add: push_bit_eq_mult mult.commute)

lemma ngx_inet_addr_dotted:
  assumes "octet a" "octet b" "octet c" "octet d"
  shows "ngx_inet_addr (dotted a b c d) = htonl (of_nat (quad (nat (dec_val a)) (nat (dec_val b)) (nat (dec_val c)) (nat (dec_val d))))"
proof -
  note field = inet_addr_loop_field [OF assms(1)] inet_addr_loop_field [OF assms(2)] inet_addr_loop_field [OF assms(3)]
    inet_addr_loop_field [OF assms(4), of "[]", unfolded append_Nil2]
  let ?w = "\<lambda>f. of_nat (nat (dec_val f)) :: u_int32"
  have "ngx_inet_addr (dotted a b c d) = htonl (push_bit 8 (push_bit 8 (push_bit 8 (?w a) + ?w b) + ?w c) + ?w d)"
    by (simp add: ngx_inet_addr_def dotted_def field)
  then show ?thesis by (simp only: push_byte quad_def)
qed

text \<open>Conversely, only such a text is accepted.\<close>

lemma inet_addr_loop_accepts:
  assumes "inet_addr_loop p addr o' n \<noteq> INADDR_NONE" "o' \<le> 255"
  shows "\<exists>f fs. p = f @ concat (map ((#) (ch CHR ''.'')) fs) \<and> n + length fs = 3 \<and> list_all is_digit f
    \<and> radix_val 10 digit_val (int o') f \<le> 255 \<and> list_all octet fs"
  using assms
proof (induction p addr o' n rule: inet_addr_loop.induct)
  case (1 addr o' n)
  then show ?case by (auto intro!: exI [of _ "[]"] split: if_splits)
next
  case (2 c p addr o' n)
  show ?case
  proof (cases "is_digit c")
    case True
    let ?o = "o' * 10 + (unat c - 48)"
    have d: "ch CHR ''0'' \<le> c \<and> c \<le> ch CHR ''9''" using True by (simp add: is_digit_def)
    then have "\<not> ?o > 255" "inet_addr_loop p addr ?o n \<noteq> INADDR_NONE" using 2(3) by (auto simp: Let_def split: if_splits)
    with 2(1) [OF d refl] obtain f fs where "p = f @ concat (map ((#) (ch CHR ''.'')) fs)" "n + length fs = 3" "list_all is_digit f"
      "radix_val 10 digit_val (int ?o) f \<le> 255" "list_all octet fs" by auto
    moreover have "int ?o = int o' * 10 + digit_val c" using digit_nat [OF True] by simp
    ultimately show ?thesis using True by (intro exI [of _ "c # f"] exI [of _ fs]) simp
  next
    case False
    then have d: "\<not> (ch CHR ''0'' \<le> c \<and> c \<le> ch CHR ''9'')" by (simp add: is_digit_def)
    then have c: "c = ch CHR ''.''" and "inet_addr_loop p (push_bit 8 addr + of_nat o') 0 (n + 1) \<noteq> INADDR_NONE"
      using 2(3) by (auto split: if_splits)
    with 2(2) [OF d c] obtain f fs where "p = f @ concat (map ((#) (ch CHR ''.'')) fs)" "n + 1 + length fs = 3" "list_all is_digit f"
      "dec_val f \<le> 255" "list_all octet fs" by auto
    then show ?thesis using c 2(4) by - (rule exI [of _ "[]"], rule exI [of _ "f # fs"], simp add: octet_def [of f])
  qed
qed

text \<open>
  \<^verbatim>\<open>ngx_inet_addr\<close> accepts exactly four numbers of at most 255 with dots between them, each a string of decimal digits, which may be empty,
  and returns the address in network byte order; 255.255.255.255 is not to be told from \<^verbatim>\<open>INADDR_NONE\<close>.
\<close>

theorem ngx_inet_addr_exact:
  "if \<exists>a b c d. octet a \<and> octet b \<and> octet c \<and> octet d \<and> t = dotted a b c d
   then \<exists>a b c d. octet a \<and> octet b \<and> octet c \<and> octet d \<and> t = dotted a b c d
     \<and> ngx_inet_addr t = htonl (of_nat (quad (nat (dec_val a)) (nat (dec_val b)) (nat (dec_val c)) (nat (dec_val d))))
   else ngx_inet_addr t = INADDR_NONE"
proof (cases "ngx_inet_addr t = INADDR_NONE")
  case True
  then show ?thesis using ngx_inet_addr_dotted by (simp only: if_split) metis
next
  case False
  then obtain f fs where t: "t = f @ concat (map ((#) (ch CHR ''.'')) fs)" "length fs = 3" "octet f" "list_all octet fs"
    using inet_addr_loop_accepts [of t 0 0 0] by (auto simp: ngx_inet_addr_def octet_def)
  then obtain b c d where "fs = [b, c, d]" by (auto simp: length_Suc_conv numeral_3_eq_3)
  then have "\<exists>a b c d. octet a \<and> octet b \<and> octet c \<and> octet d \<and> t = dotted a b c d"
    using t by (intro exI [of _ f] exI [of _ b] exI [of _ c] exI [of _ d]) (simp add: dotted_def)
  then show ?thesis using ngx_inet_addr_dotted by (simp only: if_True) metis
qed

text \<open>The dotted end of an IPv6 address.\<close>

definition dec :: "u_char \<Rightarrow> u_char list" where
  "dec c = dec_loop64 (unat c) []"

lemma dec_facts:
  "list_all is_digit (dec c)" "dec_val (dec c) = uint c" "dec c \<noteq> []" "length (dec c) \<le> 3" "octet (dec c)" "nat (dec_val (dec c)) = unat c"
proof -
  show d: "list_all is_digit (dec c)" "dec_val (dec c) = uint c" using dec_loop64_digits [of "unat c"] by (simp_all add: dec_def)
  show "dec c \<noteq> []" by (simp add: dec_def)
  have "unat c < 10 ^ 3" by (rule less_trans [OF unat_byte_less]) simp
  then show "length (dec c) \<le> 3" using dec_loop64_length [of "unat c" 3] by (simp add: dec_def)
  show "octet (dec c)" using d uint_byte_bounds [of c] by (simp add: octet_def)
  show "nat (dec_val (dec c)) = unat c" using d(2) by simp
qed

lemma digits_hex: "list_all is_digit f \<Longrightarrow> list_all is_hex f"
  by (auto simp: list_all_iff is_hex_def)

lemma quad_nat:
  fixes a b c d :: nat
  assumes "a < 256" "b < 256" "c < 256" "d < 256"
  shows "quad a b c d < 4294967296" "quad a b c d div 65536 = a * 256 + b"
    "quad a b c d = 4294967295 \<longleftrightarrow> a = 255 \<and> b = 255 \<and> c = 255 \<and> d = 255"
proof -
  have eq: "quad a b c d = (a * 256 + b) * 65536 + (c * 256 + d)" by (simp add: quad_def)
  have low: "c * 256 + d < 65536" and high: "a * 256 + b \<le> 65535" using assms by linarith+
  have "(a * 256 + b) * 65536 \<le> 65535 * 65536" using high by (rule mult_right_mono) simp
  then show "quad a b c d < 4294967296" using low unfolding eq by simp
  show "quad a b c d div 65536 = a * 256 + b" using low unfolding eq by simp
  show "quad a b c d = 4294967295 \<longleftrightarrow> a = 255 \<and> b = 255 \<and> c = 255 \<and> d = 255"
  proof
    assume max: "quad a b c d = 4294967295"
    then have "a * 256 + b = 65535" using arg_cong [OF max, of "\<lambda>n. n div 65536"] low unfolding eq by simp
    then have "a \<ge> 255" "b \<ge> 255" using assms(1,2) by linarith+
    then have ab: "a = 255" "b = 255" using assms(1,2) by simp_all
    then have "c * 256 + d = 65535" using max unfolding eq by simp
    then have "c \<ge> 255" "d \<ge> 255" using assms(3,4) by linarith+
    then show "a = 255 \<and> b = 255 \<and> c = 255 \<and> d = 255" using assms(3,4) ab by simp
  qed (simp add: quad_def)
qed

lemmas quad_bytes = quad_nat [OF unat_byte_less unat_byte_less unat_byte_less unat_byte_less]

lemma htonl_none: "htonl w = INADDR_NONE \<longleftrightarrow> w = - 1"
  unfolding INADDR_NONE_def by (metis htonl_htonl htonl_ones)

lemma quad_none:
  "(of_nat (quad (unat a) (unat b) (unat c) (unat d)) :: u_int32) = - 1 \<longleftrightarrow> a = 255 \<and> b = 255 \<and> c = 255 \<and> d = 255" for a b c d :: u_char
proof -
  have "(of_nat (quad (unat a) (unat b) (unat c) (unat d)) :: u_int32) = - 1 \<longleftrightarrow> quad (unat a) (unat b) (unat c) (unat d) = 4294967295"
    using quad_bytes(1) [of a b c d] by (simp add: word_unat_eq_iff unat_of_nat unsigned_minus_1_eq_mask mask_eq_exp_minus_1)
  also have "\<dots> \<longleftrightarrow> unat a = 255 \<and> unat b = 255 \<and> unat c = 255 \<and> unat d = 255" by (rule quad_bytes(3))
  also have "\<dots> \<longleftrightarrow> a = 255 \<and> b = 255 \<and> c = 255 \<and> d = 255" by (simp add: word_unat_eq_iff)
  finally show ?thesis .
qed

definition dotted_bytes :: "u_char \<Rightarrow> u_char \<Rightarrow> u_char \<Rightarrow> u_char \<Rightarrow> u_char list" where
  "dotted_bytes a b c d = dotted (dec a) (dec b) (dec c) (dec d)"

lemma ngx_inet_addr_bytes: "ngx_inet_addr (dotted_bytes a b c d) = htonl (of_nat (quad (unat a) (unat b) (unat c) (unat d)))"
  using ngx_inet_addr_dotted [OF dec_facts(5) dec_facts(5) dec_facts(5) dec_facts(5), of a b c d]
  by (simp add: dotted_bytes_def dec_facts(6))

lemma inet6_loop_dotted:
  assumes "between v ws z" "v_digit v = Some (dotted_bytes a b c d)" "length ws < 6" "\<not> (a = 255 \<and> b = 255 \<and> c = 255 \<and> d = 255)"
  shows "\<exists>v'. inet6_loop (dotted_bytes a b c d) v = Done v' \<and> at_words v' (ws @ [unat a * 256 + unat b]) \<and> v_zero v' = z
    \<and> v_nibbles v' \<noteq> 0 \<and> v_word v' = quad (unat a) (unat b) (unat c) (unat d)"
proof -
  let ?w = "of_nat (quad (unat a) (unat b) (unat c) (unat d)) :: u_int32"
  let ?v = "v\<lparr>v_nibbles := length (dec a), v_word := nat (radix_val 16 hex_digit_val 0 (dec a))\<rparr>"
  have at: "at_words v ws" "v_nibbles v = 0" "v_word v = 0" "v_zero v = z" and n: "v_n v = 8 - length ws"
    using assms(1) by (auto simp: between_def at_words_def)
  have w: "unat ?w = quad (unat a) (unat b) (unat c) (unat d)" using quad_bytes(1) [of a b c d] by (simp add: unat_of_nat)
  have head: "inet6_loop (dotted_bytes a b c d) v = inet6_dot ?v"
    using inet6_loop_digits [of "dec a" v] dec_facts [of a] digits_hex at(2,3) by (simp add: dotted_bytes_def dotted_def)
  have "at_words ?v ws" "0 < v_n ?v" using at(1) n assms(3) by simp_all
  from store2_words [OF this ntohl_bytes, of ?w] obtain m where
    m: "store2 (ucast (drop_bit 24 ?w)) (ucast (drop_bit 16 ?w)) ?v = Done (?v\<lparr>v_mem := m, v_addr := 2 * length ws + 2\<rparr>)"
    "at_words (?v\<lparr>v_mem := m, v_addr := 2 * length ws + 2, v_n := v_n v - 1\<rparr>) (ws @ [unat a * 256 + unat b])"
    unfolding w quad_bytes(2) by auto
  have "inet6_dot ?v = Done (?v\<lparr>v_mem := m, v_addr := 2 * length ws + 2, v_n := v_n v - 1, v_word := unat ?w\<rparr>)"
    using assms(2,3,4) m(1) n by (simp add: inet6_dot_def ngx_inet_addr_bytes htonl_none quad_none Let_def)
  then show ?thesis using head m(2) at(4) dec_facts(3) [of a] w
    by (intro exI [of _ "?v\<lparr>v_mem := m, v_addr := 2 * length ws + 2, v_n := v_n v - 1, v_word := unat ?w\<rparr>"])
      (simp add: at_words_def)
qed

section \<open>Printing\<close>

lemma num_room:
  assumes "length out + length (sprintf_digits n h) \<le> lim"
  shows "ngx_sprintf_num lim n z h 0 out = out @ sprintf_digits n h"
  using sprintf_num_room [of out 0 n h lim z] assms by simp

lemma sprintf_xd:
  assumes "w < 65536" "buf + 4 < 2 ^ 64"
  shows "ngx_sprintf buf (bytes ''%xd'') [V_int (int w)] = Some (hexw w)"
proof -
  have "take_bit 32 (int w) = int w" using assms(1) by (simp add: take_bit_int_eq_self)
  moreover have "ngx_sprintf_num (2 ^ 64 - 1 - buf) w z 1 0 [] = hexw w" for z
    using hexw_facts(4) [OF assms(1)] assms(2) by (subst num_room) (simp_all add: sprintf_digits_eq hexw_def)
  ultimately show ?thesis using assms(2)
    by (simp add: ngx_sprintf_def bytes_def fmt_directive_def Let_def fmt_conv_def conv_int_def fmt_number_def)
qed

lemma directive_ud:
  assumes "length out + 3 \<le> lim"
  shows "fmt_directive lim (ch CHR ''u'' # ch CHR ''d'' # fmt) (byte_arg c # args) out = Some (fmt, args, out @ dec c)"
proof -
  have "take_bit 32 (uint c) = uint c" using uint_byte_bounds [of c] by (simp add: take_bit_int_eq_self)
  moreover have "ngx_sprintf_num lim (unat c) z 0 0 out = out @ dec c" for z
    using dec_facts(4) [of c] assms by (subst num_room) (simp_all add: sprintf_digits_eq dec_def)
  ultimately show ?thesis
    by (simp add: fmt_directive_def byte_arg_def Let_def fmt_conv_def conv_int_def fmt_number_def)
qed

lemma sprintf_dotted:
  assumes "15 \<le> lim"
  shows "ngx_vslprintf lim ud_dotted (map byte_arg [a, b, c, d]) [] = Some (dotted_bytes a b c d)"
  using dec_facts(4) [of a] dec_facts(4) [of b] dec_facts(4) [of c] assms
  by (simp add: ud_dotted_def bytes_def directive_ud [simplified] dotted_bytes_def dotted_def)

text \<open>The words of an address.\<close>

definition inet6_words :: "u_char list \<Rightarrow> nat list" where
  "inet6_words p = map (\<lambda>k. unat (p ! (2 * k)) * 256 + unat (p ! (2 * k + 1))) [0..<8]"

lemma inet6_words_nth: "k < 8 \<Longrightarrow> inet6_words p ! k = unat (p ! (2 * k)) * 256 + unat (p ! (2 * k + 1))"
  by (simp add: inet6_words_def)

lemma length_inet6_words [simp]: "length (inet6_words p) = 8"
  by (simp add: inet6_words_def)

lemma byte_pair_less: "unat (a :: u_char) * 256 + unat (b :: u_char) < 65536"
proof -
  have "x < 256 \<Longrightarrow> y < 256 \<Longrightarrow> x * 256 + y < 65536" for x y :: nat by simp
  then show ?thesis using unat_byte_less by blast
qed

lemma inet6_words_less: "k < 8 \<Longrightarrow> inet6_words p ! k < 65536" "\<forall>w \<in> set (inet6_words p). w < 65536"
  using byte_pair_less by (auto simp: inet6_words_def)

lemma word_bytes_pair: "word_bytes (unat a * 256 + unat b) = [a, b]"
proof -
  have "(unat a * 256 + unat b) div 256 = unat a" by simp
  moreover have "(of_nat (unat a * 256 + unat b) :: u_char) = b" by (simp add: word_unat_eq_iff unat_of_nat del: of_nat_add of_nat_mult)
  ultimately show ?thesis by (simp add: word_bytes_def)
qed

lemma length_16:
  assumes "length p = 16"
  shows "p = concat (map (\<lambda>k. [p ! (2 * k), p ! (2 * k + 1)]) [0..<8])"
  using assms by (auto simp: list_eq_iff_nth_eq upt_rec less_Suc_eq numeral_eq_Suc)

lemma words_bytes_words:
  assumes "length p = 16"
  shows "words_bytes (inet6_words p) = p"
proof -
  have "words_bytes (inet6_words p) = concat (map (\<lambda>k. [p ! (2 * k), p ! (2 * k + 1)]) [0..<8])"
    by (simp add: words_bytes_def inet6_words_def word_bytes_pair comp_def del: upt_rec_numeral)
  then show ?thesis using length_16 [OF assms] by simp
qed

text \<open>What the scan finds is a run of zero words.\<close>

definition zero_run :: "u_char list \<Rightarrow> ptr \<Rightarrow> nat \<Rightarrow> bool" where
  "zero_run p zero mx \<longleftrightarrow> (case zero of NULL \<Rightarrow> True
     | Some i \<Rightarrow> \<exists>z. i = 2 * z \<and> 2 \<le> mx \<and> z + mx \<le> 8 \<and> (\<forall>k. z \<le> k \<and> k < z + mx \<longrightarrow> inet6_words p ! k = 0))"

lemma inet6_word_zero: "k < 8 \<Longrightarrow> inet6_words p ! k = 0 \<longleftrightarrow> p ! (2 * k) = 0 \<and> p ! (2 * k + 1) = 0"
  by (simp add: inet6_words_nth unat_eq_0)

lemma ntop_scan_run:
  assumes "zero_run p zero mx" "0 < mx" "n \<le> k" "k \<le> 8" "n \<noteq> 0 \<longrightarrow> lst = Some (2 * (k - n))"
    and "\<forall>i. k - n \<le> i \<and> i < k \<longrightarrow> inet6_words p ! i = 0"
  shows "case ntop_scan p (map ((*) 2) [k..<8]) zero lst mx n of (zero, mx) \<Rightarrow> zero_run p zero mx"
  using assms
proof (induction "8 - k" arbitrary: k zero lst mx n)
  case 0
  then show ?case by (auto simp: zero_run_def)
next
  case (Suc d)
  then have k: "[k..<8] = k # [Suc k..<8]" and k8: "k < 8" "d = 8 - Suc k" by (simp_all add: upt_conv_Cons)
  show ?case
  proof (cases "inet6_words p ! k = 0")
    case True
    have "\<forall>i. Suc k - Suc n \<le> i \<and> i < Suc k \<longrightarrow> inet6_words p ! i = 0" using Suc.prems(6) True less_Suc_eq by auto
    then show ?thesis
      using Suc.hyps(1) [OF k8(2) Suc.prems(1,2), of "Suc n" "if n = 0 then Some (2 * k) else lst"] Suc.prems True k k8
      by (cases "n = 0") (simp_all add: inet6_word_zero)
  next
    case False
    show ?thesis
    proof (cases "mx < n")
      case True
      then have "zero_run p lst n" using Suc.prems k8 by (auto simp: zero_run_def)
      then show ?thesis using Suc.hyps(1) [OF k8(2), of lst n 0 lst] Suc.prems False True k k8 by (simp add: inet6_word_zero)
    next
      case not_longer: False
      then show ?thesis using Suc.hyps(1) [OF k8(2) Suc.prems(1,2), of 0 lst] Suc.prems False k k8 by (simp add: inet6_word_zero)
    qed
  qed
qed

lemma ntop_scan_words:
  "case ntop_scan p [0, 2, 4, 6, 8, 10, 12, 14] NULL NULL 1 0 of (zero, mx) \<Rightarrow> zero_run p zero mx"
  using ntop_scan_run [of p NULL 1 0 0 NULL] by (simp add: zero_run_def upt_rec)

text \<open>The words that are printed one after the other, from \<open>k\<close> up to \<open>j\<close>.\<close>

definition words_part :: "u_char list \<Rightarrow> nat \<Rightarrow> nat \<Rightarrow> nat list" where
  "words_part p k j = map ((!) (inet6_words p)) [k..<j]"

lemma length_hexw_word: "k < 8 \<Longrightarrow> length (hexw (inet6_words p ! k)) \<le> 4"
  using hexw_facts(4) inet6_words_less(1) by blast

lemma ntop_loop_word:
  assumes "k < 8" "zero \<noteq> Some (2 * k)" "2 * k < n" "txt + length dst + 4 < 2 ^ 64"
  shows "ntop_loop txt p zero mx n (2 * k) dst =
    ntop_loop txt p zero mx n (2 * Suc k) (dst @ hexw (inet6_words p ! k) @ (if k < 7 then [ch CHR '':''] else []))"
proof -
  have "uint (p ! (2 * k)) * 256 + uint (p ! (2 * k + 1)) = int (inet6_words p ! k)"
    using assms(1) by (simp add: inet6_words_nth)
  then have "ngx_sprintf (txt + length dst) (bytes ''%xd'') [V_int (uint (p ! (2 * k)) * 256 + uint (p ! (2 * k + 1)))]
      = Some (hexw (inet6_words p ! k))"
    using sprintf_xd [of "inet6_words p ! k" "txt + length dst"] inet6_words_less(1) [OF assms(1)] assms(4) by simp
  then show ?thesis using assms(1-3) by (subst ntop_loop.simps) auto
qed

lemma ntop_loop_part:
  assumes "k \<le> j" "j \<le> 7" "\<And>i. k \<le> i \<Longrightarrow> i < j \<Longrightarrow> zero \<noteq> Some (2 * i)" "2 * j \<le> n" "txt + length dst + 5 * (j - k) < 2 ^ 64"
  shows "ntop_loop txt p zero mx n (2 * k) dst = ntop_loop txt p zero mx n (2 * j) (dst @ seg (words_part p k j))"
  using assms
proof (induction "j - k" arbitrary: k dst)
  case 0
  then show ?case by (simp add: words_part_def)
next
  case (Suc d)
  let ?w = "hexw (inet6_words p ! k)"
  have k: "k < j" "words_part p k j = inet6_words p ! k # words_part p (Suc k) j"
    using Suc.hyps(2) by (simp_all add: words_part_def upt_conv_Cons)
  have "length ?w \<le> 4" using k(1) Suc.prems(2) by (intro length_hexw_word) simp
  then have room: "txt + length (dst @ ?w @ [ch CHR '':'']) + 5 * (j - Suc k) < 2 ^ 64" "txt + length dst + 4 < 2 ^ 64"
    using Suc.prems(5) k(1) by simp_all
  have "ntop_loop txt p zero mx n (2 * k) dst = ntop_loop txt p zero mx n (2 * Suc k) (dst @ ?w @ [ch CHR '':''])"
    using ntop_loop_word [of k zero n "txt" dst p mx] Suc.prems(2,3,4) k(1) room(2) by simp
  also have "\<dots> = ntop_loop txt p zero mx n (2 * j) ((dst @ ?w @ [ch CHR '':'']) @ seg (words_part p (Suc k) j))"
    using Suc.prems Suc.hyps(2) k(1) room(1) by (intro Suc.hyps(1)) simp_all
  finally show ?case using k(2) by simp
qed

lemma ntop_loop_end: "n \<le> i \<Longrightarrow> ntop_loop txt p zero mx n i dst = Some dst"
  by (subst ntop_loop.simps) simp

text \<open>All words from \<open>k\<close> on.\<close>

definition words_tail :: "u_char list \<Rightarrow> nat \<Rightarrow> u_char list" where
  "words_tail p k = (if k < 8 then seg (words_part p k 7) @ hexw (inet6_words p ! 7) else [])"

lemma words_part_less: "j \<le> 8 \<Longrightarrow> \<forall>w \<in> set (words_part p k j). w < 65536"
  using inet6_words_less(1) by (auto simp: words_part_def)

lemma length_words_part [simp]: "length (words_part p k j) = j - k"
  by (simp add: words_part_def)

lemma length_seg: "\<forall>w \<in> set ws. w < 65536 \<Longrightarrow> length (seg ws) \<le> 5 * length ws"
  using hexw_facts(4) by (induction ws) fastforce+

lemma ntop_loop_tail:
  assumes "k \<le> 8" "\<And>i. k \<le> i \<Longrightarrow> i < 8 \<Longrightarrow> zero \<noteq> Some (2 * i)" "txt + length dst + 5 * (8 - k) < 2 ^ 64"
  shows "ntop_loop txt p zero mx 16 (2 * k) dst = Some (dst @ words_tail p k)"
proof (cases "k < 8")
  case True
  have "length (seg (words_part p k 7)) \<le> 5 * (7 - k)" using length_seg [OF words_part_less, of 7 p k] by simp
  then have "txt + length (dst @ seg (words_part p k 7)) + 4 < 2 ^ 64" using assms(3) True by simp
  then show ?thesis
    using ntop_loop_part [of k 7 zero 16 "txt" dst p mx] ntop_loop_word [of 7 zero 16 "txt" "dst @ seg (words_part p k 7)" p mx] True assms(2,3) assms(2) [of 7]
    by (simp add: words_tail_def ntop_loop_end)
next
  case False
  then show ?thesis using assms(1) by (simp add: words_tail_def ntop_loop_end)
qed

lemma ntop_loop_zero:
  assumes "2 * k < n" "0 < mx"
  shows "ntop_loop txt p (Some (2 * k)) mx n (2 * k) dst = ntop_loop txt p (Some (2 * k)) mx n (2 * (k + mx)) (dst @ [ch CHR '':''])"
  using assms by (cases mx) (subst ntop_loop.simps, simp add: algebra_simps)+

section \<open>Printing and reading\<close>

abbreviation inet6_start :: "u_char list \<Rightarrow> inet6_vars" where
  "inet6_start buf \<equiv> \<lparr>v_zero = NULL, v_digit = None, v_nibbles = 0, v_word = 0, v_n = 8, v_addr = 0, v_mem = buf\<rparr>"

lemma between_start: "length buf = 16 \<Longrightarrow> between (inet6_start buf) [] NULL"
  by (simp add: between_def at_words_def)

lemma inet6_addr_colon:
  "ngx_inet6_addr (ch CHR '':'' # p) buf =
    (case inet6_loop p (inet6_start buf) of Done v \<Rightarrow> inet6_end v | Outside \<Rightarrow> Outside | Invalid \<Rightarrow> Invalid)"
  by (simp add: ngx_inet6_addr_def)

lemma inet6_addr_word:
  assumes "w < 65536"
  shows "ngx_inet6_addr (hexw w @ p) buf =
    (case inet6_loop (hexw w @ p) (inet6_start buf) of Done v \<Rightarrow> inet6_end v | Outside \<Rightarrow> Outside | Invalid \<Rightarrow> Invalid)"
proof -
  obtain c h where h: "hexw w = c # h" using hexw_facts(3) [of w] by (cases "hexw w") auto
  then have "c \<noteq> ch CHR '':''" using hexw_facts(1) [of w] by (auto simp: is_hex_def is_digit_def)
  then show ?thesis using h by (simp add: ngx_inet6_addr_def)
qed

lemma words_part_split: "k \<le> i \<Longrightarrow> i \<le> j \<Longrightarrow> words_part p k j = words_part p k i @ words_part p i j"
  using upt_add_eq_append [of k i "j - i"] by (simp add: words_part_def flip: map_append)

lemma words_part_snoc: "k \<le> 7 \<Longrightarrow> words_part p k 8 = words_part p k 7 @ [inet6_words p ! 7]"
  using words_part_split [of k 7 8 p] by (simp add: words_part_def)

lemma words_part_all: "words_part p 0 8 = inet6_words p"
  using map_nth [of "inet6_words p"] by (simp add: words_part_def del: upt_rec_numeral)

lemma words_part_zeros:
  assumes "\<forall>i. z \<le> i \<and> i < z + n \<longrightarrow> inet6_words p ! i = 0"
  shows "words_part p z (z + n) = replicate n 0"
  using assms by (simp add: words_part_def list_eq_iff_nth_eq)

lemma zero_run_words:
  assumes "\<forall>i. z \<le> i \<and> i < z + mx \<longrightarrow> inet6_words p ! i = 0" "z + mx \<le> 8"
  shows "words_part p 0 z @ replicate mx 0 @ words_part p (z + mx) 8 = inet6_words p"
  using words_part_split [of 0 z 8 p] words_part_split [of z "z + mx" 8 p] words_part_zeros [OF assms(1)] assms(2)
  by (simp add: words_part_all)

lemma inet6_loop_tail:
  assumes "between v ws z" "k < 8" "length ws + (7 - k) < 8"
  shows "\<exists>v'. inet6_loop (words_tail p k) v = Done v' \<and> at_words v' (ws @ words_part p k 7) \<and> v_zero v' = z
    \<and> v_nibbles v' \<noteq> 0 \<and> v_word v' = inet6_words p ! 7"
proof -
  obtain v1 where v1: "inet6_loop (words_tail p k) v = inet6_loop (hexw (inet6_words p ! 7)) v1" "between v1 (ws @ words_part p k 7) z"
    using inet6_loop_seg [OF assms(1) words_part_less [of 7 p k], of "hexw (inet6_words p ! 7)"] assms(2,3) by (auto simp: words_tail_def)
  let ?w = "inet6_words p ! 7"
  have "inet6_loop (hexw ?w @ []) v1 = Done (v1\<lparr>v_nibbles := length (hexw ?w), v_word := ?w\<rparr>)"
    using inet6_loop_hexw [of ?w v1 "[]"] inet6_words_less(1) [of 7 p] v1(2) by (simp add: between_def)
  then show ?thesis using v1 hexw_facts(3) [of ?w] by (simp add: between_def)
qed

text \<open>An address without a run of zeros, and one with a double colon for it.\<close>

lemma read_plain:
  assumes "length p = 16" "length buf = 16"
  shows "ngx_inet6_addr (words_tail p 0) buf = Done p"
proof -
  obtain v where v: "inet6_loop (words_tail p 0) (inet6_start buf) = Done v" "at_words v (words_part p 0 7)" "v_zero v = NULL"
    "v_nibbles v \<noteq> 0" "v_word v = inet6_words p ! 7"
    using inet6_loop_tail [OF between_start [OF assms(2)], of 0 p] by auto
  have "words_tail p 0 = hexw (inet6_words p ! 0) @ ch CHR '':'' # seg (words_part p 1 7) @ hexw (inet6_words p ! 7)"
    using words_part_split [of 0 1 7 p] by (simp add: words_tail_def words_part_def)
  then have "ngx_inet6_addr (words_tail p 0) buf = inet6_end v"
    using inet6_addr_word [of "inet6_words p ! 0"] inet6_words_less(1) [of 0 p] v(1) by simp
  also have "\<dots> = Done (words_bytes (words_part p 0 8))"
    using inet6_end_full [OF v(2)] v(3,4,5) words_part_snoc [of 0 p] by simp
  finally show ?thesis using words_part_all words_bytes_words [OF assms(1)] by simp
qed

lemma read_zeros:
  assumes "length p = 16" "length buf = 16" "\<forall>i. z \<le> i \<and> i < z + mx \<longrightarrow> inet6_words p ! i = 0" "z + mx \<le> 8" "2 \<le> mx"
  shows "(case inet6_loop (seg (words_part p 0 z) @ ch CHR '':'' # words_tail p (z + mx)) (inet6_start buf) of
      Done v \<Rightarrow> inet6_end v | Outside \<Rightarrow> Outside | Invalid \<Rightarrow> Invalid) = Done p"
proof -
  let ?ws = "words_part p 0 z"
  let ?t = "words_tail p (z + mx)"
  have z: "z \<le> 8" "z < 7" using assms(4,5) by simp_all
  obtain v0 where v0: "inet6_loop (seg ?ws @ ch CHR '':'' # ?t) (inet6_start buf) = inet6_loop (ch CHR '':'' # ?t) v0" "between v0 ?ws NULL"
    using inet6_loop_seg [OF between_start [OF assms(2)] words_part_less [OF z(1), of p 0], of "ch CHR '':'' # ?t"] z by auto
  obtain v1 where v1: "inet6_loop (ch CHR '':'' # ?t) v0 = inet6_loop ?t v1" "between v1 ?ws (Some (2 * z))"
    using inet6_loop_zero [OF v0(2), of ?t] by auto
  show ?thesis
  proof (cases "z + mx < 8")
    case True
    then have len: "length ?ws + (7 - (z + mx)) < 8" by simp
    obtain v where v: "inet6_loop ?t v1 = Done v" "at_words v (?ws @ words_part p (z + mx) 7)" "v_zero v = Some (2 * z)"
      "v_word v = inet6_words p ! 7"
      using inet6_loop_tail [OF v1(2) True, of p] len by auto
    have "expand ((?ws @ words_part p (z + mx) 7) @ [v_word v]) z = inet6_words p"
      using zero_run_words [OF assms(3,4)] words_part_snoc [of "z + mx" p] True v(4) by (simp add: expand_def)
    then show ?thesis using v0(1) v1(1) v(1) inet6_end_zero [OF v(2) _ v(3)] words_bytes_words [OF assms(1)] True assms(5)
      by (simp del: inet6_loop.simps)
  next
    case False
    then have mx: "mx = 8 - z" "?t = []" using assms(4) by (simp_all add: words_tail_def)
    have "Suc (7 - z) = 8 - z" using z by simp
    then have "expand (?ws @ [v_word v1]) z = inet6_words p"
      using zero_run_words [OF assms(3,4)] v1(2) z mx(1)
      by (simp add: expand_def between_def words_part_def replicate_append_same flip: replicate_Suc)
    then show ?thesis using v0(1) v1 mx(2) inet6_end_zero [of v1 ?ws z] words_bytes_words [OF assms(1)] z
      by (simp add: between_def)
  qed
qed

lemma u_char_of_nat_eq: "(of_nat n :: u_char) = x \<longleftrightarrow> n mod 256 = unat x"
  by (simp add: word_unat_eq_iff unat_of_nat)

lemma word_bytes_quad: "word_bytes (quad (unat a) (unat b) (unat c) (unat d)) = [c, d]"
proof -
  let ?q = "quad (unat a) (unat b) (unat c) (unat d)"
  have "(x * 256 + unat y) div 256 = x" "(x * 256 + unat y) mod 256 = unat y" for x and y :: u_char by simp_all
  then have "?q div 256 mod 256 = unat c" "?q mod 256 = unat d" unfolding quad_def by presburger+
  then show ?thesis by (simp add: word_bytes_def u_char_of_nat_eq)
qed

lemma read_dotted:
  assumes "length p = 16" "length buf = 16" "us = [] \<or> us = [inet6_words p ! 5]"
    and "\<forall>i < 6 - length us. inet6_words p ! i = 0" "\<not> (p ! 12 = 255 \<and> p ! 13 = 255 \<and> p ! 14 = 255 \<and> p ! 15 = 255)"
  shows "ngx_inet6_addr (ch CHR '':'' # ch CHR '':'' # seg us @ dotted_bytes (p ! 12) (p ! 13) (p ! 14) (p ! 15)) buf = Done p"
proof -
  let ?d = "dotted_bytes (p ! 12) (p ! 13) (p ! 14) (p ! 15)"
  obtain v0 where v0: "inet6_loop (ch CHR '':'' # seg us @ ?d) (inet6_start buf) = inet6_loop (seg us @ ?d) v0" "between v0 [] (Some 0)"
      "v_digit v0 = Some (seg us @ ?d)"
    using inet6_loop_zero [OF between_start [OF assms(2)]] by auto
  obtain v1 where v1: "inet6_loop (seg us @ ?d) v0 = inet6_loop ?d v1" "between v1 us (Some 0)" "v_digit v1 = Some ?d"
    using assms(3) v0(2,3) inet6_loop_word [OF v0(2), of "inet6_words p ! 5" ?d] inet6_words_less(1) [of 5 p] by auto
  have len: "length us < 6" "length us \<le> 1" using assms(3) by auto
  obtain v where v: "inet6_loop ?d v1 = Done v" "at_words v (us @ [inet6_words p ! 6])" "v_zero v = Some 0"
    "v_word v = quad (unat (p ! 12)) (unat (p ! 13)) (unat (p ! 14)) (unat (p ! 15))"
    using inet6_loop_dotted [OF v1(2,3) len(1) assms(5)] by (auto simp: inet6_words_nth)
  have "words_part p 0 (6 - length us) = replicate (6 - length us) 0" using words_part_zeros [of 0 "6 - length us" p] assms(4) by simp
  moreover have "words_part p (6 - length us) 8 = us @ [inet6_words p ! 6, inet6_words p ! 7]"
    using assms(3) by (auto simp: words_part_def upt_rec)
  ultimately have all: "replicate (6 - length us) 0 @ us @ [inet6_words p ! 6, inet6_words p ! 7] = inet6_words p"
    using words_part_split [of 0 "6 - length us" 8 p] words_part_all [of p] by simp
  have w: "word_bytes (v_word v) = word_bytes (inet6_words p ! 7)"
    using v(4) word_bytes_quad word_bytes_pair [of "p ! 14" "p ! 15"] by (simp add: inet6_words_nth)
  have "words_bytes (expand ((us @ [inet6_words p ! 6]) @ [v_word v]) 0) =
      words_bytes (replicate (6 - length us) 0 @ us @ [inet6_words p ! 6, inet6_words p ! 7])"
    using w by (simp add: expand_def)
  then have "words_bytes (expand ((us @ [inet6_words p ! 6]) @ [v_word v]) 0) = p"
    unfolding all words_bytes_words [OF assms(1)] .
  then show ?thesis
    using v0(1) v1(1) v(1) inet6_end_zero [OF v(2), of 0] v(3) len(2) by (simp add: inet6_addr_colon [simplified] del: inet6_loop.simps)
qed

lemma length_words_tail: "length (words_tail p k) \<le> 5 * (8 - k)"
proof (cases "k < 8")
  case True
  have "length (hexw (inet6_words p ! 7)) \<le> 4" by (rule length_hexw_word) simp
  then show ?thesis using length_seg [OF words_part_less, of 7 p k] True by (simp add: words_tail_def)
qed (simp add: words_tail_def)

text \<open>What is printed when a run of \<open>mx\<close> zero words at \<open>z\<close> is shortened and the end is not dotted.\<close>

lemma print_zeros:
  assumes "z + mx \<le> 8" "2 \<le> mx" "txt + 45 < 2 ^ 64" "length dst \<le> 1"
  shows "ntop_loop txt p (Some (2 * z)) mx 16 0 dst = Some (dst @ seg (words_part p 0 z) @ ch CHR '':'' # words_tail p (z + mx))"
proof -
  let ?s = "seg (words_part p 0 z)"
  have z: "z \<le> 8" using assms(1) by simp
  have s: "length ?s \<le> 5 * z" using length_seg [OF words_part_less [OF z, of p 0]] by simp
  have "ntop_loop txt p (Some (2 * z)) mx 16 (2 * 0) dst = ntop_loop txt p (Some (2 * z)) mx 16 (2 * z) (dst @ ?s)"
    using assms by (intro ntop_loop_part) auto
  also have "\<dots> = ntop_loop txt p (Some (2 * z)) mx 16 (2 * (z + mx)) ((dst @ ?s) @ [ch CHR '':''])"
    using assms(1,2) by (intro ntop_loop_zero) simp_all
  also have "\<dots> = Some (((dst @ ?s) @ [ch CHR '':'']) @ words_tail p (z + mx))"
    using assms s by (intro ntop_loop_tail) auto
  finally show ?thesis by simp
qed

lemma length_dotted: "length (dotted_bytes a b c d) \<le> 15"
  using dec_facts(4) [of a] dec_facts(4) [of b] dec_facts(4) [of c] dec_facts(4) [of d]
  by (simp add: dotted_bytes_def dotted_def)

lemma print_dotted:
  assumes "5 \<le> mx" "mx \<le> 7" "txt + 45 < 2 ^ 64"
  shows "\<exists>us. ntop_loop txt p (Some 0) mx 12 0 [ch CHR '':''] = Some ([ch CHR '':'', ch CHR '':''] @ seg us)
    \<and> us = (if mx = 5 then [inet6_words p ! 5] else []) \<and> length (seg us) \<le> 5"
proof -
  have zero: "ntop_loop txt p (Some 0) mx 12 0 [ch CHR '':''] = ntop_loop txt p (Some 0) mx 12 (2 * mx) [ch CHR '':'', ch CHR '':'']"
    using ntop_loop_zero [of 0 12 mx "txt" p "[ch CHR '':'']"] assms(1) by simp
  show ?thesis
  proof (cases "mx = 5")
    case True
    have "ntop_loop txt p (Some 0) mx 12 (2 * 5) [ch CHR '':'', ch CHR '':''] = Some ([ch CHR '':'', ch CHR '':''] @ seg [inet6_words p ! 5])"
      using ntop_loop_word [of 5 "Some 0" 12 "txt" "[ch CHR '':'', ch CHR '':'']" p mx] assms(3) by (simp add: ntop_loop_end)
    then show ?thesis using zero True length_seg [of "[inet6_words p ! 5]"] inet6_words_less(1) [of 5 p] by simp
  next
    case False
    then show ?thesis using zero assms(1) ntop_loop_end [of 12 "2 * mx"] by simp
  qed
qed

text \<open>The dotted end of 255.255.255.255 is what \<^verbatim>\<open>ngx_inet_addr\<close> does not read.\<close>

lemma zero_prefix_words:
  assumes "length p = 16" "\<forall>i < n. inet6_words p ! i = 0" "n \<le> 8"
  shows "take (2 * n) p = replicate (2 * n) 0"
proof -
  have "take (2 * n) p = words_bytes (take n (inet6_words p))" using words_bytes_words [OF assms(1)] by (simp add: words_bytes_take)
  also have "take n (inet6_words p) = replicate n 0" using assms(2,3) by (simp add: list_eq_iff_nth_eq)
  finally show ?thesis by simp
qed

lemma not_broadcast:
  assumes "length p = 16" "take k p @ drop k p \<notin> {replicate 12 0 @ replicate 4 255, replicate 10 0 @ replicate 6 255}"
    and "\<forall>i < 6. inet6_words p ! i = 0 \<or> i = 5 \<and> p ! 10 = 255 \<and> p ! 11 = 255"
  shows "\<not> (p ! 12 = 255 \<and> p ! 13 = 255 \<and> p ! 14 = 255 \<and> p ! 15 = 255)"
proof
  assume f: "p ! 12 = 255 \<and> p ! 13 = 255 \<and> p ! 14 = 255 \<and> p ! 15 = 255"
  have "inet6_words p ! i = 0" if "i < 5" for i using spec [OF assms(3), of i] that by simp
  then have "take 10 p = replicate 10 0" using zero_prefix_words [OF assms(1), of 5] by simp
  moreover have "drop 10 p = [p ! 10, p ! 11, p ! 12, p ! 13, p ! 14, p ! 15]"
    using assms(1) by (simp add: list_eq_iff_nth_eq less_Suc_eq numeral_eq_Suc)
  moreover have "p ! 10 = 0 \<and> p ! 11 = 0 \<or> p ! 10 = 255 \<and> p ! 11 = 255"
    using assms(3) inet6_word_zero [of 5 p] by auto
  ultimately have "take 10 p @ drop 10 p \<in> {replicate 12 0 @ replicate 4 255, replicate 10 0 @ replicate 6 255}"
    using f by (auto simp: numeral_eq_Suc)
  then show False using assms(2) by simp
qed

text \<open>The text without a dotted end is read back.\<close>

lemma zeros_roundtrip:
  assumes "length p = 16" "length buf = 16" "\<forall>k. z \<le> k \<and> k < z + mx \<longrightarrow> inet6_words p ! k = 0" "z + mx \<le> 8" "2 \<le> mx"
  defines "s \<equiv> (if z = 0 then [ch CHR '':''] else []) @ seg (words_part p 0 z) @ ch CHR '':'' # words_tail p (z + mx)"
  shows "ngx_inet6_addr s buf = Done p" "length s \<le> 45"
proof -
  note rd = read_zeros [OF assms(1-5)]
  show "ngx_inet6_addr s buf = Done p"
  proof (cases "z = 0")
    case True
    then show ?thesis using rd by (simp add: s_def inet6_addr_colon [simplified] words_part_def del: inet6_loop.simps)
  next
    case False
    then have "words_part p 0 z = inet6_words p ! 0 # words_part p 1 z" using words_part_split [of 0 1 z p] by (simp add: words_part_def)
    then show ?thesis using rd False inet6_addr_word [of "inet6_words p ! 0"] inet6_words_less(1) [of 0 p]
      by (simp add: s_def del: inet6_loop.simps)
  qed
  have "length (seg (words_part p 0 z)) \<le> 5 * z" using length_seg [OF words_part_less, of z p 0] assms(4) by simp
  moreover have "5 * z + 5 * (8 - (z + mx)) \<le> 40" using assms(4) by simp
  moreover have "length s \<le> 2 + length (seg (words_part p 0 z)) + length (words_tail p (z + mx))" by (simp add: s_def)
  ultimately show "length s \<le> 45" using length_words_tail [of p "z + mx"] by linarith
qed

lemma dotted_roundtrip:
  assumes "length p = 16" "length buf = 16" "p \<notin> {replicate 12 0 @ replicate 4 255, replicate 10 0 @ replicate 6 255}"
    and "\<forall>k < mx. inet6_words p ! k = 0" "mx = 5 \<and> p ! 10 = 0xff \<and> p ! 11 = 0xff \<or> mx = 6 \<or> mx = 7"
  defines "s \<equiv> [ch CHR '':'', ch CHR '':''] @ seg (if mx = 5 then [inet6_words p ! 5] else []) @ dotted_bytes (p ! 12) (p ! 13) (p ! 14) (p ! 15)"
  shows "ngx_inet6_addr s buf = Done p"
proof -
  have "\<forall>i < 6. inet6_words p ! i = 0 \<or> i = 5 \<and> p ! 10 = 255 \<and> p ! 11 = 255" using assms(4,5) less_Suc_eq by (auto simp: numeral_eq_Suc)
  then have b: "\<not> (p ! 12 = 255 \<and> p ! 13 = 255 \<and> p ! 14 = 255 \<and> p ! 15 = 255)" using not_broadcast [OF assms(1), of 0] assms(3) by simp
  show ?thesis unfolding s_def append_Cons append_Nil
    by (rule read_dotted [OF assms(1,2) _ _ b]) (use assms(4,5) in auto)
qed

text \<open>
  C21: what \<^verbatim>\<open>ngx_inet6_ntop\<close> prints has at most \<^verbatim>\<open>NGX_INET6_ADDRSTRLEN\<close> bytes and is read back by \<^verbatim>\<open>ngx_inet6_addr\<close> as the same
  address, with or without a run of zeros, at either end, and with a dotted end; only ::255.255.255.255 and
  ::ffff:255.255.255.255 are not, since \<^verbatim>\<open>ngx_inet_addr\<close> returns \<^verbatim>\<open>INADDR_NONE\<close> for 255.255.255.255.
\<close>

theorem ngx_inet6_roundtrip:
  assumes "length p = 16" "length buf = 16" "NGX_INET6_ADDRSTRLEN \<le> len" "txt + len < 2 ^ 64"
    and "p \<notin> {replicate 12 0 @ replicate 4 255, replicate 10 0 @ replicate 6 255}"
  shows "\<exists>s. ngx_inet6_ntop p txt len = Some s \<and> length s \<le> NGX_INET6_ADDRSTRLEN \<and> ngx_inet6_addr s buf = Done p"
proof -
  have len: "45 \<le> len" "NGX_INET6_ADDRSTRLEN = 45" using assms(3) by (simp_all add: NGX_INET6_ADDRSTRLEN_def)
  then have room: "txt + 45 < 2 ^ 64" using assms(4) by linarith
  obtain zero mx where scan: "ntop_scan p [0, 2, 4, 6, 8, 10, 12, 14] NULL NULL 1 0 = (zero, mx)" "zero_run p zero mx"
    using ntop_scan_words [of p] by auto
  show ?thesis
  proof (cases zero)
    case None
    have "ntop_loop txt p NULL mx 16 (2 * 0) [] = Some ([] @ words_tail p 0)" using room by (intro ntop_loop_tail) simp_all
    then have "ngx_inet6_ntop p txt len = Some (words_tail p 0)" using scan(1) None len by (simp add: ngx_inet6_ntop_def)
    then show ?thesis using read_plain [OF assms(1,2)] length_words_tail [of p 0] len(2) by auto
  next
    case (Some i)
    then obtain z where z: "i = 2 * z" "2 \<le> mx" "z + mx \<le> 8" "\<forall>k. z \<le> k \<and> k < z + mx \<longrightarrow> inet6_words p ! k = 0"
      using scan(2) by (auto simp: zero_run_def)
    let ?dots = "z = 0 \<and> (mx = 5 \<and> p ! 10 = 0xff \<and> p ! 11 = 0xff \<or> mx = 6 \<or> mx = 7 \<and> p ! 14 \<noteq> 0 \<and> p ! 15 \<noteq> 1)"
    show ?thesis
    proof (cases ?dots)
      case True
      let ?us = "if mx = 5 then [inet6_words p ! 5] else []"
      have dst: "ntop_loop txt p (Some 0) mx 12 0 [ch CHR '':''] = Some ([ch CHR '':'', ch CHR '':''] @ seg ?us)" "length (seg ?us) \<le> 5"
        using print_dotted [OF _ _ room, of mx p] True by auto
      have "ngx_sprintf (txt + length ([ch CHR '':'', ch CHR '':''] @ seg ?us)) ud_dotted (map byte_arg [p ! 12, p ! 13, p ! 14, p ! 15])
          = Some (dotted_bytes (p ! 12) (p ! 13) (p ! 14) (p ! 15))"
        unfolding ngx_sprintf_def using room dst(2) by (intro sprintf_dotted) simp
      then have "ngx_inet6_ntop p txt len = Some ([ch CHR '':'', ch CHR '':''] @ seg ?us @ dotted_bytes (p ! 12) (p ! 13) (p ! 14) (p ! 15))"
        using scan(1) Some z(1) True len dst(1) by (simp add: ngx_inet6_ntop_def)
      moreover have "ngx_inet6_addr ([ch CHR '':'', ch CHR '':''] @ seg ?us @ dotted_bytes (p ! 12) (p ! 13) (p ! 14) (p ! 15)) buf = Done p"
        using True z(4) by (intro dotted_roundtrip [OF assms(1,2,5)]) auto
      ultimately show ?thesis using dst(2) length_dotted [of "p ! 12" "p ! 13" "p ! 14" "p ! 15"] len(2) by simp
    next
      case False
      have "ngx_inet6_ntop p txt len = Some ((if z = 0 then [ch CHR '':''] else []) @ seg (words_part p 0 z) @ ch CHR '':'' # words_tail p (z + mx))"
        using scan(1) Some z(1) False len print_zeros [OF z(3,2) room, of "if z = 0 then [ch CHR '':''] else []" p]
        by (auto simp: ngx_inet6_ntop_def)
      then show ?thesis using zeros_roundtrip [OF assms(1,2) z(4,3,2)] len(2) by simp
    qed
  qed
qed

theorem ngx_inet6_roundtrip_witness:
  "\<exists>s. ngx_inet6_ntop (replicate 15 0 @ [1]) 4096 45 = Some s \<and> length s \<le> NGX_INET6_ADDRSTRLEN
    \<and> ngx_inet6_addr s (replicate 16 7) = Done (replicate 15 0 @ [1])"
proof -
  have "replicate 15 0 @ [1 :: u_char] \<notin> {replicate 12 0 @ replicate 4 255, replicate 10 0 @ replicate 6 255}" by code_simp
  then show ?thesis by (intro ngx_inet6_roundtrip) (simp_all add: NGX_INET6_ADDRSTRLEN_def)
qed

section \<open>Networks\<close>

text \<open>The bits of addresses, the first one first.\<close>

definition bits8 :: "u_char \<Rightarrow> bool list" where
  "bits8 c = map (\<lambda>k. bit c (7 - k)) [0..<8]"

definition bits4 :: "u_int32 \<Rightarrow> bool list" where
  "bits4 x = map (\<lambda>k. bit (ntohl x) (31 - k)) [0..<32]"

definition bits6 :: "u_char list \<Rightarrow> bool list" where
  "bits6 p = concat (map bits8 p)"

lemma length_bits8 [simp]: "length (bits8 c) = 8"
  by (simp add: bits8_def)

lemma length_bits4 [simp]: "length (bits4 x) = 32"
  by (simp add: bits4_def)

lemma bits6_simps [simp]: "bits6 [] = []" "bits6 (c # p) = bits8 c @ bits6 p"
  by (simp_all add: bits6_def)

lemma htonl_and: "htonl (x AND y) = htonl x AND htonl y"
  by (rule bit_word_eqI) (auto simp: bit_htonl bit_and_iff)

lemma take_nth_eq_iff:
  assumes "n \<le> N"
  shows "take n (map f [0..<N]) = take n (map g [0..<N]) \<longleftrightarrow> (\<forall>k < n. f k = g k)"
  using assms by (auto simp: list_eq_iff_nth_eq)

lemma all_shifted: "n \<le> (N :: nat) \<Longrightarrow> (\<forall>k < n. P (N - Suc k)) \<longleftrightarrow> (\<forall>i. N - n \<le> i \<and> i < N \<longrightarrow> P i)"
proof -
  assume n: "n \<le> N"
  have "P i" if "\<forall>k < n. P (N - Suc k)" "N - n \<le> i" "i < N" for i
    using spec [OF that(1), of "N - Suc i"] that(2,3) by simp
  then show "(\<forall>k < n. P (N - Suc k)) \<longleftrightarrow> (\<forall>i. N - n \<le> i \<and> i < N \<longrightarrow> P i)" using n by auto
qed

text \<open>Two addresses agree under the mask of length \<open>n\<close> exactly when their first \<open>n\<close> bits do.\<close>

lemma mask4_agree:
  assumes "n \<le> 32"
  shows "x AND cidr_mask4 n = y AND cidr_mask4 n \<longleftrightarrow> take n (bits4 x) = take n (bits4 y)"
proof -
  let ?m = "push_bit (32 - n) (- 1) :: u_int32"
  have m: "cidr_mask4 n = htonl ?m" 
  proof (cases "n = 0")
    case True
    then have "htonl ?m = 0" by (intro bit_word_eqI) (auto simp: bit_htonl bit_simps)
    then show ?thesis using True by (simp add: cidr_mask4_def)
  qed (simp add: cidr_mask4_def ones(1))
  have "x AND cidr_mask4 n = y AND cidr_mask4 n \<longleftrightarrow> htonl (x AND htonl ?m) = htonl (y AND htonl ?m)"
    unfolding m by (metis htonl_htonl)
  also have "\<dots> \<longleftrightarrow> ntohl x AND ?m = ntohl y AND ?m" by (simp add: htonl_and)
  also have "\<dots> \<longleftrightarrow> (\<forall>i. 32 - n \<le> i \<and> i < 32 \<longrightarrow> bit (ntohl x) i = bit (ntohl y) i)"
    by (auto simp: bit_eq_iff bit_simps)
  also have "\<dots> \<longleftrightarrow> take n (bits4 x) = take n (bits4 y)"
    using all_shifted [OF assms, of "\<lambda>i. bit (ntohl x) i = bit (ntohl y) i"] unfolding bits4_def take_nth_eq_iff [OF assms] by simp
  finally show ?thesis .
qed

lemma mask8_agree:
  assumes "n \<le> 8"
  shows "x AND push_bit (8 - n) 0xff = y AND push_bit (8 - n) (0xff :: u_char) \<longleftrightarrow> take n (bits8 x) = take n (bits8 y)"
proof -
  have "x AND push_bit (8 - n) 0xff = y AND push_bit (8 - n) 0xff \<longleftrightarrow> (\<forall>i. 8 - n \<le> i \<and> i < 8 \<longrightarrow> bit x i = bit y i)"
    unfolding ones by (auto simp: bit_eq_iff bit_simps)
  also have "\<dots> \<longleftrightarrow> take n (bits8 x) = take n (bits8 y)"
    using all_shifted [OF assms, of "\<lambda>i. bit x i = bit y i"] unfolding bits8_def take_nth_eq_iff [OF assms] by simp
  finally show ?thesis .
qed

lemma mask6_agree:
  assumes "cidr_mask6 n a = ((as, ms), rc)" "length x = length a"
  shows "cidr_match6 x ms as \<longleftrightarrow> take n (bits6 x) = take n (bits6 a)"
  using assms
proof (induction n a arbitrary: x "as" ms rc rule: cidr_mask6.induct)
  case (2 n c a)
  let ?s = "if n > 8 then 8 else n"
  obtain as' ms' rc' where r: "cidr_mask6 (n - ?s) a = ((as', ms'), rc')" by (metis prod.exhaust)
  obtain d x' where x: "x = d # x'" "length x' = length a" using 2(3) by (cases x) auto
  have eq: "as = (c AND push_bit (8 - ?s) 0xff) # as'" "ms = push_bit (8 - ?s) 0xff # ms'"
    using 2(2) r by (simp_all add: Let_def)
  have "cidr_match6 x ms as \<longleftrightarrow> d AND push_bit (8 - ?s) 0xff = c AND push_bit (8 - ?s) 0xff \<and> cidr_match6 x' ms' as'"
    unfolding eq x(1) by simp
  also have "\<dots> \<longleftrightarrow> take ?s (bits8 d) = take ?s (bits8 c) \<and> take (n - ?s) (bits6 x') = take (n - ?s) (bits6 a)"
    using mask8_agree [of ?s d c] 2(1) [OF refl refl r x(2)] by simp
  also have "\<dots> \<longleftrightarrow> take n (bits6 x) = take n (bits6 (c # a))" using x(1) by auto
  finally show ?case .
qed simp

text \<open>The two parts of the text of a network; without a slash the network is one address.\<close>

definition net_addr :: "u_char list \<Rightarrow> u_char list" where
  "net_addr t = (case ngx_strlchr t (ch CHR ''/'') of NULL \<Rightarrow> t | Some k \<Rightarrow> take k t)"

definition net_bits :: "nat \<Rightarrow> u_char list \<Rightarrow> nat" where
  "net_bits N t = (case ngx_strlchr t (ch CHR ''/'') of NULL \<Rightarrow> N | Some k \<Rightarrow> nat (ngx_atoi (drop (k + 1) t)))"

lemma cidr_mask4_full: "cidr_mask4 32 = 0xffffffff"
  by (simp add: cidr_mask4_def ones(1) htonl_ones)

lemma cidr_mask6_full: "cidr_mask6 (8 * length a) a = ((a, replicate (length a) 0xff), NGX_OK)"
proof (induction a)
  case (Cons c a)
  have "c AND 0xff = c" unfolding ones by simp
  then show ?case using Cons by (simp add: Let_def)
qed simp

lemma ptocidr_in:
  assumes "ngx_ptocidr t buf = Inr (Cidr_in a m, rc)"
  shows "ngx_inet_addr (net_addr t) \<noteq> INADDR_NONE" "net_bits 32 t \<le> 32" "m = cidr_mask4 (net_bits 32 t)"
    "a = ngx_inet_addr (net_addr t) AND m" "rc = (if a = ngx_inet_addr (net_addr t) then NGX_OK else NGX_DONE)"
  using assms cidr_mask4_full
  by (auto simp: ngx_ptocidr_def net_addr_def net_bits_def Let_def split: option.splits if_splits inet6_result.splits prod.splits)

lemma ptocidr_in6:
  assumes "ngx_ptocidr t buf = Inr (Cidr_in6 a m, rc)" "length buf = 16"
  shows "ngx_inet_addr (net_addr t) = INADDR_NONE" "net_bits 128 t \<le> 128"
    "\<exists>p. ngx_inet6_addr (net_addr t) buf = Done p \<and> length p = 16 \<and> cidr_mask6 (net_bits 128 t) p = ((a, m), rc)"
proof -
  show "ngx_inet_addr (net_addr t) = INADDR_NONE" "net_bits 128 t \<le> 128"
    using assms(1) by (auto simp: ngx_ptocidr_def net_addr_def net_bits_def Let_def split: option.splits if_splits inet6_result.splits prod.splits)
  obtain p where p: "ngx_inet6_addr (net_addr t) buf = Done p"
    using assms(1) by (auto simp: ngx_ptocidr_def net_addr_def Let_def split: option.splits if_splits inet6_result.splits)
  then have len: "length p = 16" using inet6_addr_length [OF assms(2), of "net_addr t"] by simp
  then have "cidr_mask6 (net_bits 128 t) p = ((a, m), rc)"
    using assms(1) p cidr_mask6_full [of p]
    by (auto simp: ngx_ptocidr_def net_addr_def net_bits_def Let_def split: option.splits if_splits inet6_result.splits prod.splits)
  then show "\<exists>p. ngx_inet6_addr (net_addr t) buf = Done p \<and> length p = 16 \<and> cidr_mask6 (net_bits 128 t) p = ((a, m), rc)"
    using p len by blast
qed

lemma ptocidr_not_unix: "ngx_ptocidr t buf \<noteq> Inr (Cidr_unix, rc)"
  by (auto simp: ngx_ptocidr_def Let_def split: option.splits inet6_result.splits prod.splits)

text \<open>An address is in a network when it agrees with its first bits.\<close>

fun in_network :: "u_char list \<Rightarrow> sockaddr \<Rightarrow> u_char list \<Rightarrow> bool" where
  "in_network buf (Sa_in x) t \<longleftrightarrow> ngx_inet_addr (net_addr t) \<noteq> INADDR_NONE
     \<and> take (net_bits 32 t) (bits4 x) = take (net_bits 32 t) (bits4 (ngx_inet_addr (net_addr t)))"
| "in_network buf (Sa_in6 x) t \<longleftrightarrow> ngx_inet_addr (net_addr t) = INADDR_NONE \<and> (\<exists>p. ngx_inet6_addr (net_addr t) buf = Done p
     \<and> take (net_bits 128 t) (bits6 x) = take (net_bits 128 t) (bits6 p))"
| "in_network buf _ t \<longleftrightarrow> False"

definition sockaddr_ok :: "sockaddr \<Rightarrow> bool" where
  "sockaddr_ok sa \<longleftrightarrow> (case sa of Sa_in6 p \<Rightarrow> length p = 16 | _ \<Rightarrow> True)"

lemma cidr_match_one_iff:
  assumes "ngx_ptocidr t buf = Inr (c, rc)" "length buf = 16" "sockaddr_ok sa"
  shows "cidr_match_one sa c \<longleftrightarrow> in_network buf sa t"
proof (cases c)
  case (Cidr_in a m)
  note c = ptocidr_in [OF assms(1) [unfolded Cidr_in]]
  show ?thesis using Cidr_in c mask4_agree [OF c(2)] by (cases sa) auto
next
  case (Cidr_in6 a m)
  note c = ptocidr_in6 [OF assms(1) [unfolded Cidr_in6] assms(2)]
  then obtain p where p: "ngx_inet6_addr (net_addr t) buf = Done p" "length p = 16" "cidr_mask6 (net_bits 128 t) p = ((a, m), rc)"
    by blast
  show ?thesis using Cidr_in6 c(1) p mask6_agree [OF p(3)] assms(3) by (cases sa) (auto simp: sockaddr_ok_def)
next
  case Cidr_unix
  then show ?thesis using assms(1) ptocidr_not_unix by blast
qed

lemma cidr_loop_iff: "cidr_loop sa cidrs = (if \<exists>c \<in> set cidrs. cidr_match_one sa c then NGX_OK else NGX_DECLINED)"
  by (induction cidrs) auto

lemma cidr_subject_ok: "sockaddr_ok sa \<Longrightarrow> sockaddr_ok (cidr_subject sa)"
  by (cases sa) (auto simp: sockaddr_ok_def)



section \<open>IPv4 addresses and ports\<close>

lemma quad_of_nat:
  assumes "n < 4294967296"
  shows "quad (n div 16777216) (n div 65536 mod 256) (n div 256 mod 256) (n mod 256) = n"
proof -
  have "n div 16777216 * 256 + n div 65536 mod 256 = n div 65536" using div_mult_mod_eq [of "n div 65536" 256] by (simp add: div_mult2_eq [symmetric])
  moreover have "n div 65536 * 256 + n div 256 mod 256 = n div 256" using div_mult_mod_eq [of "n div 256" 256] by (simp add: div_mult2_eq [symmetric])
  moreover have "n div 256 * 256 + n mod 256 = n" by (rule div_mult_mod_eq)
  ultimately show ?thesis by (simp only: quad_def)
qed

lemma quad_of_word:
  fixes w :: u_int32
  defines "b \<equiv> \<lambda>k. unat (ucast (drop_bit k w) :: u_char)"
  shows "of_nat (quad (b 24) (b 16) (b 8) (b 0)) = w"
proof -
  have n: "unat w < 4294967296" using unsigned_less [of w] by simp
  then have "unat w div 16777216 < 256" by (simp add: less_mult_imp_div_less)
  then have "b 24 = unat w div 16777216" "b 16 = unat w div 65536 mod 256" "b 8 = unat w div 256 mod 256" "b 0 = unat w mod 256"
    by (simp_all add: b_def unsigned_ucast_eq unat_drop_bit_eq drop_bit_eq_div take_bit_eq_mod unat_div)
  then show ?thesis using quad_of_nat [OF n] by simp
qed

lemma ucast_byte_bit: "bit (ucast (drop_bit k w) :: u_char) i \<longleftrightarrow> i < 8 \<and> bit (w :: u_int32) (k + i)"
  by (simp add: bit_simps)

lemma less_4_cases: "k \<le> 3 \<Longrightarrow> k = 0 \<or> k = 1 \<or> k = 2 \<or> k = (3 :: nat)"
  by auto

lemma ngx_inet_roundtrip:
  assumes "a \<noteq> INADDR_NONE" "15 \<le> len"
  shows "\<exists>s. ngx_inet_ntop (AF_INET a) txt len = Some s \<and> ngx_inet_addr s = a"
proof -
  let ?b = "\<lambda>k. ucast (drop_bit (8 * k) a) :: u_char"
  have "ngx_inet_ntop (AF_INET a) txt len = Some (dotted_bytes (?b 0) (?b 1) (?b 2) (?b 3))"
    using sprintf_dotted [OF assms(2), of "?b 0" "?b 1" "?b 2" "?b 3"] by (simp add: ngx_snprintf_def in_addr_bytes_def upt_rec)
  moreover have bytes: "ucast (drop_bit (24 - 8 * k) (htonl a)) = ?b k" if "k \<le> 3" for k
  proof (rule bit_word_eqI)
    fix n assume "n < LENGTH(8)"
    then show "bit (ucast (drop_bit (24 - 8 * k) (htonl a)) :: u_char) n \<longleftrightarrow> bit (?b k) n"
      using less_4_cases [of k] that unfolding ucast_byte_bit bit_htonl by (auto simp: ac_simps)
  qed
  have "of_nat (quad (unat (?b 0)) (unat (?b 1)) (unat (?b 2)) (unat (?b 3))) = htonl a"
    using quad_of_word [of "htonl a"] bytes [of 0] bytes [of 1] bytes [of 2] bytes [of 3] by simp
  ultimately show ?thesis by (simp add: ngx_inet_addr_bytes)
qed

lemma inet_addr_loop_reject: "c \<in> set t \<Longrightarrow> \<not> is_digit c \<Longrightarrow> c \<noteq> ch CHR ''.'' \<Longrightarrow> inet_addr_loop t addr o' n = INADDR_NONE"
  by (induction t addr o' n rule: inet_addr_loop.induct) (auto simp: Let_def is_digit_def)

lemma inet_addr_reject: "c \<in> set t \<Longrightarrow> \<not> is_digit c \<Longrightarrow> c \<noteq> ch CHR ''.'' \<Longrightarrow> ngx_inet_addr t = INADDR_NONE"
  by (simp add: ngx_inet_addr_def inet_addr_loop_reject)

lemma strlchr_append: "c \<notin> set s \<Longrightarrow> ngx_strlchr (s @ c # t) c = Some (length s)"
  by (induction s) auto

text \<open>The text of an IPv4 address is no IPv6 address: before the first dot there was no colon.\<close>

lemma inet6_loop_octet:
  assumes "list_all is_digit f" "v_digit v = None"
  shows "inet6_loop (f @ ch CHR ''.'' # p) v = Invalid"
  using assms
proof (induction f arbitrary: v)
  case Nil
  then show ?case by (simp add: inet6_dot_def)
next
  case (Cons c f)
  then show ?case by (auto simp: is_digit_def Let_def)
qed

lemma parse_addr_port_inet:
  assumes "ngx_inet_addr s \<noteq> INADDR_NONE"
  shows "ngx_parse_addr True (s @ ch CHR '':'' # d) = Inl NGX_DECLINED" "ch CHR '':'' \<notin> set s" "s \<noteq> [] \<and> hd s \<noteq> ch CHR ''[''"
proof -
  have colon: "\<not> is_digit (ch CHR '':'')" "\<not> is_digit (ch CHR ''['')" by (simp_all add: is_digit_def)
  show ns: "ch CHR '':'' \<notin> set s" using assms inet_addr_reject [of "ch CHR '':''" s] colon(1) by auto
  have "s \<noteq> []" using assms by (auto simp: ngx_inet_addr_def)
  moreover have "ch CHR ''['' \<notin> set s" using assms inet_addr_reject [of "ch CHR ''[''" s] colon(2) by auto
  ultimately show hs: "s \<noteq> [] \<and> hd s \<noteq> ch CHR ''[''" using hd_in_set [of s] by metis
  obtain f fs where s: "s = f @ concat (map ((#) (ch CHR ''.'')) fs)" "length fs = 3" "list_all is_digit f"
    using inet_addr_loop_accepts [of s 0 0 0] assms by (auto simp: ngx_inet_addr_def)
  then obtain g p where "s @ ch CHR '':'' # d = f @ ch CHR ''.'' # p" "fs = g # tl fs" by (cases fs) auto
  then have "inet6_loop (s @ ch CHR '':'' # d) (inet6_start buf) = Invalid" for buf using inet6_loop_octet [OF s(3)] by simp
  moreover have "hd (s @ ch CHR '':'' # d) \<noteq> ch CHR '':''" using ns hs hd_in_set [of s] by (metis hd_append)
  ultimately show "ngx_parse_addr True (s @ ch CHR '':'' # d) = Inl NGX_DECLINED"
    using inet_addr_reject [of "ch CHR '':''" "s @ ch CHR '':'' # d"] colon by (simp add: ngx_parse_addr_def ngx_inet6_addr_def)
qed

text \<open>
  \<^verbatim>\<open>ngx_parse_addr_port\<close> reads \<^verbatim>\<open>address:port\<close> for an IPv4 address and \<^verbatim>\<open>[address]:port\<close> for any address without
  a bracket in its text, with a port from 1 to 65535.
\<close>

theorem ngx_parse_addr_port_roundtrip:
  assumes "1 \<le> ngx_atoi d" "ngx_atoi d \<le> 65535" "ngx_parse_addr True s = Inr a" "ch CHR '']'' \<notin> set s"
  shows "ngx_parse_addr_port True (ch CHR ''['' # s @ ch CHR '']'' # ch CHR '':'' # d) = Inr (a, ngx_atoi d)
    \<and> (case a of AF_INET _ \<Rightarrow> ngx_parse_addr_port True (s @ ch CHR '':'' # d) = Inr (a, ngx_atoi d) | _ \<Rightarrow> True)"
proof
  let ?t = "ch CHR ''['' # s @ ch CHR '']'' # ch CHR '':'' # d"
  have "\<not> is_digit (ch CHR ''['')" by (simp add: is_digit_def)
  then have "ngx_parse_addr True ?t = Inl NGX_DECLINED"
    using inet_addr_reject [of "ch CHR ''[''" ?t] by (simp add: ngx_parse_addr_def ngx_inet6_addr_def)
  moreover have "ngx_strlchr ?t (ch CHR '']'') = Some (length s + 1)" using strlchr_append [OF assms(4)] by simp
  ultimately show "ngx_parse_addr_port True ?t = Inr (a, ngx_atoi d)"
    using assms(1-3) by (simp add: ngx_parse_addr_port_def addr_port_rest_def nth_append Let_def)
next
  show "case a of AF_INET _ \<Rightarrow> ngx_parse_addr_port True (s @ ch CHR '':'' # d) = Inr (a, ngx_atoi d) | _ \<Rightarrow> True"
  proof (cases a)
    case (AF_INET x)
    then have "ngx_inet_addr s \<noteq> INADDR_NONE" using assms(3) by (auto simp: ngx_parse_addr_def Let_def split: if_splits inet6_result.splits)
    note inet = parse_addr_port_inet(1) [OF this, of d] parse_addr_port_inet(2,3) [OF this]
    then show ?thesis
      using AF_INET assms(1-3) strlchr_append [of "ch CHR '':''" s d]
      by (simp add: ngx_parse_addr_port_def addr_port_rest_def Let_def)
  qed simp
qed

theorem ngx_parse_addr_port_roundtrip_witness:
  "ngx_parse_addr_port True (bytes ''[10.0.0.1]:80'') = Inr (AF_INET 0x0100000A, 80)
    \<and> ngx_parse_addr_port True (bytes ''10.0.0.1:80'') = Inr (AF_INET 0x0100000A, 80)"
proof -
  have "ngx_atoi (bytes ''80'') = 80" "ngx_parse_addr True (bytes ''10.0.0.1'') = Inr (AF_INET 0x0100000A)" by code_simp+
  then show ?thesis using ngx_parse_addr_port_roundtrip [of "bytes ''80''" "bytes ''10.0.0.1''" "AF_INET 0x0100000A"]
    by (simp add: bytes_def)
qed

end
