(* ===== verification/Ngx_Geo_Range.thy ===== *)
theory Ngx_Geo_Range
  imports Ngx_Inet_Correct
begin

text \<open>
  The \<^verbatim>\<open>ranges\<close> mode of the geo module, from \<^verbatim>\<open>http/modules/ngx_http_geo_module.c\<close>: adding and deleting ranges of IPv4 addresses,
  what \<^verbatim>\<open>ngx_http_geo_block\<close> makes of them, and the search.

  The addresses with the same upper 16 bits have an array of ranges of their lower 16 bits, ordered and
  without overlaps.  The arrays are lists here; \<open>room\<close> is the number of elements for which there is still memory.
  A value is a pointer that is not \<^verbatim>\<open>NULL\<close>.  The messages for the log are left out.
\<close>

type_synonym geo_value = nat

record ngx_http_geo_range_t =
  gr_value :: geo_value
  gr_start :: nat
  gr_end :: nat

definition u_short :: "nat \<Rightarrow> nat" where
  "u_short n = n mod 65536"

lemma u_short_less [simp]: "n < 65536 \<Longrightarrow> u_short n = n"
  by (simp add: u_short_def)

text \<open>All kinds are \<^verbatim>\<open>NGX_CONF_ERROR\<close>.\<close>

datatype geo_error = No_memory | Overlap | Invalid_range

type_synonym low_ranges = "nat \<Rightarrow> ngx_http_geo_range_t list option"

section \<open>Adding a range\<close>

text \<open>
  The loop \<^verbatim>\<open>while (i)\<close> over the array \<open>a\<close> of one value of the upper bits, from its end, and the insertion before the first element.
\<close>

fun geo_range_insert :: "nat \<Rightarrow> nat \<Rightarrow> ngx_http_geo_range_t list \<Rightarrow> nat \<Rightarrow> nat \<Rightarrow> geo_value \<Rightarrow>
    geo_error + ngx_http_geo_range_t list \<times> nat" where
  "geo_range_insert 0 room a s e v =
    (if room = 0 then Inl No_memory
     else Inr (\<lparr>gr_value = v, gr_start = u_short s, gr_end = u_short e\<rparr> # a, room - 1))"
| "geo_range_insert (Suc i) room a s e v =
    (let r = a ! i; new = \<lparr>gr_value = v, gr_start = u_short s, gr_end = u_short e\<rparr> in
     if e < gr_start r then geo_range_insert i room a s e v
     else if s > gr_end r then
       if room = 0 then Inl No_memory
       else Inr (take (i + 1) a @ [new] @ drop (i + 1) a, room - 1)
     else if s = gr_start r \<and> e = gr_end r then Inr (a[i := r\<lparr>gr_value := v\<rparr>], room)
     else if s > gr_start r \<and> e < gr_end r then
       if room < 2 then Inl No_memory
       else Inr (take i a @ [r\<lparr>gr_end := u_short (s - 1)\<rparr>, new, r\<lparr>gr_start := u_short (e + 1)\<rparr>] @ drop (i + 1) a, room - 2)
     else if s = gr_start r \<and> e < gr_end r then
       if room = 0 then Inl No_memory
       else Inr (take i a @ [new, r\<lparr>gr_start := u_short (e + 1)\<rparr>] @ drop (i + 1) a, room - 1)
     else if s > gr_start r \<and> e = gr_end r then
       if room = 0 then Inl No_memory
       else Inr (take i a @ [r\<lparr>gr_end := u_short (s - 1)\<rparr>, new] @ drop (i + 1) a, room - 1)
     else Inl Overlap)"

text \<open>The lower bits of the part of the range \<open>start\<close> to \<open>end\<close> whose addresses have the upper bits of \<open>n\<close>.\<close>

definition geo_slice :: "u_int32 \<Rightarrow> u_int32 \<Rightarrow> u_int32 \<Rightarrow> nat \<times> nat" where
  "geo_slice start end' n =
    (if n = start then unat (n AND 0xffff) else 0,
     if (n OR 0xffff) > end' then unat (end' AND 0xffff) else 0xffff)"

definition geo_next :: "u_int32 \<Rightarrow> u_int32" where
  "geo_next n = (n + 0x10000) AND 0xffff0000"

lemma unat_upper: "unat (drop_bit 16 (n :: u_int32)) = unat n div 65536" "unat n div 65536 < 65536"
proof -
  have "unat n < 4294967296" using unsigned_less [of n] by simp
  then show "unat n div 65536 < 65536" by (simp add: less_mult_imp_div_less)
  show "unat (drop_bit 16 n) = unat n div 65536" by (simp add: unat_drop_bit_eq drop_bit_eq_div unat_div)
qed

lemma unat_and_upper: "unat (x AND 0xffff0000 :: u_int32) = unat x div 65536 * 65536"
proof -
  have eq: "(0xffff0000 :: u_int32) = NOT (mask 16)" by (simp add: mask_eq_exp_minus_1)
  have "x AND 0xffff0000 = push_bit 16 (drop_bit 16 x)" unfolding eq by (rule bit_word_eqI) (auto simp: bit_simps)
  moreover have "unat (push_bit 16 (drop_bit 16 x)) = unat x div 65536 * 65536"
    using unat_upper [of x] unat_mult_lem [of "drop_bit 16 x" 65536] by (simp add: push_bit_eq_mult)
  ultimately show ?thesis by simp
qed

lemma unat_and_low: "unat (x AND 0xffff :: u_int32) = unat x mod 65536"
proof -
  have "x AND 0xffff = take_bit 16 x" by (simp add: take_bit_eq_mask mask_eq_exp_minus_1)
  then show ?thesis by (simp add: take_bit_eq_mod unat_mod)
qed

lemma geo_next_step:
  assumes "unat (drop_bit 16 n) \<noteq> 0xffff"
  shows "unat (geo_next n) = (unat n div 65536 + 1) * 65536" "unat (drop_bit 16 (geo_next n)) = unat (drop_bit 16 n) + 1"
proof -
  have "unat n div 65536 \<le> 65534" using assms unat_upper [of n] by linarith
  then have "unat n + 65536 < 4294967296" using div_mult_mod_eq [of "unat n" 65536] mod_less_divisor [of 65536 "unat n"] by linarith
  then have "unat (n + 0x10000) = unat n + 65536" by (subst unat_add_lem [THEN iffD1]) simp_all
  moreover have "(unat n + 65536) div 65536 = unat n div 65536 + 1" by (rule div_add_self2) simp
  ultimately show next_n: "unat (geo_next n) = (unat n div 65536 + 1) * 65536" unfolding geo_next_def unat_and_upper by simp
  show "unat (drop_bit 16 (geo_next n)) = unat (drop_bit 16 n) + 1" unfolding unat_upper next_n by simp
qed

lemma geo_next_less: "unat (drop_bit 16 n) \<noteq> 0xffff \<Longrightarrow> 65536 - unat (drop_bit 16 (geo_next n)) < 65536 - unat (drop_bit 16 n)"
  using geo_next_step(2) [of n] unat_upper [of n] by linarith

function geo_add_loop :: "u_int32 \<Rightarrow> u_int32 \<Rightarrow> geo_value \<Rightarrow> nat \<Rightarrow> low_ranges \<Rightarrow> u_int32 \<Rightarrow> geo_error + low_ranges \<times> nat" where
  "geo_add_loop start end' v room low n =
    (if n \<le> end' then
       let h = unat (drop_bit 16 n);
           (s, e) = geo_slice start end' n;
           a = (case low h of None \<Rightarrow> [] | Some a \<Rightarrow> a) in
       case geo_range_insert (length a) room a s e v of
         Inl err \<Rightarrow> Inl err
       | Inr (a, room) \<Rightarrow>
           if h = 0xffff then Inr (low(h := Some a), room)
           else geo_add_loop start end' v room (low(h := Some a)) (geo_next n)
     else Inr (low, room))"
  by pat_completeness auto
termination
proof (relation "measure (\<lambda>(start, end', v, room, low, n). 65536 - unat (drop_bit 16 n))")
qed (auto intro: geo_next_less)

declare geo_add_loop.simps [simp del]

definition ngx_http_geo_add_range :: "nat \<Rightarrow> low_ranges \<Rightarrow> geo_value \<Rightarrow> u_int32 \<Rightarrow> u_int32 \<Rightarrow> geo_error + low_ranges \<times> nat" where
  "ngx_http_geo_add_range room low v start end' = geo_add_loop start end' v room low start"

section \<open>Deleting a range\<close>

text \<open>The array without the range, or \<^const>\<open>None\<close> when it is not there; \<open>warn\<close> is then set.\<close>

fun geo_range_delete :: "ngx_http_geo_range_t list \<Rightarrow> nat \<Rightarrow> nat \<Rightarrow> ngx_http_geo_range_t list option" where
  "geo_range_delete [] s e = None"
| "geo_range_delete (r # a) s e =
    (if s = gr_start r \<and> e = gr_end r then Some a else map_option ((#) r) (geo_range_delete a s e))"

function geo_delete_loop :: "u_int32 \<Rightarrow> u_int32 \<Rightarrow> low_ranges \<Rightarrow> bool \<Rightarrow> u_int32 \<Rightarrow> low_ranges \<times> bool" where
  "geo_delete_loop start end' low warn n =
    (if n \<le> end' then
       let h = unat (drop_bit 16 n);
           (s, e) = geo_slice start end' n;
           (low, warn) =
             (case low h of
                None \<Rightarrow> (low, True)
              | Some a \<Rightarrow>
                  (case geo_range_delete a s e of
                     None \<Rightarrow> (low, True)
                   | Some a \<Rightarrow> (low(h := Some a), warn))) in
       if h = 0xffff then (low, warn) else geo_delete_loop start end' low warn (geo_next n)
     else (low, warn))"
  by pat_completeness auto
termination
proof (relation "measure (\<lambda>(start, end', low, warn, n). 65536 - unat (drop_bit 16 n))")
qed (auto intro: geo_next_less)

declare geo_delete_loop.simps [simp del]

definition ngx_http_geo_delete_range :: "low_ranges \<Rightarrow> u_int32 \<Rightarrow> u_int32 \<Rightarrow> low_ranges \<times> bool" where
  "ngx_http_geo_delete_range low start end' = geo_delete_loop start end' low False start"

section \<open>The lines of a block\<close>

text \<open>
  The parts of \<^verbatim>\<open>ngx_http_geo_conf_ctx_t\<close> that the lines change.  A line has two words; the pointer that \<^verbatim>\<open>ngx_http_geo_value\<close>
  makes for the second is given.  Binary bases are not modelled.
\<close>

record geo_range_ctx =
  gc_low :: low_ranges
  gc_default :: "geo_value option"
  gc_room :: nat

definition geo_parse_range :: "u_char list \<Rightarrow> (u_int32 \<times> u_int32) option" where
  "geo_parse_range net =
    (case ngx_strlchr net (ch CHR ''-'') of
       NULL \<Rightarrow> None
     | Some k \<Rightarrow>
         let start = ngx_inet_addr (take k net) in
         if start = INADDR_NONE then None
         else let start = ntohl start; end' = ngx_inet_addr (drop (k + 1) net) in
           if end' = INADDR_NONE then None
           else let end' = ntohl end' in
             if start > end' then None else Some (start, end'))"

definition ngx_http_geo_range :: "geo_range_ctx \<Rightarrow> u_char list \<Rightarrow> u_char list \<Rightarrow> geo_value \<Rightarrow> geo_error + geo_range_ctx" where
  "ngx_http_geo_range ctx word1 word2 v =
    (if word1 = bytes ''default'' then Inr (ctx\<lparr>gc_default := Some v\<rparr>)
     else let del = (word1 = bytes ''delete''); net = (if del then word2 else word1) in
       case geo_parse_range net of
         None \<Rightarrow> Inl Invalid_range
       | Some (start, end') \<Rightarrow>
           if del then Inr (ctx\<lparr>gc_low := fst (ngx_http_geo_delete_range (gc_low ctx) start end')\<rparr>)
           else case ngx_http_geo_add_range (gc_room ctx) (gc_low ctx) v start end' of
             Inl err \<Rightarrow> Inl err
           | Inr (low, room) \<Rightarrow> Inr (ctx\<lparr>gc_low := low, gc_room := room\<rparr>))"

section \<open>The search\<close>

text \<open>\<^verbatim>\<open>ngx_http_geo_block\<close> drops empty arrays and ends the others with \<^verbatim>\<open>NULL\<close>, which is the end of the list here.\<close>

definition geo_block_ranges :: "low_ranges \<Rightarrow> low_ranges" where
  "geo_block_ranges low h = (case low h of Some [] \<Rightarrow> None | r \<Rightarrow> r)"

fun geo_range_scan :: "ngx_http_geo_range_t list \<Rightarrow> nat \<Rightarrow> geo_value option" where
  "geo_range_scan [] n = None"
| "geo_range_scan (r # a) n =
    (if n \<ge> gr_start r \<and> n \<le> gr_end r then Some (gr_value r) else geo_range_scan a n)"

text \<open>The address that is searched for, when there is one, and \<^verbatim>\<open>INADDR_NONE\<close> for the others.\<close>

fun geo_range_inaddr :: "sockaddr option \<Rightarrow> u_int32" where
  "geo_range_inaddr (Some (Sa_in6 p)) =
    (if IN6_IS_ADDR_V4MAPPED p
     then push_bit 24 (ucast (p ! 12)) + push_bit 16 (ucast (p ! 13)) + push_bit 8 (ucast (p ! 14)) + ucast (p ! 15)
     else INADDR_NONE)"
| "geo_range_inaddr (Some (Sa_in a)) = ntohl a"
| "geo_range_inaddr _ = INADDR_NONE"

definition ngx_http_geo_range_variable :: "low_ranges \<Rightarrow> geo_value \<Rightarrow> sockaddr option \<Rightarrow> geo_value" where
  "ngx_http_geo_range_variable low default_value addr =
    (let inaddr = geo_range_inaddr addr in
     case low (unat (drop_bit 16 inaddr)) of
       None \<Rightarrow> default_value
     | Some ranges \<Rightarrow>
         (case geo_range_scan ranges (unat (inaddr AND 0xffff)) of
            None \<Rightarrow> default_value
          | Some v \<Rightarrow> v))"

section \<open>Arrays of ranges\<close>

text \<open>The invariant of an array, and what it says about an address.\<close>

definition range_ok :: "ngx_http_geo_range_t \<Rightarrow> bool" where
  "range_ok r \<longleftrightarrow> gr_start r \<le> gr_end r \<and> gr_end r < 65536"

definition ranges_ok :: "ngx_http_geo_range_t list \<Rightarrow> bool" where
  "ranges_ok a \<longleftrightarrow> list_all range_ok a \<and> sorted_wrt (\<lambda>r r'. gr_end r < gr_start r') a"

lemma range_scan_append: "geo_range_scan (a @ b) n = (case geo_range_scan a n of None \<Rightarrow> geo_range_scan b n | Some v \<Rightarrow> Some v)"
  by (induction a) simp_all

lemma range_scan_below: "\<forall>r \<in> set a. n < gr_start r \<Longrightarrow> geo_range_scan a n = None"
  by (induction a) auto

lemma range_scan_above: "\<forall>r \<in> set a. gr_end r < n \<Longrightarrow> geo_range_scan a n = None"
  by (induction a) auto

lemma ranges_ok_append:
  "ranges_ok (a @ b) \<longleftrightarrow> ranges_ok a \<and> ranges_ok b \<and> (\<forall>r \<in> set a. \<forall>r' \<in> set b. gr_end r < gr_start r')"
  by (auto simp: ranges_ok_def sorted_wrt_append)

lemma ranges_ok_Cons: "ranges_ok (r # a) \<longleftrightarrow> range_ok r \<and> ranges_ok a \<and> (\<forall>r' \<in> set a. gr_end r < gr_start r')"
  by (auto simp: ranges_ok_def)

lemma ranges_ok_Nil [simp]: "ranges_ok []"
  by (simp add: ranges_ok_def)

lemma ranges_before: "ranges_ok (a @ r # b) \<Longrightarrow> q \<in> set a \<Longrightarrow> gr_start q \<le> gr_end q \<and> gr_end q < gr_start r"
  unfolding ranges_ok_append ranges_ok_Cons by (auto simp: ranges_ok_def range_ok_def list_all_iff)

text \<open>
  Replacing the range \<open>r\<close> by ranges \<open>rs\<close> inside of it keeps the array in order and changes only what the
  array says about the addresses of \<open>r\<close>.
\<close>

lemma replace_range:
  assumes "ranges_ok (a @ r # b)" "ranges_ok rs" "\<forall>q \<in> set rs. gr_start r \<le> gr_start q \<and> gr_end q \<le> gr_end r"
  shows "ranges_ok (a @ rs @ b)"
    "geo_range_scan (a @ rs @ b) n = (if gr_start r \<le> n \<and> n \<le> gr_end r then geo_range_scan rs n else geo_range_scan (a @ r # b) n)"
proof -
  show "ranges_ok (a @ rs @ b)" using assms by (fastforce simp: ranges_ok_append ranges_ok_Cons)
  have above: "geo_range_scan a n = None" if "gr_start r \<le> n"
    using assms(1) that by (intro range_scan_above) (auto dest: ranges_before)
  have below: "geo_range_scan b n = None" if "n \<le> gr_end r"
    using assms(1) that by (intro range_scan_below) (auto simp: ranges_ok_append ranges_ok_Cons)
  have out: "geo_range_scan rs n = None" if "\<not> (gr_start r \<le> n \<and> n \<le> gr_end r)"
  proof (cases "n < gr_start r")
    case True
    then show ?thesis using assms(3) by (intro range_scan_below) force
  next
    case False
    then show ?thesis using assms(3) that by (intro range_scan_above) force
  qed
  show "geo_range_scan (a @ rs @ b) n = (if gr_start r \<le> n \<and> n \<le> gr_end r then geo_range_scan rs n else geo_range_scan (a @ r # b) n)"
    using above below out by (auto simp: range_scan_append split: option.splits)
qed

lemma range_scan_hit: "ranges_ok (a @ r # b) \<Longrightarrow> gr_start r \<le> n \<Longrightarrow> n \<le> gr_end r \<Longrightarrow> geo_range_scan (a @ r # b) n = Some (gr_value r)"
  using range_scan_above [of a n] by (fastforce simp: range_scan_append dest: ranges_before)

text \<open>Inside \<open>r\<close>, the part \<open>s\<close> to \<open>e\<close> has the value \<open>v\<close> and the rest the old one.\<close>

lemma split_range:
  assumes "ranges_ok (a @ r # b)" "ranges_ok rs" "\<forall>q \<in> set rs. gr_start r \<le> gr_start q \<and> gr_end q \<le> gr_end r"
    and "gr_start r \<le> s" "e \<le> gr_end r"
    and "\<And>n. gr_start r \<le> n \<Longrightarrow> n \<le> gr_end r \<Longrightarrow> geo_range_scan rs n = Some (if s \<le> n \<and> n \<le> e then v else gr_value r)"
  shows "ranges_ok (a @ rs @ b) \<and>
    (\<forall>n. geo_range_scan (a @ rs @ b) n = (if s \<le> n \<and> n \<le> e then Some v else geo_range_scan (a @ r # b) n))"
  using replace_range [OF assms(1-3)] range_scan_hit [OF assms(1)] assms(4-6) by auto

text \<open>A range that fits between two neighbours.\<close>

lemma insert_range:
  assumes "ranges_ok (a @ b)" "range_ok new" "\<forall>q \<in> set a. gr_end q < gr_start new" "\<forall>q \<in> set b. gr_end new < gr_start q"
  shows "ranges_ok (a @ new # b)"
    "geo_range_scan (a @ new # b) n = (if gr_start new \<le> n \<and> n \<le> gr_end new then Some (gr_value new) else geo_range_scan (a @ b) n)"
proof -
  show "ranges_ok (a @ new # b)" using assms by (auto simp: ranges_ok_append ranges_ok_Cons)
  have "geo_range_scan a n = None" if "gr_start new \<le> n" using assms(3) that by (intro range_scan_above) auto
  then show "geo_range_scan (a @ new # b) n = (if gr_start new \<le> n \<and> n \<le> gr_end new then Some (gr_value new) else geo_range_scan (a @ b) n)"
    by (auto simp: range_scan_append split: option.splits)
qed

text \<open>The cases of the insertion: an array that has the new range, or a range that overlaps it and does not contain it.\<close>

lemma geo_range_insert_spec:
  assumes "ranges_ok a" "i \<le> length a" "\<forall>r \<in> set (drop i a). e < gr_start r" "s \<le> e" "e < 65536"
  shows "case geo_range_insert i room a s e v of
      Inr (a', room') \<Rightarrow> ranges_ok a' \<and> (\<forall>n. geo_range_scan a' n = (if s \<le> n \<and> n \<le> e then Some v else geo_range_scan a n))
    | Inl err \<Rightarrow> err = No_memory \<and> room < 2
        \<or> err = Overlap \<and> (\<exists>r \<in> set a. gr_start r \<le> e \<and> s \<le> gr_end r \<and> \<not> (gr_start r \<le> s \<and> e \<le> gr_end r))"
  using assms(2,3)
proof (induction i)
  case 0
  then show ?case using assms insert_range [of "[]" a "\<lparr>gr_value = v, gr_start = s, gr_end = e\<rparr>"]
    by (simp add: range_ok_def)
next
  case (Suc i)
  let ?x = "take i a" and ?r = "a ! i" and ?y = "drop (Suc i) a" and ?new = "\<lparr>gr_value = v, gr_start = s, gr_end = e\<rparr>"
  have i: "i < length a" "a = ?x @ ?r # ?y" using Suc.prems(1) by (simp_all add: id_take_nth_drop)
  have ok: "ranges_ok (?x @ ?r # ?y)" using assms(1) i(2) by simp
  then have r: "gr_start ?r \<le> gr_end ?r" "gr_end ?r < 65536" by (simp_all add: ranges_ok_append ranges_ok_Cons range_ok_def)
  note rep = split_range [OF ok, of _ s e v, folded i(2)] and ins = insert_range [of "take (Suc i) a" ?y ?new]
  consider (lower) "e < gr_start ?r" | (after) "gr_start ?r \<le> e" "gr_end ?r < s" | (same) "s = gr_start ?r" "e = gr_end ?r"
    | (mid) "gr_start ?r < s" "e < gr_end ?r" | (left) "s = gr_start ?r" "e < gr_end ?r" | (right) "gr_start ?r < s" "e = gr_end ?r" "s \<le> gr_end ?r"
    | (over) "gr_start ?r \<le> e" "s \<le> gr_end ?r" "\<not> (gr_start ?r \<le> s \<and> e \<le> gr_end ?r)"
    by linarith
  then show ?case
  proof cases
    case lower
    moreover have "\<forall>r \<in> set (drop i a). e < gr_start r" using lower Suc.prems(2) i(1) by (simp add: Cons_nth_drop_Suc [symmetric])
    ultimately show ?thesis using Suc.IH i(1) by simp
  next
    case after
    have "\<forall>q \<in> set (take (Suc i) a). gr_end q < s"
      using ranges_before [OF ok] r after(2) by (fastforce simp: take_Suc_conv_app_nth [OF i(1)])
    then show ?thesis using after ins Suc.prems(2) assms(1,4,5) r by (simp add: range_ok_def)
  next
    case same
    then show ?thesis using rep [of "[?r\<lparr>gr_value := v\<rparr>]"] r i(1)
      by (simp add: upd_conv_take_nth_drop ranges_ok_Cons range_ok_def)
  next
    case mid
    then have "ranges_ok (?x @ [?r\<lparr>gr_end := s - Suc 0\<rparr>, ?new, ?r\<lparr>gr_start := Suc e\<rparr>] @ ?y) \<and>
        (\<forall>n. geo_range_scan (?x @ [?r\<lparr>gr_end := s - Suc 0\<rparr>, ?new, ?r\<lparr>gr_start := Suc e\<rparr>] @ ?y) n = (if s \<le> n \<and> n \<le> e then Some v else geo_range_scan a n))"
      using r assms(4,5) by (intro rep) (auto simp: ranges_ok_Cons range_ok_def)
    then show ?thesis using mid r assms(4) by (simp add: Let_def)
  next
    case left
    then have "ranges_ok (?x @ [?new, ?r\<lparr>gr_start := Suc e\<rparr>] @ ?y) \<and>
        (\<forall>n. geo_range_scan (?x @ [?new, ?r\<lparr>gr_start := Suc e\<rparr>] @ ?y) n = (if s \<le> n \<and> n \<le> e then Some v else geo_range_scan a n))"
      using r assms(4,5) by (intro rep) (auto simp: ranges_ok_Cons range_ok_def)
    then show ?thesis using left r assms(4) by (simp add: Let_def)
  next
    case right
    then have "ranges_ok (?x @ [?r\<lparr>gr_end := s - Suc 0\<rparr>, ?new] @ ?y) \<and>
        (\<forall>n. geo_range_scan (?x @ [?r\<lparr>gr_end := s - Suc 0\<rparr>, ?new] @ ?y) n = (if s \<le> n \<and> n \<le> e then Some v else geo_range_scan a n))"
      using r assms(4,5) by (intro rep) (auto simp: ranges_ok_Cons range_ok_def)
    then show ?thesis using right r assms(4) by (simp add: Let_def)
  next
    case over
    then show ?thesis using nth_mem [OF i(1)] by auto
  qed
qed

section \<open>All addresses\<close>

text \<open>The value of the address \<open>x\<close>, and the addresses of a range of the array \<open>h\<close>.\<close>

definition low_ok :: "low_ranges \<Rightarrow> bool" where
  "low_ok low \<longleftrightarrow> (\<forall>h a. low h = Some a \<longrightarrow> ranges_ok a)"

definition geo_map :: "low_ranges \<Rightarrow> nat \<Rightarrow> geo_value option" where
  "geo_map low x = (case low (x div 65536) of None \<Rightarrow> None | Some a \<Rightarrow> geo_range_scan a (x mod 65536))"

definition range_addrs :: "nat \<Rightarrow> ngx_http_geo_range_t \<Rightarrow> nat set" where
  "range_addrs h r = {x. x div 65536 = h \<and> gr_start r \<le> x mod 65536 \<and> x mod 65536 \<le> gr_end r}"

lemma low_ok_empty [simp]: "low_ok Map.empty"
  by (simp add: low_ok_def)

lemma geo_map_upd: "geo_map (low(h := Some a)) x = (if x div 65536 = h then geo_range_scan a (x mod 65536) else geo_map low x)"
  by (simp add: geo_map_def)

lemma unat_or_low: "unat (n OR 0xffff :: u_int32) = unat n div 65536 * 65536 + 65535"
proof -
  have eq: "(0xffff0000 :: u_int32) = NOT (mask 16)" "(0xffff :: u_int32) = mask 16" by (simp_all add: mask_eq_exp_minus_1)
  have "(n OR 0xffff) AND 0xffff0000 = n AND 0xffff0000" unfolding eq by (rule bit_word_eqI) (auto simp: bit_simps)
  then have "unat (n OR 0xffff) div 65536 = unat n div 65536" using unat_and_upper [of "n OR 0xffff"] unat_and_upper [of n] by simp
  moreover have "(n OR 0xffff) AND 0xffff = (0xffff :: u_int32)" by (rule bit_word_eqI) (auto simp: bit_simps)
  then have "unat (n OR 0xffff) mod 65536 = 65535" using unat_and_low [of "n OR 0xffff"] by simp
  ultimately show ?thesis using div_mult_mod_eq [of "unat (n OR 0xffff)" 65536] by simp
qed

lemma geo_slice_eq:
  assumes "n \<le> end'" "n = start \<or> unat n mod 65536 = 0"
  shows "geo_slice start end' n = (unat n mod 65536, min (unat end' - unat n div 65536 * 65536) 65535)"
    "unat n mod 65536 \<le> min (unat end' - unat n div 65536 * 65536) 65535"
proof -
  have le: "unat n \<le> unat end'" using assms(1) by (simp add: word_le_nat_alt)
  have n: "unat n = unat n div 65536 * 65536 + unat n mod 65536" "unat n mod 65536 < 65536" by simp_all
  show "unat n mod 65536 \<le> min (unat end' - unat n div 65536 * 65536) 65535" using le n by linarith
  have "unat end' mod 65536 = unat end' - unat n div 65536 * 65536" if "unat end' < unat n div 65536 * 65536 + 65535"
  proof -
    have "unat end' = unat n div 65536 * 65536 + (unat end' - unat n div 65536 * 65536)" using le n by linarith
    moreover have "unat end' - unat n div 65536 * 65536 < 65536" using that by linarith
    ultimately show ?thesis by (metis mod_less mod_mult_self3)
  qed
  then show "geo_slice start end' n = (unat n mod 65536, min (unat end' - unat n div 65536 * 65536) 65535)"
    using assms(2) by (auto simp: geo_slice_def unat_and_low unat_or_low word_less_nat_alt)
qed

text \<open>The addresses from \<open>n\<close> on that have its upper bits.\<close>

lemma geo_slice_mem:
  "x div 65536 = n div 65536 \<and> n mod 65536 \<le> x mod 65536 \<and> x mod 65536 \<le> min (k - n div 65536 * 65536) 65535
    \<longleftrightarrow> x div 65536 = n div 65536 \<and> n \<le> x \<and> x \<le> k" if "n \<le> k" for x n k :: nat
proof (cases "x div 65536 = n div 65536")
  case True
  have "x = x div 65536 * 65536 + x mod 65536" "n = n div 65536 * 65536 + n mod 65536" "x mod 65536 < 65536" by simp_all
  then show ?thesis using True that by (auto simp: min_def; linarith)
qed simp

lemma geo_slice_cover:
  "x div 65536 = n div 65536 \<and> n \<le> x \<and> x \<le> k \<or> (n div 65536 + 1) * 65536 \<le> x \<and> x \<le> k \<longleftrightarrow> n \<le> x \<and> x \<le> k" for x n k :: nat
  using div_le_mono [of n x 65536] div_le_mono [of "(n div 65536 + 1) * 65536" x 65536] by (simp; linarith)

text \<open>A range that has some addresses of \<open>A\<close> and not all of those with its upper bits.\<close>

definition geo_blocked :: "low_ranges \<Rightarrow> nat set \<Rightarrow> bool" where
  "geo_blocked low A \<longleftrightarrow> (\<exists>h a. \<exists>r \<in> set a. low h = Some a \<and> range_addrs h r \<inter> A \<noteq> {} \<and> \<not> {x \<in> A. x div 65536 = h} \<subseteq> range_addrs h r)"

lemma geo_range_insert_room: "geo_range_insert i room a s e v = Inr (a', room') \<Longrightarrow> room \<le> room' + 2"
  by (induction i) (auto simp: Let_def split: if_splits)

lemma geo_blocked_later:
  assumes "geo_blocked (low(n div 65536 := Some a)) {(n div 65536 + 1) * 65536..k}"
  shows "geo_blocked low {n..k}"
proof -
  let ?m = "(n div 65536 + 1) * 65536"
  have n: "n = n div 65536 * 65536 + n mod 65536" "n mod 65536 < 65536" by simp_all
  then have sub: "{?m..k} \<subseteq> {n..k}" by auto
  obtain h a' r where h: "r \<in> set a'" "(low(n div 65536 := Some a)) h = Some a'" "range_addrs h r \<inter> {?m..k} \<noteq> {}"
    "\<not> {x \<in> {?m..k}. x div 65536 = h} \<subseteq> range_addrs h r"
    using assms by (auto simp: geo_blocked_def)
  have "n div 65536 + 1 \<le> h" using h(3) div_le_mono [of ?m _ 65536] by (fastforce simp: range_addrs_def)
  then have "low h = Some a'" using h(2) by simp
  then show ?thesis using h(1,3,4) sub unfolding geo_blocked_def by blast
qed

text \<open>One round of the loop.\<close>

lemma geo_add_step:
  assumes "low_ok low" "unat n \<le> unat end'" and h: "h = unat n div 65536" and a: "a = (case low h of None \<Rightarrow> [] | Some a \<Rightarrow> a)"
    and se: "s = unat n mod 65536" "e = min (unat end' - unat n div 65536 * 65536) 65535" "s \<le> e"
  shows "case geo_range_insert (length a) room a s e v of
      Inr (a', room') \<Rightarrow> low_ok (low(h := Some a')) \<and>
        (\<forall>x. geo_map (low(h := Some a')) x = (if x div 65536 = h \<and> unat n \<le> x \<and> x \<le> unat end' then Some v else geo_map low x))
    | Inl err \<Rightarrow> err = No_memory \<and> room < 2 \<or> err = Overlap \<and> geo_blocked low {unat n..unat end'}"
proof -
  have ok: "ranges_ok a" using assms(1) by (auto simp: low_ok_def a split: option.splits)
  have old: "geo_map low x = geo_range_scan a (x mod 65536)" if "x div 65536 = h" for x using that by (simp add: geo_map_def a split: option.splits)
  have e: "e < 65536" using se(2) by simp
  note mem = geo_slice_mem [OF assms(2), folded se(1,2) h]
  have blocked: "geo_blocked low {unat n..unat end'}"
    if r: "r \<in> set a" "gr_start r \<le> e" "s \<le> gr_end r" "\<not> (gr_start r \<le> s \<and> e \<le> gr_end r)" for r
  proof -
    have low: "low h = Some a" using r(1) by (cases "low h") (simp_all add: a)
    have at: "h * 65536 + y \<in> {unat n..unat end'} \<and> (h * 65536 + y) div 65536 = h \<and> (h * 65536 + y) mod 65536 = y" if "s \<le> y" "y \<le> e" for y
      using mem [of "h * 65536 + y"] that e by simp
    let ?y = "max s (gr_start r)" and ?z = "if gr_start r \<le> s then e else s"
    have "gr_start r \<le> gr_end r" using ok r(1) by (auto simp: ranges_ok_def range_ok_def list_all_iff)
    then have "h * 65536 + ?y \<in> range_addrs h r \<inter> {unat n..unat end'}" using at [of ?y] r se(3) by (simp add: range_addrs_def)
    moreover have "h * 65536 + ?z \<in> {x \<in> {unat n..unat end'}. x div 65536 = h} - range_addrs h r" using at [of ?z] r se(3) by (auto simp: range_addrs_def)
    ultimately show ?thesis using r(1) low unfolding geo_blocked_def by blast
  qed
  note spec = geo_range_insert_spec [OF ok order.refl _ se(3) e, of room v, simplified]
  show ?thesis
  proof (cases "geo_range_insert (length a) room a s e v")
    case (Inl err)
    then show ?thesis using spec blocked by auto
  next
    case (Inr p)
    then obtain a' room' where p: "p = (a', room')" "ranges_ok a'"
      "\<forall>n. geo_range_scan a' n = (if s \<le> n \<and> n \<le> e then Some v else geo_range_scan a n)"
      using spec by (cases p) auto
    have "geo_map (low(h := Some a')) x = (if x div 65536 = h \<and> unat n \<le> x \<and> x \<le> unat end' then Some v else geo_map low x)" for x
      using mem [of x] old [of x] p(3) by (auto simp: geo_map_upd)
    then show ?thesis using Inr p(1,2) assms(1) by (auto simp: low_ok_def)
  qed
qed

lemma geo_add_loop_spec:
  assumes "low_ok low" "n \<le> end'" "n = start \<or> unat n mod 65536 = 0"
  shows "case geo_add_loop start end' v room low n of
      Inr (low', room') \<Rightarrow> low_ok low' \<and>
        (\<forall>x. geo_map low' x = (if unat n \<le> x \<and> x \<le> unat end' then Some v else geo_map low x))
    | Inl err \<Rightarrow> err = No_memory \<and> room < 2 * (unat end' div 65536 - unat n div 65536 + 1)
        \<or> err = Overlap \<and> geo_blocked low {unat n..unat end'}"
  using assms
proof (induction start end' v room low n rule: geo_add_loop.induct)
  case (1 start end' v room low n)
  let ?h = "unat n div 65536" and ?s = "unat n mod 65536" and ?e = "min (unat end' - unat n div 65536 * 65536) 65535"
  let ?a = "case low ?h of None \<Rightarrow> [] | Some a \<Rightarrow> a"
  note slice = geo_slice_eq [OF 1(3,4)]
  have le: "unat n \<le> unat end'" using 1(3) by (simp add: word_le_nat_alt)
  note cover = geo_slice_cover [of _ "unat n" "unat end'"]
  note step = geo_add_step [OF 1(2) le refl refl refl refl slice(2), of room v]
  show ?case
  proof (cases "geo_range_insert (length ?a) room ?a ?s ?e v")
    case (Inl err)
    then show ?thesis using step 1(3) by (auto simp: geo_add_loop.simps unat_upper slice(1))
  next
    case (Inr p)
    then obtain a' room' where p: "geo_range_insert (length ?a) room ?a ?s ?e v = Inr (a', room')" by (cases p) simp
    let ?low = "low(?h := Some a')"
    have one: "low_ok ?low" "geo_map ?low x = (if x div 65536 = ?h \<and> unat n \<le> x \<and> x \<le> unat end' then Some v else geo_map low x)" for x
      using step p by simp_all
    show ?thesis
    proof (cases "?h = 0xffff")
      case True
      have "unat end' < 4294967296" using unsigned_less [of end'] by simp
      then have "\<not> (?h + 1) * 65536 \<le> x" if "x \<le> unat end'" for x using that True by simp
      then show ?thesis using True p 1(3) one cover by (auto simp: geo_add_loop.simps unat_upper slice(1))
    next
      case False
      then have h: "unat (drop_bit 16 n) \<noteq> 0xffff" by (simp add: unat_upper)
      note nxt = geo_next_step(1) [OF h]
      have eq: "geo_add_loop start end' v room low n = geo_add_loop start end' v room' ?low (geo_next n)"
        using False p 1(3) by (subst geo_add_loop.simps) (simp add: unat_upper slice(1))
      show ?thesis
      proof (cases "geo_next n \<le> end'")
        case True
        have aligned: "geo_next n = start \<or> unat (geo_next n) mod 65536 = 0" by (simp add: nxt)
        have "?h + 1 \<le> unat end' div 65536" using div_le_mono [of "unat (geo_next n)" "unat end'" 65536] True by (simp add: word_le_nat_alt nxt)
        note le = this and ih = 1(1) [OF 1(3) refl refl _ refl _ refl, unfolded unat_upper slice(1), OF refl p False one(1) True aligned]
        show ?thesis
        proof (cases "geo_add_loop start end' v room' ?low (geo_next n)")
          case (Inl err)
          then show ?thesis using ih [unfolded Inl nxt] le geo_blocked_later [of low "unat n" a' "unat end'"] geo_range_insert_room [OF p]
            unfolding eq by auto
        next
          case (Inr q)
          then show ?thesis using ih [unfolded Inr nxt] one(2) cover unfolding eq by (auto split: prod.splits)
        qed
      next
        case False
        then have "\<not> (?h + 1) * 65536 \<le> x" if "x \<le> unat end'" for x using that by (simp add: word_le_nat_alt nxt)
        then show ?thesis unfolding eq using False one cover by (subst geo_add_loop.simps) auto
      qed
    qed
  qed
qed

section \<open>Deleting\<close>

lemma range_eqI: "ranges_ok (r # a) \<Longrightarrow> gr_start r \<le> n \<Longrightarrow> n \<le> gr_end r \<Longrightarrow> geo_range_scan a n = None"
  by (intro range_scan_below) (auto simp: ranges_ok_Cons)

lemma geo_range_delete_spec:
  "ranges_ok a \<Longrightarrow> geo_range_delete a s e = Some a' \<Longrightarrow>
    set a' \<subseteq> set a \<and> ranges_ok a' \<and> (\<forall>n. geo_range_scan a' n = (if s \<le> n \<and> n \<le> e then None else geo_range_scan a n))"
proof (induction a arbitrary: a')
  case (Cons r a)
  show ?case
  proof (cases "s = gr_start r \<and> e = gr_end r")
    case True
    then show ?thesis using Cons.prems range_eqI [OF Cons.prems(1)] by (auto simp: ranges_ok_Cons)
  next
    case False
    then obtain b where b: "geo_range_delete a s e = Some b" "a' = r # b" using Cons.prems(2) by auto
    note ih = Cons.IH [OF _ b(1)]
    have ex: "\<exists>q \<in> set a. gr_start q = s \<and> gr_end q = e" using b(1) by (induction a arbitrary: b) (auto split: if_splits)
    then have "gr_end r < s" using Cons.prems(1) by (auto simp: ranges_ok_Cons)
    then show ?thesis using ih Cons.prems(1) b(2) by (auto simp: ranges_ok_Cons)
  qed
qed simp

definition geo_removed :: "nat set \<Rightarrow> low_ranges \<Rightarrow> low_ranges \<Rightarrow> bool" where
  "geo_removed A low low' \<longleftrightarrow> low_ok low' \<and> (\<forall>x. geo_map low' x = (if x \<in> A then None else geo_map low x))"

definition geo_unset :: "nat set \<Rightarrow> low_ranges \<Rightarrow> low_ranges \<Rightarrow> bool" where
  "geo_unset A low low' \<longleftrightarrow> (\<exists>B \<subseteq> A. geo_removed B low low')"

lemma geo_removed_trans: "geo_removed A low low' \<Longrightarrow> geo_removed B low' low'' \<Longrightarrow> geo_removed (A \<union> B) low low''"
  by (auto simp: geo_removed_def)

lemma geo_unset_trans: "geo_unset A low low' \<Longrightarrow> geo_unset B low' low'' \<Longrightarrow> geo_unset (A \<union> B) low low''"
  unfolding geo_unset_def by (meson Un_mono geo_removed_trans)

lemma geo_removed_unset: "geo_removed A low low' \<Longrightarrow> geo_unset A low low'"
  by (auto simp: geo_unset_def)

lemma geo_unset_refl: "low_ok low \<Longrightarrow> geo_unset A low low"
  unfolding geo_unset_def by (rule exI [of _ "{}"]) (simp add: geo_removed_def)

lemma geo_unset_mono: "geo_unset A low low' \<Longrightarrow> A \<subseteq> B \<Longrightarrow> geo_unset B low low'"
  by (auto simp: geo_unset_def)

text \<open>One round: the array \<open>h\<close> after the deletion of a slice.\<close>

lemma geo_delete_step:
  assumes "low_ok low" "unat n \<le> unat end'" "low (unat n div 65536) = Some a"
    and "geo_range_delete a (unat n mod 65536) (min (unat end' - unat n div 65536 * 65536) 65535) = Some a'"
  shows "geo_removed {x. x div 65536 = unat n div 65536 \<and> unat n \<le> x \<and> x \<le> unat end'} low (low(unat n div 65536 := Some a'))"
proof -
  have ok: "ranges_ok a" using assms(1,3) by (auto simp: low_ok_def)
  show ?thesis using geo_range_delete_spec [OF ok assms(4)] assms(1,3) geo_slice_mem [OF assms(2)]
    by (auto simp: geo_removed_def low_ok_def geo_map_upd geo_map_def)
qed

lemma geo_delete_loop_spec:
  assumes "low_ok low" "n \<le> end'" "n = start \<or> unat n mod 65536 = 0"
  shows "case geo_delete_loop start end' low warn n of (low', warn') \<Rightarrow>
    geo_unset {unat n..unat end'} low low' \<and> (warn \<longrightarrow> warn') \<and> (\<not> warn' \<longrightarrow> geo_removed {unat n..unat end'} low low')"
  using assms
proof (induction start end' low warn n rule: geo_delete_loop.induct)
  case (1 start end' low warn n)
  let ?h = "unat n div 65536" and ?s = "unat n mod 65536" and ?e = "min (unat end' - unat n div 65536 * 65536) 65535"
  let ?S = "{x. x div 65536 = ?h \<and> unat n \<le> x \<and> x \<le> unat end'}" and ?T = "{(?h + 1) * 65536..unat end'}"
  note slice = geo_slice_eq [OF 1(3,4)]
  have le: "unat n \<le> unat end'" using 1(3) by (simp add: word_le_nat_alt)
  have cover: "?S \<union> ?T = {unat n..unat end'}"
    by (rule set_eqI) (simp only: Un_iff mem_Collect_eq atLeastAtMost_iff geo_slice_cover)
  define p where "p = (case low ?h of None \<Rightarrow> (low, True) | Some a \<Rightarrow>
    (case geo_range_delete a ?s ?e of None \<Rightarrow> (low, True) | Some a \<Rightarrow> (low(?h := Some a), warn)))"
  obtain low1 warn1 where p1: "p = (low1, warn1)" by (cases p)
  have one: "geo_unset ?S low low1" "warn \<longrightarrow> warn1" "\<not> warn1 \<longrightarrow> geo_removed ?S low low1"
    using p1 geo_delete_step [OF 1(2) le] geo_unset_refl [OF 1(2)] geo_removed_unset unfolding p_def
    by (auto split: option.splits)
  have ok: "low_ok low1" using one(1) by (auto simp: geo_unset_def geo_removed_def)
  have eq: "geo_delete_loop start end' low warn n = (if ?h = 0xffff then (low1, warn1) else geo_delete_loop start end' low1 warn1 (geo_next n))"
    using 1(3) p1 unfolding p_def by (subst geo_delete_loop.simps) (simp add: unat_upper slice(1))
  show ?case
  proof (cases "?h = 0xffff")
    case True
    have "unat end' < 4294967296" using unsigned_less [of end'] by simp
    then have "?T = {}" using True by simp
    then show ?thesis using True one cover unfolding eq by simp
  next
    case False
    then have h: "unat (drop_bit 16 n) \<noteq> 0xffff" by (simp add: unat_upper)
    note nxt = geo_next_step(1) [OF h]
    show ?thesis
    proof (cases "geo_next n \<le> end'")
      case True
      have aligned: "geo_next n = start \<or> unat (geo_next n) mod 65536 = 0" by (simp add: nxt)
      note ih = 1(1) [OF 1(3) refl refl _ _ refl, unfolded unat_upper slice(1), OF refl p1 [unfolded p_def, symmetric] False ok True aligned, unfolded nxt]
      then show ?thesis using one geo_unset_trans [OF one(1)] geo_removed_trans [of ?S low low1 ?T] False unfolding eq cover [symmetric]
        by (auto split: prod.splits)
    next
      case not_le: False
      then have "?T = {}" by (simp add: word_le_nat_alt nxt)
      moreover have "geo_delete_loop start end' low1 warn1 (geo_next n) = (low1, warn1)" using not_le by (subst geo_delete_loop.simps) simp
      ultimately show ?thesis using False one cover unfolding eq by simp
    qed
  qed
qed

section \<open>What the block means\<close>

text \<open>The lines of a block in order, up to the first error, as \<^verbatim>\<open>ngx_conf_parse\<close> gives them to the handler.\<close>

fun geo_range_lines :: "geo_range_ctx \<Rightarrow> (u_char list \<times> u_char list \<times> geo_value) list \<Rightarrow> geo_error + geo_range_ctx" where
  "geo_range_lines ctx [] = Inr ctx"
| "geo_range_lines ctx ((word1, word2, v) # ls) =
    (case ngx_http_geo_range ctx word1 word2 v of Inl err \<Rightarrow> Inl err | Inr ctx \<Rightarrow> geo_range_lines ctx ls)"

definition line_covers :: "u_char list \<Rightarrow> nat \<Rightarrow> bool" where
  "line_covers net x \<longleftrightarrow> (case geo_parse_range net of None \<Rightarrow> False | Some (start, end') \<Rightarrow> unat start \<le> x \<and> x \<le> unat end')"

text \<open>The value of the last line with the address \<open>x\<close>; the words \<^verbatim>\<open>default\<close> and \<^verbatim>\<open>delete\<close> are no ranges.\<close>

fun last_line_value :: "(u_char list \<times> u_char list \<times> geo_value) list \<Rightarrow> nat \<Rightarrow> geo_value option" where
  "last_line_value [] x = None"
| "last_line_value ((word1, word2, v) # ls) x =
    (case last_line_value ls x of Some v' \<Rightarrow> Some v' | None \<Rightarrow> if line_covers word1 x then Some v else None)"

lemma geo_parse_range_le: "geo_parse_range net = Some (start, end') \<Longrightarrow> start \<le> end' \<and> end' \<noteq> - 1"
proof -
  assume r: "geo_parse_range net = Some (start, end')"
  then obtain e where e: "start \<le> end'" "end' = ntohl e" "e \<noteq> INADDR_NONE"
    by (auto simp: geo_parse_range_def Let_def not_less split: option.splits if_splits)
  have "e = INADDR_NONE" if "end' = - 1" using that e(2) htonl_htonl [of e] by (simp add: htonl_ones INADDR_NONE_def)
  then show ?thesis using e by blast
qed

lemma default_no_range: "geo_parse_range (bytes ''default'') = None"
  by code_simp

lemma ngx_http_geo_add_range_spec:
  assumes "low_ok low" "start \<le> end'" "ngx_http_geo_add_range room low v start end' = Inr (low', room')"
  shows "low_ok low'" "geo_map low' x = (if unat start \<le> x \<and> x \<le> unat end' then Some v else geo_map low x)"
  using geo_add_loop_spec [OF assms(1,2), of start room v] assms(3) by (simp_all add: ngx_http_geo_add_range_def)

lemma ngx_http_geo_delete_range_spec:
  assumes "low_ok low" "start \<le> end'" "ngx_http_geo_delete_range low start end' = (low', warn)"
  shows "geo_unset {unat start..unat end'} low low'" "\<not> warn \<Longrightarrow> geo_removed {unat start..unat end'} low low'"
  using geo_delete_loop_spec [OF assms(1,2), of start False] assms(3) by (simp_all add: ngx_http_geo_delete_range_def)

text \<open>A line that adds a range, and one that deletes one.\<close>

lemma ngx_http_geo_range_line:
  assumes "low_ok (gc_low ctx)" "ngx_http_geo_range ctx word1 word2 v = Inr ctx'"
  shows "if word1 = bytes ''delete'' then \<exists>(start :: u_int32) (end' :: u_int32). end' \<noteq> - 1 \<and> geo_unset {unat start..unat end'} (gc_low ctx) (gc_low ctx')
    else low_ok (gc_low ctx') \<and> (\<forall>x. geo_map (gc_low ctx') x = (if line_covers word1 x then Some v else geo_map (gc_low ctx) x))"
proof (cases "word1 = bytes ''default''")
  case True
  have "bytes ''default'' \<noteq> bytes ''delete''" by code_simp
  then show ?thesis using True assms by (auto simp: ngx_http_geo_range_def line_covers_def default_no_range)
next
  case False
  let ?net = "if word1 = bytes ''delete'' then word2 else word1"
  obtain start end' where r: "geo_parse_range ?net = Some (start, end')"
    using False assms(2) by (auto simp: ngx_http_geo_range_def Let_def split: option.splits)
  note le = geo_parse_range_le [OF r]
  show ?thesis
  proof (cases "word1 = bytes ''delete''")
    case True
    obtain low' warn where d: "ngx_http_geo_delete_range (gc_low ctx) start end' = (low', warn)" by fastforce
    have "gc_low ctx' = low'" using assms(2) False True r d by (auto simp: ngx_http_geo_range_def)
    then show ?thesis using True le ngx_http_geo_delete_range_spec(1) [OF assms(1) _ d] by auto
  next
    case add: False
    obtain low' room' where a: "ngx_http_geo_add_range (gc_room ctx) (gc_low ctx) v start end' = Inr (low', room')" "gc_low ctx' = low'"
      using assms(2) False add r by (auto simp: ngx_http_geo_range_def split: sum.splits)
    show ?thesis using ngx_http_geo_add_range_spec [OF assms(1) _ a(1)] a(2) le add r by (simp add: line_covers_def)
  qed
qed

text \<open>The search in the arrays that the block leaves.\<close>

lemma ngx_http_geo_range_variable_map:
  "ngx_http_geo_range_variable (geo_block_ranges low) d addr = (case geo_map low (unat (geo_range_inaddr addr)) of None \<Rightarrow> d | Some v \<Rightarrow> v)"
  by (auto simp: ngx_http_geo_range_variable_def geo_block_ranges_def geo_map_def unat_upper unat_and_low Let_def split: option.splits list.splits)

lemma geo_range_lines_map:
  assumes "low_ok (gc_low ctx)" "geo_range_lines ctx ls = Inr ctx'" "\<forall>l \<in> set ls. fst l \<noteq> bytes ''delete''"
  shows "geo_map (gc_low ctx') x = (case last_line_value ls x of None \<Rightarrow> geo_map (gc_low ctx) x | Some v \<Rightarrow> Some v)"
  using assms
proof (induction ls arbitrary: ctx)
  case (Cons l ls)
  obtain word1 word2 v where l: "l = (word1, word2, v)" by (cases l)
  then obtain ctx1 where c: "ngx_http_geo_range ctx word1 word2 v = Inr ctx1" "geo_range_lines ctx1 ls = Inr ctx'"
    using Cons.prems(2) by (auto split: sum.splits)
  note line = ngx_http_geo_range_line [OF Cons.prems(1) c(1)]
  then have "low_ok (gc_low ctx1)" using Cons.prems(3) l by simp
  then show ?case using Cons.IH [OF _ c(2)] Cons.prems(3) line l by (auto split: option.splits)
qed simp

text \<open>No line sets a value for 255.255.255.255, which also stands for an address that is not an IPv4 address.\<close>

lemma geo_range_lines_none:
  assumes "low_ok (gc_low ctx)" "geo_range_lines ctx ls = Inr ctx'" "geo_map (gc_low ctx) (unat (- 1 :: u_int32)) = None"
  shows "geo_map (gc_low ctx') (unat (- 1 :: u_int32)) = None"
  using assms
proof (induction ls arbitrary: ctx)
  case (Cons l ls)
  obtain word1 word2 v where l: "l = (word1, word2, v)" by (cases l)
  then obtain ctx1 where c: "ngx_http_geo_range ctx word1 word2 v = Inr ctx1" "geo_range_lines ctx1 ls = Inr ctx'"
    using Cons.prems(2) by (auto split: sum.splits)
  have "\<not> line_covers word1 (unat (- 1 :: u_int32))"
    using geo_parse_range_le [of word1] by (auto simp: line_covers_def word_le_nat_alt [symmetric] split: option.splits dest: word_order.extremum_uniqueI)
  then have "low_ok (gc_low ctx1) \<and> geo_map (gc_low ctx1) (unat (- 1 :: u_int32)) = None"
    using ngx_http_geo_range_line [OF Cons.prems(1) c(1)] Cons.prems(3) by (auto simp: geo_unset_def geo_removed_def split: if_splits)
  then show ?case using Cons.IH [OF _ c(2)] by simp
qed simp

section \<open>Properties\<close>

text \<open>
  C19: Adding a range keeps every array of ranges ordered and without overlaps, gives all addresses of the range the new value
  and leaves the others as they are.  It fails only for want of memory, when there is not room for two elements per array,
  or when a range of the table has some of the addresses of the new range and not all that it could.
\<close>

theorem ngx_http_geo_add_range_correct:
  assumes "low_ok low" "start \<le> end'"
  shows "case ngx_http_geo_add_range room low v start end' of
      Inr (low', room') \<Rightarrow> low_ok low' \<and>
        (\<forall>x. geo_map low' x = (if unat start \<le> x \<and> x \<le> unat end' then Some v else geo_map low x))
    | Inl err \<Rightarrow> err = No_memory \<and> room < 2 * (unat end' div 65536 - unat start div 65536 + 1)
        \<or> err = Overlap \<and> geo_blocked low {unat start..unat end'}"
  unfolding ngx_http_geo_add_range_def using assms by (intro geo_add_loop_spec) simp_all

theorem ngx_http_geo_add_range_correct_witness:
  "case ngx_http_geo_add_range 100 Map.empty 7 0x0a00fff0 0x0a020010 of
      Inr (low', room') \<Rightarrow> low_ok low' \<and>
        (\<forall>x. geo_map low' x = (if unat (0x0a00fff0 :: u_int32) \<le> x \<and> x \<le> unat (0x0a020010 :: u_int32) then Some 7 else geo_map Map.empty x))
    | Inl err \<Rightarrow> err = No_memory \<and> (100 :: nat) < 2 * (unat (0x0a020010 :: u_int32) div 65536 - unat (0x0a00fff0 :: u_int32) div 65536 + 1)
        \<or> err = Overlap \<and> geo_blocked Map.empty {unat (0x0a00fff0 :: u_int32)..unat (0x0a020010 :: u_int32)}"
  by (rule ngx_http_geo_add_range_correct) simp_all

text \<open>
  Deleting a range only unsets addresses of the range and keeps the arrays in order; when it gives no warning,
  exactly the addresses of the range have no value any more.
\<close>

theorem ngx_http_geo_delete_range_correct:
  assumes "low_ok low" "start \<le> end'" "ngx_http_geo_delete_range low start end' = (low', warn)"
  shows "low_ok low' \<and> (\<forall>x. geo_map low' x \<noteq> geo_map low x \<longrightarrow> geo_map low' x = None \<and> unat start \<le> x \<and> x \<le> unat end')
    \<and> (\<not> warn \<longrightarrow> (\<forall>x. geo_map low' x = (if unat start \<le> x \<and> x \<le> unat end' then None else geo_map low x)))"
  using ngx_http_geo_delete_range_spec [OF assms]
  by (auto simp: geo_unset_def geo_removed_def subset_iff split: if_splits)

definition geo_test_low :: low_ranges where
  "geo_test_low = [0x0a00 \<mapsto> [\<lparr>gr_value = 1, gr_start = 5, gr_end = 9\<rparr>, \<lparr>gr_value = 2, gr_start = 0xff00, gr_end = 0xffff\<rparr>],
    0x0a01 \<mapsto> [\<lparr>gr_value = 2, gr_start = 0, gr_end = 16\<rparr>]]"

lemma geo_test_low_ok: "low_ok geo_test_low"
  by (auto simp: low_ok_def geo_test_low_def ranges_ok_def range_ok_def split: if_splits)

theorem ngx_http_geo_delete_range_correct_witness:
  "\<exists>low'. ngx_http_geo_delete_range geo_test_low 0x0a00ff00 0x0a010010 = (low', False) \<and>
    (\<forall>x. geo_map low' x = (if unat (0x0a00ff00 :: u_int32) \<le> x \<and> x \<le> unat (0x0a010010 :: u_int32) then None else geo_map geo_test_low x))"
proof -
  have "\<exists>low'. ngx_http_geo_delete_range geo_test_low 0x0a00ff00 0x0a010010 = (low', False)"
    by (simp add: ngx_http_geo_delete_range_def geo_delete_loop.simps geo_test_low_def geo_slice_def geo_next_def)
  then obtain low' where d: "ngx_http_geo_delete_range geo_test_low 0x0a00ff00 0x0a010010 = (low', False)" by blast
  have le: "(0x0a00ff00 :: u_int32) \<le> 0x0a010010" by simp
  show ?thesis using d ngx_http_geo_delete_range_correct [OF geo_test_low_ok le d] by blast
qed


definition geo_test_lines :: "(u_char list \<times> u_char list \<times> geo_value) list" where
  "geo_test_lines = [(bytes ''10.0.0.0-10.1.0.255'', bytes ''one'', 1), (bytes ''default'', bytes ''zero'', 0),
    (bytes ''10.0.1.0-10.0.1.127'', bytes ''two'', 2)]"

lemma geo_test_parse:
  "geo_parse_range (bytes ''10.0.0.0-10.1.0.255'') = Some (0x0a000000, 0x0a0100ff)"
  "geo_parse_range (bytes ''10.0.1.0-10.0.1.127'') = Some (0x0a000100, 0x0a00017f)"
  "bytes ''10.0.0.0-10.1.0.255'' \<noteq> bytes ''default''" "bytes ''10.0.1.0-10.0.1.127'' \<noteq> bytes ''default''"
  "bytes ''10.0.0.0-10.1.0.255'' \<noteq> bytes ''delete''" "bytes ''10.0.1.0-10.0.1.127'' \<noteq> bytes ''delete''"
  "bytes ''default'' \<noteq> bytes ''delete''"
  by code_simp+

lemma geo_test_run: "\<exists>ctx. geo_range_lines \<lparr>gc_low = Map.empty, gc_default = None, gc_room = 9\<rparr> geo_test_lines = Inr ctx"
  by (simp only: geo_test_lines_def geo_range_lines.simps ngx_http_geo_range_def geo_test_parse if_True if_False Let_def)
    (simp add: geo_test_parse ngx_http_geo_add_range_def geo_add_loop.simps geo_slice_def geo_next_def)


text \<open>
  A client without an IPv4 address (a Unix socket, an IPv6 address that is not a mapped one, or an address that cannot be read)
  always gets the default value, whatever the lines of the block are.
\<close>

theorem ngx_http_geo_range_no_ipv4:
  assumes "geo_range_lines \<lparr>gc_low = Map.empty, gc_default = None, gc_room = room\<rparr> ls = Inr ctx"
    and "addr = None \<or> addr = Some Sa_unix \<or> (\<exists>p. addr = Some (Sa_in6 p) \<and> \<not> IN6_IS_ADDR_V4MAPPED p)"
  shows "ngx_http_geo_range_variable (geo_block_ranges (gc_low ctx)) d addr = d"
proof -
  have "geo_range_inaddr addr = - 1" using assms(2) by (auto simp: INADDR_NONE_def)
  then show ?thesis unfolding ngx_http_geo_range_variable_map using geo_range_lines_none [OF _ assms(1)] by (simp add: geo_map_def)
qed

theorem ngx_http_geo_range_no_ipv4_witness:
  "\<exists>ctx. geo_range_lines \<lparr>gc_low = Map.empty, gc_default = None, gc_room = 9\<rparr> geo_test_lines = Inr ctx
    \<and> ngx_http_geo_range_variable (geo_block_ranges (gc_low ctx)) 0 (Some Sa_unix) = 0"
proof -
  obtain ctx where "geo_range_lines \<lparr>gc_low = Map.empty, gc_default = None, gc_room = 9\<rparr> geo_test_lines = Inr ctx"
    using geo_test_run by blast
  then show ?thesis using ngx_http_geo_range_no_ipv4 by blast
qed

end
