(* ===== verification/Ngx_Geo_Cidr.thy ===== *)
theory Ngx_Geo_Cidr
  imports Ngx_Inet_Correct Ngx_Radix_Correct
begin

text \<open>
  The networks of a \<^verbatim>\<open>geo\<close> block, from \<^verbatim>\<open>http/modules/ngx_http_geo_module.c\<close>: the lines of the block
  (\<^verbatim>\<open>ngx_http_geo_cidr\<close>), the end of the block and the variable, on top of the texts of networks (\<^verbatim>\<open>ngx_ptocidr\<close>) and the radix trees.

  A value is the pointer that \<^verbatim>\<open>ngx_http_geo_value\<close> makes for a word, which is given.  The messages for the log are left out.
\<close>

section \<open>The model\<close>

text \<open>The trees of the context; the pages and memory that the pool has for them.\<close>

record geo_trees =
  gt_tree :: "ngx_radix_tree_t option"
  gt_tree6 :: "ngx_radix_tree_t option"

record geo_pool =
  gp_mem :: "nat \<Rightarrow> ngx_radix_node_t"
  gp_pages :: "nat list"
  gp_mem6 :: "nat \<Rightarrow> ngx_radix_node_t"
  gp_pages6 :: "nat list"

text \<open>\<^verbatim>\<open>NGX_CONF_OK\<close>, \<^verbatim>\<open>NGX_CONF_ERROR\<close>, and the use of a \<^verbatim>\<open>NULL\<close> pointer in the deletion.\<close>

datatype 'a geo_result = Conf_ok 'a | Conf_error | Conf_crash

text \<open>The trees, which are made when they are first needed.\<close>

definition geo_make_trees :: "geo_pool \<Rightarrow> geo_trees \<Rightarrow> (ngx_radix_tree_t \<times> ngx_radix_tree_t) option" where
  "geo_make_trees pool ctx =
    (case (case gt_tree ctx of None \<Rightarrow> ngx_radix_tree_create (gp_mem pool) (gp_pages pool) (- 1) | Some t \<Rightarrow> Some t) of
       None \<Rightarrow> None
     | Some t \<Rightarrow>
         (case (case gt_tree6 ctx of None \<Rightarrow> ngx_radix_tree_create (gp_mem6 pool) (gp_pages6 pool) (- 1) | Some t \<Rightarrow> Some t) of
            None \<Rightarrow> None
          | Some t6 \<Rightarrow> Some (t, t6)))"

text \<open>\<open>buf\<close> is what \<^verbatim>\<open>cidr\<close> has on the stack before.\<close>

definition ngx_http_geo_cidr_value :: "u_char list \<Rightarrow> u_char list \<Rightarrow> ngx_cidr_t option" where
  "ngx_http_geo_cidr_value net buf =
    (if net = bytes ''255.255.255.255'' then Some (Cidr_in 0xffffffff 0xffffffff)
     else case ngx_ptocidr net buf of Inl _ \<Rightarrow> None | Inr (cidr, _) \<Rightarrow> Some cidr)"

fun geo_with_tree :: "(ngx_radix_tree_t \<Rightarrow> u_int32 \<Rightarrow> u_int32 \<Rightarrow> (bool \<times> ngx_radix_tree_t) option) \<Rightarrow>
    (ngx_radix_tree_t \<Rightarrow> u_char list \<Rightarrow> u_char list \<Rightarrow> (bool \<times> ngx_radix_tree_t) option) \<Rightarrow>
    ngx_radix_tree_t \<times> ngx_radix_tree_t \<Rightarrow> ngx_cidr_t \<Rightarrow> (ngx_radix_tree_t \<times> ngx_radix_tree_t) geo_result" where
  "geo_with_tree op4 op6 (t, t6) (Cidr_in6 a m) =
    (case op6 t6 a m of None \<Rightarrow> Conf_crash | Some (ok, t6) \<Rightarrow> if ok then Conf_ok (t, t6) else Conf_error)"
| "geo_with_tree op4 op6 (t, t6) (Cidr_in a m) =
    (case op4 t a m of None \<Rightarrow> Conf_crash | Some (ok, t) \<Rightarrow> if ok then Conf_ok (t, t6) else Conf_error)"
| "geo_with_tree op4 op6 (t, t6) Cidr_unix = Conf_error"

definition ngx_http_geo_cidr_add :: "ngx_radix_tree_t \<times> ngx_radix_tree_t \<Rightarrow> ngx_cidr_t \<Rightarrow> u_int64 \<Rightarrow>
    (ngx_radix_tree_t \<times> ngx_radix_tree_t) geo_result" where
  "ngx_http_geo_cidr_add ts cidr val =
    geo_with_tree (\<lambda>t a m. ngx_http_geo_cidr_add32 t a m val) (\<lambda>t a m. ngx_http_geo_cidr_add128 t a m val) ts cidr"

text \<open>The deletion, whose result only decides about a warning.\<close>

definition geo_cidr_delete :: "ngx_radix_tree_t \<times> ngx_radix_tree_t \<Rightarrow> ngx_cidr_t \<Rightarrow> (ngx_radix_tree_t \<times> ngx_radix_tree_t) geo_result" where
  "geo_cidr_delete ts cidr =
    geo_with_tree (\<lambda>t a m. map_option (\<lambda>(rc, t). (True, t)) (ngx_radix32tree_delete t a m))
      (\<lambda>t a m. map_option (\<lambda>(rc, t). (True, t)) (ngx_radix128tree_delete t a m)) ts cidr"

fun geo_host_order :: "ngx_cidr_t \<Rightarrow> ngx_cidr_t" where
  "geo_host_order (Cidr_in a m) = Cidr_in (ntohl a) (ntohl m)"
| "geo_host_order c = c"

definition ngx_http_geo_cidr :: "geo_pool \<Rightarrow> u_char list \<Rightarrow> geo_trees \<Rightarrow> u_char list \<Rightarrow> u_char list \<Rightarrow> u_int64 \<Rightarrow> geo_trees geo_result" where
  "ngx_http_geo_cidr pool buf ctx word1 word2 val =
    (case geo_make_trees pool ctx of
       None \<Rightarrow> Conf_error
     | Some ts \<Rightarrow>
         let res =
           (if word1 = bytes ''default'' then
              case ngx_http_geo_cidr_add ts (Cidr_in 0 0) val of
                Conf_ok ts \<Rightarrow> ngx_http_geo_cidr_add ts (Cidr_in6 (replicate 16 0) (replicate 16 0)) val
              | res \<Rightarrow> res
            else let del = (word1 = bytes ''delete''); net = (if del then word2 else word1) in
              case ngx_http_geo_cidr_value net buf of
                None \<Rightarrow> Conf_error
              | Some cidr \<Rightarrow>
                  let cidr = geo_host_order cidr in
                  if del then geo_cidr_delete ts cidr else ngx_http_geo_cidr_add ts cidr val)
         in case res of
              Conf_ok (t, t6) \<Rightarrow> Conf_ok \<lparr>gt_tree = Some t, gt_tree6 = Some t6\<rparr>
            | Conf_error \<Rightarrow> Conf_error
            | Conf_crash \<Rightarrow> Conf_crash)"

text \<open>The end of the block: \<open>null_value\<close> is the address of \<^verbatim>\<open>ngx_http_variable_null_value\<close>.\<close>

definition geo_block_trees :: "geo_pool \<Rightarrow> u_int64 \<Rightarrow> geo_trees \<Rightarrow> (ngx_radix_tree_t \<times> ngx_radix_tree_t) geo_result" where
  "geo_block_trees pool null_value ctx =
    (case geo_make_trees pool ctx of
       None \<Rightarrow> Conf_error
     | Some (t, t6) \<Rightarrow>
         (case ngx_radix32tree_insert t 0 0 null_value of (rc, t) \<Rightarrow>
            if rc = NGX_ERROR then Conf_error
            else case ngx_radix128tree_insert t6 (replicate 16 0) (replicate 16 0) null_value of (rc, t6) \<Rightarrow>
              if rc = NGX_ERROR then Conf_error else Conf_ok (t, t6)))"

text \<open>
  The pointer whose value is copied.  A connection has one of the families \<^verbatim>\<open>AF_INET\<close>, \<^verbatim>\<open>AF_INET6\<close> and \<^verbatim>\<open>AF_UNIX\<close>.  The address is \<^const>\<open>None\<close> when \<^verbatim>\<open>ngx_http_geo_addr\<close> fails; \<open>past\<close> is the byte behind
  an IPv6 address.  The result is \<^const>\<open>None\<close> if a search goes outside of its key.
\<close>

fun ngx_http_geo_cidr_variable :: "u_char \<Rightarrow> ngx_radix_tree_t \<times> ngx_radix_tree_t \<Rightarrow> sockaddr option \<Rightarrow> u_int64 option" where
  "ngx_http_geo_cidr_variable past (t, t6) (Some (Sa_in6 p)) =
    (if IN6_IS_ADDR_V4MAPPED p
     then ngx_radix32tree_find t (push_bit 24 (ucast (p ! 12)) + push_bit 16 (ucast (p ! 13)) + push_bit 8 (ucast (p ! 14)) + ucast (p ! 15))
     else ngx_radix128tree_find past t6 p)"
| "ngx_http_geo_cidr_variable past (t, t6) (Some (Sa_in a)) = ngx_radix32tree_find t (ntohl a)"
| "ngx_http_geo_cidr_variable past (t, t6) _ = ngx_radix32tree_find t INADDR_NONE"

section \<open>Addresses and prefixes\<close>

text \<open>The bits that the tree functions see are the bits of the mask and the address.\<close>

lemma zip_map_same: "zip (map f xs) (map g xs) = map (\<lambda>k. (f k, g k)) xs"
  by (simp add: zip_map_map zip_same_conv_map)

lemma drop_push_1: "k \<le> j \<Longrightarrow> j < LENGTH('a) \<Longrightarrow> drop_bit k (push_bit j 1) = (push_bit (j - k) 1 :: 'a :: len word)"
  by (rule bit_word_eqI) (auto simp: bit_simps)

lemma and_bit32: "drop_bit k 0x80000000 AND w \<noteq> (0 :: u_int32) \<longleftrightarrow> bit w (31 - k)" if "k < 32"
  using that drop_push_1 [of k 31, where 'a = 32] bit_iff_and_push_bit_not_eq_0 [of w "31 - k"] by (simp add: and.commute)

lemma and_bit8: "drop_bit k 0x80 AND w \<noteq> (0 :: u_char) \<longleftrightarrow> bit w (7 - k)" if "k < 8"
  using that drop_push_1 [of k 7, where 'a = 8] bit_iff_and_push_bit_not_eq_0 [of w "7 - k"] by (simp add: and.commute)

lemma radix32_bits_zip: "radix32_bits key msk = zip (bits4 (htonl msk)) (bits4 (htonl key))"
  unfolding radix32_bits_def bits4_def zip_map_same htonl_htonl
  by (auto simp: Let_def and_bit32 and.commute [of key])

lemma bits6_nth: "bits6 p = map (\<lambda>k. bit (p ! (k div 8)) (7 - k mod 8)) [0..<8 * length p]"
proof (induction p)
  case (Cons c p)
  have "[0..<8 * length (c # p)] = [0..<8] @ map (\<lambda>k. k + 8) [0..<8 * length p]"
    using upt_add_eq_append [of 0 8 "8 * length p"] by (simp add: map_add_upt add.commute)
  then show ?case using Cons by (simp add: bits8_def div_add_self2)
qed simp

lemma radix128_bits_zip: "length msk = 16 \<Longrightarrow> length key = 16 \<Longrightarrow> radix128_bits key msk = zip (bits6 msk) (bits6 key)"
  by (auto simp: radix128_bits_def bits6_nth zip_map_same Let_def and_bit8 and.commute [of "key ! _"])

lemma length_bits6: "length (bits6 p) = 8 * length p"
  by (simp add: bits6_nth)

text \<open>The masks are ones followed by zeros.\<close>

lemma pfx_zip: "n \<le> N \<Longrightarrow> length ks = N \<Longrightarrow> pfx (zip (replicate n True @ replicate (N - n) False) ks) = take n ks"
proof (induction n arbitrary: N ks)
  case 0
  then show ?case by (cases N; cases ks) simp_all
next
  case (Suc n)
  then obtain k ks' where "ks = k # ks'" by (cases ks) simp_all
  then show ?case using Suc.IH [of "N - 1" ks'] Suc.prems by simp
qed

lemma bits4_mask:
  assumes "n \<le> 32"
  shows "bits4 (cidr_mask4 n) = replicate n True @ replicate (32 - n) False"
proof -
  have "bits4 (cidr_mask4 n) ! k \<longleftrightarrow> k < n" if "k < 32" for k
    using that assms by (auto simp: bits4_def cidr_mask4_def bit_simps ones(1) htonl_def [of 0])
  then show ?thesis using assms by (intro nth_equalityI) (auto simp: nth_append)
qed

lemma bits8_mask:
  assumes "n \<le> 8"
  shows "bits8 (push_bit (8 - n) 0xff) = replicate n True @ replicate (8 - n) False"
proof -
  have "bits8 (push_bit (8 - n) 0xff) ! k \<longleftrightarrow> k < n" if "k < 8" for k
    using that assms by (auto simp: bits8_def bit_simps ones)
  then show ?thesis using assms by (intro nth_equalityI) (auto simp: nth_append)
qed

lemma bits6_mask:
  "cidr_mask6 n a = ((as, ms), rc) \<Longrightarrow> n \<le> 8 * length a \<Longrightarrow> length as = length a \<and> length ms = length a \<and> bits6 ms = replicate n True @ replicate (8 * length a - n) False"
proof (induction n a arbitrary: "as" ms rc rule: cidr_mask6.induct)
  case (2 n c a)
  let ?s = "if n > 8 then 8 else n"
  obtain as' ms' rc' where r: "cidr_mask6 (n - ?s) a = ((as', ms'), rc')" by (metis prod.exhaust)
  have eq: "as = (c AND push_bit (8 - ?s) 0xff) # as'" "ms = push_bit (8 - ?s) 0xff # ms'" using 2(2) r by (simp_all add: Let_def)
  note ih = 2(1) [OF refl refl r]
  show ?case
  proof (cases "n > 8")
    case True
    then have "replicate 8 True @ replicate (n - 8) True = replicate n True" by (simp flip: replicate_add)
    then show ?thesis using True ih eq 2(3) bits8_mask [of 8] by (simp flip: append_assoc)
  next
    case False
    then have "replicate (8 - n) False @ replicate (8 * length a) False = replicate (8 * length (c # a) - n) False" by (simp flip: replicate_add)
    then show ?thesis using False ih eq bits8_mask [of n] by simp
  qed
qed simp

section \<open>What the lines mean\<close>

text \<open>The prefix that a word of a line describes, for the two families.\<close>

definition line_prefix4 :: "u_char list \<Rightarrow> bool list option" where
  "line_prefix4 w =
    (if w = bytes ''default'' then Some []
     else if w = bytes ''255.255.255.255'' then Some (replicate 32 True)
     else if ngx_inet_addr (net_addr w) \<noteq> INADDR_NONE then Some (take (net_bits 32 w) (bits4 (ngx_inet_addr (net_addr w))))
     else None)"

definition line_prefix6 :: "u_char list \<Rightarrow> u_char list \<Rightarrow> bool list option" where
  "line_prefix6 buf w =
    (if w = bytes ''default'' then Some []
     else if w = bytes ''255.255.255.255'' \<or> ngx_inet_addr (net_addr w) \<noteq> INADDR_NONE then None
     else case ngx_inet6_addr (net_addr w) buf of Done p \<Rightarrow> Some (take (net_bits 128 w) (bits6 p)) | _ \<Rightarrow> None)"

text \<open>The table of one family: a line sets the value of its prefix, or removes it.\<close>

type_synonym geo_table = "bool list \<Rightarrow> u_int64 option"

definition upd_prefix :: "bool list option \<Rightarrow> u_int64 option \<Rightarrow> geo_table \<Rightarrow> geo_table" where
  "upd_prefix w v M = (case w of None \<Rightarrow> M | Some w \<Rightarrow> M(w := v))"

definition line_table :: "(u_char list \<Rightarrow> bool list option) \<Rightarrow> u_char list \<times> u_char list \<times> u_int64 \<Rightarrow> geo_table \<Rightarrow> geo_table" where
  "line_table pre l M =
    (case l of (word1, word2, v) \<Rightarrow> if word1 = bytes ''delete'' then upd_prefix (pre word2) None M else upd_prefix (pre word1) (Some v) M)"

definition block_table :: "u_int64 \<Rightarrow> (u_char list \<Rightarrow> bool list option) \<Rightarrow> (u_char list \<times> u_char list \<times> u_int64) list \<Rightarrow> geo_table" where
  "block_table null_value pre ls =
    (let M = fold (line_table pre) ls Map.empty in if M [] = None then M([] := Some null_value) else M)"

lemma bits4_ones: "bits4 (- 1) = replicate 32 True"
  using bits4_mask [of 32] by (simp add: cidr_mask4_full ones)

lemma htonl_0 [simp]: "htonl 0 = 0"
  by (simp add: htonl_def)

lemma pfx_zip_same: "n \<le> N \<Longrightarrow> length ks = N \<Longrightarrow> take n ks = take n ks' \<Longrightarrow>
    pfx (zip (replicate n True @ replicate (N - n) False) ks) = take n ks'"
  using pfx_zip [of n N ks] by simp

lemma pfx_zip_ones: "length ks = n \<Longrightarrow> pfx (zip (replicate n True) ks) = ks"
  using pfx_zip [of n n ks] by simp

lemma cidr_value_in:
  assumes "ngx_http_geo_cidr_value net buf = Some (Cidr_in a m)" "net \<noteq> bytes ''default''"
  shows "line_prefix4 net = Some (pfx (radix32_bits (ntohl a) (ntohl m))) \<and> line_prefix6 buf net = None"
proof (cases "net = bytes ''255.255.255.255''")
  case True
  then have am: "a = - 1" "m = - 1" using assms(1) by (auto simp: ngx_http_geo_cidr_value_def ones)
  have "pfx (radix32_bits (ntohl a) (ntohl m)) = replicate 32 True"
    using pfx_zip_ones [of "replicate 32 True" 32] unfolding am radix32_bits_zip htonl_htonl bits4_ones by simp
  then show ?thesis using True assms(2) by (simp add: line_prefix4_def line_prefix6_def)
next
  case False
  then obtain rc where c: "ngx_ptocidr net buf = Inr (Cidr_in a m, rc)"
    using assms(1) by (auto simp: ngx_http_geo_cidr_value_def split: sum.splits)
  let ?n = "net_bits 32 net" and ?A = "ngx_inet_addr (net_addr net)"
  note n = ptocidr_in [OF c]
  have "a AND cidr_mask4 ?n = ?A AND cidr_mask4 ?n" using n(3,4) by (simp add: and.assoc)
  then have "take ?n (bits4 a) = take ?n (bits4 ?A)" using mask4_agree [OF n(2)] by blast
  then have "pfx (radix32_bits (ntohl a) (ntohl m)) = take ?n (bits4 ?A)"
    using n(2,3) by (simp add: radix32_bits_zip bits4_mask pfx_zip_same)
  then show ?thesis using False n(1) assms(2) by (simp add: line_prefix4_def line_prefix6_def)
qed

lemma cidr_match6_self: "cidr_mask6 n p = ((as, ms), rc) \<Longrightarrow> cidr_match6 as ms as"
proof (induction n p arbitrary: "as" ms rc rule: cidr_mask6.induct)
  case (2 n c a)
  obtain as' ms' rc' where r: "cidr_mask6 (n - (if n > 8 then 8 else n)) a = ((as', ms'), rc')" by (metis prod.exhaust)
  then show ?case using 2(1) [OF refl refl r] 2(2) by (auto simp: Let_def and.assoc)
qed simp

lemma cidr_value_in6:
  assumes "ngx_http_geo_cidr_value net buf = Some (Cidr_in6 a m)" "net \<noteq> bytes ''default''" "length buf = 16"
  shows "line_prefix6 buf net = Some (pfx (radix128_bits a m)) \<and> line_prefix4 net = None"
proof -
  obtain rc where c: "ngx_ptocidr net buf = Inr (Cidr_in6 a m, rc)" and no: "net \<noteq> bytes ''255.255.255.255''"
    using assms(1) by (auto simp: ngx_http_geo_cidr_value_def split: sum.splits if_splits)
  let ?n = "net_bits 128 net"
  note n = ptocidr_in6 [OF c assms(3)]
  then obtain p where p: "ngx_inet6_addr (net_addr net) buf = Done p" "length p = 16" "cidr_mask6 ?n p = ((a, m), rc)" by blast
  then have len: "length a = 16" "length m = 16" "bits6 m = replicate ?n True @ replicate (128 - ?n) False"
    using bits6_mask [OF p(3)] n(2) by simp_all
  have "take ?n (bits6 a) = take ?n (bits6 p)" using mask6_agree [OF p(3), of a] cidr_match6_self [OF p(3)] len p(2) by simp
  then have "pfx (radix128_bits a m) = take ?n (bits6 p)" using n(2) len by (simp add: radix128_bits_zip pfx_zip_same length_bits6)
  then show ?thesis using no n(1) p(1) assms(2) by (simp add: line_prefix4_def line_prefix6_def)
qed

lemma cidr_value_not_unix: "ngx_http_geo_cidr_value net buf \<noteq> Some Cidr_unix"
  using ptocidr_not_unix [of net buf] by (auto simp: ngx_http_geo_cidr_value_def split: sum.splits)

section \<open>The trees of a block\<close>

definition trees_hold :: "ngx_radix_tree_t \<times> ngx_radix_tree_t \<Rightarrow> geo_table \<Rightarrow> geo_table \<Rightarrow> bool" where
  "trees_hold ts M M6 \<longleftrightarrow> radix_ok 32 (fst ts) \<and> radix_ok 128 (snd ts) \<and> table (fst ts) = M \<and> table (snd ts) = M6"

definition pool_ok :: "geo_pool \<Rightarrow> bool" where
  "pool_ok pool \<longleftrightarrow> distinct (concat (map (\<lambda>a. chunk a ngx_pagesize) (gp_pages pool))) \<and> 32 \<le> length (gp_pages pool)
    \<and> distinct (concat (map (\<lambda>a. chunk a ngx_pagesize) (gp_pages6 pool))) \<and> 32 \<le> length (gp_pages6 pool)"

lemma make_trees_new:
  assumes "pool_ok pool"
  shows "\<exists>ts. geo_make_trees pool \<lparr>gt_tree = None, gt_tree6 = None\<rparr> = Some ts \<and> trees_hold ts Map.empty Map.empty"
  using create_ok [of "gp_pages pool" "- 1" "gp_mem pool"] create_ok [of "gp_pages6 pool" "- 1" "gp_mem6 pool"] assms
  by (auto simp: pool_ok_def prealloc_bits_def geo_make_trees_def trees_hold_def)

lemma geo_cidr_add128_table:
  assumes "radix_ok 128 T" "ngx_http_geo_cidr_add128 T addr msk val = Some (True, T')"
  shows "radix_ok 128 T' \<and> table T' = (table T)(pfx (radix128_bits addr msk) := stored val)"
  using r128.replace_done [OF assms(1), of "(addr, msk)" val T'] assms(2) by (simp add: ngx_http_geo_cidr_add128_def)

lemma delete_table:
  "radix_ok 32 T \<Longrightarrow> ngx_radix32tree_delete T a m = Some (rc, T') \<Longrightarrow> radix_ok 32 T' \<and> table T' = (table T)(pfx (radix32_bits a m) := None)"
  "radix_ok 128 T \<Longrightarrow> ngx_radix128tree_delete T p q = Some (rc, T') \<Longrightarrow> radix_ok 128 T' \<and> table T' = (table T)(pfx (radix128_bits p q) := None)"
  using radix_delete_spec [of 32 T "radix32_bits a m"] radix_delete_spec [of 128 T "radix128_bits p q"]
  by (simp_all add: ngx_radix32tree_delete_def ngx_radix128tree_delete_def)

fun cidr_prefix4 :: "ngx_cidr_t \<Rightarrow> bool list option" where
  "cidr_prefix4 (Cidr_in a m) = Some (pfx (radix32_bits a m))"
| "cidr_prefix4 _ = None"

fun cidr_prefix6 :: "ngx_cidr_t \<Rightarrow> bool list option" where
  "cidr_prefix6 (Cidr_in6 a m) = Some (pfx (radix128_bits a m))"
| "cidr_prefix6 _ = None"

lemma cidr_add_trees:
  assumes "trees_hold ts M M6" "ngx_http_geo_cidr_add ts c val = Conf_ok ts'" "val \<noteq> NGX_RADIX_NO_VALUE"
  shows "trees_hold ts' (upd_prefix (cidr_prefix4 c) (Some val) M) (upd_prefix (cidr_prefix6 c) (Some val) M6)"
  using assms geo_cidr_add32_table [of "fst ts" _ _ val] geo_cidr_add128_table [of "snd ts" _ _ val]
  by (cases c; cases ts) (auto simp: ngx_http_geo_cidr_add_def trees_hold_def upd_prefix_def stored_def split: option.splits if_splits)

lemma cidr_delete_trees:
  assumes "trees_hold ts M M6" "geo_cidr_delete ts c = Conf_ok ts'"
  shows "trees_hold ts' (upd_prefix (cidr_prefix4 c) None M) (upd_prefix (cidr_prefix6 c) None M6)"
  using assms
  by (cases c; cases ts) (auto simp: geo_cidr_delete_def trees_hold_def upd_prefix_def delete_table split: option.splits if_splits)

lemma zero_prefix: "pfx (radix32_bits k 0) = []" "length p = 16 \<Longrightarrow> pfx (radix128_bits p (replicate 16 0)) = []"
proof -
  show "pfx (radix32_bits k 0) = []" using pfx_zip [of 0 32 "bits4 (htonl k)"] bits4_mask [of 0] by (simp add: radix32_bits_zip cidr_mask4_def)
  have "i div 8 < 16" if "i < 128" for i :: nat using that by linarith
  then have "bits6 (replicate 16 0) = replicate 128 False" by (intro nth_equalityI) (simp_all add: bits6_nth)
  then show "length p = 16 \<Longrightarrow> pfx (radix128_bits p (replicate 16 0)) = []"
    using pfx_zip [of 0 128 "bits6 p"] by (simp add: radix128_bits_zip length_bits6)
qed

lemma default_words: "bytes ''default'' \<noteq> bytes ''delete''" "bytes ''255.255.255.255'' \<noteq> bytes ''default''"
  "ngx_http_geo_cidr_value (bytes ''default'') buf = None"
proof -
  show "bytes ''default'' \<noteq> bytes ''delete''" "bytes ''255.255.255.255'' \<noteq> bytes ''default''" by code_simp+
  have "ngx_strlchr (bytes ''default'') (ch CHR ''/'') = None" "ngx_inet_addr (bytes ''default'') = INADDR_NONE"
    "bytes ''default'' \<noteq> bytes ''255.255.255.255''" by code_simp+
  moreover have "ngx_inet6_addr (bytes ''default'') buf = Invalid"
    by (simp add: ngx_inet6_addr_def bytes_def Let_def)
  ultimately show "ngx_http_geo_cidr_value (bytes ''default'') buf = None"
    by (simp add: ngx_http_geo_cidr_value_def ngx_ptocidr_def)
qed

text \<open>The two prefixes of a word are those of the network that it is read as.\<close>

lemma cidr_value_prefixes:
  assumes "ngx_http_geo_cidr_value net buf = Some c" "net \<noteq> bytes ''default''" "length buf = 16"
  shows "cidr_prefix4 (geo_host_order c) = line_prefix4 net" "cidr_prefix6 (geo_host_order c) = line_prefix6 buf net"
proof -
  have "cidr_prefix4 (geo_host_order c) = line_prefix4 net \<and> cidr_prefix6 (geo_host_order c) = line_prefix6 buf net"
  proof (cases c)
    case (Cidr_in a m)
    then show ?thesis using cidr_value_in [OF assms(1) [unfolded Cidr_in] assms(2)] by simp
  next
    case (Cidr_in6 a m)
    then show ?thesis using cidr_value_in6 [OF assms(1) [unfolded Cidr_in6] assms(2,3)] by simp
  next
    case Cidr_unix
    then show ?thesis using cidr_value_not_unix [of net buf] assms(1) by simp
  qed
  then show "cidr_prefix4 (geo_host_order c) = line_prefix4 net" "cidr_prefix6 (geo_host_order c) = line_prefix6 buf net" by simp_all
qed

lemma ngx_http_geo_cidr_line:
  assumes "geo_make_trees pool ctx = Some ts" "trees_hold ts M M6" "length buf = 16" "val \<noteq> NGX_RADIX_NO_VALUE"
    and "ngx_http_geo_cidr pool buf ctx word1 word2 val = Conf_ok ctx'"
  shows "\<exists>ts'. geo_make_trees pool ctx' = Some ts' \<and>
    trees_hold ts' (line_table line_prefix4 (word1, word2, val) M) (line_table (line_prefix6 buf) (word1, word2, val) M6)"
proof (cases "word1 = bytes ''default''")
  case True
  obtain ts1 ts2 where t: "ngx_http_geo_cidr_add ts (Cidr_in 0 0) val = Conf_ok ts1"
    "ngx_http_geo_cidr_add ts1 (Cidr_in6 (replicate 16 0) (replicate 16 0)) val = Conf_ok ts2" "geo_make_trees pool ctx' = Some ts2"
    using assms(1,5) True by (auto simp: ngx_http_geo_cidr_def geo_make_trees_def [of _ ctx'] Let_def split: geo_result.splits)
  have "trees_hold ts2 (M([] := Some val)) (M6([] := Some val))"
    using cidr_add_trees [OF cidr_add_trees [OF assms(2) t(1) assms(4)] t(2) assms(4)] by (simp add: upd_prefix_def zero_prefix)
  then show ?thesis using t(3) True default_words(1) by (auto simp: line_table_def upd_prefix_def line_prefix4_def line_prefix6_def)
next
  case False
  let ?net = "if word1 = bytes ''delete'' then word2 else word1"
  obtain c where c: "ngx_http_geo_cidr_value ?net buf = Some c"
    using assms(1,5) False by (auto simp: ngx_http_geo_cidr_def Let_def split: option.splits)
  then have "?net \<noteq> bytes ''default''" using default_words(3) [of buf] by auto
  note pre = cidr_value_prefixes [OF c this assms(3)]
  show ?thesis
  proof (cases "word1 = bytes ''delete''")
    case True
    then obtain ts' where t: "geo_cidr_delete ts (geo_host_order c) = Conf_ok ts'" "geo_make_trees pool ctx' = Some ts'"
      using assms(1,5) False c by (auto simp: ngx_http_geo_cidr_def geo_make_trees_def [of _ ctx'] Let_def split: geo_result.splits)
    show ?thesis using cidr_delete_trees [OF assms(2) t(1)] t(2) True pre by (simp add: line_table_def)
  next
    case add: False
    then obtain ts' where t: "ngx_http_geo_cidr_add ts (geo_host_order c) val = Conf_ok ts'" "geo_make_trees pool ctx' = Some ts'"
      using assms(1,5) False c by (auto simp: ngx_http_geo_cidr_def geo_make_trees_def [of _ ctx'] Let_def split: geo_result.splits)
    show ?thesis using cidr_add_trees [OF assms(2) t(1) assms(4)] t(2) add pre by (simp add: line_table_def)
  qed
qed

text \<open>The lines of a block in order, up to the first error.\<close>

fun geo_cidr_lines :: "geo_pool \<Rightarrow> u_char list \<Rightarrow> geo_trees \<Rightarrow> (u_char list \<times> u_char list \<times> u_int64) list \<Rightarrow> geo_trees geo_result" where
  "geo_cidr_lines pool buf ctx [] = Conf_ok ctx"
| "geo_cidr_lines pool buf ctx ((word1, word2, val) # ls) =
    (case ngx_http_geo_cidr pool buf ctx word1 word2 val of Conf_ok ctx \<Rightarrow> geo_cidr_lines pool buf ctx ls | res \<Rightarrow> res)"

lemma geo_cidr_lines_trees:
  assumes "geo_make_trees pool ctx = Some ts" "trees_hold ts M M6" "length buf = 16" "\<forall>(w1, w2, val) \<in> set ls. val \<noteq> NGX_RADIX_NO_VALUE"
    and "geo_cidr_lines pool buf ctx ls = Conf_ok ctx'"
  shows "\<exists>ts'. geo_make_trees pool ctx' = Some ts' \<and> trees_hold ts' (fold (line_table line_prefix4) ls M) (fold (line_table (line_prefix6 buf)) ls M6)"
  using assms
proof (induction ls arbitrary: ctx ts M M6)
  case (Cons l ls)
  obtain word1 word2 val where l: "l = (word1, word2, val)" by (cases l)
  then obtain ctx1 where c: "ngx_http_geo_cidr pool buf ctx word1 word2 val = Conf_ok ctx1" "geo_cidr_lines pool buf ctx1 ls = Conf_ok ctx'"
    using Cons.prems(5) by (auto split: geo_result.splits)
  have val: "val \<noteq> NGX_RADIX_NO_VALUE" using Cons.prems(4) l by simp
  obtain ts1 where ts1: "geo_make_trees pool ctx1 = Some ts1"
    "trees_hold ts1 (line_table line_prefix4 l M) (line_table (line_prefix6 buf) l M6)"
    using ngx_http_geo_cidr_line [OF Cons.prems(1,2,3) val c(1)] l by blast
  show ?case using Cons.IH [OF ts1 Cons.prems(3) _ c(2)] Cons.prems(4) by simp
qed simp

lemma geo_block_trees_hold:
  assumes "geo_make_trees pool ctx = Some ts" "trees_hold ts M M6" "null_value \<noteq> NGX_RADIX_NO_VALUE"
    and "geo_block_trees pool null_value ctx = Conf_ok ts'"
  shows "trees_hold ts' (if M [] = None then M([] := Some null_value) else M) (if M6 [] = None then M6([] := Some null_value) else M6)"
proof -
  obtain t t6 where ts: "ts = (t, t6)" by (cases ts)
  obtain rc t' where i: "ngx_radix32tree_insert t 0 0 null_value = (rc, t')" by fastforce
  obtain rc6 t6' where i6: "ngx_radix128tree_insert t6 (replicate 16 0) (replicate 16 0) null_value = (rc6, t6')" by fastforce
  have e: "ts' = (t', t6')" "rc \<noteq> NGX_ERROR" "rc6 \<noteq> NGX_ERROR"
    using assms(1,4) i i6 unfolding ts by (auto simp: geo_block_trees_def split: if_splits)
  have "radix_ok 32 t' \<and> table t' = (if M [] = None then M([] := Some null_value) else M)"
    using radix_insert_spec [of 32 t "radix32_bits 0 0" null_value] assms(2,3) i e(2) unfolding ts
    by (auto simp: trees_hold_def ngx_radix32tree_insert_def zero_prefix stored_def split: if_splits)
  moreover have "radix_ok 128 t6' \<and> table t6' = (if M6 [] = None then M6([] := Some null_value) else M6)"
    using radix_insert_spec [of 128 t6 "radix128_bits (replicate 16 0) (replicate 16 0)" null_value] assms(2,3) i6 e(3) unfolding ts
    by (auto simp: trees_hold_def ngx_radix128tree_insert_def zero_prefix stored_def split: if_splits)
  ultimately show ?thesis by (simp add: e(1) trees_hold_def)
qed

text \<open>A search in a tree that has a value for the empty prefix.\<close>

lemma radix_find_default:
  assumes "radix_ok N T" "length ks = N" "table T [] \<noteq> None"
  shows "\<exists>w v. find_loop (rt_mem T) (ks @ [x]) (Some (rt_root T)) NGX_RADIX_NO_VALUE = Some v
    \<and> prefix w ks \<and> table T w = Some v \<and> (\<forall>w'. prefix w' ks \<and> length w < length w' \<longrightarrow> table T w' = None)"
  using radix_find_spec [OF assms(1,2), of x] assms(3) unfolding longest_match_def by (metis Nil_prefix)

lemma find32_default:
  assumes "radix_ok 32 T" "table T [] \<noteq> None"
  shows "\<exists>w v. ngx_radix32tree_find T (ntohl a) = Some v
    \<and> prefix w (bits4 a) \<and> table T w = Some v \<and> (\<forall>w'. prefix w' (bits4 a) \<and> length w < length w' \<longrightarrow> table T w' = None)"
  using radix_find_default [OF assms(1) _ assms(2), of "bits4 a" False] by (simp add: ngx_radix32tree_find_def radix32_bits_zip)

lemma find128_default:
  assumes "radix_ok 128 T" "table T [] \<noteq> None" "length p = 16"
  shows "\<exists>w v. ngx_radix128tree_find past T p = Some v
    \<and> prefix w (bits6 p) \<and> table T w = Some v \<and> (\<forall>w'. prefix w' (bits6 p) \<and> length w < length w' \<longrightarrow> table T w' = None)"
  using radix_find_default [OF assms(1) _ assms(2), of "bits6 p" "past AND 0x80 \<noteq> 0"] assms(3)
  by (simp add: ngx_radix128tree_find_def radix128_bits_zip length_bits6)

section \<open>Properties\<close>

text \<open>
  The table that counts for an address and the bits of the address: a mapped IPv4 address counts as one, and
  an address that is not known, or of a Unix socket, as 255.255.255.255.
\<close>

definition geo_search :: "u_int64 \<Rightarrow> u_char list \<Rightarrow> (u_char list \<times> u_char list \<times> u_int64) list \<Rightarrow> sockaddr option \<Rightarrow> geo_table \<times> bool list" where
  "geo_search null_value buf ls addr =
    (case map_option cidr_subject addr of
       Some (Sa_in6 p) \<Rightarrow> (block_table null_value (line_prefix6 buf) ls, bits6 p)
     | Some (Sa_in x) \<Rightarrow> (block_table null_value line_prefix4 ls, bits4 x)
     | _ \<Rightarrow> (block_table null_value line_prefix4 ls, bits4 INADDR_NONE))"

text \<open>
  C17: When the lines of a \<^verbatim>\<open>geo\<close> block with networks, deletions included, are all accepted, the variable has the value
  of the longest network of the block, as its text says, that contains the address of the client; the last line for a network counts, and
  \<^verbatim>\<open>ngx_http_variable_null_value\<close> is the value of the network of all addresses if the block gives none.  In particular the search always finds a
  value, so the pointer that is followed is never \<^verbatim>\<open>NGX_RADIX_NO_VALUE\<close>.  The pages of the pool must not overlap and be enough for the
  preallocation.
\<close>

theorem ngx_http_geo_cidr_variable_correct:
  assumes "pool_ok pool" "length buf = 16" "\<forall>(w1, w2, val) \<in> set ls. val \<noteq> NGX_RADIX_NO_VALUE" "null_value \<noteq> NGX_RADIX_NO_VALUE"
    and "geo_cidr_lines pool buf \<lparr>gt_tree = None, gt_tree6 = None\<rparr> ls = Conf_ok ctx"
    and "geo_block_trees pool null_value ctx = Conf_ok ts"
    and "case addr of Some sa \<Rightarrow> sockaddr_ok sa | None \<Rightarrow> True"
  shows "case geo_search null_value buf ls addr of (M, ks) \<Rightarrow>
    \<exists>w v. ngx_http_geo_cidr_variable past ts addr = Some v \<and> prefix w ks \<and> M w = Some v
      \<and> (\<forall>w'. prefix w' ks \<and> length w < length w' \<longrightarrow> M w' = None)"
proof -
  obtain ts0 where ts0: "geo_make_trees pool \<lparr>gt_tree = None, gt_tree6 = None\<rparr> = Some ts0" "trees_hold ts0 Map.empty Map.empty"
    using make_trees_new [OF assms(1)] by blast
  obtain ts1 where ts1: "geo_make_trees pool ctx = Some ts1"
    "trees_hold ts1 (fold (line_table line_prefix4) ls Map.empty) (fold (line_table (line_prefix6 buf)) ls Map.empty)"
    using geo_cidr_lines_trees [OF ts0 assms(2,3,5)] by blast
  obtain t t6 where ts: "ts = (t, t6)" by (cases ts)
  have t: "radix_ok 32 t" "table t = block_table null_value line_prefix4 ls" "radix_ok 128 t6" "table t6 = block_table null_value (line_prefix6 buf) ls"
    using geo_block_trees_hold [OF ts1 assms(4,6)] unfolding ts by (simp_all add: trees_hold_def block_table_def Let_def)
  then have d: "table t [] \<noteq> None" "table t6 [] \<noteq> None" by (simp_all add: block_table_def Let_def)
  note f4 = find32_default [OF t(1) d(1), unfolded t(2)] and f6 = find128_default [OF t(3) d(2), unfolded t(4)]
  show ?thesis
  proof (cases addr)
    case None
    then show ?thesis using f4 [of INADDR_NONE] by (simp add: ts geo_search_def INADDR_NONE_def htonl_ones)
  next
    case (Some sa)
    show ?thesis
    proof (cases "\<exists>p. sa = Sa_in6 p \<and> IN6_IS_ADDR_V4MAPPED p")
      case True
      then obtain p x where p: "sa = Sa_in6 p" "IN6_IS_ADDR_V4MAPPED p" "cidr_subject sa = Sa_in x" by auto
      then show ?thesis using f4 [of x] Some by (auto simp: ts geo_search_def)
    next
      case False
      then show ?thesis using f4 f4 [of INADDR_NONE] f6 assms(7) Some
        by (cases sa) (simp_all add: ts geo_search_def sockaddr_ok_def INADDR_NONE_def htonl_ones)
    qed
  qed
qed

text \<open>A pool of pages one behind the other, and a block of two networks.\<close>

definition sample_pool :: geo_pool where
  "sample_pool = \<lparr>gp_mem = (\<lambda>_. blank_node), gp_pages = map ((*) ngx_pagesize) [0..<40],
     gp_mem6 = (\<lambda>_. blank_node), gp_pages6 = map ((*) ngx_pagesize) [0..<40]\<rparr>"

definition sample_lines :: "(u_char list \<times> u_char list \<times> u_int64) list" where
  "sample_lines = [(bytes ''10.0.0.0/8'', bytes ''a'', 7), (bytes ''10.1.0.0/16'', bytes ''b'', 8)]"

lemma chunk_div: "x \<in> set (chunk (ngx_pagesize * i) ngx_pagesize) \<Longrightarrow> x div ngx_pagesize = i"
  by (auto simp: chunk_def ngx_pagesize_def node_size_def)

lemma distinct_chunks: "distinct (concat (map (\<lambda>a. chunk a ngx_pagesize) (map ((*) ngx_pagesize) [0..<n])))"
proof (induction n)
  case (Suc n)
  have "x \<notin> set (chunk (ngx_pagesize * i) ngx_pagesize)" if "x \<in> set (chunk (ngx_pagesize * n) ngx_pagesize)" "i < n" for x i
    using that chunk_div [of x n] chunk_div [of x i] by auto
  then show ?case using Suc distinct_chunk by auto
qed simp

lemma sample_pool_ok: "pool_ok sample_pool"
  using distinct_chunks by (simp add: pool_ok_def sample_pool_def)

lemma sample_block: "\<exists>ctx ts. geo_cidr_lines sample_pool (replicate 16 0) \<lparr>gt_tree = None, gt_tree6 = None\<rparr> sample_lines = Conf_ok ctx
    \<and> geo_block_trees sample_pool 1 ctx = Conf_ok ts"
proof -
  obtain t where t: "ngx_radix_tree_create (gp_mem sample_pool) (gp_pages sample_pool) (- 1) = Some t" "radix_room 32 t 64" "table t = Map.empty"
    using create_room [of "gp_pages sample_pool" "- 1" 64 "gp_mem sample_pool"] sample_pool_ok
    by (auto simp: pool_ok_def prealloc_bits_def sample_pool_def)
  obtain t6 where t6: "ngx_radix_tree_create (gp_mem6 sample_pool) (gp_pages6 sample_pool) (- 1) = Some t6" "radix_room 128 t6 0" "table t6 = Map.empty"
    using create_ok [of "gp_pages6 sample_pool" "- 1" "gp_mem6 sample_pool"] sample_pool_ok
    by (auto simp: pool_ok_def prealloc_bits_def radix_room_0)
  obtain t1 where t1: "ngx_http_geo_cidr_add32 t 0x0a000000 0xff000000 7 = Some (True, t1)" "radix_room 32 t1 32"
    "table t1 = Map.empty(pfx (radix32_bits 0x0a000000 0xff000000) := stored 7)"
    using geo_cidr_add32_new [of t 32 "0x0a000000" "0xff000000" 7] t by auto
  have "pfx (radix32_bits 0x0a000000 0xff000000) \<noteq> pfx (radix32_bits 0x0a010000 0xffff0000)" by code_simp
  then obtain t2 where t2: "ngx_http_geo_cidr_add32 t1 0x0a010000 0xffff0000 8 = Some (True, t2)" "radix_room 32 t2 0"
    using geo_cidr_add32_new [of t1 0 "0x0a010000" "0xffff0000" 8] t1 by auto
  have words: "bytes ''10.0.0.0/8'' \<noteq> bytes ''default''" "bytes ''10.0.0.0/8'' \<noteq> bytes ''delete''"
    "bytes ''10.1.0.0/16'' \<noteq> bytes ''default''" "bytes ''10.1.0.0/16'' \<noteq> bytes ''delete''"
    "ngx_http_geo_cidr_value (bytes ''10.0.0.0/8'') (replicate 16 0) = Some (Cidr_in 10 255)"
    "ngx_http_geo_cidr_value (bytes ''10.1.0.0/16'') (replicate 16 0) = Some (Cidr_in 0x10a 0xffff)"
    "ntohl 10 = 0x0a000000" "ntohl 255 = 0xff000000" "ntohl 0x10a = 0x0a010000" "ntohl 0xffff = 0xffff0000"
    by code_simp+
  have lines: "geo_cidr_lines sample_pool (replicate 16 0) \<lparr>gt_tree = None, gt_tree6 = None\<rparr> sample_lines = Conf_ok \<lparr>gt_tree = Some t2, gt_tree6 = Some t6\<rparr>"
    using t(1) t6(1) t1(1) t2(1)
    by (simp only: sample_lines_def geo_cidr_lines.simps ngx_http_geo_cidr_def words) (simp add: geo_make_trees_def words ngx_http_geo_cidr_add_def)
  have "fst (ngx_radix32tree_insert t2 0 0 1) \<noteq> NGX_ERROR" "fst (ngx_radix128tree_insert t6 (replicate 16 0) (replicate 16 0) 1) \<noteq> NGX_ERROR"
    using radix_insert_room [OF t2(2), of "radix32_bits 0 0" 1] radix_insert_room [OF t6(2), of "radix128_bits (replicate 16 0) (replicate 16 0)" 1]
    by (auto simp: ngx_radix32tree_insert_def ngx_radix128tree_insert_def zero_prefix split: prod.splits if_splits)
  then have "\<exists>ts. geo_block_trees sample_pool 1 \<lparr>gt_tree = Some t2, gt_tree6 = Some t6\<rparr> = Conf_ok ts"
    by (auto simp: geo_block_trees_def geo_make_trees_def split: prod.splits)
  then show ?thesis using lines by blast
qed

theorem ngx_http_geo_cidr_variable_correct_witness:
  "\<exists>ts. case geo_search 1 (replicate 16 0) sample_lines (Some (Sa_in (htonl 0x0a010203))) of (M, ks) \<Rightarrow>
    \<exists>w v. ngx_http_geo_cidr_variable 0 ts (Some (Sa_in (htonl 0x0a010203))) = Some v \<and> prefix w ks \<and> M w = Some v
      \<and> (\<forall>w'. prefix w' ks \<and> length w < length w' \<longrightarrow> M w' = None)"
proof -
  obtain ctx ts where b: "geo_cidr_lines sample_pool (replicate 16 0) \<lparr>gt_tree = None, gt_tree6 = None\<rparr> sample_lines = Conf_ok ctx"
    "geo_block_trees sample_pool 1 ctx = Conf_ok ts" using sample_block by blast
  have "\<forall>(w1, w2, val) \<in> set sample_lines. val \<noteq> NGX_RADIX_NO_VALUE" "1 \<noteq> NGX_RADIX_NO_VALUE"
    by (simp_all add: sample_lines_def NGX_RADIX_NO_VALUE_def)
  then show ?thesis using b sample_pool_ok
    by (intro exI [of _ ts] ngx_http_geo_cidr_variable_correct) (simp_all add: sockaddr_ok_def)
qed

end
