(* ===== verification/Ngx_Http_Args.thy ===== *)
theory Ngx_Http_Args
  imports Ngx_Str Ngx_Inet_Correct
begin

text \<open>
  Looking values up in arguments and header lines, from \<^verbatim>\<open>http/ngx_http_parse.c\<close>: \<^verbatim>\<open>ngx_http_arg\<close>, \<^verbatim>\<open>ngx_http_split_args\<close>,
  \<^verbatim>\<open>ngx_http_parse_multi_header_lines\<close> (cookies, for one) and \<^verbatim>\<open>ngx_http_parse_set_cookie_lines\<close>.

  A pointer into a text is the position or the rest of the text.  The value of a header is followed by a zero byte in memory, which is where
  a comparison at its end stops; reading behind the list gives a zero byte in the model, too.
\<close>

section \<open>Arguments\<close>

text \<open>The path and the arguments, which are empty when there is no question mark.\<close>

definition ngx_http_split_args :: "u_char list \<Rightarrow> u_char list \<times> u_char list" where
  "ngx_http_split_args uri =
    (case ngx_strlchr uri (ch CHR ''?'') of
       NULL \<Rightarrow> (uri, [])
     | Some p \<Rightarrow> (take p uri, drop (p + 1) uri))"

text \<open>The loop of \<^verbatim>\<open>ngx_http_arg\<close>; the result is the position and the length of the value, \<^const>\<open>None\<close> is \<^verbatim>\<open>NGX_DECLINED\<close>.\<close>

function arg_loop :: "u_char list \<Rightarrow> u_char list \<Rightarrow> nat \<Rightarrow> (nat \<times> int) option" where
  "arg_loop args name p =
    (if p < length args then
       case ngx_strlcasestrn (take (length args - 1 - p) (drop p args)) name (length name - 1) of
         NULL \<Rightarrow> None
       | Some k \<Rightarrow>
           let p = p + k in
           if (p = 0 \<or> args ! (p - 1) = ch CHR ''&'') \<and> args ! (p + length name) = ch CHR ''='' then
             let data = p + length name + 1;
                 e = (case ngx_strlchr (drop p args) (ch CHR ''&'') of NULL \<Rightarrow> length args | Some j \<Rightarrow> p + j) in
             Some (data, int e - int data)
           else arg_loop args name (p + 1)
     else None)"
  by pat_completeness auto
termination by (relation "measure (\<lambda>(args, name, p). length args - p)") auto

declare arg_loop.simps [simp del]

definition ngx_http_arg :: "u_char list \<Rightarrow> u_char list \<Rightarrow> (nat \<times> int) option" where
  "ngx_http_arg args name = (if args = [] then None else arg_loop args name 0)"

section \<open>Header lines\<close>

definition skip_spaces :: "u_char list \<Rightarrow> u_char list" where
  "skip_spaces s = dropWhile (\<lambda>c. c = ch CHR '' '') s"

text \<open>The label \<^verbatim>\<open>skip\<close>: the text behind the next separator and spaces.\<close>

definition mh_skip :: "u_char list \<Rightarrow> u_char list" where
  "mh_skip s = skip_spaces (drop 1 (dropWhile (\<lambda>c. c \<noteq> ch CHR '';'' \<and> c \<noteq> ch CHR '','') s))"

lemma length_skip_spaces: "length (skip_spaces s) \<le> length s"
  by (simp add: skip_spaces_def length_dropWhile_le)

lemma length_mh_skip: "length (mh_skip s) \<le> length s - 1"
  using length_skip_spaces [of "drop 1 (dropWhile (\<lambda>c. c \<noteq> ch CHR '';'' \<and> c \<noteq> ch CHR '','') s)"]
    length_dropWhile_le [of "\<lambda>c. c \<noteq> ch CHR '';'' \<and> c \<noteq> ch CHR '','' " s]
  unfolding mh_skip_def length_drop by (meson diff_le_mono le_trans)

text \<open>
  The loop over one value.  \<open>want\<close> tells whether the caller wants a value (\<^verbatim>\<open>value != NULL\<close>); the result is the value that was
  found, which is empty if none is wanted.
\<close>

function mh_loop :: "u_char list \<Rightarrow> bool \<Rightarrow> u_char list \<Rightarrow> u_char list option" where
  "mh_loop name want start =
    (if start = [] then None
     else if ngx_strncasecmp start name (length name) \<noteq> 0 then mh_loop name want (mh_skip start)
     else let s = skip_spaces (drop (length name) start) in
       if \<not> want then
         if s = [] \<or> hd s = ch CHR '','' then Some [] else mh_loop name want (mh_skip s)
       else if s = [] then mh_loop name want (mh_skip s)
       else if hd s \<noteq> ch CHR ''='' then mh_loop name want (mh_skip (tl s))
       else Some (takeWhile (\<lambda>c. c \<noteq> ch CHR '';'') (skip_spaces (tl s))))"
  by pat_completeness auto
termination
proof (relation "measure (\<lambda>(name, want, start). length start)")
  have less: "length (mh_skip s) < length start" if "length s \<le> length start" "start \<noteq> []" for s start
    using that length_mh_skip [of s] by (cases start) auto
  have sp: "length (skip_spaces (drop n s)) \<le> length s" for n s using length_skip_spaces [of "drop n s"] by simp
  fix name :: "u_char list" and want and start s :: "u_char list"
  show "((name, want, mh_skip start), name, want, start) \<in> measure (\<lambda>(name, want, start). length start)" if "start \<noteq> []"
    using that less [of start start] by simp
  assume a: "start \<noteq> []" "s = skip_spaces (drop (length name) start)"
  then have s: "length s \<le> length start" using sp by simp
  show "((name, want, mh_skip s), name, want, start) \<in> measure (\<lambda>(name, want, start). length start)" using a s less [of s start] by simp
  show "((name, want, mh_skip s), name, want, start) \<in> measure (\<lambda>(name, want, start). length start)" using a s less [of s start] by simp
  show "((name, want, mh_skip (tl s)), name, want, start) \<in> measure (\<lambda>(name, want, start). length start)" using a s less [of "tl s" start] by simp
qed simp

declare mh_loop.simps [simp del]

text \<open>The list of header lines: the line that has the name, and the value.\<close>

fun ngx_http_parse_multi_header_lines :: "u_char list list \<Rightarrow> u_char list \<Rightarrow> bool \<Rightarrow> (u_char list \<times> u_char list) option" where
  "ngx_http_parse_multi_header_lines [] name want = None"
| "ngx_http_parse_multi_header_lines (h # hs) name want =
    (if length name > length h then ngx_http_parse_multi_header_lines hs name want
     else case mh_loop name want h of
       None \<Rightarrow> ngx_http_parse_multi_header_lines hs name want
     | Some v \<Rightarrow> Some (h, v))"

fun ngx_http_parse_set_cookie_lines :: "u_char list list \<Rightarrow> u_char list \<Rightarrow> (u_char list \<times> u_char list) option" where
  "ngx_http_parse_set_cookie_lines [] name = None"
| "ngx_http_parse_set_cookie_lines (h # hs) name =
    (if length name \<ge> length h \<or> ngx_strncasecmp h name (length name) \<noteq> 0 then ngx_http_parse_set_cookie_lines hs name
     else let s = skip_spaces (drop (length name) h) in
       if s = [] \<or> hd s \<noteq> ch CHR ''='' then ngx_http_parse_set_cookie_lines hs name
       else Some (h, takeWhile (\<lambda>c. c \<noteq> ch CHR '';'') (skip_spaces (tl s))))"

section \<open>The argument that is found\<close>

text \<open>The parts of a text between ampersands, and the value of the first part that is the name, an equals sign and a value.\<close>

fun segments :: "u_char list \<Rightarrow> u_char list list" where
  "segments [] = [[]]"
| "segments (c # s) = (if c = ch CHR ''&'' then [] # segments s else (c # hd (segments s)) # tl (segments s))"

definition is_arg :: "u_char list \<Rightarrow> u_char list \<Rightarrow> bool" where
  "is_arg name s \<longleftrightarrow> length name < length s \<and> map ngx_tolower (take (length name) s) = map ngx_tolower name \<and> s ! length name = ch CHR ''=''"

definition find_arg :: "u_char list \<Rightarrow> u_char list list \<Rightarrow> u_char list option" where
  "find_arg name segs = map_option (drop (length name + 1)) (find (is_arg name) segs)"

fun scan_arg :: "u_char list \<Rightarrow> bool \<Rightarrow> u_char list \<Rightarrow> nat option" where
  "scan_arg name b [] = None"
| "scan_arg name b (c # s) = (if b \<and> is_arg name (c # s) then Some 0 else map_option Suc (scan_arg name (c = ch CHR ''&'') s))"

definition up_to_amp :: "u_char list \<Rightarrow> u_char list" where
  "up_to_amp s = takeWhile (\<lambda>c. c \<noteq> ch CHR ''&'') s"

lemma segments_hd: "segments s \<noteq> [] \<and> hd (segments s) = up_to_amp s"
  by (induction s) (auto simp: up_to_amp_def)

lemma tolower_amp: "ngx_tolower c = ngx_tolower (ch CHR ''&'') \<longleftrightarrow> c = ch CHR ''&''"
  by (rule byte_all [of _ c]) code_simp

lemma is_arg_no_amp:
  assumes "is_arg name s" "ch CHR ''&'' \<notin> set name" "c \<in> set (take (length name + 1) s)"
  shows "c \<noteq> ch CHR ''&''"
proof
  assume amp: "c = ch CHR ''&''"
  have "take (length name + 1) s = take (length name) s @ [s ! length name]" using assms(1) by (simp add: is_arg_def take_Suc_conv_app_nth)
  moreover have "s ! length name \<noteq> ch CHR ''&''" using assms(1) by (simp add: is_arg_def)
  ultimately have "ngx_tolower (ch CHR ''&'') \<in> set (map ngx_tolower (take (length name) s))" using assms(3) amp by auto
  then have "ngx_tolower (ch CHR ''&'') \<in> set (map ngx_tolower name)" using assms(1) unfolding is_arg_def by simp
  then obtain x where "x \<in> set name" "ngx_tolower x = ngx_tolower (ch CHR ''&'')" by (metis imageE set_map)
  then show False using assms(2) tolower_amp [of x] by simp
qed

lemma up_to_amp_arg:
  assumes "is_arg name s" "ch CHR ''&'' \<notin> set name"
  shows "up_to_amp s = take (length name + 1) s @ up_to_amp (drop (length name + 1) s)"
proof -
  have "up_to_amp (take (length name + 1) s @ drop (length name + 1) s) = take (length name + 1) s @ up_to_amp (drop (length name + 1) s)"
    unfolding up_to_amp_def using is_arg_no_amp [OF assms] by (intro takeWhile_append2) simp
  then show ?thesis by simp
qed

lemma is_arg_up_to_amp:
  assumes "ch CHR ''&'' \<notin> set name"
  shows "is_arg name (up_to_amp s) \<longleftrightarrow> is_arg name s"
proof
  assume a: "is_arg name (up_to_amp s)"
  obtain t where t: "s = up_to_amp s @ t" unfolding up_to_amp_def by (metis takeWhile_dropWhile_id)
  show "is_arg name s" using a by (subst t) (auto simp: is_arg_def nth_append)
next
  assume a: "is_arg name s"
  then show "is_arg name (up_to_amp s)" unfolding up_to_amp_arg [OF a assms] by (simp add: is_arg_def nth_append)
qed

lemma scan_arg_segments:
  assumes "name \<noteq> []" "ch CHR ''&'' \<notin> set name"
  shows "find_arg name (if b then segments s else tl (segments s)) = map_option (\<lambda>q. up_to_amp (drop (q + length name + 1) s)) (scan_arg name b s)"
proof (induction s arbitrary: b)
  case Nil
  then show ?case by (simp add: find_arg_def is_arg_def)
next
  case (Cons c s)
  have nil: "\<not> is_arg name []" by (simp add: is_arg_def)
  show ?case
  proof (cases "c = ch CHR ''&''")
    case True
    have "\<not> is_arg name (c # s)" using is_arg_no_amp [of name "c # s" c] assms(2) True by auto
    then show ?thesis using True nil Cons.IH [of True] by (simp add: find_arg_def option.map_comp o_def)
  next
    case False
    have seg: "c # hd (segments s) = up_to_amp (c # s)" using False segments_hd [of s] by (simp add: up_to_amp_def)
    show ?thesis
    proof (cases "b \<and> is_arg name (c # s)")
      case True
      then have "length name \<le> length s" by (simp add: is_arg_def)
      then show ?thesis using True False is_arg_up_to_amp [OF assms(2), of "c # s"] up_to_amp_arg [of name "c # s"] assms(2) seg
        by (simp add: find_arg_def)
    next
      case no: False
      then show ?thesis using False is_arg_up_to_amp [OF assms(2), of "c # s"] Cons.IH [of False] seg
        by (auto simp: find_arg_def option.map_comp o_def)
    qed
  qed
qed

text \<open>The search for the name skips only places where no argument begins.\<close>

lemma scan_arg_skip:
  "\<forall>j < k. \<not> is_arg name (drop j s) \<Longrightarrow> k \<le> length s \<Longrightarrow>
    scan_arg name b s = map_option ((+) k) (scan_arg name (if k = 0 then b else s ! (k - 1) = ch CHR ''&'') (drop k s))"
proof (induction k arbitrary: b s)
  case 0
  show ?case by (cases "scan_arg name b s") simp_all
next
  case (Suc k)
  obtain c s' where s: "s = c # s'" using Suc.prems(2) by (cases s) simp_all
  have "\<forall>j < k. \<not> is_arg name (drop j s')" using Suc.prems(1) unfolding s by (metis Suc_mono drop_Suc_Cons)
  moreover have "\<not> is_arg name s" using Suc.prems(1) by force
  ultimately show ?case using Suc.IH [of s' "c = ch CHR ''&''"] Suc.prems(2) unfolding s
    by (cases k) (simp_all add: option.map_comp o_def del: One_nat_def)
qed

lemma scan_arg_none: "\<forall>j. \<not> is_arg name (drop j s) \<Longrightarrow> scan_arg name b s = None"
proof (induction s arbitrary: b)
  case (Cons c s)
  have "\<forall>j. \<not> is_arg name (drop j s)" using Cons.prems by (metis drop_Suc_Cons)
  moreover have "\<not> is_arg name (c # s)" using spec [OF Cons.prems, of 0] by simp
  ultimately show ?case using Cons.IH by simp
qed simp

lemma scan_arg_inside: "scan_arg name b s = Some q \<Longrightarrow> q + length name < length s"
  by (induction s arbitrary: b q) (auto simp: is_arg_def split: if_splits)

lemma find_name:
  assumes "name \<noteq> []" "0 \<notin> set name"
  defines "r \<equiv> \<lambda>s. ngx_strlcasestrn (take (length s - 1) s) name (length name - 1)"
  shows "r s = None \<Longrightarrow> \<not> is_arg name (drop j s)"
    "r s = Some k \<Longrightarrow> k + length name < length s \<and> map ngx_tolower (take (length name) (drop k s)) = map ngx_tolower name"
    "r s = Some k \<Longrightarrow> i < k \<Longrightarrow> \<not> is_arg name (drop i s)"
proof -
  let ?R = "map ngx_tolower (take (length s - 1) s)" and ?n = "map ngx_tolower name"
  have r: "r s = find_sub ?R ?n" unfolding r_def using ngx_substring_searches [OF assms(1,2)] by blast
  have at: "take (length ?n) (drop i ?R) = ?n" if a: "is_arg name (drop i s)" for i
  proof -
    have "length name \<le> length s - Suc i" using a by (auto simp: is_arg_def)
    then show ?thesis using a by (simp add: is_arg_def drop_map take_map drop_take min_def flip: take_map)
  qed
  show "r s = None \<Longrightarrow> \<not> is_arg name (drop j s)"
    using at [of j] find_sub_None [of ?R ?n] unfolding r by (cases "j \<le> length ?R") (auto simp: is_arg_def)
  show "r s = Some k \<Longrightarrow> i < k \<Longrightarrow> \<not> is_arg name (drop i s)"
    using at [of i] find_sub_Some [of ?R ?n k] unfolding r by blast
  assume "r s = Some k"
  then have m: "take (length name) (drop k ?R) = ?n" using find_sub_Some [of ?R ?n k] unfolding r by simp
  then have "length (take (length name) (drop k ?R)) = length name" by simp
  then have "k + length name \<le> length s - 1" using assms(1) by (cases name) auto
  then have "k + length name < length s" using assms(1) by (cases name) auto
  moreover have "take (length name) (drop k ?R) = map ngx_tolower (take (length name) (drop k s))"
    using \<open>k + length name \<le> length s - 1\<close> by (simp add: drop_map take_map drop_take min_def flip: take_map)
  ultimately show "k + length name < length s \<and> map ngx_tolower (take (length name) (drop k s)) = map ngx_tolower name" using m by simp
qed

definition arg_value :: "u_char list \<Rightarrow> u_char list \<Rightarrow> nat \<Rightarrow> nat \<times> int" where
  "arg_value args name q = (q + length name + 1, int (length (up_to_amp (drop (q + length name + 1) args))))"

lemma strlchr_takeWhile: "ngx_strlchr s c = (if c \<in> set s then Some (length (takeWhile (\<lambda>x. x \<noteq> c) s)) else None)"
  by (induction s) auto

lemma takeWhile_all: "c \<notin> set s \<Longrightarrow> length (takeWhile (\<lambda>x. x \<noteq> c) s) = length s"
  by (induction s) auto

lemma arg_end:
  assumes "is_arg name (drop q args)" "ch CHR ''&'' \<notin> set name"
  shows "(let data = q + length name + 1;
      e = (case ngx_strlchr (drop q args) (ch CHR ''&'') of NULL \<Rightarrow> length args | Some j \<Rightarrow> q + j) in (data, int e - int data)) = arg_value args name q"
proof -
  have len: "q + length name < length args" using assms(1) by (auto simp: is_arg_def)
  have "(case ngx_strlchr (drop q args) (ch CHR ''&'') of NULL \<Rightarrow> length args | Some j \<Rightarrow> q + j) = q + length (up_to_amp (drop q args))"
    using takeWhile_all [of "ch CHR ''&''" "drop q args"] len by (simp add: strlchr_takeWhile up_to_amp_def)
  moreover have "length (up_to_amp (drop q args)) = length name + 1 + length (up_to_amp (drop (q + length name + 1) args))"
    using arg_cong [OF up_to_amp_arg [OF assms], of length] len by (simp add: add.commute add.left_commute)
  ultimately show ?thesis by (simp add: arg_value_def Let_def)
qed

lemma arg_loop_scan:
  assumes "name \<noteq> []" "0 \<notin> set name" "ch CHR ''&'' \<notin> set name"
  shows "arg_loop args name p = map_option (\<lambda>q. arg_value args name (p + q)) (scan_arg name (p = 0 \<or> args ! (p - 1) = ch CHR ''&'') (drop p args))"
proof (induction "length args - p" arbitrary: p rule: less_induct)
  case less
  let ?s = "drop p args" and ?b = "\<lambda>p. p = 0 \<or> args ! (p - 1) = ch CHR ''&''"
  show ?case
  proof (cases "p < length args")
    case True
    have r: "take (length args - 1 - p) (drop p args) = take (length ?s - 1) ?s" by (simp add: diff_right_commute)
    note find = find_name [OF assms(1,2), of ?s]
    show ?thesis
    proof (cases "ngx_strlcasestrn (take (length ?s - 1) ?s) name (length name - 1)")
      case None
      then show ?thesis using True find(1) scan_arg_none [of name ?s "?b p"] unfolding arg_loop.simps [of args name p] r by simp
    next
      case (Some k)
      note k = find(2) [OF Some] find(3) [OF Some]
      have pk: "p + k + length name < length args" using k(1) by auto
      let ?q = "p + k"
      have q: "drop ?q args = args ! ?q # drop (?q + 1) args" using pk by (simp add: Cons_nth_drop_Suc)
      have arg: "is_arg name (drop ?q args) \<longleftrightarrow> args ! (?q + length name) = ch CHR ''=''"
        using k(1) pk by (auto simp: is_arg_def add.commute)
      have "(if k = 0 then ?b p else ?s ! (k - 1) = ch CHR ''&'') = ?b ?q" using True pk by auto
      then have scan: "scan_arg name (?b p) ?s = map_option ((+) k) (scan_arg name (?b ?q) (drop ?q args))"
        using scan_arg_skip [of k name ?s "?b p"] k pk by (simp add: add.commute)
      show ?thesis
      proof (cases "?b ?q \<and> args ! (?q + length name) = ch CHR ''=''")
        case hit: True
        have "arg_loop args name p = Some (arg_value args name ?q)"
          unfolding arg_loop.simps [of args name p] r Some using True hit arg arg_end [OF _ assms(3), of ?q args] by (simp add: Let_def)
        moreover have "scan_arg name (?b ?q) (drop ?q args) = Some 0" unfolding q using hit arg q by simp
        ultimately show ?thesis unfolding scan by simp
      next
        case no: False
        have "arg_loop args name p = arg_loop args name (?q + 1)"
          unfolding arg_loop.simps [of args name p] r Some using True no by (auto simp: Let_def)
        also have "\<dots> = map_option (\<lambda>j. arg_value args name (?q + 1 + j)) (scan_arg name (args ! ?q = ch CHR ''&'') (drop (?q + 1) args))"
          using less.hyps [of "?q + 1"] True by simp
        also have "\<dots> = map_option (\<lambda>j. arg_value args name (?q + j)) (scan_arg name (?b ?q) (drop ?q args))"
          unfolding q using no arg q by (auto simp: option.map_comp o_def)
        finally show ?thesis unfolding scan by (simp add: option.map_comp o_def add.assoc)
      qed
    qed
  qed (simp add: arg_loop.simps)
qed

text \<open>
  C27: \<^verbatim>\<open>ngx_http_arg\<close> finds exactly the first argument with the given name, ignoring case: when the arguments are divided at the ampersands, the
  value it returns is what follows the name and an equals sign in the first part that begins with them, and it declines when no part does.  The value
  lies inside the arguments.  The name is not empty and has no zero byte and no ampersand.
\<close>

theorem ngx_http_arg_correct:
  assumes "name \<noteq> []" "0 \<notin> set name" "ch CHR ''&'' \<notin> set name"
  shows "case ngx_http_arg args name of
      None \<Rightarrow> find_arg name (segments args) = None
    | Some (data, len) \<Rightarrow> 0 \<le> len \<and> data + nat len \<le> length args \<and> find_arg name (segments args) = Some (take (nat len) (drop data args))"
proof -
  have arg: "ngx_http_arg args name = map_option (arg_value args name) (scan_arg name True args)"
    using arg_loop_scan [OF assms, of args 0] by (simp add: ngx_http_arg_def)
  note seg = scan_arg_segments [OF assms(1,3), of True args]
  show ?thesis
  proof (cases "scan_arg name True args")
    case None
    then show ?thesis using arg seg by simp
  next
    case (Some q)
    let ?d = "drop (q + length name + 1) args"
    have "up_to_amp ?d = take (length (up_to_amp ?d)) ?d" unfolding up_to_amp_def by (metis takeWhile_eq_take)
    moreover have "length (up_to_amp ?d) \<le> length ?d" unfolding up_to_amp_def by (rule length_takeWhile_le)
    moreover have "q + length name + 1 \<le> length args" using scan_arg_inside [OF Some] by simp
    ultimately show ?thesis using Some arg seg by (simp add: arg_value_def)
  qed
qed

theorem ngx_http_arg_correct_witness:
  "ngx_http_arg (bytes ''xid=1&ID=23&id=4'') (bytes ''id'') = Some (9, 2)
    \<and> find_arg (bytes ''id'') (segments (bytes ''xid=1&ID=23&id=4'')) = Some (bytes ''23'')"
proof -
  have a: "ngx_http_arg (bytes ''xid=1&ID=23&id=4'') (bytes ''id'') = Some (9, 2)" by code_simp
  have "take (nat 2) (drop 9 (bytes ''xid=1&ID=23&id=4'')) = bytes ''23''" "bytes ''id'' \<noteq> []" "0 \<notin> set (bytes ''id'')" "ch CHR ''&'' \<notin> set (bytes ''id'')"
    by code_simp+
  then show ?thesis using ngx_http_arg_correct [of "bytes ''id''" "bytes ''xid=1&ID=23&id=4''"] a by simp
qed

section \<open>The header value that is found\<close>

text \<open>Pairs of a name and a value as a client writes them into a header line.\<close>

definition name_ok :: "u_char list \<Rightarrow> bool" where
  "name_ok n \<longleftrightarrow> n \<noteq> [] \<and> set n \<inter> {0, ch CHR '' '', ch CHR ''='', ch CHR '';'', ch CHR '',''} = {}"

definition value_ok :: "u_char list \<Rightarrow> bool" where
  "value_ok v \<longleftrightarrow> set v \<inter> {ch CHR '';'', ch CHR '',''} = {} \<and> (v = [] \<or> hd v \<noteq> ch CHR '' '')"

definition item :: "u_char list \<times> u_char list \<Rightarrow> u_char list" where
  "item p = fst p @ ch CHR ''='' # snd p"

fun header_line :: "(u_char list \<times> u_char list) list \<Rightarrow> u_char list" where
  "header_line [] = []"
| "header_line [p] = item p"
| "header_line (p # ps) = item p @ bytes ''; '' @ header_line ps"

definition same_name :: "u_char list \<Rightarrow> u_char list \<Rightarrow> bool" where
  "same_name m n \<longleftrightarrow> map ngx_tolower m = map ngx_tolower n"

lemma tolower_equals: "ngx_tolower c = ngx_tolower (ch CHR ''='') \<longleftrightarrow> c = ch CHR ''=''"
  by (rule byte_all [of _ c]) code_simp

lemma cstr_append: "0 \<notin> set xs \<Longrightarrow> cstr (xs @ ys) = xs @ cstr ys"
  by (induction xs) auto

lemma skip_spaces_id: "s = [] \<or> hd s \<noteq> ch CHR '' '' \<Longrightarrow> skip_spaces s = s"
  by (cases s) (auto simp: skip_spaces_def)

text \<open>What follows an item: nothing, or a semicolon, a space and something that does not begin with a space.\<close>

definition follows :: "u_char list \<Rightarrow> u_char list \<Rightarrow> bool" where
  "follows rest t \<longleftrightarrow> rest = [] \<and> t = [] \<or> rest = bytes ''; '' @ t \<and> (t = [] \<or> hd t \<noteq> ch CHR '' '')"

lemma mh_skip_item:
  assumes "set x \<inter> {ch CHR '';'', ch CHR '',''} = {}" "follows rest t"
  shows "mh_skip (x @ rest) = t"
proof -
  have "dropWhile (\<lambda>c. c \<noteq> ch CHR '';'' \<and> c \<noteq> ch CHR '','') (x @ rest) = rest"
    using assms by (subst dropWhile_append2) (auto simp: follows_def bytes_def)
  then show ?thesis using assms(2) skip_spaces_id [of t] by (auto simp: mh_skip_def follows_def bytes_def skip_spaces_def)
qed

lemma item_value:
  assumes "value_ok v" "follows rest t"
  shows "takeWhile (\<lambda>c. c \<noteq> ch CHR '';'') (skip_spaces (v @ rest)) = v"
proof -
  have "skip_spaces (v @ rest) = v @ rest"
    using assms by (intro skip_spaces_id) (cases v; auto simp: value_ok_def follows_def bytes_def)
  moreover have "takeWhile (\<lambda>c. c \<noteq> ch CHR '';'') (v @ rest) = v @ takeWhile (\<lambda>c. c \<noteq> ch CHR '';'') rest"
    using assms(1) by (intro takeWhile_append2) (auto simp: value_ok_def)
  moreover have "takeWhile (\<lambda>c. c \<noteq> ch CHR '';'') rest = []" using assms(2) by (auto simp: follows_def bytes_def)
  ultimately show ?thesis by simp
qed

text \<open>A name that matches the beginning of an item is the name of the item, or shorter.\<close>

lemma item_prefix:
  assumes "name_ok n" "name_ok name" "ngx_strncasecmp (n @ ch CHR ''='' # y) name (length name) = 0"
  shows "same_name n name \<or> length name < length n"
proof -
  have z: "cstr name = name" using assms(2) cstr_append [of name "[]"] by (auto simp: name_ok_def)
  have "cstr (n @ ch CHR ''='' # y) = n @ ch CHR ''='' # cstr y" using assms(1) cstr_append [of n] by (auto simp: name_ok_def)
  then have m: "map ngx_tolower (take (length name) (n @ ch CHR ''='' # cstr y)) = map ngx_tolower name"
    using assms(3) z unfolding strncasecmp_eq_0 by simp
  show ?thesis
  proof (cases "length name \<le> length n")
    case True
    then show ?thesis using m by (cases "length name = length n") (simp_all add: same_name_def)
  next
    case False
    then have len: "length n < length name" by simp
    have "map ngx_tolower (take (length name) (n @ ch CHR ''='' # cstr y)) ! length n = ngx_tolower (ch CHR ''='')"
      using len arg_cong [OF m, of length] by (simp add: nth_append)
    then have "ngx_tolower (name ! length n) = ngx_tolower (ch CHR ''='')" unfolding m using len by simp
    then have "name ! length n = ch CHR ''=''" using tolower_equals by blast
    then show ?thesis using nth_mem [OF len] assms(2) by (auto simp: name_ok_def)
  qed
qed

lemma item_match:
  assumes "name_ok n" "same_name n name" "name_ok name"
  shows "ngx_strncasecmp (n @ ch CHR ''='' # y) name (length name) = 0" "drop (length name) (n @ ch CHR ''='' # y) = ch CHR ''='' # y"
proof -
  have len: "length n = length name" using assms(2) unfolding same_name_def by (metis length_map)
  have z: "cstr name = name" using assms(3) cstr_append [of name "[]"] by (auto simp: name_ok_def)
  have "cstr (n @ ch CHR ''='' # y) = n @ ch CHR ''='' # cstr y" using assms(1) cstr_append [of n] by (auto simp: name_ok_def)
  then show "ngx_strncasecmp (n @ ch CHR ''='' # y) name (length name) = 0" unfolding strncasecmp_eq_0
    using assms(2) len z by (simp add: same_name_def)
  show "drop (length name) (n @ ch CHR ''='' # y) = ch CHR ''='' # y" using len by simp
qed

lemma mh_loop_item:
  assumes "name_ok n" "value_ok v" "name_ok name" "follows rest t"
  shows "mh_loop name True (item (n, v) @ rest) = (if same_name n name then Some v else mh_loop name True t)"
proof -
  let ?s = "n @ ch CHR ''='' # v @ rest"
  have s: "item (n, v) @ rest = ?s" "?s \<noteq> []" by (simp_all add: item_def)
  have clean: "set (x @ ch CHR ''='' # v) \<inter> {ch CHR '';'', ch CHR '',''} = {}" if "set x \<subseteq> set n" for x
    using that assms(1,2) by (auto simp: name_ok_def value_ok_def)
  have skip: "mh_skip (x @ ch CHR ''='' # v @ rest) = t" if "set x \<subseteq> set n" for x
    using mh_skip_item [OF clean [OF that] assms(4)] by simp
  have eq: "skip_spaces (ch CHR ''='' # y) = ch CHR ''='' # y" for y by (rule skip_spaces_id) simp
  show ?thesis
  proof (cases "same_name n name")
    case True
    note m = item_match [OF assms(1) True assms(3), of "v @ rest"]
    show ?thesis unfolding s(1) mh_loop.simps [of name True ?s] using s(2) m True item_value [OF assms(2,4)] eq [of "v @ rest"] by (simp add: Let_def)
  next
    case False
    show ?thesis
    proof (cases "ngx_strncasecmp ?s name (length name) = 0")
      case True
      then have len: "length name < length n" using item_prefix [OF assms(1,3)] False by blast
      then obtain c x where x: "drop (length name) n = c # x" "c \<in> set n" "set x \<subseteq> set n"
        by (metis (no_types, lifting) drop_eq_Nil in_set_dropD leD list.exhaust list.set_intros(1) set_drop_subset set_subset_Cons subset_trans)
      have c: "c \<noteq> ch CHR '' ''" "c \<noteq> ch CHR ''=''" using x(2) assms(1) by (auto simp: name_ok_def)
      have d: "skip_spaces (drop (length name) ?s) = c # x @ ch CHR ''='' # v @ rest" using len x(1) c(1) by (simp add: skip_spaces_def)
      show ?thesis unfolding s(1) mh_loop.simps [of name True ?s] using s(2) True False d c(2) skip [OF x(3)] by (simp add: Let_def)
    next
      case no: False
      then show ?thesis unfolding s(1) mh_loop.simps [of name True ?s] using s(2) False skip [of n] by simp
    qed
  qed
qed

lemma name_ok_hd: "name_ok n \<Longrightarrow> hd (n @ x) \<noteq> ch CHR '' '' \<and> hd (n @ x) \<noteq> ch CHR ''=''"
  by (cases n) (auto simp: name_ok_def)

lemma header_line_hd: "\<forall>(n, v) \<in> set ps. name_ok n \<and> value_ok v \<Longrightarrow> header_line ps = [] \<or> hd (header_line ps) \<noteq> ch CHR '' ''"
  using name_ok_hd by (cases ps rule: header_line.cases) (auto simp: item_def)

lemma header_line_follows:
  assumes "\<forall>(n, v) \<in> set ps. name_ok n \<and> value_ok v"
  shows "\<exists>rest. header_line (p # ps) = item p @ rest \<and> follows rest (header_line ps)"
  using header_line_hd [OF assms] by (cases ps) (auto simp: follows_def)

lemma mh_loop_header_line:
  assumes "\<forall>(n, v) \<in> set ps. name_ok n \<and> value_ok v" "name_ok name"
  shows "mh_loop name True (header_line ps) = map_option snd (find (\<lambda>p. same_name (fst p) name) ps)"
  using assms(1)
proof (induction ps)
  case Nil
  show ?case by (simp add: mh_loop.simps)
next
  case (Cons p ps)
  obtain rest where r: "header_line (p # ps) = item p @ rest" "follows rest (header_line ps)"
    using header_line_follows [of ps p] Cons.prems by auto
  then show ?case using mh_loop_item [of "fst p" "snd p" name rest] Cons assms(2) by (cases p) simp
qed

lemma find_length:
  "find (\<lambda>p. same_name (fst p) name) ps = Some q \<Longrightarrow> length name \<le> length (header_line ps)"
proof (induction ps)
  case (Cons p ps)
  have "length (item p) \<le> length (header_line (p # ps))" "length (header_line ps) \<le> length (header_line (p # ps))" by (cases ps; simp)+
  moreover have "length name \<le> length (item p)" if "same_name (fst p) name" using arg_cong [OF that [unfolded same_name_def], of length] by (simp add: item_def)
  ultimately show ?case using Cons by (auto split: if_splits)
qed simp

text \<open>
  C28: For header lines that are lists of \<^verbatim>\<open>name=value\<close> with a semicolon and a space between them, as in \<^verbatim>\<open>Cookie\<close>,
  \<^verbatim>\<open>ngx_http_parse_multi_header_lines\<close> returns the value of the first pair, over all lines in order, whose name is the given one, ignoring case, and
  \<^verbatim>\<open>NULL\<close> when there is none.  Names have no spaces, equals signs or separators, values no separators and no space in front.
\<close>

theorem ngx_http_parse_multi_header_lines_correct:
  assumes "\<forall>(n, v) \<in> set (concat pss). name_ok n \<and> value_ok v" "name_ok name"
  shows "map_option snd (ngx_http_parse_multi_header_lines (map header_line pss) name True) =
    map_option snd (find (\<lambda>p. same_name (fst p) name) (concat pss))"
  using assms(1)
proof (induction pss)
  case (Cons ps pss)
  have find: "find P (xs @ ys) = (case find P xs of None \<Rightarrow> find P ys | Some x \<Rightarrow> Some x)" for P and xs ys :: "'z list" by (induction xs) auto
  have "\<forall>(n, v) \<in> set ps. name_ok n \<and> value_ok v" using Cons.prems by auto
  note line = mh_loop_header_line [OF this assms(2)]
  show ?case using Cons line find_length [of name ps] by (cases "find (\<lambda>p. same_name (fst p) name) ps") (auto simp: find)
qed simp

text \<open>
  The same for \<^verbatim>\<open>Set-Cookie\<close>, where a line has one pair, which attributes may follow.
\<close>

lemma ngx_http_parse_set_cookie_lines_correct:
  assumes "name_ok n" "value_ok v" "name_ok name" "follows rest t"
  shows "ngx_http_parse_set_cookie_lines ((item (n, v) @ rest) # hs) name =
    (if same_name n name then Some (item (n, v) @ rest, v) else ngx_http_parse_set_cookie_lines hs name)"
proof (cases "same_name n name")
  case True
  have "length n = length name" using arg_cong [OF True [unfolded same_name_def], of length] by simp
  then show ?thesis using True item_match [OF assms(1) True assms(3), of "v @ rest"] item_value [OF assms(2,4)] skip_spaces_id [of "ch CHR ''='' # v @ rest"]
    by (simp add: item_def Let_def)
next
  case False
  have "skip_spaces (drop (length name) (n @ ch CHR ''='' # v @ rest)) = drop (length name) n @ ch CHR ''='' # v @ rest
      \<and> hd (drop (length name) n @ ch CHR ''='' # v @ rest) \<noteq> ch CHR ''=''" if "ngx_strncasecmp (n @ ch CHR ''='' # v @ rest) name (length name) = 0"
  proof -
    have len: "length name < length n" using item_prefix [OF assms(1,3) that] False by blast
    then have "drop (length name) n \<noteq> []" by simp
    then have "hd (drop (length name) n) \<in> set n" by (meson hd_in_set in_set_dropD)
    then have "hd (drop (length name) n) \<noteq> ch CHR '' ''" "hd (drop (length name) n) \<noteq> ch CHR ''=''" using assms(1) by (auto simp: name_ok_def)
    then show ?thesis using len skip_spaces_id [of "drop (length name) n @ ch CHR ''='' # v @ rest"] by simp
  qed
  then show ?thesis using False by (auto simp: item_def Let_def)
qed

theorem ngx_http_parse_multi_header_lines_correct_witness:
  "map_option snd (ngx_http_parse_multi_header_lines [bytes ''a=1; sid=x y; b='', bytes ''SID=2''] (bytes ''sid'') True) = Some (bytes ''x y'')"
proof -
  let ?pss = "[[(bytes ''a'', bytes ''1''), (bytes ''sid'', bytes ''x y''), (bytes ''b'', [])], [(bytes ''SID'', bytes ''2'')]]"
  have "\<forall>(n, v) \<in> set (concat ?pss). name_ok n \<and> value_ok v" "name_ok (bytes ''sid'')"
    "map header_line ?pss = [bytes ''a=1; sid=x y; b='', bytes ''SID=2'']"
    "map_option snd (find (\<lambda>p. same_name (fst p) (bytes ''sid'')) (concat ?pss)) = Some (bytes ''x y'')" by code_simp+
  then show ?thesis using ngx_http_parse_multi_header_lines_correct [of ?pss "bytes ''sid''"] by simp
qed

text \<open>Splitting a URI at its first question mark.\<close>

lemma ngx_http_split_args_correct:
  "ch CHR ''?'' \<notin> set path \<Longrightarrow> ngx_http_split_args (path @ ch CHR ''?'' # args) = (path, args)"
  "ch CHR ''?'' \<notin> set path \<Longrightarrow> ngx_http_split_args path = (path, [])"
  by (auto simp: ngx_http_split_args_def strlchr_append [simplified]) (simp add: strlchr_takeWhile)

end
