(* ===== verification/Ngx_Http_Range.thy ===== *)
theory Ngx_Http_Range
  imports Ngx_Http_Args Ngx_Time
begin

text \<open>
  Byte ranges, from \<^verbatim>\<open>http/modules/ngx_http_range_filter_module.c\<close>: \<^verbatim>\<open>ngx_http_range_parse\<close>, which reads the header line \<^verbatim>\<open>Range\<close>,
  and the header filter, which decides whether a part of the response is sent and sets the header of the response accordingly.

  The text behind \<^verbatim>\<open>bytes=\<close> ends with a zero byte, which the end of the list stands for.  Offsets are \<^verbatim>\<open>off_t\<close>, kept as \<^typ>\<open>int\<close>; that they stay in
  their type is a lemma.  Memory comes from \<open>alloc\<close>: given what it is for and the number of bytes, it returns an address or
  \<^verbatim>\<open>NULL\<close>.  A definition with an optional result gives \<^const>\<open>None\<close> where the code would write behind the bytes it has.
\<close>

abbreviation (input) NGX_HTTP_RANGE_NOT_SATISFIABLE :: int where "NGX_HTTP_RANGE_NOT_SATISFIABLE \<equiv> 416"

record ngx_http_range =
  range_start :: int
  range_end :: int
  content_range :: "u_char list"

datatype alloc_site =
    A_ctx | A_array | A_range nat | A_header | A_value
  | A_boundary | A_type | A_content_range nat
  | A_link nat | A_part nat nat | A_final nat

type_synonym allocator = "alloc_site \<Rightarrow> nat \<Rightarrow> nat option"

section \<open>The header line\<close>

text \<open>The digits of a number, with the check against \<^verbatim>\<open>cutoff\<close> and \<^verbatim>\<open>cutlim\<close>; \<^const>\<open>None\<close> when it does not fit.\<close>

fun range_number :: "u_char list \<Rightarrow> int \<Rightarrow> (int \<times> u_char list) option" where
  "range_number [] v = Some (v, [])"
| "range_number (c # p) v =
    (let cutoff = NGX_MAX_OFF_T_VALUE div 10; cutlim = NGX_MAX_OFF_T_VALUE mod 10 in
     if c \<ge> ch CHR ''0'' \<and> c \<le> ch CHR ''9'' then
       if v \<ge> cutoff \<and> (v > cutoff \<or> uint c - 48 > cutlim) then None
       else range_number p (v * 10 + (uint c - 48))
     else Some (v, c # p))"

definition at_digit :: "u_char list \<Rightarrow> bool" where
  "at_digit p \<longleftrightarrow> \<not> (byte_at p < ch CHR ''0'' \<or> byte_at p > ch CHR ''9'')"

text \<open>From the second number on, up to the label \<^verbatim>\<open>found\<close>.\<close>

definition range_last :: "int \<Rightarrow> int \<Rightarrow> bool \<Rightarrow> u_char list \<Rightarrow> int + int \<times> int \<times> u_char list" where
  "range_last content_length start suffix p =
    (if \<not> at_digit p then Inl NGX_HTTP_RANGE_NOT_SATISFIABLE
     else case range_number p 0 of
       None \<Rightarrow> Inl NGX_HTTP_RANGE_NOT_SATISFIABLE
     | Some (e, p) \<Rightarrow>
         let p = skip_spaces p in
         if byte_at p \<noteq> ch CHR '','' \<and> byte_at p \<noteq> 0 then Inl NGX_HTTP_RANGE_NOT_SATISFIABLE
         else let (start, e) =
             (if suffix then (if e < content_length then content_length - e else 0, content_length - 1) else (start, e)) in
           Inr (start, if e \<ge> content_length then content_length else e + 1, p))"

text \<open>One range: its bounds and the text behind it, or the code that is returned.\<close>

definition range_item :: "int \<Rightarrow> u_char list \<Rightarrow> int + int \<times> int \<times> u_char list" where
  "range_item content_length p =
    (let p = skip_spaces p in
     if byte_at p \<noteq> ch CHR ''-'' then
       if \<not> at_digit p then Inl NGX_HTTP_RANGE_NOT_SATISFIABLE
       else case range_number p 0 of
         None \<Rightarrow> Inl NGX_HTTP_RANGE_NOT_SATISFIABLE
       | Some (start, p) \<Rightarrow>
           let p = skip_spaces p in
           if byte_at p \<noteq> ch CHR ''-'' then Inl NGX_HTTP_RANGE_NOT_SATISFIABLE
           else let p = skip_spaces (tl p) in
             if byte_at p = ch CHR '','' \<or> byte_at p = 0 then Inr (start, content_length, p)
             else range_last content_length start False p
     else range_last content_length 0 True (tl p))"

lemma length_range_number: "range_number p v = Some (w, q) \<Longrightarrow> length q \<le> length p"
proof (induction p arbitrary: v)
  case (Cons c p)
  have "range_number p x = Some (w, q) \<Longrightarrow> length q \<le> length (c # p)" for x using Cons.IH [of x] by simp
  then show ?case using Cons.prems by (auto simp: Let_def simp del: list.size split: if_splits)
qed simp

lemma length_range_last: "range_last cl s suf p = Inr (a, b, q) \<Longrightarrow> length q \<le> length p"
  using length_range_number [of p 0] length_skip_spaces
  by (fastforce simp: range_last_def Let_def split: if_splits option.splits intro: order_trans)

lemma length_range_item: "range_item cl p = Inr (a, b, q) \<Longrightarrow> length q \<le> length p"
proof -
  assume r: "range_item cl p = Inr (a, b, q)"
  let ?p = "skip_spaces p"
  have p: "length ?p \<le> length p" by (rule length_skip_spaces)
  have tl: "length (tl x) \<le> length x" for x :: "u_char list" by simp
  show ?thesis
  proof (cases "byte_at ?p = ch CHR ''-''")
    case True
    then show ?thesis using r length_range_last [of cl 0 True "tl ?p" a b q] p tl [of ?p] by (simp add: range_item_def)
  next
    case False
    then obtain s p1 where n: "range_number ?p 0 = Some (s, p1)" using r
      by (auto simp: range_item_def Let_def split: if_splits option.splits)
    have le: "length (skip_spaces (tl (skip_spaces p1))) \<le> length p"
      using length_range_number [OF n] length_skip_spaces [of "tl (skip_spaces p1)"] length_skip_spaces [of p1] tl [of "skip_spaces p1"] p by linarith
    show ?thesis using r False n le length_range_last [of cl s False "skip_spaces (tl (skip_spaces p1))" a b q]
      by (auto simp: range_item_def Let_def split: if_splits)
  qed
qed

text \<open>The loop over the ranges.\<close>

definition range_done :: "int \<Rightarrow> int \<Rightarrow> ngx_http_range list \<Rightarrow> int \<times> ngx_http_range list" where
  "range_done content_length size' rs =
    (if rs = [] then (NGX_HTTP_RANGE_NOT_SATISFIABLE, rs)
     else if size' > content_length then (NGX_DECLINED, rs)
     else (NGX_OK, rs))"

function range_loop ::
    "allocator \<Rightarrow> int \<Rightarrow> u_char list \<Rightarrow> int \<Rightarrow> nat \<Rightarrow> ngx_http_range list \<Rightarrow> int \<times> ngx_http_range list" where
  "range_loop alloc content_length p size' ranges rs =
    (case range_item content_length p of
       Inl rc \<Rightarrow> (rc, rs)
     | Inr (start, e, p) \<Rightarrow>
         if start < e then
           if alloc (A_range (length rs)) 32 = NULL then (NGX_ERROR, rs)
           else let rs = rs @ [\<lparr>range_start = start, range_end = e, content_range = []\<rparr>] in
             if size' > NGX_MAX_OFF_T_VALUE - (e - start) then (NGX_HTTP_RANGE_NOT_SATISFIABLE, rs)
             else let size' = size' + (e - start) in
               if ranges = 0 then (NGX_DECLINED, rs)
               else if byte_at p \<noteq> ch CHR '','' then range_done content_length size' rs
               else range_loop alloc content_length (tl p) size' (ranges - 1) rs
         else if start = 0 then (NGX_DECLINED, rs)
         else if byte_at p \<noteq> ch CHR '','' then range_done content_length size' rs
         else range_loop alloc content_length (tl p) size' ranges rs)"
  by pat_completeness auto
termination
proof (relation "measure (\<lambda>(alloc, cl, p, size', ranges, rs). length p)")
  have less: "length (tl q) < length p" if "range_item cl p = Inr (a, b, q)" "\<not> byte_at q \<noteq> ch CHR '',''" for cl p a b q
    using length_range_item [OF that(1)] that(2) by (cases q) auto
  show "((alloc, cl, tl q, size'', r', rs'), (alloc, cl, p, size', r, rs)) \<in> measure (\<lambda>(alloc, cl, p, size', ranges, rs). length p)"
    if "range_item cl p = Inr x" "(a, y) = x" "(b, q) = y" "\<not> byte_at q \<noteq> ch CHR '',''"
    for alloc :: allocator and cl p x a y b q and size'' size' :: int and r' r :: nat and rs' rs :: "ngx_http_range list"
    using less [of cl p a b q] that by auto
  then show "((alloc, cl, tl q, size'', r', rs'), (alloc, cl, p, size', r, rs)) \<in> measure (\<lambda>(alloc, cl, p, size', ranges, rs). length p)"
    if "range_item cl p = Inr x" "(a, y) = x" "(b, q) = y" "\<not> byte_at q \<noteq> ch CHR '',''"
    for alloc :: allocator and cl p x a y b q and size'' size' :: int and r' r :: nat and rs' rs :: "ngx_http_range list"
    using that by blast
qed simp

declare range_loop.simps [simp del]

text \<open>
  \<^verbatim>\<open>ngx_http_range_parse\<close>: \<open>mctx\<close> are the ranges in the context of the main request, looked at in a subrequest; \<open>v\<close> is the value of
  \<^verbatim>\<open>Range\<close>.
\<close>

definition ngx_http_range_parse ::
    "allocator \<Rightarrow> bool \<Rightarrow> ngx_http_range list option \<Rightarrow> u_char list \<Rightarrow> int \<Rightarrow> nat \<Rightarrow> int \<times> ngx_http_range list" where
  "ngx_http_range_parse alloc main mctx v content_length_n ranges =
    (case if main then None else mctx of
       Some rs \<Rightarrow> (NGX_OK, rs)
     | None \<Rightarrow>
         if alloc A_array 32 = NULL then (NGX_ERROR, [])
         else range_loop alloc content_length_n (drop 6 v) 0 ranges [])"

section \<open>The ranges that are accepted\<close>

definition range_in :: "int \<Rightarrow> ngx_http_range \<Rightarrow> bool" where
  "range_in n rg \<longleftrightarrow> 0 \<le> range_start rg \<and> range_start rg < range_end rg \<and> range_end rg \<le> n"

definition range_size :: "ngx_http_range \<Rightarrow> int" where
  "range_size rg = range_end rg - range_start rg"

lemma range_in_size_make [simp]:
  "range_in n \<lparr>range_start = s, range_end = e, content_range = t\<rparr> \<longleftrightarrow> 0 \<le> s \<and> s < e \<and> e \<le> n"
  "range_size \<lparr>range_start = s, range_end = e, content_range = t\<rparr> = e - s"
  by (simp_all add: range_in_def range_size_def)

lemma range_number_bounds:
  "range_number p v = Some (w, q) \<Longrightarrow> 0 \<le> v \<Longrightarrow> v \<le> NGX_MAX_OFF_T_VALUE \<Longrightarrow> 0 \<le> w \<and> w \<le> NGX_MAX_OFF_T_VALUE"
proof (induction p arbitrary: v)
  case (Cons c p)
  show ?case
  proof (cases "c \<ge> ch CHR ''0'' \<and> c \<le> ch CHR ''9''")
    case True
    then have "48 \<le> uint c" "uint c \<le> 57" by (simp_all add: word_le_def)
    moreover have "range_number p (v * 10 + (uint c - 48)) = Some (w, q)"
      "\<not> (v \<ge> NGX_MAX_OFF_T_VALUE div 10 \<and> (v > NGX_MAX_OFF_T_VALUE div 10 \<or> uint c - 48 > NGX_MAX_OFF_T_VALUE mod 10))"
      using Cons.prems(1) True by (auto simp: Let_def split: if_splits)
    ultimately show ?thesis using Cons.IH [of "v * 10 + (uint c - 48)"] Cons.prems(2) by (auto simp: ngx_consts)
  next
    case False
    then show ?thesis using Cons.prems by (auto simp: Let_def split: if_splits)
  qed
qed simp

lemma range_item_bounds:
  assumes "range_item cl p = Inr (s, e, q)" "0 \<le> cl" "cl \<le> NGX_MAX_OFF_T_VALUE"
  shows "0 \<le> s \<and> e \<le> cl"
proof -
  have "0 \<le> s' \<and> e' \<le> cl" if "range_last cl a suf p' = Inr (s', e', q')" "0 \<le> a" for a suf p' s' e' q'
    using that range_number_bounds [of p' 0] assms(2,3) by (auto simp: range_last_def Let_def split: if_splits option.splits)
  then show ?thesis using assms range_number_bounds [of "skip_spaces p" 0]
    by (auto simp: range_item_def Let_def ngx_consts split: if_splits option.splits)
qed

lemma range_item_error: "range_item cl p = Inl rc \<Longrightarrow> rc = NGX_HTTP_RANGE_NOT_SATISFIABLE"
  by (auto simp: range_item_def range_last_def Let_def split: if_splits option.splits)

lemma range_loop_ok:
  assumes "range_loop alloc cl p sz n rs = (NGX_OK, rs')" "0 \<le> cl" "cl \<le> NGX_MAX_OFF_T_VALUE"
    "list_all (range_in cl) rs" "sz = sum_list (map range_size rs)"
  shows "rs' \<noteq> [] \<and> list_all (range_in cl) rs' \<and> sum_list (map range_size rs') \<le> cl \<and> length rs' \<le> length rs + n"
  using assms
proof (induction alloc cl p sz n rs rule: range_loop.induct)
  case (1 alloc cl p sz n rs)
  obtain s e q where it: "range_item cl p = Inr (s, e, q)" using "1.prems"(1) by (subst (asm) range_loop.simps) (auto split: sum.splits dest: range_item_error)
  note b = range_item_bounds [OF it "1.prems"(2,3)]
  note step = "1.prems"(1) [unfolded range_loop.simps [of alloc cl p sz n rs] it, simplified]
  show ?case
  proof (cases "s < e")
    case True
    let ?rs = "rs @ [\<lparr>range_start = s, range_end = e, content_range = []\<rparr>]"
    have inv: "list_all (range_in cl) ?rs" "sz + (e - s) = sum_list (map range_size ?rs)"
      using "1.prems"(4,5) b True by simp_all
    show ?thesis
    proof (cases "byte_at q = ch CHR '',''")
      case c: True
      have r: "alloc (A_range (length rs)) 32 \<noteq> NULL" "\<not> sz > NGX_MAX_OFF_T_VALUE - (e - s)" "n \<noteq> 0"
        "range_loop alloc cl (tl q) (sz + (e - s)) (n - 1) ?rs = (NGX_OK, rs')"
        using step True c by (auto simp: Let_def split: if_splits)
      show ?thesis using "1.IH"(1) [OF it refl refl True r(1) refl r(2) refl r(3) _ r(4) "1.prems"(2,3) inv] c r(3) by simp
    next
      case False
      then show ?thesis using step True inv by (auto simp: Let_def range_done_def split: if_splits)
    qed
  next
    case False
    show ?thesis
    proof (cases "byte_at q = ch CHR '',''")
      case c: True
      have r: "s \<noteq> 0" "range_loop alloc cl (tl q) sz n rs = (NGX_OK, rs')" using step False c by (auto split: if_splits)
      show ?thesis using "1.IH"(2) [OF it refl refl False r(1) _ r(2) "1.prems"(2,3,4,5)] c by simp
    next
      case c: False
      then show ?thesis using step False "1.prems"(4,5) by (auto simp: range_done_def split: if_splits)
    qed
  qed
qed

text \<open>
  C25: when \<^verbatim>\<open>ngx_http_range_parse\<close> accepts the header line \<^verbatim>\<open>Range\<close> of a main request, there is at least one range and there are at most as many as are allowed;
  each lies in the body and is not empty, and together they are not longer than the body.
\<close>

theorem ngx_http_range_parse_ok:
  assumes "ngx_http_range_parse alloc True mctx v content_length_n ranges = (NGX_OK, rs)"
    "0 \<le> content_length_n" "content_length_n \<le> NGX_MAX_OFF_T_VALUE"
  shows "rs \<noteq> [] \<and> length rs \<le> ranges \<and> list_all (range_in content_length_n) rs \<and>
    sum_list (map range_size rs) \<le> content_length_n"
  using assms range_loop_ok [of alloc content_length_n "drop 6 v" 0 ranges "[]" rs]
  by (auto simp: ngx_http_range_parse_def split: if_splits)

theorem ngx_http_range_parse_ok_witness:
  "ngx_http_range_parse (\<lambda>_ _. Some 0) True None (bytes ''bytes=1-2, -3'') 10 5 =
     (NGX_OK, [\<lparr>range_start = 1, range_end = 3, content_range = []\<rparr>, \<lparr>range_start = 7, range_end = 10, content_range = []\<rparr>]) \<and>
   sum_list (map range_size [\<lparr>range_start = 1, range_end = 3, content_range = []\<rparr>,
     \<lparr>range_start = 7, range_end = 10, content_range = []\<rparr>]) \<le> 10"
proof -
  have "ngx_http_range_parse (\<lambda>_ _. Some 0) True None (bytes ''bytes=1-2, -3'') 10 5 =
     (NGX_OK, [\<lparr>range_start = 1, range_end = 3, content_range = []\<rparr>, \<lparr>range_start = 7, range_end = 10, content_range = []\<rparr>])"
    by code_simp
  from this ngx_http_range_parse_ok [OF this] show ?thesis by (simp add: ngx_consts)
qed

section \<open>Ranges as a client writes them\<close>

text \<open>First and last position with a minus sign between them, commas between the ranges.\<close>

definition range_text :: "int \<times> int \<Rightarrow> u_char list" where
  "range_text r = dec_loop64 (nat (fst r)) [] @ ch CHR ''-'' # dec_loop64 (nat (snd r - 1)) []"

fun ranges_text :: "(int \<times> int) list \<Rightarrow> u_char list" where
  "ranges_text [] = []"
| "ranges_text [r] = range_text r"
| "ranges_text (r # rs) = range_text r @ ch CHR '','' # ranges_text rs"

definition mk_range :: "int \<times> int \<Rightarrow> ngx_http_range" where
  "mk_range r = \<lparr>range_start = fst r, range_end = snd r, content_range = []\<rparr>"

lemma range_number_digits:
  assumes "list_all is_digit ds" "0 \<le> v" "radix_val 10 digit_val v ds \<le> NGX_MAX_OFF_T_VALUE" "\<not> is_digit (byte_at q)"
  shows "range_number (ds @ q) v = Some (radix_val 10 digit_val v ds, q)"
  using assms
proof (induction ds arbitrary: v)
  case Nil
  then show ?case by (cases q) (auto simp: is_digit_def Let_def)
next
  case (Cons c ds)
  have c: "is_digit c" and ds: "list_all is_digit ds" using Cons.prems(1) by auto
  have d: "0 \<le> digit_val c" "digit_val c \<le> 9" "digit_val c = uint c - 48"
    using c by (auto simp: is_digit_def digit_val_def word_le_def)
  let ?v = "v * 10 + digit_val c"
  have "?v \<le> radix_val 10 digit_val ?v ds" using radix_val_ge [of 10 ?v digit_val ds] digits_nonneg [OF ds] Cons.prems(2) d by simp
  then have "?v \<le> NGX_MAX_OFF_T_VALUE" using Cons.prems(3) by simp
  then have "\<not> (v \<ge> NGX_MAX_OFF_T_VALUE div 10 \<and> (v > NGX_MAX_OFF_T_VALUE div 10 \<or> uint c - 48 > NGX_MAX_OFF_T_VALUE mod 10))"
    using cutoff_iff [OF d(1,2)] d(3) by metis
  then show ?case using Cons.IH [of ?v] Cons.prems c d ds by (auto simp: Let_def is_digit_def)
qed

lemma range_number_dec:
  assumes "0 \<le> n" "n \<le> NGX_MAX_OFF_T_VALUE" "\<not> is_digit (byte_at q)"
  shows "range_number (dec_loop64 (nat n) [] @ q) 0 = Some (n, q)"
  using range_number_digits [of "dec_loop64 (nat n) []" 0 q] dec_loop64_digits [of "nat n"] assms by simp

lemma dec_text_start:
  "at_digit (dec_loop64 n [] @ q)" "skip_spaces (dec_loop64 n [] @ q) = dec_loop64 n [] @ q"
  "byte_at (dec_loop64 n [] @ q) \<notin> {0, ch CHR ''-'', ch CHR '',''}"
proof -
  obtain c ds where c: "dec_loop64 n [] = c # ds" using dec_loop64_nonempty [of n] by (cases "dec_loop64 n []") auto
  then have "is_digit c" using dec_loop64_digits [of n] by simp
  then have "ch CHR ''0'' \<le> c" "c \<le> ch CHR ''9''" by (simp_all add: is_digit_def)
  then show "at_digit (dec_loop64 n [] @ q)" "skip_spaces (dec_loop64 n [] @ q) = dec_loop64 n [] @ q"
    "byte_at (dec_loop64 n [] @ q) \<notin> {0, ch CHR ''-'', ch CHR '',''}"
    by (auto simp: c at_digit_def skip_spaces_def not_less word_le_def)
qed

lemma range_item_text:
  assumes "0 \<le> s" "s < e" "e \<le> cl" "cl \<le> NGX_MAX_OFF_T_VALUE" "q = [] \<or> hd q = ch CHR '',''"
  shows "range_item cl (range_text (s, e) @ q) = Inr (s, e, q)"
proof -
  have q: "\<not> is_digit (byte_at q)" "skip_spaces q = q" "byte_at q = ch CHR '','' \<or> byte_at q = 0"
    using assms(5) by (cases q; auto simp: is_digit_def skip_spaces_def)+
  have m: "\<not> is_digit (ch CHR ''-'')" "skip_spaces (ch CHR ''-'' # x) = ch CHR ''-'' # x" for x
    by (simp_all add: is_digit_def skip_spaces_def)
  have "range_number (dec_loop64 (nat s) [] @ ch CHR ''-'' # dec_loop64 (nat (e - 1)) [] @ q) 0 =
      Some (s, ch CHR ''-'' # dec_loop64 (nat (e - 1)) [] @ q)"
    using assms m by (intro range_number_dec) auto
  moreover have "range_number (dec_loop64 (nat (e - 1)) [] @ q) 0 = Some (e - 1, q)"
    using assms q by (intro range_number_dec) auto
  ultimately show ?thesis using assms(3) q m dec_text_start
    by (auto simp: range_item_def range_last_def range_text_def Let_def)
qed

lemma ranges_text_Cons: "\<exists>q. ranges_text (r # rs) = range_text r @ q \<and> (if rs = [] then q = [] else q = ch CHR '','' # ranges_text rs)"
  by (cases rs) auto

lemma range_loop_text:
  assumes "rs \<noteq> []" "list_all (\<lambda>r. range_in cl (mk_range r)) rs" "0 \<le> sz" "sz + sum_list (map (\<lambda>(s, e). e - s) rs) \<le> cl"
    "cl \<le> NGX_MAX_OFF_T_VALUE" "length rs \<le> n" "\<forall>site. alloc site 32 \<noteq> NULL"
  shows "range_loop alloc cl (ranges_text rs) sz n acc = (NGX_OK, acc @ map mk_range rs)"
  using assms
proof (induction rs arbitrary: sz n acc)
  case (Cons r rs)
  obtain s e where r: "r = (s, e)" by force
  obtain q where q: "ranges_text (r # rs) = range_text r @ q" "if rs = [] then q = [] else q = ch CHR '','' # ranges_text rs"
    using ranges_text_Cons by blast
  have se: "0 \<le> s" "s < e" "e \<le> cl" using Cons.prems(2) r by (auto simp: mk_range_def)
  have nn: "0 \<le> sum_list (map (\<lambda>(s, e). e - s) rs)"
    using Cons.prems(2) by (intro sum_list_nonneg) (auto simp: list_all_iff mk_range_def)
  have it: "range_item cl (ranges_text (r # rs)) = Inr (s, e, q)"
    using range_item_text [OF se Cons.prems(5), of q] q by (auto simp: r split: if_splits)
  have mk: "mk_range r = \<lparr>range_start = s, range_end = e, content_range = []\<rparr>" by (simp add: mk_range_def r)
  have fit: "\<not> sz > NGX_MAX_OFF_T_VALUE - (e - s)" "n \<noteq> 0" using Cons.prems nn r by auto
  show ?case
  proof (cases "rs = []")
    case True
    then show ?thesis using it q(2) se fit Cons.prems r mk
      by (subst range_loop.simps) (simp add: range_done_def)
  next
    case False
    have "range_loop alloc cl (ranges_text rs) (sz + (e - s)) (n - 1) (acc @ [mk_range r]) =
        (NGX_OK, (acc @ [mk_range r]) @ map mk_range rs)"
      using Cons.prems r False se fit(2) by (intro Cons.IH) auto
    then show ?thesis using it q(2) se fit Cons.prems(7) mk False by (subst range_loop.simps) simp
  qed
qed simp

text \<open>
  Ranges written the way clients write them, first and last position in decimal, are taken as they are, if they lie in the body, are not longer
  than it together and are not too many.
\<close>

lemma ngx_http_range_parse_text:
  assumes "rs \<noteq> []" "\<forall>(s, e) \<in> set rs. 0 \<le> s \<and> s < e \<and> e \<le> content_length_n"
    "sum_list (map (\<lambda>(s, e). e - s) rs) \<le> content_length_n" "content_length_n \<le> NGX_MAX_OFF_T_VALUE"
    "length rs \<le> ranges" "\<forall>site. alloc site 32 \<noteq> NULL"
  shows "ngx_http_range_parse alloc True mctx (bytes ''bytes='' @ ranges_text rs) content_length_n ranges =
    (NGX_OK, map mk_range rs)"
proof -
  have "list_all (\<lambda>r. range_in content_length_n (mk_range r)) rs" using assms(2) by (auto simp: list_all_iff mk_range_def)
  then have "range_loop alloc content_length_n (ranges_text rs) 0 ranges [] = (NGX_OK, [] @ map mk_range rs)"
    using assms by (intro range_loop_text) auto
  moreover have "drop 6 (bytes ''bytes='' @ t) = t" for t by (simp add: bytes_def)
  ultimately show ?thesis using assms(6) by (simp add: ngx_http_range_parse_def)
qed

end
