(* ===== verification/Ngx_Http_Range_Filter.thy ===== *)
theory Ngx_Http_Range_Filter
  imports Ngx_Http_Range
begin

text \<open>
  The filters of \<^verbatim>\<open>http/modules/ngx_http_range_filter_module.c\<close>.  The header filter decides whether a part of the response is sent and
  sets the header of the response; the body filter passes that part of the body, in one piece or as \<^verbatim>\<open>multipart/byteranges\<close>.

  The fields of \<^verbatim>\<open>headers_in\<close> and \<^verbatim>\<open>headers_out\<close> that the module uses are fields of one record; a header line with \<^verbatim>\<open>hash = 0\<close> is not sent, so that only
  the line \<^verbatim>\<open>Content-Range\<close> that \<^verbatim>\<open>headers_out\<close> points to is kept.  After \<^verbatim>\<open>NGX_ERROR\<close> the request is closed; the model keeps nothing of
  it.  The results \<open>Header_Next\<close> and \<open>Body_Next\<close> are calls of the next filter.
\<close>

section \<open>The header filter\<close>

abbreviation (input) NGX_HTTP_VERSION_10 :: nat where "NGX_HTTP_VERSION_10 \<equiv> 1000"
abbreviation (input) NGX_HTTP_OK :: int where "NGX_HTTP_OK \<equiv> 200"
abbreviation (input) NGX_HTTP_PARTIAL_CONTENT :: int where "NGX_HTTP_PARTIAL_CONTENT \<equiv> 206"

definition NGX_OFF_T_LEN :: nat where "NGX_OFF_T_LEN = 20"

record range_request =
  http_version :: nat
  is_main :: bool
  subrequest_ranges :: bool
  allow_ranges :: bool
  single_range :: bool
  max_ranges :: nat
  in_range :: "u_char list option"
  in_if_range :: "u_char list option"
  main_ranges :: "ngx_http_range list option"
  out_status :: int
  out_status_line :: "u_char list"
  out_content_length_n :: int
  out_content_length :: "u_char list option"
  out_content_offset :: int
  out_etag :: "u_char list option"
  out_last_modified_time :: int
  out_content_type :: "u_char list"
  out_content_type_len :: nat
  out_content_type_lowcase :: "u_char list option"
  out_charset :: "u_char list"
  out_content_range :: "u_char list option"
  out_accept_ranges :: bool

record range_ctx =
  ctx_offset :: int
  ctx_ranges :: "ngx_http_range list"
  boundary_header :: "u_char list"

datatype header_result =
    Header_Error
  | Header_Not_Satisfiable range_request
  | Header_Next range_request "range_ctx option"

text \<open>
  \<^verbatim>\<open>ngx_pnalloc\<close> of \<open>n\<close> bytes and \<^verbatim>\<open>ngx_sprintf\<close> into them: \<^const>\<open>None\<close> when more than \<open>n\<close> bytes are written, \<open>Some None\<close> when there
  is no memory.
\<close>

definition print_block :: "allocator \<Rightarrow> alloc_site \<Rightarrow> nat \<Rightarrow> u_char list \<Rightarrow> varg list \<Rightarrow> u_char list option option" where
  "print_block alloc site n fmt args =
    (case alloc site n of
       None \<Rightarrow> Some None
     | Some a \<Rightarrow>
         (case ngx_sprintf a fmt args of
            None \<Rightarrow> None
          | Some t \<Rightarrow> if length t > n then None else Some (Some t)))"

definition ngx_http_range_singlepart_header :: "allocator \<Rightarrow> range_request \<Rightarrow> range_ctx \<Rightarrow> header_result option" where
  "ngx_http_range_singlepart_header alloc r ctx =
    (if \<not> is_main r then Some (Header_Next r (Some ctx))
     else if alloc A_header 56 = NULL then Some Header_Error
     else let rg = hd (ctx_ranges ctx) in
       case print_block alloc A_value (8 + 3 * NGX_OFF_T_LEN) (bytes ''bytes %O-%O/%O'')
           [V_int (range_start rg), V_int (range_end rg - 1), V_int (out_content_length_n r)] of
         None \<Rightarrow> None
       | Some None \<Rightarrow> Some Header_Error
       | Some (Some t) \<Rightarrow>
           Some (Header_Next (r\<lparr>out_content_range := Some t,
               out_content_length_n := range_end rg - range_start rg,
               out_content_offset := range_start rg,
               out_content_length := None\<rparr>) (Some ctx)))"

text \<open>The loop of \<^verbatim>\<open>ngx_http_range_multipart_header\<close> over the ranges.\<close>

fun part_ranges :: "allocator \<Rightarrow> int \<Rightarrow> int \<Rightarrow> nat \<Rightarrow> ngx_http_range list \<Rightarrow> int \<Rightarrow> (ngx_http_range list \<times> int) option option" where
  "part_ranges alloc content_length_n blen i [] len = Some (Some ([], len))"
| "part_ranges alloc content_length_n blen i (rg # rs) len =
    (case print_block alloc (A_content_range i) (3 * NGX_OFF_T_LEN + 2 + 4) (bytes ''%O-%O/%O'' @ [CR, LF, CR, LF])
         [V_int (range_start rg), V_int (range_end rg - 1), V_int content_length_n] of
       None \<Rightarrow> None
     | Some None \<Rightarrow> Some None
     | Some (Some t) \<Rightarrow>
         (case part_ranges alloc content_length_n blen (i + 1) rs
             (len + (blen + int (length t) + (range_end rg - range_start rg))) of
            Some (Some (rs', len')) \<Rightarrow> Some (Some (rg\<lparr>content_range := t\<rparr> # rs', len'))
          | x \<Rightarrow> x))"

definition boundary_size :: "range_request \<Rightarrow> nat" where
  "boundary_size r =
    4 + NGX_ATOMIC_T_LEN + 16 + length (out_content_type r) + 23 +
    (if out_content_type_len r = length (out_content_type r) \<and> length (out_charset r) \<noteq> 0
     then 10 + length (out_charset r) else 0)"

definition boundary_print :: "allocator \<Rightarrow> nat \<Rightarrow> range_request \<Rightarrow> u_char list option option" where
  "boundary_print alloc boundary r =
    (let print = print_block alloc A_boundary (boundary_size r) in
     if out_content_type_len r = length (out_content_type r) \<and> length (out_charset r) \<noteq> 0 then
       print ([CR, LF] @ bytes ''--%0muA'' @ [CR, LF] @ bytes ''Content-Type: %V; charset=%V'' @ [CR, LF] @ bytes ''Content-Range: bytes '')
         [V_int (int boundary), V_str (out_content_type r), V_str (out_charset r)]
     else if length (out_content_type r) \<noteq> 0 then
       print ([CR, LF] @ bytes ''--%0muA'' @ [CR, LF] @ bytes ''Content-Type: %V'' @ [CR, LF] @ bytes ''Content-Range: bytes '')
         [V_int (int boundary), V_str (out_content_type r)]
     else print ([CR, LF] @ bytes ''--%0muA'' @ [CR, LF] @ bytes ''Content-Range: bytes '') [V_int (int boundary)])"

text \<open>\<open>boundary\<close> is the number from \<^verbatim>\<open>ngx_next_temp_number\<close>.\<close>

definition ngx_http_range_multipart_header ::
    "allocator \<Rightarrow> nat \<Rightarrow> range_request \<Rightarrow> range_ctx \<Rightarrow> header_result option" where
  "ngx_http_range_multipart_header alloc boundary r ctx =
    (case boundary_print alloc boundary r of
       None \<Rightarrow> None
     | Some None \<Rightarrow> Some Header_Error
     | Some (Some bh) \<Rightarrow>
         (case print_block alloc A_type (45 + NGX_ATOMIC_T_LEN) (bytes ''multipart/byteranges; boundary=%0muA'') [V_int (int boundary)] of
            None \<Rightarrow> None
          | Some None \<Rightarrow> Some Header_Error
          | Some (Some ct) \<Rightarrow>
              (case part_ranges alloc (out_content_length_n r) (int (length bh)) 0 (ctx_ranges ctx) (int (4 + NGX_ATOMIC_T_LEN + 4)) of
                 None \<Rightarrow> None
               | Some None \<Rightarrow> Some Header_Error
               | Some (Some (rs, len)) \<Rightarrow>
                   Some (Header_Next (r\<lparr>out_content_type := ct,
                       out_content_type_len := length ct,
                       out_content_type_lowcase := None,
                       out_charset := [],
                       out_content_length_n := len,
                       out_content_length := None,
                       out_content_range := None\<rparr>) (Some (ctx\<lparr>ctx_ranges := rs, boundary_header := bh\<rparr>))))))"

definition ngx_http_range_not_satisfiable :: "allocator \<Rightarrow> range_request \<Rightarrow> header_result option" where
  "ngx_http_range_not_satisfiable alloc r =
    (if alloc A_header 56 = NULL then Some Header_Error
     else case print_block alloc A_value (8 + NGX_OFF_T_LEN) (bytes ''bytes */%O'') [V_int (out_content_length_n r)] of
         None \<Rightarrow> None
       | Some None \<Rightarrow> Some Header_Error
       | Some (Some t) \<Rightarrow>
           Some (Header_Not_Satisfiable (r\<lparr>out_status := NGX_HTTP_RANGE_NOT_SATISFIABLE,
               out_content_range := Some t,
               out_content_length_n := - 1,
               out_content_length := None\<rparr>)))"

text \<open>Whether \<^verbatim>\<open>If-Range\<close> lets the ranges count: the tag of the response in quotes, or the time of its last change.\<close>

definition if_range_holds :: "range_request \<Rightarrow> bool option" where
  "if_range_holds r =
    (case in_if_range r of
       None \<Rightarrow> Some True
     | Some v \<Rightarrow>
         if length v \<ge> 2 \<and> v ! (length v - 1) = 34 then
           Some (case out_etag r of
              None \<Rightarrow> False
            | Some etag \<Rightarrow> length v = length etag \<and> ngx_strncmp v etag (length etag) = 0)
         else if out_last_modified_time r = - 1 then Some False
         else case ngx_parse_http_time v of
             Ok t \<Rightarrow> Some (t = out_last_modified_time r)
           | Err \<Rightarrow> Some (- 1 = out_last_modified_time r)
           | Oob \<Rightarrow> None)"

text \<open>The label \<^verbatim>\<open>next_filter\<close>.\<close>

definition accept_ranges_next :: "allocator \<Rightarrow> range_request \<Rightarrow> header_result" where
  "accept_ranges_next alloc r =
    (if alloc A_header 56 = NULL then Header_Error else Header_Next (r\<lparr>out_accept_ranges := True\<rparr>) None)"

text \<open>The label \<^verbatim>\<open>parse\<close>.\<close>

definition range_header_parse :: "allocator \<Rightarrow> nat \<Rightarrow> range_request \<Rightarrow> u_char list \<Rightarrow> header_result option" where
  "range_header_parse alloc boundary r v =
    (if alloc A_ctx 64 = NULL then Some Header_Error
     else
       let ranges = (if single_range r then 1 else max_ranges r);
           (rc, rs) = ngx_http_range_parse alloc (is_main r) (main_ranges r) v (out_content_length_n r) ranges;
           ctx = \<lparr>ctx_offset = out_content_offset r, ctx_ranges = rs, boundary_header = []\<rparr> in
       if rc = NGX_OK then
         let r = r\<lparr>out_status := NGX_HTTP_PARTIAL_CONTENT, out_status_line := []\<rparr> in
         if length rs = 1 then ngx_http_range_singlepart_header alloc r ctx
         else ngx_http_range_multipart_header alloc boundary r ctx
       else if rc = NGX_HTTP_RANGE_NOT_SATISFIABLE then ngx_http_range_not_satisfiable alloc r
       else if rc = NGX_ERROR then Some Header_Error
       else Some (accept_ranges_next alloc r))"

definition ngx_http_range_header_filter :: "allocator \<Rightarrow> nat \<Rightarrow> range_request \<Rightarrow> header_result option" where
  "ngx_http_range_header_filter alloc boundary r =
    (if http_version r < NGX_HTTP_VERSION_10 \<or> out_status r \<noteq> NGX_HTTP_OK \<or>
        (\<not> is_main r \<and> \<not> subrequest_ranges r) \<or> out_content_length_n r = - 1 \<or> \<not> allow_ranges r \<or> max_ranges r = 0
     then Some (Header_Next r None)
     else case in_range r of
         None \<Rightarrow> Some (accept_ranges_next alloc r)
       | Some v \<Rightarrow>
           if length v < 7 \<or> ngx_strncasecmp v (bytes ''bytes='') 6 \<noteq> 0 then Some (accept_ranges_next alloc r)
           else case if_range_holds r of
               None \<Rightarrow> None
             | Some False \<Rightarrow> Some (accept_ranges_next alloc r)
             | Some True \<Rightarrow> range_header_parse alloc boundary r v)"

section \<open>Printing\<close>

lemma vslprintf_text:
  "list_all (\<lambda>c. c \<noteq> 0 \<and> c \<noteq> ch CHR ''%'') t \<Longrightarrow> length out + length t \<le> lim \<Longrightarrow>
    ngx_vslprintf lim (t @ fmt) args out = ngx_vslprintf lim fmt args (out @ t)"
  by (induction t arbitrary: out) auto

lemma sprintf_digits_dec: "sprintf_digits n 0 = dec_loop64 n []"
  by (simp add: sprintf_digits_eq)

lemma dec_loop64_19: "n < 2 ^ 63 \<Longrightarrow> length (dec_loop64 n []) \<le> 19"
  by (rule dec_loop64_length) auto

text \<open>The directives, with the codes of their letters.\<close>

lemma vslprintf_O:
  assumes "0 \<le> x" "x \<le> NGX_MAX_OFF_T_VALUE" "length out + 19 \<le> lim"
  shows "ngx_vslprintf lim (37 # 79 # fmt) (V_int x # args) out =
    ngx_vslprintf lim fmt args (out @ dec_loop64 (nat x) [])"
proof -
  have x: "nat x < 2 ^ 63" using assms(2) by (simp add: ngx_consts)
  have s: "signed_take_bit 63 x = x" using assms(1,2) by (simp add: signed_take_bit_int_eq_self ngx_consts)
  have "ngx_sprintf_num lim (nat x) z 0 0 out = out @ dec_loop64 (nat x) []" for z
    using sprintf_num_room [of out 0 "nat x" 0 lim z] dec_loop64_19 [OF x] assms(3) by (simp add: sprintf_digits_dec)
  then show ?thesis using assms s
    by (simp add: fmt_directive_def Let_def fmt_conv_def conv_int_def fmt_number_def)
qed

lemma vslprintf_V:
  assumes "length out + length s \<le> lim" "length out < lim"
  shows "ngx_vslprintf lim (37 # 86 # fmt) (V_str s # args) out = ngx_vslprintf lim fmt args (out @ s)"
  using assms by (simp add: fmt_directive_def Let_def fmt_conv_def conv_str_def ngx_sprintf_str_def)

text \<open>The number with leading zeros, as \<^verbatim>\<open>%0muA\<close> prints it.\<close>

definition boundary_text :: "nat \<Rightarrow> u_char list" where
  "boundary_text n = replicate (20 - length (dec_loop64 n [])) (ch CHR ''0'') @ dec_loop64 n []"

lemma length_boundary_text [simp]: "n < 2 ^ 64 \<Longrightarrow> length (boundary_text n) = 20"
  using sprintf_digits_fit [of n 0] by (simp add: boundary_text_def sprintf_digits_dec)

lemma vslprintf_0muA:
  assumes "n < 2 ^ 64" "length out + 20 \<le> lim"
  shows "ngx_vslprintf lim (37 # 48 # 109 # 117 # 65 # fmt) (V_int (int n) # args) out =
    ngx_vslprintf lim fmt args (out @ boundary_text n)"
proof -
  have n: "take_bit 64 (int n) = int n" using assms(1) by (simp add: take_bit_int_eq_self)
  have "ngx_sprintf_num lim n (ch CHR ''0'') 0 20 out = out @ boundary_text n"
    using sprintf_num_room [of out 20 n 0 lim "ch CHR ''0''"] sprintf_digits_fit [OF assms(1), of 0] assms(2)
    by (simp add: sprintf_digits_dec boundary_text_def)
  then show ?thesis using assms n
    by (simp add: fmt_directive_def Let_def fmt_conv_def conv_int_def fmt_number_def NGX_ATOMIC_T_LEN_def)
qed

lemma vslprintf_bytes:
  assumes "list_all (\<lambda>c. ch c \<noteq> 0 \<and> ch c \<noteq> ch CHR ''%'') s" "length out + length s \<le> lim"
  shows "ngx_vslprintf lim (bytes s @ fmt) args out = ngx_vslprintf lim fmt args (out @ bytes s)"
  using assms by (intro vslprintf_text) (simp_all add: bytes_def list_all_iff)

lemma vslprintf_last:
  assumes "list_all (\<lambda>c. ch c \<noteq> 0 \<and> ch c \<noteq> ch CHR ''%'') s" "length out + length s \<le> lim"
  shows "ngx_vslprintf lim (bytes s) args out = Some (out @ bytes s)"
  using vslprintf_bytes [OF assms, of "[]"] by simp

lemma vslprintf_crlf:
  "length out + 2 \<le> lim \<Longrightarrow> ngx_vslprintf lim (13 # 10 # fmt) args out = ngx_vslprintf lim fmt args (out @ [13, 10])"
  by simp

lemmas vslprintf_steps = ngx_vslprintf.simps(1) vslprintf_last vslprintf_crlf vslprintf_bytes vslprintf_O vslprintf_V vslprintf_0muA

lemma format_pieces:
  "bytes ''--%0muA'' @ q = bytes ''--'' @ 37 # 48 # 109 # 117 # 65 # q"
  "bytes ''Content-Type: %V'' @ q = bytes ''Content-Type: '' @ 37 # 86 # q"
  "bytes ''Content-Type: %V; charset=%V'' @ q = bytes ''Content-Type: '' @ 37 # 86 # bytes ''; charset='' @ 37 # 86 # q"
  "bytes ''multipart/byteranges; boundary=%0muA'' = bytes ''multipart/byteranges; boundary='' @ [37, 48, 109, 117, 65]"
  "bytes ''bytes */%O'' = bytes ''bytes */'' @ [37, 79]"
  "bytes ''bytes %O-%O/%O'' = bytes ''bytes '' @ bytes ''%O-%O/%O'' @ []"
  by (simp_all add: bytes_def)

text \<open>The blocks of memory lie below the end of the address space.\<close>

definition room :: "allocator \<Rightarrow> bool" where
  "room alloc \<longleftrightarrow> (\<forall>site n a. alloc site n = Some a \<longrightarrow> a + n < 2 ^ 64)"

lemma print_block_eq:
  assumes "room alloc" "\<And>lim. n \<le> lim \<Longrightarrow> ngx_vslprintf lim fmt args [] = Some t" "length t \<le> n"
  shows "print_block alloc site n fmt args = Some (case alloc site n of NULL \<Rightarrow> None | Some a \<Rightarrow> Some t)"
proof (cases "alloc site n")
  case (Some a)
  then have "n \<le> 2 ^ 64 - 1 - a" using assms(1) by (fastforce simp: room_def)
  from assms(2) [OF this] Some assms(3) show ?thesis by (simp add: print_block_def ngx_sprintf_def)
qed (simp add: print_block_def)

definition range_value :: "ngx_http_range \<Rightarrow> int \<Rightarrow> u_char list" where
  "range_value rg n = dec_loop64 (nat (range_start rg)) [] @ bytes ''-'' @ dec_loop64 (nat (range_end rg - 1)) [] @ bytes ''/'' @ dec_loop64 (nat n) []"

lemma dec_int_19: "x \<le> NGX_MAX_OFF_T_VALUE \<Longrightarrow> length (dec_loop64 (nat x) []) \<le> 19"
  by (rule dec_loop64_19) (simp add: ngx_consts)

lemma length_bytes [simp]: "length (bytes s) = length s"
  by (simp add: bytes_def)

text \<open>What is needed of the numbers that are printed.\<close>

definition printable :: "int \<Rightarrow> ngx_http_range \<Rightarrow> bool" where
  "printable n rg \<longleftrightarrow> 0 \<le> n \<and> n \<le> NGX_MAX_OFF_T_VALUE \<and> range_in NGX_MAX_OFF_T_VALUE rg"

lemma printable_bounds:
  assumes "printable n rg"
  shows "0 \<le> range_start rg" "range_start rg \<le> NGX_MAX_OFF_T_VALUE" "0 \<le> range_end rg - 1" "range_end rg - 1 \<le> NGX_MAX_OFF_T_VALUE"
    "0 \<le> n" "n \<le> NGX_MAX_OFF_T_VALUE"
  using assms by (auto simp: printable_def range_in_def)

lemma length_range_value:
  assumes "printable n rg"
  shows "length (range_value rg n) \<le> 59"
  using printable_bounds [OF assms] dec_int_19 [of "range_start rg"] dec_int_19 [of "range_end rg - 1"] dec_int_19 [of n]
  by (simp add: range_value_def)

lemma vslprintf_range:
  assumes "printable n rg" "length out + 59 \<le> lim"
  shows "ngx_vslprintf lim (bytes ''%O-%O/%O'' @ fmt) (V_int (range_start rg) # V_int (range_end rg - 1) # V_int n # args) out =
    ngx_vslprintf lim fmt args (out @ range_value rg n)"
proof -
  note b = printable_bounds [OF assms(1)]
  note l = dec_int_19 [OF b(2)] dec_int_19 [OF b(4)] dec_int_19 [OF b(6)]
  show ?thesis using b l assms(2) vslprintf_text [of "[45]"] vslprintf_text [of "[47]"]
    by (simp add: vslprintf_O range_value_def bytes_def del: ngx_vslprintf.simps)
qed

definition boundary_value :: "nat \<Rightarrow> range_request \<Rightarrow> u_char list" where
  "boundary_value boundary r =
    [CR, LF] @ bytes ''--'' @ boundary_text boundary @ [CR, LF] @
    (if out_content_type_len r = length (out_content_type r) \<and> out_charset r \<noteq> [] then
       bytes ''Content-Type: '' @ out_content_type r @ bytes ''; charset='' @ out_charset r @ [CR, LF]
     else if out_content_type r \<noteq> [] then bytes ''Content-Type: '' @ out_content_type r @ [CR, LF]
     else []) @ bytes ''Content-Range: bytes ''"

lemma length_boundary_value: "n < 2 ^ 64 \<Longrightarrow> length (boundary_value n r) \<le> boundary_size r"
  by (simp add: boundary_value_def boundary_size_def NGX_ATOMIC_T_LEN_def)


lemma boundary_print_eq:
  assumes "room alloc" "n < 2 ^ 64"
  shows "boundary_print alloc n r =
    Some (case alloc A_boundary (boundary_size r) of NULL \<Rightarrow> None | Some a \<Rightarrow> Some (boundary_value n r))"
proof -
  note fit = length_boundary_value [OF assms(2), of r]
  have eq: "print_block alloc A_boundary (boundary_size r) fmt args =
      Some (case alloc A_boundary (boundary_size r) of NULL \<Rightarrow> None | Some a \<Rightarrow> Some (boundary_value n r))"
    if "\<And>lim. boundary_size r \<le> lim \<Longrightarrow> ngx_vslprintf lim fmt args [] = Some (boundary_value n r)" for fmt args
    using print_block_eq [OF assms(1) that fit] .
  note steps = format_pieces vslprintf_steps boundary_value_def boundary_size_def NGX_ATOMIC_T_LEN_def
  consider (charset) "out_content_type_len r = length (out_content_type r)" "out_charset r \<noteq> []"
    | (type) "\<not> (out_content_type_len r = length (out_content_type r) \<and> out_charset r \<noteq> [])" "out_content_type r \<noteq> []"
    | (none) "\<not> (out_content_type_len r = length (out_content_type r) \<and> out_charset r \<noteq> [])" "out_content_type r = []" by blast
  then show ?thesis
  proof cases
    case charset
    then show ?thesis unfolding boundary_print_def Let_def
      using assms(2) by (simp del: append.simps ngx_vslprintf.simps, intro eq) (simp add: steps del: ngx_vslprintf.simps(2))
  next
    case type
    then have c: "(out_content_type_len r = length (out_content_type r) \<and> length (out_charset r) \<noteq> 0) = False"
      "(length (out_content_type r) \<noteq> 0) = True" by auto
    show ?thesis unfolding boundary_print_def Let_def c if_True if_False
      using assms(2) type by (intro eq) (auto simp add: steps simp del: ngx_vslprintf.simps(2))
  next
    case none
    then have c: "(out_content_type_len r = length (out_content_type r) \<and> length (out_charset r) \<noteq> 0) = False"
      "(length (out_content_type r) \<noteq> 0) = False" by auto
    show ?thesis unfolding boundary_print_def Let_def c if_False
      using assms(2) none by (intro eq) (auto simp add: steps simp del: ngx_vslprintf.simps(2))
  qed
qed

lemma print_range_eq:
  assumes "room alloc" "printable n rg" "59 + length pre + length post \<le> k"
    "list_all (\<lambda>c. ch c \<noteq> 0 \<and> ch c \<noteq> ch CHR ''%'') pre" "list_all (\<lambda>c. c \<noteq> 0 \<and> c \<noteq> ch CHR ''%'') post"
  shows "print_block alloc site k (bytes pre @ bytes ''%O-%O/%O'' @ post)
      [V_int (range_start rg), V_int (range_end rg - 1), V_int n] =
    Some (case alloc site k of NULL \<Rightarrow> None | Some a \<Rightarrow> Some (bytes pre @ range_value rg n @ post))"
proof (rule print_block_eq [OF assms(1)])
  note l = length_range_value [OF assms(2)]
  show "length (bytes pre @ range_value rg n @ post) \<le> k" using l assms(3) by simp
  fix lim assume lim: "k \<le> lim"
  have "ngx_vslprintf lim (post @ []) [] (bytes pre @ range_value rg n) = Some (bytes pre @ range_value rg n @ post)"
    using lim l assms(3) by (subst vslprintf_text [OF assms(5)]) auto
  then show "ngx_vslprintf lim (bytes pre @ bytes ''%O-%O/%O'' @ post) [V_int (range_start rg), V_int (range_end rg - 1), V_int n] [] =
      Some (bytes pre @ range_value rg n @ post)"
    using lim assms by (simp add: vslprintf_bytes vslprintf_range del: ngx_vslprintf.simps)
qed

lemma print_part_eq:
  assumes "room alloc" "printable n rg"
  shows "print_block alloc site (3 * NGX_OFF_T_LEN + 2 + 4) (bytes ''%O-%O/%O'' @ [CR, LF, CR, LF])
      [V_int (range_start rg), V_int (range_end rg - 1), V_int n] =
    Some (case alloc site (3 * NGX_OFF_T_LEN + 2 + 4) of NULL \<Rightarrow> None | Some a \<Rightarrow> Some (range_value rg n @ [CR, LF, CR, LF]))"
proof -
  have "bytes [] = []" by (simp add: bytes_def)
  then show ?thesis using print_range_eq [OF assms, of "[]" "[CR, LF, CR, LF]"] by (simp add: NGX_OFF_T_LEN_def split: option.split)
qed

definition part_range :: "int \<Rightarrow> ngx_http_range \<Rightarrow> ngx_http_range" where
  "part_range n rg = rg\<lparr>content_range := range_value rg n @ [CR, LF, CR, LF]\<rparr>"

lemma part_ranges_safe: "room alloc \<Longrightarrow> list_all (printable n) rs \<Longrightarrow> part_ranges alloc n b i rs len \<noteq> None"
proof (induction rs arbitrary: i len)
  case (Cons rg rs)
  have "printable n rg" using Cons.prems by simp
  note print_part_eq [OF Cons.prems(1) this, of "A_content_range i"]
  then show ?case using Cons.IH [of "i + 1"] Cons.prems by (auto split: option.splits)
qed simp

lemma part_ranges_eq:
  assumes "room alloc" "list_all (printable n) rs" "part_ranges alloc n b i rs len = Some (Some (rs', len'))"
  shows "rs' = map (part_range n) rs \<and>
    len' = len + sum_list (map (\<lambda>rg. b + int (length (content_range (part_range n rg))) + range_size rg) rs)"
  using assms
proof (induction rs arbitrary: i len rs' len')
  case (Cons rg rs)
  have "printable n rg" using Cons.prems by simp
  note print_part_eq [OF Cons.prems(1) this, of "A_content_range i"]
  then obtain rs1 where "rs' = part_range n rg # rs1"
    "part_ranges alloc n b (i + 1) rs (len + (b + int (length (content_range (part_range n rg))) + range_size rg)) = Some (Some (rs1, len'))"
    using Cons.prems(3) by (auto simp: part_range_def range_size_def split: option.splits)
  then show ?case using Cons.IH [of "i + 1"] Cons.prems(1,2) by fastforce
qed simp

section \<open>The header filter writes inside its blocks\<close>

lemma print_single_eq:
  assumes "room alloc" "printable n rg"
  shows "print_block alloc A_value (8 + 3 * NGX_OFF_T_LEN) (bytes ''bytes %O-%O/%O'')
      [V_int (range_start rg), V_int (range_end rg - 1), V_int n] =
    Some (case alloc A_value (8 + 3 * NGX_OFF_T_LEN) of NULL \<Rightarrow> None | Some a \<Rightarrow> Some (bytes ''bytes '' @ range_value rg n))"
  using print_range_eq [OF assms, of "''bytes ''" "[]"] by (simp add: NGX_OFF_T_LEN_def format_pieces split: option.split)

lemma print_type_eq:
  assumes "room alloc" "k < 2 ^ 64"
  shows "print_block alloc A_type (45 + NGX_ATOMIC_T_LEN) (bytes ''multipart/byteranges; boundary=%0muA'') [V_int (int k)] =
    Some (case alloc A_type (45 + NGX_ATOMIC_T_LEN) of NULL \<Rightarrow> None | Some a \<Rightarrow>
      Some (bytes ''multipart/byteranges; boundary='' @ boundary_text k))"
  using assms(2) by (intro print_block_eq [OF assms(1)])
    (simp_all add: format_pieces vslprintf_steps NGX_ATOMIC_T_LEN_def del: ngx_vslprintf.simps(2))

lemma print_star_safe:
  assumes "room alloc" "0 \<le> n" "n \<le> NGX_MAX_OFF_T_VALUE"
  shows "print_block alloc A_value (8 + NGX_OFF_T_LEN) (bytes ''bytes */%O'') [V_int n] =
    Some (case alloc A_value (8 + NGX_OFF_T_LEN) of NULL \<Rightarrow> None | Some a \<Rightarrow> Some (bytes ''bytes */'' @ dec_loop64 (nat n) []))"
  using assms(2,3) dec_int_19 [OF assms(3)] by (intro print_block_eq [OF assms(1)])
    (simp_all add: format_pieces vslprintf_steps NGX_OFF_T_LEN_def del: ngx_vslprintf.simps(2))

lemma range_parse_printable:
  assumes "ngx_http_range_parse alloc main mctx v n k = (NGX_OK, rs)" "0 \<le> n" "n \<le> NGX_MAX_OFF_T_VALUE"
    "\<And>rs. mctx = Some rs \<Longrightarrow> list_all (range_in NGX_MAX_OFF_T_VALUE) rs"
  shows "list_all (printable n) rs"
proof (cases "if main then None else mctx")
  case None
  then have "range_loop alloc n (drop 6 v) 0 k [] = (NGX_OK, rs)"
    using assms(1) by (auto simp: ngx_http_range_parse_def split: if_splits)
  from range_loop_ok [OF this assms(2,3)] show ?thesis using assms(2,3) by (auto simp: list_all_iff printable_def range_in_def)
next
  case (Some x)
  then have "mctx = Some rs" using assms(1) by (simp add: ngx_http_range_parse_def split: if_splits)
  from assms(4) [OF this] show ?thesis using assms(2,3) by (simp add: list_all_iff printable_def)
qed

text \<open>
  C26: the header filter never writes behind the memory it has asked for, whether or not there is memory: the lengths it computes for \<^verbatim>\<open>Content-Range\<close>, \<^verbatim>\<open>Content-Type\<close> and the
  boundaries are enough for all ranges and types.
\<close>

theorem ngx_http_range_header_filter_safe:
  assumes "room alloc" "boundary < 2 ^ 64" "- 1 \<le> out_content_length_n r" "out_content_length_n r \<le> NGX_MAX_OFF_T_VALUE"
    "\<forall>rs. main_ranges r = Some rs \<longrightarrow> list_all (range_in NGX_MAX_OFF_T_VALUE) rs"
  shows "ngx_http_range_header_filter alloc boundary r \<noteq> None"
proof (cases "out_content_length_n r = - 1")
  case False
  then have n: "0 \<le> out_content_length_n r" using assms(3) by simp
  have parse: "range_header_parse alloc boundary r v \<noteq> None" for v
  proof -
    obtain rc rs where p: "ngx_http_range_parse alloc (is_main r) (main_ranges r) v (out_content_length_n r) (if single_range r then 1 else max_ranges r) = (rc, rs)"
      by fastforce
    have ok: "list_all (printable (out_content_length_n r)) rs" if "rc = 0"
      using range_parse_printable [OF p [unfolded that] n assms(4)] assms(5) by simp
    have one: "ngx_http_range_singlepart_header alloc (r\<lparr>out_status := 206, out_status_line := []\<rparr>)
        \<lparr>ctx_offset = out_content_offset r, ctx_ranges = rs, boundary_header = []\<rparr> \<noteq> None" if "rc = 0" "length rs = 1"
      using print_single_eq [OF assms(1), of "out_content_length_n r" "hd rs"] ok [OF that(1)] that(2)
      by (cases rs) (auto simp: ngx_http_range_singlepart_header_def Let_def split: option.splits)
    let ?r = "r\<lparr>out_status := 206, out_status_line := []\<rparr>"
    have many: "ngx_http_range_multipart_header alloc boundary ?r
        \<lparr>ctx_offset = out_content_offset r, ctx_ranges = rs, boundary_header = []\<rparr> \<noteq> None" if "rc = 0"
      using boundary_print_eq [OF assms(1,2), of ?r] print_type_eq [OF assms(1,2)]
        part_ranges_safe [OF assms(1) ok [OF that], of "int (length (boundary_value boundary ?r))" 0 "int (4 + NGX_ATOMIC_T_LEN + 4)"]
      by (auto simp: ngx_http_range_multipart_header_def split: option.splits)
    have "ngx_http_range_not_satisfiable alloc r \<noteq> None"
      using print_star_safe [OF assms(1) n assms(4)] by (auto simp: ngx_http_range_not_satisfiable_def split: option.splits)
    with one many p show ?thesis by (simp add: range_header_parse_def Let_def split: prod.splits if_splits)
  qed
  have "ngx_parse_http_time x \<noteq> Oob" for x using safe_parse_http_time [of x] by auto
  then have "if_range_holds r \<noteq> None"
    by (auto simp: if_range_holds_def split: option.splits parse_result.splits)
  with parse show ?thesis by (auto simp: ngx_http_range_header_filter_def split: option.splits bool.splits)
qed (simp add: ngx_http_range_header_filter_def)

definition sample_request :: range_request where
  "sample_request = \<lparr>http_version = 1001, is_main = True, subrequest_ranges = False, allow_ranges = True, single_range = False, max_ranges = 8,
     in_range = Some (bytes ''bytes=1-2,4-5''), in_if_range = None, main_ranges = None,
     out_status = NGX_HTTP_OK, out_status_line = [], out_content_length_n = 7, out_content_length = None, out_content_offset = 0, out_etag = None,
     out_last_modified_time = - 1, out_content_type = bytes ''text/plain'', out_content_type_len = 10, out_content_type_lowcase = None, out_charset = bytes ''utf-8'',
     out_content_range = None, out_accept_ranges = False\<rparr>"

text \<open>Small blocks are always given.\<close>

definition plenty :: "allocator \<Rightarrow> bool" where
  "plenty alloc \<longleftrightarrow> room alloc \<and> (\<forall>site n. n < 65536 \<longrightarrow> alloc site n \<noteq> NULL)"

definition sample_alloc :: allocator where
  "sample_alloc site n = (if n < 65536 then Some 4096 else None)"

lemma room_sample [simp]: "room sample_alloc" "plenty sample_alloc"
  by (simp_all add: room_def plenty_def sample_alloc_def)

theorem ngx_http_range_header_filter_safe_witness:
  "ngx_http_range_header_filter sample_alloc 7 (sample_request\<lparr>out_content_length_n := NGX_MAX_OFF_T_VALUE\<rparr>) \<noteq> None"
  by (rule ngx_http_range_header_filter_safe) (simp_all add: sample_request_def ngx_consts)

section \<open>Buffers\<close>

text \<open>
  Buffers as far as the body filter uses them.  \<open>buf_block\<close> is the memory a buffer points into and \<open>buf_file\<close> the contents of its file; the pointers are
  positions there.
\<close>

record ngx_buf =
  buf_block :: "u_char list"
  buf_pos :: int
  buf_last :: int
  buf_file :: "u_char list"
  buf_file_pos :: int
  buf_file_last :: int
  buf_temporary :: bool
  buf_memory :: bool
  buf_mmap :: bool
  buf_in_file :: bool
  buf_flush :: bool
  buf_sync :: bool
  buf_last_buf :: bool
  buf_last_in_chain :: bool

definition ngx_buf_in_memory :: "ngx_buf \<Rightarrow> bool" where
  "ngx_buf_in_memory b \<longleftrightarrow> buf_temporary b \<or> buf_memory b \<or> buf_mmap b"

definition ngx_buf_special :: "ngx_buf \<Rightarrow> bool" where
  "ngx_buf_special b \<longleftrightarrow> (buf_flush b \<or> buf_last_buf b \<or> buf_sync b) \<and> \<not> ngx_buf_in_memory b \<and> \<not> buf_in_file b"

definition ngx_buf_size :: "ngx_buf \<Rightarrow> int" where
  "ngx_buf_size b = (if ngx_buf_in_memory b then buf_last b - buf_pos b else buf_file_last b - buf_file_pos b)"

text \<open>\<^verbatim>\<open>ngx_calloc_buf\<close>.\<close>

definition calloc_buf :: ngx_buf where
  "calloc_buf = \<lparr>buf_block = [], buf_pos = 0, buf_last = 0, buf_file = [], buf_file_pos = 0, buf_file_last = 0, buf_temporary = False,
     buf_memory = False, buf_mmap = False, buf_in_file = False, buf_flush = False, buf_sync = False, buf_last_buf = False,
     buf_last_in_chain = False\<rparr>"

section \<open>The body filter\<close>

text \<open>
  One turn of the loop of \<^verbatim>\<open>ngx_http_range_singlepart_body\<close>: the buffer as the filter leaves it, and whether it is put into the output.
\<close>

definition sp_buf :: "bool \<Rightarrow> ngx_http_range \<Rightarrow> int \<Rightarrow> ngx_buf \<Rightarrow> ngx_buf \<times> bool" where
  "sp_buf main rg start b =
    (let lst = start + ngx_buf_size b in
     if ngx_buf_special b then (b, \<not> range_end rg \<le> start)
     else if range_end rg \<le> start \<or> range_start rg \<ge> lst then
       (b\<lparr>buf_file_pos := if buf_in_file b then buf_file_last b else buf_file_pos b, buf_pos := buf_last b, buf_sync := True\<rparr>, False)
     else
       let b = (if range_start rg > start then
           b\<lparr>buf_file_pos := if buf_in_file b then buf_file_pos b + (range_start rg - start) else buf_file_pos b,
             buf_pos := if ngx_buf_in_memory b then buf_pos b + (range_start rg - start) else buf_pos b\<rparr>
         else b) in
       if range_end rg \<le> lst then
         (b\<lparr>buf_file_last := if buf_in_file b then buf_file_last b - (lst - range_end rg) else buf_file_last b,
            buf_last := if ngx_buf_in_memory b then buf_last b - (lst - range_end rg) else buf_last b,
            buf_last_buf := main, buf_last_in_chain := True\<rparr>, True)
       else (b, True))"

text \<open>The loop: the buffers of the input as they are left, the output, and \<^verbatim>\<open>ctx->offset\<close>; \<^const>\<open>None\<close> is \<^verbatim>\<open>NGX_ERROR\<close>.\<close>

fun sp_loop :: "allocator \<Rightarrow> bool \<Rightarrow> ngx_http_range \<Rightarrow> nat \<Rightarrow> int \<Rightarrow> ngx_buf list \<Rightarrow> (ngx_buf list \<times> ngx_buf list \<times> int) option" where
  "sp_loop alloc main rg i offset [] = Some ([], [], offset)"
| "sp_loop alloc main rg i offset (b # cl) =
    (let (b', put) = sp_buf main rg offset b; offset = offset + ngx_buf_size b in
     if put then
       if alloc (A_link i) 16 = NULL then None
       else map_option (\<lambda>(bs, out, offset). (b' # bs, b' # out, offset)) (sp_loop alloc main rg (i + 1) offset cl)
     else map_option (\<lambda>(bs, out, offset). (b' # bs, out, offset)) (sp_loop alloc main rg i offset cl))"

datatype body_result = Body_Error | Body_Next "ngx_buf list"

definition ngx_http_range_singlepart_body :: "allocator \<Rightarrow> bool \<Rightarrow> range_ctx \<Rightarrow> ngx_buf list \<Rightarrow> body_result \<times> range_ctx" where
  "ngx_http_range_singlepart_body alloc main ctx cl =
    (case sp_loop alloc main (hd (ctx_ranges ctx)) 0 (ctx_offset ctx) cl of
       None \<Rightarrow> (Body_Error, ctx)
     | Some (bs, out, offset) \<Rightarrow> (Body_Next out, ctx\<lparr>ctx_offset := offset\<rparr>))"

definition ngx_http_range_test_overlapped :: "range_ctx \<Rightarrow> ngx_buf \<Rightarrow> range_ctx option" where
  "ngx_http_range_test_overlapped ctx buf =
    (if ctx_offset ctx \<noteq> 0 then None
     else if \<not> buf_last_buf buf \<and>
       list_ex (\<lambda>rg. ctx_offset ctx > range_start rg \<or> ctx_offset ctx + ngx_buf_size buf < range_end rg) (ctx_ranges ctx) then None
     else Some (ctx\<lparr>ctx_offset := ngx_buf_size buf\<rparr>))"

text \<open>The three buffers of a range, and the loop of \<^verbatim>\<open>ngx_http_range_multipart_body\<close>.\<close>

definition part_bufs :: "u_char list \<Rightarrow> ngx_buf \<Rightarrow> ngx_http_range \<Rightarrow> ngx_buf list" where
  "part_bufs bh buf rg =
    [calloc_buf\<lparr>buf_memory := True, buf_block := bh, buf_pos := 0, buf_last := int (length bh)\<rparr>,
     calloc_buf\<lparr>buf_temporary := True, buf_block := content_range rg, buf_pos := 0, buf_last := int (length (content_range rg))\<rparr>,
     (let b = calloc_buf\<lparr>buf_in_file := buf_in_file buf, buf_temporary := buf_temporary buf, buf_memory := buf_memory buf,
          buf_mmap := buf_mmap buf, buf_file := buf_file buf, buf_block := buf_block buf\<rparr>;
          b = (if buf_in_file buf then
              b\<lparr>buf_file_pos := buf_file_pos buf + range_start rg, buf_file_last := buf_file_pos buf + range_end rg\<rparr>
            else b) in
      if ngx_buf_in_memory buf then b\<lparr>buf_pos := buf_pos buf + range_start rg, buf_last := buf_pos buf + range_end rg\<rparr> else b)]"

fun part_loop :: "allocator \<Rightarrow> u_char list \<Rightarrow> ngx_buf \<Rightarrow> nat \<Rightarrow> ngx_http_range list \<Rightarrow> ngx_buf list option" where
  "part_loop alloc bh buf i [] = Some []"
| "part_loop alloc bh buf i (rg # rs) =
    (if list_ex (\<lambda>(k, n). alloc (A_part i k) n = NULL) [(0, 80), (1, 16), (2, 80), (3, 16), (4, 80), (5, 16)] then None
     else map_option (\<lambda>out. part_bufs bh buf rg @ out) (part_loop alloc bh buf (i + 1) rs))"

definition ngx_http_range_multipart_body :: "allocator \<Rightarrow> range_ctx \<Rightarrow> ngx_buf list \<Rightarrow> body_result" where
  "ngx_http_range_multipart_body alloc ctx cl =
    (case part_loop alloc (boundary_header ctx) (hd cl) 0 (ctx_ranges ctx) of
       None \<Rightarrow> Body_Error
     | Some out \<Rightarrow>
         if alloc (A_final 0) 80 = NULL \<or> alloc (A_final 1) (4 + NGX_ATOMIC_T_LEN + 4) = NULL \<or> alloc (A_final 2) 16 = NULL then Body_Error
         else let t = take (4 + NGX_ATOMIC_T_LEN) (boundary_header ctx) @ [ch CHR ''-'', ch CHR ''-'', CR, LF] in
           Body_Next (out @ [calloc_buf\<lparr>buf_temporary := True, buf_last_buf := True, buf_block := t, buf_pos := 0, buf_last := int (length t)\<rparr>]))"

definition ngx_http_range_body_filter ::
    "allocator \<Rightarrow> bool \<Rightarrow> range_ctx option \<Rightarrow> ngx_buf list \<Rightarrow> body_result \<times> range_ctx option" where
  "ngx_http_range_body_filter alloc main c cl =
    (if cl = [] then (Body_Next cl, c)
     else case c of
         None \<Rightarrow> (Body_Next cl, c)
       | Some ctx \<Rightarrow>
           if length (ctx_ranges ctx) = 1 then
             let (res, ctx) = ngx_http_range_singlepart_body alloc main ctx cl in (res, Some ctx)
           else if ngx_buf_special (hd cl) then (Body_Next cl, c)
           else case ngx_http_range_test_overlapped ctx (hd cl) of
               None \<Rightarrow> (Body_Error, c)
             | Some ctx \<Rightarrow> (ngx_http_range_multipart_body alloc ctx cl, Some ctx))"

section \<open>The bytes of a buffer\<close>

definition subrange :: "'a list \<Rightarrow> int \<Rightarrow> int \<Rightarrow> 'a list" where
  "subrange xs a b = drop (nat a) (take (nat b) xs)"

definition buf_bytes :: "ngx_buf \<Rightarrow> u_char list" where
  "buf_bytes b =
    (if ngx_buf_in_memory b then subrange (buf_block b) (buf_pos b) (buf_last b)
     else if buf_in_file b then subrange (buf_file b) (buf_file_pos b) (buf_file_last b)
     else [])"

text \<open>The pointers are in order, and bytes that are both in memory and in a file are the same.\<close>

definition buf_ok :: "ngx_buf \<Rightarrow> bool" where
  "buf_ok b \<longleftrightarrow>
    (ngx_buf_in_memory b \<longrightarrow> 0 \<le> buf_pos b \<and> buf_pos b \<le> buf_last b \<and> buf_last b \<le> int (length (buf_block b))) \<and>
    (buf_in_file b \<longrightarrow> 0 \<le> buf_file_pos b \<and> buf_file_pos b \<le> buf_file_last b \<and> buf_file_last b \<le> int (length (buf_file b))) \<and>
    (ngx_buf_in_memory b \<and> buf_in_file b \<longrightarrow>
       subrange (buf_block b) (buf_pos b) (buf_last b) = subrange (buf_file b) (buf_file_pos b) (buf_file_last b)) \<and>
    (\<not> ngx_buf_in_memory b \<and> \<not> buf_in_file b \<longrightarrow> buf_file_pos b = buf_file_last b)"

lemma length_subrange: "0 \<le> a \<Longrightarrow> a \<le> b \<Longrightarrow> b \<le> int (length xs) \<Longrightarrow> int (length (subrange xs a b)) = b - a"
  by (simp add: subrange_def nat_diff_distrib [symmetric])

lemma subrange_subrange:
  "0 \<le> a \<Longrightarrow> 0 \<le> i \<Longrightarrow> j \<le> b - a \<Longrightarrow> subrange (subrange xs a b) i j = subrange xs (a + i) (a + j)"
proof -
  assume a: "0 \<le> a" "0 \<le> i" "j \<le> b - a"
  show ?thesis
  proof (cases "0 \<le> j")
    case True
    then have "nat (a + j) = nat a + nat j" "nat (a + i) = nat a + nat i" "nat a + nat j \<le> nat b" using a by auto
    then show ?thesis by (simp add: subrange_def take_drop add.commute min_def)
  next
    case False
    then have "nat (a + j) \<le> nat (a + i)" using a by simp
    then show ?thesis using False by (simp add: subrange_def)
  qed
qed

lemma subrange_clip: "subrange xs i j = subrange xs (max 0 i) (min (int (length xs)) j)"
  by (simp add: subrange_def min_def max_def)

lemma subrange_empty: "j \<le> 0 \<or> j \<le> i \<or> int (length xs) \<le> i \<Longrightarrow> subrange xs i j = []"
  by (auto simp: subrange_def)

lemma subrange_all [simp]: "subrange xs 0 (int (length xs)) = xs"
  by (simp add: subrange_def)

lemma subrange_append:
  "subrange (xs @ ys) i j = subrange xs i j @ subrange ys (i - int (length xs)) (j - int (length xs))"
proof -
  have d: "nat (k - int n) = nat k - n" for k n by arith
  show ?thesis by (cases "nat j \<le> length xs") (auto simp: subrange_def d min_def)
qed

lemma buf_size_bytes: "buf_ok b \<Longrightarrow> ngx_buf_size b = int (length (buf_bytes b))"
  by (auto simp: buf_ok_def ngx_buf_size_def buf_bytes_def length_subrange)

lemma buf_ok_size:
  assumes "buf_ok b"
  shows "buf_in_file b \<Longrightarrow> buf_file_last b = buf_file_pos b + ngx_buf_size b" "ngx_buf_in_memory b \<Longrightarrow> buf_last b = buf_pos b + ngx_buf_size b"
proof -
  show "buf_last b = buf_pos b + ngx_buf_size b" if "ngx_buf_in_memory b" using that by (simp add: ngx_buf_size_def)
  show "buf_file_last b = buf_file_pos b + ngx_buf_size b" if "buf_in_file b"
  proof (cases "ngx_buf_in_memory b")
    case True
    then have "int (length (subrange (buf_block b) (buf_pos b) (buf_last b))) =
        int (length (subrange (buf_file b) (buf_file_pos b) (buf_file_last b)))"
      using assms that by (simp add: buf_ok_def)
    moreover have "int (length (subrange (buf_block b) (buf_pos b) (buf_last b))) = buf_last b - buf_pos b"
      "int (length (subrange (buf_file b) (buf_file_pos b) (buf_file_last b))) = buf_file_last b - buf_file_pos b"
      using assms that True by (intro length_subrange; simp add: buf_ok_def)+
    ultimately show ?thesis using True by (simp add: ngx_buf_size_def)
  qed (simp add: ngx_buf_size_def)
qed

text \<open>Both views of a buffer, cut in the same way.\<close>

definition cut_buf :: "int \<Rightarrow> int \<Rightarrow> ngx_buf \<Rightarrow> ngx_buf" where
  "cut_buf i j b = b\<lparr>buf_file_pos := if buf_in_file b then buf_file_pos b + i else buf_file_pos b,
     buf_pos := if ngx_buf_in_memory b then buf_pos b + i else buf_pos b,
     buf_file_last := if buf_in_file b then buf_file_pos b + j else buf_file_last b,
     buf_last := if ngx_buf_in_memory b then buf_pos b + j else buf_last b\<rparr>"

lemma cut_buf_bytes:
  assumes "buf_ok b" "0 \<le> i" "i \<le> j" "j \<le> ngx_buf_size b"
  shows "buf_ok (cut_buf i j b)" "buf_bytes (cut_buf i j b) = subrange (buf_bytes b) i j"
proof -
  have m: "ngx_buf_in_memory (cut_buf i j b) = ngx_buf_in_memory b" by (simp add: ngx_buf_in_memory_def cut_buf_def)
  have size: "buf_file_last b - buf_file_pos b = ngx_buf_size b" if "buf_in_file b"
    using buf_ok_size(1) [OF assms(1) that] by simp
  have f: "subrange (buf_file b) (buf_file_pos b + i) (buf_file_pos b + j) = subrange (subrange (buf_file b) (buf_file_pos b) (buf_file_last b)) i j" if "buf_in_file b"
    using assms that size by (subst subrange_subrange) (auto simp: buf_ok_def ngx_buf_size_def split: if_splits)
  have d: "subrange (buf_block b) (buf_pos b + i) (buf_pos b + j) = subrange (subrange (buf_block b) (buf_pos b) (buf_last b)) i j" if "ngx_buf_in_memory b"
    using assms that by (subst subrange_subrange) (auto simp: buf_ok_def ngx_buf_size_def)
  show "buf_bytes (cut_buf i j b) = subrange (buf_bytes b) i j" using f d by (auto simp: buf_bytes_def m) (auto simp: cut_buf_def subrange_def)
  show "buf_ok (cut_buf i j b)"
    unfolding buf_ok_def m using assms f d size by (auto simp: cut_buf_def buf_ok_def ngx_buf_size_def split: if_splits)
qed

section \<open>One range\<close>

lemma cut_flags:
  "buf_ok (b\<lparr>buf_last_buf := x, buf_last_in_chain := y, buf_sync := z\<rparr>) = buf_ok b"
  "buf_bytes (b\<lparr>buf_last_buf := x, buf_last_in_chain := y, buf_sync := z\<rparr>) = buf_bytes b"
  by (simp_all add: buf_ok_def buf_bytes_def ngx_buf_in_memory_def)

text \<open>What a turn of the loop puts out of a buffer is the part of it that lies in the range.\<close>

lemma sp_buf_cases:
  assumes "buf_ok b" "range_start rg < range_end rg" "sp_buf main rg start b = (b', put)"
  shows "(if put then buf_bytes b' else []) = subrange (buf_bytes b) (range_start rg - start) (range_end rg - start) \<and> (put \<longrightarrow> buf_ok b')"
proof -
  let ?s = "range_start rg - start" and ?e = "range_end rg - start" and ?n = "ngx_buf_size b"
  have n: "?n = int (length (buf_bytes b))" using assms(1) by (rule buf_size_bytes)
  consider (special) "ngx_buf_special b" | (skip) "\<not> ngx_buf_special b" "?e \<le> 0 \<or> ?n \<le> ?s"
    | (put) "\<not> ngx_buf_special b" "0 < ?e" "?s < ?n" by force
  then show ?thesis
  proof cases
    case special
    then have "buf_bytes b = []" by (simp add: buf_bytes_def ngx_buf_special_def)
    then show ?thesis using assms special by (auto simp: sp_buf_def Let_def subrange_def)
  next
    case skip
    then have "b' = b' \<and> \<not> put" using assms(3) by (auto simp: sp_buf_def Let_def split: if_splits)
    moreover have "subrange (buf_bytes b) ?s ?e = []" using skip(2) n by (intro subrange_empty) auto
    ultimately show ?thesis by simp
  next
    case put
    let ?i = "max 0 ?s" and ?j = "min ?n ?e"
    have sub: "subrange (buf_bytes b) ?s ?e = subrange (buf_bytes b) ?i ?j"
      using subrange_clip [of "buf_bytes b" ?s ?e] n by simp
    have ij: "0 \<le> ?i" "?i \<le> ?j" "?j \<le> ?n" using put assms(2) n by auto
    have pos: "buf_in_file b \<Longrightarrow> buf_file_last b = buf_file_pos b + ?n" "ngx_buf_in_memory b \<Longrightarrow> buf_last b = buf_pos b + ?n"
      using buf_ok_size [OF assms(1)] by auto
    show ?thesis
    proof (cases "?e \<le> ?n")
      case True
      then have "b' = (cut_buf ?i ?j b)\<lparr>buf_last_buf := main, buf_last_in_chain := True, buf_sync := buf_sync b\<rparr>" "put"
        using assms(3) put pos by (auto simp: sp_buf_def Let_def cut_buf_def ngx_buf_in_memory_def max_def min_def split: if_splits)
      then show ?thesis using cut_buf_bytes [OF assms(1) ij] sub by (simp add: cut_flags)
    next
      case False
      then have "b' = cut_buf ?i ?j b" "put"
        using assms(3) put pos by (auto simp: sp_buf_def Let_def cut_buf_def ngx_buf_in_memory_def max_def min_def split: if_splits)
      then show ?thesis using cut_buf_bytes [OF assms(1) ij] sub by simp
    qed
  qed
qed

lemma sp_loop_bytes:
  assumes "list_all buf_ok cl" "range_start rg < range_end rg" "plenty alloc"
  shows "\<exists>bs out. sp_loop alloc main rg i offset cl = Some (bs, out, offset + int (length (concat (map buf_bytes cl)))) \<and>
    concat (map buf_bytes out) = subrange (concat (map buf_bytes cl)) (range_start rg - offset) (range_end rg - offset) \<and> list_all buf_ok out"
  using assms(1)
proof (induction cl arbitrary: i offset)
  case Nil
  then show ?case by (simp add: subrange_def)
next
  case (Cons b cl)
  have b: "buf_ok b" and cl: "list_all buf_ok cl" using Cons.prems by auto
  obtain b' put where sp: "sp_buf main rg offset b = (b', put)" by fastforce
  note one = sp_buf_cases [OF b assms(2) sp]
  let ?o = "offset + ngx_buf_size b"
  obtain bs out where r: "sp_loop alloc main rg (if put then i + 1 else i) ?o cl = Some (bs, out, ?o + int (length (concat (map buf_bytes cl))))"
    "concat (map buf_bytes out) = subrange (concat (map buf_bytes cl)) (range_start rg - ?o) (range_end rg - ?o)" "list_all buf_ok out"
    using Cons.IH [OF cl, of "if put then i + 1 else i" ?o] by blast
  have app: "subrange (concat (map buf_bytes (b # cl))) (range_start rg - offset) (range_end rg - offset) =
      (if put then buf_bytes b' else []) @ concat (map buf_bytes out)"
    using one r(2) by (simp add: subrange_append buf_size_bytes [OF b] diff_diff_eq)
  have off: "?o + int (length (concat (map buf_bytes cl))) = offset + int (length (concat (map buf_bytes (b # cl))))"
    by (simp add: buf_size_bytes [OF b])
  have "alloc (A_link i) 16 \<noteq> NULL" using assms(3) by (simp add: plenty_def)
  then have "sp_loop alloc main rg i offset (b # cl) =
      Some (b' # bs, if put then b' # out else out, offset + int (length (concat (map buf_bytes (b # cl)))))"
    using sp r(1) unfolding off by (auto simp: Let_def)
  moreover have "concat (map buf_bytes (if put then b' # out else out)) =
      subrange (concat (map buf_bytes (b # cl))) (range_start rg - offset) (range_end rg - offset)"
    unfolding app by simp
  moreover have "list_all buf_ok (if put then b' # out else out)" using one r(3) by simp
  ultimately show ?case by blast
qed

text \<open>The response comes to the filter in a sequence of calls; after \<^verbatim>\<open>NGX_ERROR\<close> there are no more.\<close>

fun body_calls :: "allocator \<Rightarrow> bool \<Rightarrow> range_ctx option \<Rightarrow> ngx_buf list list \<Rightarrow> ngx_buf list option" where
  "body_calls alloc main c [] = Some []"
| "body_calls alloc main c (cl # cls) =
    (case ngx_http_range_body_filter alloc main c cl of
       (Body_Error, c) \<Rightarrow> None
     | (Body_Next out, c) \<Rightarrow> map_option ((@) out) (body_calls alloc main c cls))"

lemma body_calls_single:
  assumes "list_all buf_ok (concat cls)" "ctx_ranges ctx = [rg]" "range_start rg < range_end rg" "plenty alloc"
  shows "\<exists>out. body_calls alloc main (Some ctx) cls = Some out \<and>
    concat (map buf_bytes out) = subrange (concat (map buf_bytes (concat cls))) (range_start rg - ctx_offset ctx) (range_end rg - ctx_offset ctx)"
  using assms(1,2)
proof (induction cls arbitrary: ctx)
  case Nil
  then show ?case by (simp add: subrange_def)
next
  case (Cons cl cls)
  have ok: "list_all buf_ok cl" "list_all buf_ok (concat cls)" using Cons.prems(1) by auto
  let ?n = "int (length (concat (map buf_bytes cl)))"
  obtain bs out where sp: "sp_loop alloc main rg 0 (ctx_offset ctx) cl = Some (bs, out, ctx_offset ctx + ?n)"
    "concat (map buf_bytes out) = subrange (concat (map buf_bytes cl)) (range_start rg - ctx_offset ctx) (range_end rg - ctx_offset ctx)"
    using sp_loop_bytes [OF ok(1) assms(3,4)] by blast
  let ?ctx = "ctx\<lparr>ctx_offset := ctx_offset ctx + ?n\<rparr>"
  have f: "ngx_http_range_body_filter alloc main (Some ctx) cl = (Body_Next out, Some ?ctx)"
    using sp(1) Cons.prems(2) by (auto simp: ngx_http_range_body_filter_def ngx_http_range_singlepart_body_def)
  obtain out' where "body_calls alloc main (Some ?ctx) cls = Some out'"
    "concat (map buf_bytes out') = subrange (concat (map buf_bytes (concat cls))) (range_start rg - (ctx_offset ctx + ?n)) (range_end rg - (ctx_offset ctx + ?n))"
    using Cons.IH [OF ok(2), of ?ctx] Cons.prems(2) by auto
  then show ?case using f sp(2) by (simp add: subrange_append diff_diff_eq)
qed

section \<open>From the request to the response\<close>

text \<open>A main request for the ranges \<open>rs\<close> of a response that can be sent in parts.\<close>

definition range_requested :: "range_request \<Rightarrow> (int \<times> int) list \<Rightarrow> bool" where
  "range_requested r rs \<longleftrightarrow>
    http_version r \<ge> NGX_HTTP_VERSION_10 \<and> out_status r = NGX_HTTP_OK \<and> is_main r \<and> allow_ranges r \<and> max_ranges r > 0 \<and>
    in_if_range r = None \<and> in_range r = Some (bytes ''bytes='' @ ranges_text rs) \<and>
    rs \<noteq> [] \<and> list_all (\<lambda>(s, e). 0 \<le> s \<and> s < e \<and> e \<le> out_content_length_n r) rs \<and>
    sum_list (map (\<lambda>(s, e). e - s) rs) \<le> out_content_length_n r \<and> out_content_length_n r \<le> NGX_MAX_OFF_T_VALUE \<and>
    length rs \<le> (if single_range r then 1 else max_ranges r)"

lemma bytes_prefix: "ngx_strncasecmp (bytes ''bytes='' @ t) (bytes ''bytes='') 6 = 0"
  by (simp add: bytes_def ngx_tolower_def eval_nat_numeral)

lemma ranges_text_nonempty: "rs \<noteq> [] \<Longrightarrow> ranges_text rs \<noteq> []"
  by (cases rs rule: ranges_text.cases) (auto simp: range_text_def)

lemma range_requested_header:
  assumes "range_requested r rs" "plenty alloc"
  shows "ngx_http_range_header_filter alloc boundary r =
    (let r' = r\<lparr>out_status := NGX_HTTP_PARTIAL_CONTENT, out_status_line := []\<rparr>;
         ctx = \<lparr>ctx_offset = out_content_offset r, ctx_ranges = map mk_range rs, boundary_header = []\<rparr> in
     if length rs = 1 then ngx_http_range_singlepart_header alloc r' ctx else ngx_http_range_multipart_header alloc boundary r' ctx)"
proof -
  have n: "out_content_length_n r \<noteq> - 1" using assms(1) by (cases rs) (auto simp: range_requested_def)
  have "ranges_text rs \<noteq> []" using assms(1) ranges_text_nonempty by (simp add: range_requested_def)
  then have l: "\<not> length (bytes ''bytes='' @ ranges_text rs) < 7" by simp
  have "ngx_http_range_parse alloc True (main_ranges r) (bytes ''bytes='' @ ranges_text rs) (out_content_length_n r) (if single_range r then 1 else max_ranges r) =
      (NGX_OK, map mk_range rs)"
    using assms by (intro ngx_http_range_parse_text) (auto simp: range_requested_def plenty_def list_all_iff)
  moreover have "alloc A_ctx 64 \<noteq> NULL" using assms(2) by (simp add: plenty_def)
  ultimately show ?thesis using assms(1) n l bytes_prefix [of "ranges_text rs"]
    by (auto simp: range_requested_def ngx_http_range_header_filter_def range_header_parse_def if_range_holds_def Let_def)
qed

text \<open>
  C23: a request for one range of a body is answered with status 206, the line \<^verbatim>\<open>Content-Range\<close> for that range, and exactly the bytes of the range, however the body is cut
  into buffers and calls; the announced \<^verbatim>\<open>Content-Length\<close> is their number.
\<close>

theorem range_response_single:
  assumes "range_requested r [(s, e)]" "plenty alloc" "out_content_offset r = 0" "list_all buf_ok (concat cls)"
    "int (length (concat (map buf_bytes (concat cls)))) = out_content_length_n r"
  shows "\<exists>r' ctx out. ngx_http_range_header_filter alloc boundary r = Some (Header_Next r' (Some ctx)) \<and>
    out_status r' = NGX_HTTP_PARTIAL_CONTENT \<and>
    out_content_range r' = Some (bytes ''bytes '' @ range_value (mk_range (s, e)) (out_content_length_n r)) \<and>
    body_calls alloc True (Some ctx) cls = Some out \<and>
    concat (map buf_bytes out) = subrange (concat (map buf_bytes (concat cls))) s e \<and>
    int (length (concat (map buf_bytes out))) = out_content_length_n r'"
proof -
  let ?n = "out_content_length_n r" and ?rg = "mk_range (s, e)"
  let ?ctx = "\<lparr>ctx_offset = 0, ctx_ranges = [?rg], boundary_header = []\<rparr>"
  have se: "0 \<le> s" "s < e" "e \<le> ?n" "?n \<le> NGX_MAX_OFF_T_VALUE" "is_main r" using assms(1) by (auto simp: range_requested_def)
  then have rg: "printable ?n ?rg" "range_start ?rg = s" "range_end ?rg = e" by (auto simp: printable_def mk_range_def)
  have al: "room alloc" "alloc A_header 56 \<noteq> NULL" "alloc A_value (8 + 3 * NGX_OFF_T_LEN) \<noteq> NULL"
    using assms(2) by (auto simp: plenty_def NGX_OFF_T_LEN_def)
  obtain r' where r': "ngx_http_range_header_filter alloc boundary r = Some (Header_Next r' (Some ?ctx))" "out_status r' = 206"
    "out_content_range r' = Some (bytes ''bytes '' @ range_value ?rg ?n)" "out_content_length_n r' = e - s"
    using range_requested_header [OF assms(1,2), of boundary] print_single_eq [OF al(1) rg(1)] al se(5) rg(2,3) assms(3)
    by (auto simp: Let_def ngx_http_range_singlepart_header_def)
  obtain out where out: "body_calls alloc True (Some ?ctx) cls = Some out"
    "concat (map buf_bytes out) = subrange (concat (map buf_bytes (concat cls))) s e"
    using body_calls_single [OF assms(4), of ?ctx ?rg alloc True] assms(2) se rg by auto
  have "int (length (subrange (concat (map buf_bytes (concat cls))) s e)) = e - s" using se assms(5) by (intro length_subrange) auto
  then show ?thesis using r' out by metis
qed

definition sample_buf :: "string \<Rightarrow> ngx_buf" where
  "sample_buf t = calloc_buf\<lparr>buf_memory := True, buf_block := bytes t, buf_last := int (length t)\<rparr>"

lemma sample_buf_simps [simp]: "buf_ok (sample_buf t)" "buf_bytes (sample_buf t) = bytes t" "\<not> ngx_buf_special (sample_buf t)"
  "buf_last_buf (sample_buf t) = False" "ngx_buf_size (sample_buf t) = int (length t)"
  by (simp_all add: sample_buf_def calloc_buf_def buf_ok_def buf_bytes_def ngx_buf_in_memory_def ngx_buf_special_def ngx_buf_size_def subrange_def)

lemma sample_texts: "ranges_text [(1, 3)] = bytes ''1-2''" "ranges_text [(1, 3), (4, 6)] = bytes ''1-2,4-5''"
  by code_simp+

theorem range_response_single_witness:
  "\<exists>r' ctx out. ngx_http_range_header_filter sample_alloc 7 (sample_request\<lparr>in_range := Some (bytes ''bytes=1-2'')\<rparr>) =
      Some (Header_Next r' (Some ctx)) \<and>
    body_calls sample_alloc True (Some ctx) [[sample_buf ''ab'', sample_buf ''c''], [], [sample_buf ''defg'']] = Some out \<and>
    concat (map buf_bytes out) = bytes ''bc'' \<and> out_content_length_n r' = 2"
proof -
  let ?r = "sample_request\<lparr>in_range := Some (bytes ''bytes=1-2'')\<rparr>"
  have "range_requested ?r [(1, 3)]"
    unfolding range_requested_def sample_texts by (simp add: sample_request_def ngx_consts bytes_def)
  moreover have "out_content_offset ?r = 0" "out_content_length_n ?r = 7" by (simp_all add: sample_request_def)
  moreover have "subrange (bytes ''abcdefg'') 1 3 = bytes ''bc''" by code_simp
  moreover have "bytes ''ab'' @ bytes ''c'' @ bytes ''defg'' = bytes ''abcdefg''" by (simp add: bytes_def)
  ultimately show ?thesis
    using range_response_single [of ?r 1 3 sample_alloc "[[sample_buf ''ab'', sample_buf ''c''], [], [sample_buf ''defg'']]" 7] by auto
qed

section \<open>Several ranges\<close>

text \<open>The body of the response: the parts with their headers, and the last boundary.\<close>

definition multipart_text :: "nat \<Rightarrow> range_request \<Rightarrow> u_char list \<Rightarrow> (int \<times> int) list \<Rightarrow> u_char list" where
  "multipart_text boundary r body rs =
    concat (map (\<lambda>(s, e). boundary_value boundary r @ range_value (mk_range (s, e)) (out_content_length_n r) @ [CR, LF, CR, LF] @
      subrange body s e) rs) @
    [CR, LF] @ bytes ''--'' @ boundary_text boundary @ bytes ''--'' @ [CR, LF]"

lemma part_bufs_bytes:
  assumes "buf_ok b" "range_in (int (length (buf_bytes b))) rg"
  shows "concat (map buf_bytes (part_bufs bh b rg)) = bh @ content_range rg @ subrange (buf_bytes b) (range_start rg) (range_end rg)"
proof -
  note n = buf_size_bytes [OF assms(1), symmetric] buf_ok_size [OF assms(1)]
  have m: "subrange (buf_block b) (buf_pos b + range_start rg) (buf_pos b + range_end rg) =
      subrange (subrange (buf_block b) (buf_pos b) (buf_last b)) (range_start rg) (range_end rg)" if "ngx_buf_in_memory b"
    using assms that n by (subst subrange_subrange) (auto simp: buf_ok_def range_in_def)
  have f: "subrange (buf_file b) (buf_file_pos b + range_start rg) (buf_file_pos b + range_end rg) =
      subrange (subrange (buf_file b) (buf_file_pos b) (buf_file_last b)) (range_start rg) (range_end rg)" if "buf_in_file b"
    using assms that n by (subst subrange_subrange) (auto simp: buf_ok_def range_in_def)
  have neither: "ngx_buf_in_memory b \<or> buf_in_file b" using assms(2) by (cases "buf_bytes b = []") (auto simp: buf_bytes_def range_in_def split: if_splits)
  show ?thesis using m f neither
    by (auto simp: part_bufs_def buf_bytes_def calloc_buf_def ngx_buf_in_memory_def Let_def)
qed

lemma part_loop_bytes:
  assumes "buf_ok b" "plenty alloc" "list_all (range_in (int (length (buf_bytes b)))) rs"
  shows "\<exists>out. part_loop alloc bh b i rs = Some out \<and>
    concat (map buf_bytes out) = concat (map (\<lambda>rg. bh @ content_range rg @ subrange (buf_bytes b) (range_start rg) (range_end rg)) rs)"
  using assms(3)
proof (induction rs arbitrary: i)
  case (Cons rg rs)
  obtain out where "part_loop alloc bh b (i + 1) rs = Some out"
    "concat (map buf_bytes out) = concat (map (\<lambda>rg. bh @ content_range rg @ subrange (buf_bytes b) (range_start rg) (range_end rg)) rs)"
    using Cons.IH [of "i + 1"] Cons.prems by auto
  then show ?case using assms(2) part_bufs_bytes [OF assms(1), of rg bh] Cons.prems by (simp add: plenty_def)
qed simp

lemma part_ranges_plenty:
  "plenty alloc \<Longrightarrow> list_all (printable n) rs \<Longrightarrow> \<exists>x. part_ranges alloc n blen i rs len = Some (Some x)"
proof (induction rs arbitrary: i len)
  case (Cons rg rs)
  have "room alloc" "printable n rg" "alloc (A_content_range i) (3 * NGX_OFF_T_LEN + 2 + 4) \<noteq> NULL"
    using Cons.prems by (auto simp: plenty_def NGX_OFF_T_LEN_def)
  then have "print_block alloc (A_content_range i) (3 * NGX_OFF_T_LEN + 2 + 4) (bytes ''%O-%O/%O'' @ [CR, LF, CR, LF])
      [V_int (range_start rg), V_int (range_end rg - 1), V_int n] = Some (Some (range_value rg n @ [CR, LF, CR, LF]))"
    using print_part_eq [of alloc n rg "A_content_range i"] by auto
  moreover obtain rs' len' where
    "part_ranges alloc n blen (i + 1) rs (len + (blen + int (length (range_value rg n @ [CR, LF, CR, LF])) + (range_end rg - range_start rg))) =
      Some (Some (rs', len'))"
    using Cons.IH [of "i + 1"] Cons.prems by fastforce
  ultimately show ?case by simp
qed simp

lemma parts_length:
  "list_all (range_in (int (length xs))) rs \<Longrightarrow>
    int (length (concat (map (\<lambda>rg. bh @ content_range rg @ subrange xs (range_start rg) (range_end rg)) rs))) =
    sum_list (map (\<lambda>rg. int (length bh) + int (length (content_range rg)) + range_size rg) rs)"
  by (induction rs) (auto simp: range_in_def range_size_def length_subrange)

lemma block_bytes:
  "buf_bytes (calloc_buf\<lparr>buf_temporary := True, buf_last_buf := x, buf_block := t, buf_pos := 0, buf_last := int (length t)\<rparr>) = t"
  by (simp add: buf_bytes_def calloc_buf_def ngx_buf_in_memory_def)

lemma body_calls_multipart:
  assumes "buf_ok b" "\<not> ngx_buf_special b" "plenty alloc" "list_all (range_in (int (length (buf_bytes b)))) rs" "length rs \<noteq> 1"
  shows "\<exists>out. body_calls alloc main (Some \<lparr>ctx_offset = 0, ctx_ranges = rs, boundary_header = bh\<rparr>) [[b]] = Some out \<and>
    concat (map buf_bytes out) = concat (map (\<lambda>rg. bh @ content_range rg @ subrange (buf_bytes b) (range_start rg) (range_end rg)) rs) @
      take (4 + NGX_ATOMIC_T_LEN) bh @ bytes ''--'' @ [CR, LF]"
proof -
  let ?ctx = "\<lparr>ctx_offset = 0, ctx_ranges = rs, boundary_header = bh\<rparr>"
  obtain out where out: "part_loop alloc bh b 0 rs = Some out"
    "concat (map buf_bytes out) = concat (map (\<lambda>rg. bh @ content_range rg @ subrange (buf_bytes b) (range_start rg) (range_end rg)) rs)"
    using part_loop_bytes [OF assms(1,3,4)] by blast
  have "\<exists>out'. ngx_http_range_multipart_body alloc (?ctx\<lparr>ctx_offset := ngx_buf_size b\<rparr>) [b] = Body_Next out' \<and>
      concat (map buf_bytes out') = concat (map buf_bytes out) @ take (4 + NGX_ATOMIC_T_LEN) bh @ bytes ''--'' @ [CR, LF]"
    using out(1) assms(3)
    by (simp add: ngx_http_range_multipart_body_def plenty_def NGX_ATOMIC_T_LEN_def Let_def block_bytes bytes_def
        del: length_append length_take)
  moreover have "ngx_http_range_test_overlapped ?ctx b = Some (?ctx\<lparr>ctx_offset := ngx_buf_size b\<rparr>)"
    using assms(4) buf_size_bytes [OF assms(1)] by (auto simp: ngx_http_range_test_overlapped_def list_ex_iff list_all_iff range_in_def)
  ultimately show ?thesis using out(2) assms(2,5) by (auto simp: ngx_http_range_body_filter_def)
qed

text \<open>
  C24: a request for several ranges of a body in one buffer is answered with a body of type \<^verbatim>\<open>multipart/byteranges\<close> that has the bytes of each range, in the order of the
  request, behind a boundary and a \<^verbatim>\<open>Content-Range\<close> line; the \<^verbatim>\<open>Content-Length\<close> announced by the header filter is exactly the length of what the body filter sends later.
\<close>

theorem range_response_multipart:
  assumes "range_requested r rs" "2 \<le> length rs" "plenty alloc" "boundary < 2 ^ 64" "boundary_size r < 65536" "out_content_offset r = 0"
    "buf_ok b" "\<not> ngx_buf_special b" "int (length (buf_bytes b)) = out_content_length_n r"
  shows "\<exists>r' ctx out. ngx_http_range_header_filter alloc boundary r = Some (Header_Next r' (Some ctx)) \<and>
    out_status r' = NGX_HTTP_PARTIAL_CONTENT \<and>
    out_content_type r' = bytes ''multipart/byteranges; boundary='' @ boundary_text boundary \<and>
    body_calls alloc True (Some ctx) [[b]] = Some out \<and>
    concat (map buf_bytes out) = multipart_text boundary r (buf_bytes b) rs \<and>
    int (length (concat (map buf_bytes out))) = out_content_length_n r'"
proof -
  let ?n = "out_content_length_n r" and ?rs = "map mk_range rs" and ?r = "r\<lparr>out_status := 206, out_status_line := []\<rparr>"
  let ?bh = "boundary_value boundary r" and ?len0 = "int (4 + NGX_ATOMIC_T_LEN + 4)"
  have n: "?n \<le> NGX_MAX_OFF_T_VALUE" "is_main r" and inn: "list_all (range_in ?n) ?rs"
    using assms(1) by (auto simp: range_requested_def list_all_iff mk_range_def)
  have pr: "list_all (printable ?n) ?rs"
    using inn n(1) by (auto simp: list_all_iff printable_def range_in_def)
  have al: "room alloc" "alloc A_boundary (boundary_size ?r) \<noteq> NULL" "alloc A_type (45 + NGX_ATOMIC_T_LEN) \<noteq> NULL"
    using assms(3,5) by (auto simp: plenty_def NGX_ATOMIC_T_LEN_def boundary_size_def)
  have bv: "boundary_value boundary ?r = ?bh" by (simp add: boundary_value_def)
  obtain rs' len where pt: "part_ranges alloc ?n (int (length ?bh)) 0 ?rs ?len0 = Some (Some (rs', len))"
    using part_ranges_plenty [OF assms(3) pr] by fastforce
  note eq = part_ranges_eq [OF al(1) pr pt]
  let ?ctx = "\<lparr>ctx_offset = 0, ctx_ranges = rs', boundary_header = ?bh\<rparr>"
  obtain r' where r': "ngx_http_range_header_filter alloc boundary r = Some (Header_Next r' (Some ?ctx))" "out_status r' = 206"
    "out_content_type r' = bytes ''multipart/byteranges; boundary='' @ boundary_text boundary" "out_content_length_n r' = len"
    using range_requested_header [OF assms(1,3), of boundary] boundary_print_eq [OF al(1) assms(4), of ?r] print_type_eq [OF al(1) assms(4)]
      al pt bv assms(2,6) by (auto simp: Let_def ngx_http_range_multipart_header_def)
  have rs': "list_all (range_in (int (length (buf_bytes b)))) rs'"
    using eq inn assms(9) by (auto simp: list_all_iff part_range_def range_in_def)
  have b24: "take (4 + NGX_ATOMIC_T_LEN) ?bh = [CR, LF] @ bytes ''--'' @ boundary_text boundary"
    using assms(4) by (simp add: boundary_value_def NGX_ATOMIC_T_LEN_def bytes_def)
  obtain out where out: "body_calls alloc True (Some ?ctx) [[b]] = Some out"
    "concat (map buf_bytes out) = concat (map (\<lambda>rg. ?bh @ content_range rg @ subrange (buf_bytes b) (range_start rg) (range_end rg)) rs') @
      [CR, LF] @ bytes ''--'' @ boundary_text boundary @ bytes ''--'' @ [CR, LF]"
    using body_calls_multipart [OF assms(7,8,3) rs', of True ?bh] b24 eq assms(2) by auto
  have "concat (map buf_bytes out) = multipart_text boundary r (buf_bytes b) rs"
    unfolding out(2) multipart_text_def using eq
    by (auto simp: part_range_def mk_range_def comp_def case_prod_beta intro!: arg_cong [where f = concat])
  moreover have "int (length (concat (map buf_bytes out))) = len"
    using parts_length [OF rs', of ?bh] eq assms(4)
    by (simp add: out(2) NGX_ATOMIC_T_LEN_def comp_def range_size_def part_range_def del: length_concat)
  ultimately show ?thesis using r' out(1) by metis
qed

theorem range_response_multipart_witness:
  "\<exists>r' ctx out. ngx_http_range_header_filter sample_alloc 7 sample_request = Some (Header_Next r' (Some ctx)) \<and>
    body_calls sample_alloc True (Some ctx) [[sample_buf ''abcdefg'']] = Some out \<and>
    concat (map buf_bytes out) = multipart_text 7 sample_request (bytes ''abcdefg'') [(1, 3), (4, 6)] \<and>
    int (length (concat (map buf_bytes out))) = out_content_length_n r'"
proof -
  have "range_requested sample_request [(1, 3), (4, 6)]"
    unfolding range_requested_def sample_texts by (simp add: sample_request_def ngx_consts bytes_def)
  moreover have "out_content_offset sample_request = 0" "out_content_length_n sample_request = 7" "boundary_size sample_request < 65536"
    by (simp_all add: sample_request_def boundary_size_def NGX_ATOMIC_T_LEN_def)
  ultimately show ?thesis
    using range_response_multipart [of sample_request "[(1, 3), (4, 6)]" sample_alloc 7 "sample_buf ''abcdefg''"] by fastforce
qed

end
