(* ===== verification/Wfrest_Multipart.thy ===== *)
theory Wfrest_Multipart
  imports Ngx_Prelude
begin

text \<open>
  The parser of multipart bodies of wfrest, \<^verbatim>\<open>wfrest-main/src/core/MultiPartParser.c\<close>.

  The parser tells its caller what it finds through callbacks.  The model keeps the list of the
  events passed to the callbacks; \<open>cb\<close> stands for the callbacks of \<^verbatim>\<open>multipart_parser_settings\<close> and
  tells, from the events so far and the new one, whether the callback returns a value other than
  0, which stops the parser.  A callback that is not set never stops it.

  The object is one allocation: the boundary with its terminator, then the look-behind
  buffer.  Of the allocated size (\<^verbatim>\<open>sizeof(multipart_parser)\<close> is 56, \<^verbatim>\<open>multipart_boundary\<close> is
  at offset 48), 16 bytes and the length of the boundary are left for the look-behind buffer.
\<close>

datatype mp_state = s_uninitialized | s_start | s_start_boundary | s_header_field_start | s_header_field
  | s_headers_almost_done | s_header_value_start | s_header_value | s_header_value_almost_done
  | s_part_data_start | s_part_data | s_part_data_almost_boundary | s_part_data_boundary
  | s_part_data_almost_end | s_part_data_end | s_part_data_final_hyphen | s_end

record multipart_parser =
  p_data :: nat
  p_index :: nat
  p_boundary_length :: nat
  p_state :: mp_state
  p_multipart_boundary :: "u_char list"
  p_lookbehind :: "u_char list"

datatype mp_event = On_header_field "u_char list" | On_header_value "u_char list" | On_part_data "u_char list"
  | On_part_data_begin | On_headers_complete | On_part_data_end | On_body_end

type_synonym mp_callbacks = "mp_event list \<Rightarrow> mp_event \<Rightarrow> bool"

text \<open>\<open>data\<close> and \<open>garbage\<close> are what the allocated memory holds; the allocation is assumed to succeed.\<close>

definition multipart_parser_init :: "nat \<Rightarrow> u_char list \<Rightarrow> u_char list \<Rightarrow> multipart_parser" where
  "multipart_parser_init data garbage boundary =
    \<lparr>p_data = data, p_index = 0, p_boundary_length = length boundary, p_state = s_start,
     p_multipart_boundary = boundary,
     p_lookbehind = take (length boundary + 16) (garbage @ replicate (length boundary + 16) 0)\<rparr>"

definition multipart_parser_set_data :: "multipart_parser \<Rightarrow> nat \<Rightarrow> multipart_parser" where
  "multipart_parser_set_data p data = p\<lparr>p_data := data\<rparr>"

definition multipart_parser_get_data :: "multipart_parser \<Rightarrow> nat" where
  "multipart_parser_get_data p = p_data p"

text \<open>Reading \<^verbatim>\<open>p->multipart_boundary[k]\<close>: the boundary, its terminator, the look-behind buffer.\<close>

definition boundary_at :: "multipart_parser \<Rightarrow> nat \<Rightarrow> u_char" where
  "boundary_at p k = (p_multipart_boundary p @ 0 # p_lookbehind p) ! k"

text \<open>
  One round of the loop goes on at a position with a mark, or returns a number.
\<close>

datatype mp_verdict =
    Mp_next nat nat multipart_parser "mp_event list"
  | Mp_return nat multipart_parser "mp_event list"

text \<open>The macros \<^verbatim>\<open>NOTIFY_CB\<close> and \<^verbatim>\<open>EMIT_DATA_CB\<close>; \<open>k\<close> is the code that follows.\<close>

definition notify :: "mp_callbacks \<Rightarrow> nat \<Rightarrow> multipart_parser \<Rightarrow> mp_event list \<Rightarrow> mp_event
    \<Rightarrow> (mp_event list \<Rightarrow> mp_verdict) \<Rightarrow> mp_verdict" where
  "notify cb i p evs e k = (if cb evs e then Mp_return i p (evs @ [e]) else k (evs @ [e]))"

definition c_tolower :: "u_char \<Rightarrow> u_char" where
  "c_tolower c = (if ch CHR ''A'' \<le> c \<and> c \<le> ch CHR ''Z'' then c + 0x20 else c)"

definition mp_do_start_boundary :: "mp_callbacks \<Rightarrow> nat \<Rightarrow> nat \<Rightarrow> u_char \<Rightarrow> multipart_parser
    \<Rightarrow> mp_event list \<Rightarrow> mp_verdict" where
  "mp_do_start_boundary cb i mark c p evs =
    (if p_index p = p_boundary_length p then
       if c \<noteq> CR then Mp_return i p evs
       else Mp_next (i + 1) mark (p\<lparr>p_index := p_index p + 1\<rparr>) evs
     else if p_index p = p_boundary_length p + 1 then
       if c \<noteq> LF then Mp_return i p evs
       else
         let p = p\<lparr>p_index := 0\<rparr> in
         notify cb i p evs On_part_data_begin (\<lambda>evs.
           Mp_next (i + 1) mark (p\<lparr>p_state := s_header_field_start\<rparr>) evs)
     else if c \<noteq> boundary_at p (p_index p) then Mp_return i p evs
     else Mp_next (i + 1) mark (p\<lparr>p_index := p_index p + 1\<rparr>) evs)"

definition mp_do_header_field :: "mp_callbacks \<Rightarrow> u_char list \<Rightarrow> nat \<Rightarrow> nat \<Rightarrow> u_char \<Rightarrow> multipart_parser
    \<Rightarrow> mp_event list \<Rightarrow> mp_verdict" where
  "mp_do_header_field cb buf i mark c p evs =
    (if c = CR then Mp_next (i + 1) mark (p\<lparr>p_state := s_headers_almost_done\<rparr>) evs
     else if c = ch CHR '':'' then
       notify cb i p evs (On_header_field (piece buf mark i)) (\<lambda>evs.
         Mp_next (i + 1) mark (p\<lparr>p_state := s_header_value_start\<rparr>) evs)
     else if c \<noteq> ch CHR ''-'' \<and> (c_tolower c < ch CHR ''a'' \<or> c_tolower c > ch CHR ''z'') then Mp_return i p evs
     else if i + 1 = length buf then
       notify cb i p evs (On_header_field (piece buf mark (i + 1))) (Mp_next (i + 1) mark p)
     else Mp_next (i + 1) mark p evs)"

definition mp_do_header_value :: "mp_callbacks \<Rightarrow> u_char list \<Rightarrow> nat \<Rightarrow> nat \<Rightarrow> u_char \<Rightarrow> multipart_parser
    \<Rightarrow> mp_event list \<Rightarrow> mp_verdict" where
  "mp_do_header_value cb buf i mark c p evs =
    (if c = CR then
       notify cb i p evs (On_header_value (piece buf mark i)) (\<lambda>evs.
         Mp_next (i + 1) mark (p\<lparr>p_state := s_header_value_almost_done\<rparr>) evs)
     else if i + 1 = length buf then
       notify cb i p evs (On_header_value (piece buf mark (i + 1))) (Mp_next (i + 1) mark p)
     else Mp_next (i + 1) mark p evs)"

definition mp_do_part_data :: "mp_callbacks \<Rightarrow> u_char list \<Rightarrow> nat \<Rightarrow> nat \<Rightarrow> u_char \<Rightarrow> multipart_parser
    \<Rightarrow> mp_event list \<Rightarrow> mp_verdict" where
  "mp_do_part_data cb buf i mark c p evs =
    (if c = CR then
       notify cb i p evs (On_part_data (piece buf mark i)) (\<lambda>evs.
         Mp_next (i + 1) i (p\<lparr>p_state := s_part_data_almost_boundary, p_lookbehind := (p_lookbehind p)[0 := CR]\<rparr>) evs)
     else if i + 1 = length buf then
       notify cb i p evs (On_part_data (piece buf mark (i + 1))) (Mp_next (i + 1) mark p)
     else Mp_next (i + 1) mark p evs)"

text \<open>\<^verbatim>\<open>mark = i--\<close> and the increment at the end of the loop: the byte is read again.\<close>

definition mp_do_almost_boundary :: "mp_callbacks \<Rightarrow> nat \<Rightarrow> nat \<Rightarrow> u_char \<Rightarrow> multipart_parser
    \<Rightarrow> mp_event list \<Rightarrow> mp_verdict" where
  "mp_do_almost_boundary cb i mark c p evs =
    (if c = LF then
       Mp_next (i + 1) mark
         (p\<lparr>p_state := s_part_data_boundary, p_lookbehind := (p_lookbehind p)[1 := LF], p_index := 0\<rparr>) evs
     else
       notify cb i p evs (On_part_data (take 1 (p_lookbehind p))) (Mp_next i i (p\<lparr>p_state := s_part_data\<rparr>)))"

definition mp_do_boundary :: "mp_callbacks \<Rightarrow> nat \<Rightarrow> nat \<Rightarrow> u_char \<Rightarrow> multipart_parser
    \<Rightarrow> mp_event list \<Rightarrow> mp_verdict" where
  "mp_do_boundary cb i mark c p evs =
    (if boundary_at p (p_index p) \<noteq> c then
       notify cb i p evs (On_part_data (take (2 + p_index p) (p_lookbehind p)))
         (Mp_next i i (p\<lparr>p_state := s_part_data\<rparr>))
     else
       let p = p\<lparr>p_lookbehind := (p_lookbehind p)[2 + p_index p := c], p_index := p_index p + 1\<rparr> in
       if p_index p = p_boundary_length p then
         notify cb i p evs On_part_data_end (Mp_next (i + 1) mark (p\<lparr>p_state := s_part_data_almost_end\<rparr>))
       else Mp_next (i + 1) mark p evs)"

definition mp_do_almost_end :: "nat \<Rightarrow> nat \<Rightarrow> u_char \<Rightarrow> multipart_parser \<Rightarrow> mp_event list \<Rightarrow> mp_verdict" where
  "mp_do_almost_end i mark c p evs =
    (if c = ch CHR ''-'' then Mp_next (i + 1) mark (p\<lparr>p_state := s_part_data_final_hyphen\<rparr>) evs
     else if c = CR then Mp_next (i + 1) mark (p\<lparr>p_state := s_part_data_end\<rparr>) evs
     else Mp_return i p evs)"

text \<open>A state that waits for one character \<open>x\<close> and goes to \<open>st\<close>.\<close>

definition mp_expect :: "u_char \<Rightarrow> mp_state \<Rightarrow> nat \<Rightarrow> nat \<Rightarrow> u_char \<Rightarrow> multipart_parser \<Rightarrow> mp_event list
    \<Rightarrow> mp_verdict" where
  "mp_expect x st i mark c p evs =
    (if c \<noteq> x then Mp_return i p evs else Mp_next (i + 1) mark (p\<lparr>p_state := st\<rparr>) evs)"

definition mp_do_final_hyphen :: "mp_callbacks \<Rightarrow> nat \<Rightarrow> nat \<Rightarrow> u_char \<Rightarrow> multipart_parser
    \<Rightarrow> mp_event list \<Rightarrow> mp_verdict" where
  "mp_do_final_hyphen cb i mark c p evs =
    (if c = ch CHR ''-'' then notify cb i p evs On_body_end (Mp_next (i + 1) mark (p\<lparr>p_state := s_end\<rparr>))
     else Mp_return i p evs)"

definition mp_do_part_data_end :: "mp_callbacks \<Rightarrow> nat \<Rightarrow> nat \<Rightarrow> u_char \<Rightarrow> multipart_parser
    \<Rightarrow> mp_event list \<Rightarrow> mp_verdict" where
  "mp_do_part_data_end cb i mark c p evs =
    (if c = LF then
       let p = p\<lparr>p_state := s_header_field_start\<rparr> in
       notify cb i p evs On_part_data_begin (Mp_next (i + 1) mark p)
     else Mp_return i p evs)"

text \<open>The body of the loop; the states that fall through run the next state on the same byte.\<close>

definition mp_step :: "mp_callbacks \<Rightarrow> u_char list \<Rightarrow> nat \<Rightarrow> nat \<Rightarrow> multipart_parser \<Rightarrow> mp_event list
    \<Rightarrow> mp_verdict" where
  "mp_step cb buf i mark p evs =
    (let c = buf ! i in
     case p_state p of
       s_start \<Rightarrow> mp_do_start_boundary cb i mark c (p\<lparr>p_index := 0, p_state := s_start_boundary\<rparr>) evs
     | s_start_boundary \<Rightarrow> mp_do_start_boundary cb i mark c p evs
     | s_header_field_start \<Rightarrow> mp_do_header_field cb buf i i c (p\<lparr>p_state := s_header_field\<rparr>) evs
     | s_header_field \<Rightarrow> mp_do_header_field cb buf i mark c p evs
     | s_headers_almost_done \<Rightarrow> mp_expect LF s_part_data_start i mark c p evs
     | s_header_value_start \<Rightarrow>
         if c = ch CHR '' '' then Mp_next (i + 1) mark p evs
         else mp_do_header_value cb buf i i c (p\<lparr>p_state := s_header_value\<rparr>) evs
     | s_header_value \<Rightarrow> mp_do_header_value cb buf i mark c p evs
     | s_header_value_almost_done \<Rightarrow> mp_expect LF s_header_field_start i mark c p evs
     | s_part_data_start \<Rightarrow>
         notify cb i p evs On_headers_complete (mp_do_part_data cb buf i i c (p\<lparr>p_state := s_part_data\<rparr>))
     | s_part_data \<Rightarrow> mp_do_part_data cb buf i mark c p evs
     | s_part_data_almost_boundary \<Rightarrow> mp_do_almost_boundary cb i mark c p evs
     | s_part_data_boundary \<Rightarrow> mp_do_boundary cb i mark c p evs
     | s_part_data_almost_end \<Rightarrow> mp_do_almost_end i mark c p evs
     | s_part_data_final_hyphen \<Rightarrow> mp_do_final_hyphen cb i mark c p evs
     | s_part_data_end \<Rightarrow> mp_do_part_data_end cb i mark c p evs
     | s_end \<Rightarrow> Mp_next (i + 1) mark p evs
     | s_uninitialized \<Rightarrow> Mp_return 0 p evs)"

text \<open>
  A round either goes on to the next byte or leaves the state that looks for the
  boundary for \<^const>\<open>s_part_data\<close>, which does not read the byte again; so the loop ends.
\<close>

lemmas mp_step_defs = mp_step_def mp_do_start_boundary_def mp_do_header_field_def mp_do_header_value_def
  mp_do_part_data_def mp_do_almost_boundary_def mp_do_boundary_def mp_do_almost_end_def mp_expect_def
  mp_do_final_hyphen_def mp_do_part_data_end_def notify_def Let_def

lemma mp_step_progress:
  "mp_step cb buf i mark p evs = Mp_next i' mark' p' evs' \<Longrightarrow>
    i' = i + 1 \<or> i' = i \<and> p_state p \<noteq> s_part_data \<and> p_state p' = s_part_data"
  by (cases "p_state p") (auto simp: mp_step_defs split: if_splits)

function (sequential) mp_loop :: "mp_callbacks \<Rightarrow> u_char list \<Rightarrow> nat \<Rightarrow> nat \<Rightarrow> multipart_parser \<Rightarrow> mp_event list
    \<Rightarrow> nat \<times> multipart_parser \<times> mp_event list" where
  "mp_loop cb buf i mark p evs =
    (if i < length buf then
       case mp_step cb buf i mark p evs of
         Mp_next i mark p evs \<Rightarrow> mp_loop cb buf i mark p evs
       | Mp_return n p evs \<Rightarrow> (n, p, evs)
     else (length buf, p, evs))"
  by pat_completeness auto
termination
  by (relation "measure (\<lambda>(cb, buf, i, mark, p, evs).
        2 * (length buf - i) + (if p_state p = s_part_data then 0 else 1))")
    (auto dest!: mp_step_progress)

declare mp_loop.simps [simp del]

definition multipart_parser_execute :: "mp_callbacks \<Rightarrow> multipart_parser \<Rightarrow> u_char list \<Rightarrow> mp_event list
    \<Rightarrow> nat \<times> multipart_parser \<times> mp_event list" where
  "multipart_parser_execute cb p buf evs = mp_loop cb buf 0 0 p evs"

section \<open>Every access is in bounds\<close>

text \<open>
  In every state the indices stay in the object: the boundary is read below its length, the
  look-behind buffer is written below its size, and it holds the bytes that were read but not yet
  handed on.
\<close>

definition mp_ok :: "multipart_parser \<Rightarrow> bool" where
  "mp_ok p \<longleftrightarrow> p_boundary_length p = length (p_multipart_boundary p) \<and> 0 < p_boundary_length p
     \<and> length (p_lookbehind p) = p_boundary_length p + 16
     \<and> (case p_state p of
          s_uninitialized \<Rightarrow> False
        | s_start_boundary \<Rightarrow> p_index p \<le> p_boundary_length p + 1
        | s_part_data_almost_boundary \<Rightarrow> take 1 (p_lookbehind p) = [CR]
        | s_part_data_boundary \<Rightarrow> p_index p < p_boundary_length p
            \<and> take (2 + p_index p) (p_lookbehind p) = [CR, LF] @ take (p_index p) (p_multipart_boundary p)
        | _ \<Rightarrow> True)"

primrec verdict_ok :: "(multipart_parser \<Rightarrow> bool) \<Rightarrow> mp_verdict \<Rightarrow> bool" where
  "verdict_ok P (Mp_next i mark p evs) = P p"
| "verdict_ok P (Mp_return n p evs) = True"

lemma boundary_at_less: "mp_ok p \<Longrightarrow> k < p_boundary_length p \<Longrightarrow> boundary_at p k = p_multipart_boundary p ! k"
  by (simp add: mp_ok_def boundary_at_def nth_append)

lemma take_update_next: "n < length xs \<Longrightarrow> take (Suc n) (xs[n := c]) = take n xs @ [c]"
  by (simp add: take_Suc_conv_app_nth)

lemma mp_do_boundary_ok:
  assumes "mp_ok p" "p_state p = s_part_data_boundary" "p_multipart_boundary p = B"
  shows "verdict_ok (\<lambda>p. mp_ok p \<and> p_multipart_boundary p = B) (mp_do_boundary cb i mark c p evs)"
proof -
  have "take (Suc (2 + p_index p)) ((p_lookbehind p)[2 + p_index p := c]) = [CR, LF] @ take (p_index p) B @ [c]"
    using assms by (subst take_update_next) (auto simp: mp_ok_def)
  moreover have "take (Suc (p_index p)) B = take (p_index p) B @ [B ! p_index p]"
    using assms by (intro take_Suc_conv_app_nth) (auto simp: mp_ok_def)
  ultimately show ?thesis using assms boundary_at_less [OF assms(1), of "p_index p"]
    by (auto simp: mp_do_boundary_def Let_def mp_ok_def notify_def)
qed

lemma mp_step_ok:
  assumes "mp_ok p" "p_multipart_boundary p = B"
  shows "verdict_ok (\<lambda>p. mp_ok p \<and> p_multipart_boundary p = B) (mp_step cb buf i mark p evs)"
proof (cases "p_state p = s_part_data_boundary")
  case True
  then show ?thesis using mp_do_boundary_ok [OF assms(1) True assms(2)] by (simp add: mp_step_def Let_def)
next
  case False
  have "length (p_lookbehind p) > 1" using assms(1) by (simp add: mp_ok_def)
  then obtain x y zs where "p_lookbehind p = x # y # zs"
    by (cases "p_lookbehind p"; cases "tl (p_lookbehind p)") auto
  with False show ?thesis using assms by (cases "p_state p") (auto simp: mp_step_defs mp_ok_def)
qed

section \<open>Return values\<close>

text \<open>
  What a round may do to the events: it appends some, and only the last one can be refused, in which
  case the round returns a position in the buffer.
\<close>

definition appended :: "mp_callbacks \<Rightarrow> mp_event list \<Rightarrow> mp_event list \<Rightarrow> bool \<Rightarrow> bool" where
  "appended cb evs evs' stopped \<longleftrightarrow> (\<exists>new. evs' = evs @ new \<and>
     (\<forall>k < length new. cb (evs @ take k new) (new ! k) \<longrightarrow> stopped \<and> k + 1 = length new))"

lemma appended_Nil: "appended cb evs evs b"
  unfolding appended_def by (intro exI [of _ "[]"]) simp

lemma appended_one: "(cb evs e \<Longrightarrow> b) \<Longrightarrow> appended cb evs (evs @ [e]) b"
  unfolding appended_def by (intro exI [of _ "[e]"]) simp

lemma appended_trans:
  assumes "appended cb evs evs1 False" "appended cb evs1 evs2 b"
  shows "appended cb evs evs2 b"
proof -
  obtain new1 new2 where n: "evs1 = evs @ new1" "evs2 = evs1 @ new2"
    "\<forall>k < length new1. \<not> cb (evs @ take k new1) (new1 ! k)"
    "\<forall>k < length new2. cb (evs1 @ take k new2) (new2 ! k) \<longrightarrow> b \<and> k + 1 = length new2"
    using assms unfolding appended_def by auto
  have "cb (evs @ take k (new1 @ new2)) ((new1 @ new2) ! k) \<longrightarrow> b \<and> k + 1 = length (new1 @ new2)"
    if "k < length (new1 @ new2)" for k
  proof (cases "k < length new1")
    case False
    then have "cb (evs1 @ take (k - length new1) new2) (new2 ! (k - length new1)) \<longrightarrow>
      b \<and> k - length new1 + 1 = length new2" using n(4) [rule_format, of "k - length new1"] that by simp
    with False show ?thesis by (auto simp: n(1) nth_append)
  qed (use n(3) in \<open>simp add: nth_append\<close>)
  then show ?thesis unfolding appended_def using n(1,2) by (intro exI [of _ "new1 @ new2"]) simp
qed

primrec verdict_appends :: "mp_callbacks \<Rightarrow> mp_event list \<Rightarrow> nat \<Rightarrow> mp_verdict \<Rightarrow> bool" where
  "verdict_appends cb evs l (Mp_next i mark p evs') = appended cb evs evs' False"
| "verdict_appends cb evs l (Mp_return n p evs') = (n < l \<and> appended cb evs evs' True)"

lemma verdict_appends_notify:
  assumes "i < l" "\<not> cb evs e \<Longrightarrow> verdict_appends cb (evs @ [e]) l (k (evs @ [e]))"
  shows "verdict_appends cb evs l (notify cb i p evs e k)"
proof (cases "cb evs e")
  case True
  then show ?thesis using assms(1) by (simp add: notify_def appended_one)
next
  case False
  then have "verdict_appends cb (evs @ [e]) l (k (evs @ [e]))" by (rule assms(2))
  moreover have "appended cb evs (evs @ [e]) False" using False by (intro appended_one) simp
  ultimately show ?thesis using False
    by (cases "k (evs @ [e])") (auto simp: notify_def intro: appended_trans)
qed

lemma mp_step_appends:
  "i < length buf \<Longrightarrow> verdict_appends cb evs (length buf) (mp_step cb buf i mark p evs)"
  by (cases "p_state p") (auto simp: mp_step_def mp_do_start_boundary_def mp_do_header_field_def
      mp_do_header_value_def mp_do_part_data_def mp_do_almost_boundary_def mp_do_boundary_def mp_do_almost_end_def
      mp_expect_def mp_do_final_hyphen_def mp_do_part_data_end_def Let_def appended_Nil intro!: verdict_appends_notify)


section \<open>Reachable objects\<close>

lemma mp_loop_ok:
  "mp_ok p \<Longrightarrow> p_multipart_boundary p = B \<Longrightarrow>
    (case mp_loop cb buf i mark p evs of (n, p', evs') \<Rightarrow>
       n = length buf \<longrightarrow> mp_ok p' \<and> p_multipart_boundary p' = B)"
proof (induction cb buf i mark p evs rule: mp_loop.induct)
  case (1 cb buf i mark p evs)
  show ?case using 1 mp_step_ok [OF 1(2,3), of cb buf i mark evs] mp_step_appends [where i = i and buf = buf and cb = cb and evs = evs and mark = mark and p = p]
    by (subst mp_loop.simps) (auto split: mp_verdict.split)
qed

text \<open>
  The objects of a program that stops using a parser when a call has returned less than the
  length of its buffer.
\<close>

inductive mp_reachable :: "u_char list \<Rightarrow> multipart_parser \<Rightarrow> bool" for B where
  init: "mp_reachable B (multipart_parser_init data garbage B)"
| set_data: "mp_reachable B p \<Longrightarrow> mp_reachable B (multipart_parser_set_data p data)"
| execute: "mp_reachable B p \<Longrightarrow> multipart_parser_execute cb p buf evs = (length buf, p', evs') \<Longrightarrow> mp_reachable B p'"



text \<open>
  The restriction to successful calls is needed.  When \<^verbatim>\<open>on_part_data_end\<close> stops the parser, the state keeps looking for the
  boundary with an index beyond it; a further call compares the input with the terminator and
  the look-behind buffer, and writes beyond its 17 bytes.
\<close>

definition stopped_parser :: multipart_parser where
  "stopped_parser = fst (snd (multipart_parser_execute (\<lambda>evs e. e = On_part_data_end)
     (multipart_parser_init 0 [] (bytes ''x'')) (bytes ''x'' @ [CR, LF, CR, LF, CR, LF] @ bytes ''x'') []))"

lemma overrun_after_stop:
  "p_state stopped_parser = s_part_data_boundary \<and> p_index stopped_parser = p_boundary_length stopped_parser"
  "case multipart_parser_execute (\<lambda>evs e. False) stopped_parser (concat (replicate 4 [0, CR, LF, ch CHR ''x''])) [] of
     (n, p, evs) \<Rightarrow> p_state p = s_part_data_boundary \<and> p_index p + 2 > length (p_lookbehind p)"
  by code_simp+

end
