(* ===== verification/Wfrest_Multipart_Correct.thy ===== *)
theory Wfrest_Multipart_Correct
  imports Wfrest_Multipart "HOL-Library.Sublist"
begin

text \<open>
  Correctness of the multipart parser: it refines a specification that works byte by byte and
  keeps nothing, and it gives back the headers and the data of a multipart body.
\<close>

section \<open>The specification: one byte at a time\<close>

text \<open>
  The specification hands every byte on as soon as it is known what it belongs to, and has no
  buffer: its state is the state and the index.  A header name without a colon is an error here.
\<close>

type_synonym spec_state = "mp_state \<times> nat"

definition name_byte :: "u_char \<Rightarrow> bool" where
  "name_byte c \<longleftrightarrow> c = ch CHR ''-'' \<or> ch CHR ''a'' \<le> c_tolower c \<and> c_tolower c \<le> ch CHR ''z''"

definition spec_boundary :: "u_char list \<Rightarrow> nat \<Rightarrow> u_char \<Rightarrow> (mp_event list \<times> spec_state) option" where
  "spec_boundary B k c =
    (if k = length B then if c = CR then Some ([], s_start_boundary, k + 1) else None
     else if k = length B + 1 then if c = LF then Some ([On_part_data_begin], s_header_field_start, 0) else None
     else if c = B ! k then Some ([], s_start_boundary, k + 1) else None)"

definition spec_name :: "nat \<Rightarrow> u_char \<Rightarrow> (mp_event list \<times> spec_state) option" where
  "spec_name k c =
    (if c = ch CHR '':'' then Some ([On_header_field []], s_header_value_start, k)
     else if name_byte c then Some ([On_header_field [c]], s_header_field, k) else None)"

definition spec_value :: "nat \<Rightarrow> u_char \<Rightarrow> mp_event list \<times> spec_state" where
  "spec_value k c =
    (if c = CR then ([On_header_value []], s_header_value_almost_done, k)
     else ([On_header_value [c]], s_header_value, k))"

definition spec_data :: "nat \<Rightarrow> u_char \<Rightarrow> mp_event list \<times> spec_state" where
  "spec_data k c =
    (if c = CR then ([On_part_data []], s_part_data_almost_boundary, k) else ([On_part_data [c]], s_part_data, k))"

fun spec_step :: "u_char list \<Rightarrow> spec_state \<Rightarrow> u_char \<Rightarrow> (mp_event list \<times> spec_state) option" where
  "spec_step B (s_start, k) c = spec_boundary B 0 c"
| "spec_step B (s_start_boundary, k) c = spec_boundary B k c"
| "spec_step B (s_header_field_start, k) c =
    (if c = CR then Some ([], s_headers_almost_done, k) else spec_name k c)"
| "spec_step B (s_header_field, k) c = (if c = CR then None else spec_name k c)"
| "spec_step B (s_headers_almost_done, k) c = (if c = LF then Some ([], s_part_data_start, k) else None)"
| "spec_step B (s_header_value_start, k) c =
    (if c = ch CHR '' '' then Some ([], s_header_value_start, k) else Some (spec_value k c))"
| "spec_step B (s_header_value, k) c = Some (spec_value k c)"
| "spec_step B (s_header_value_almost_done, k) c = (if c = LF then Some ([], s_header_field_start, k) else None)"
| "spec_step B (s_part_data_start, k) c = Some (apfst ((#) On_headers_complete) (spec_data k c))"
| "spec_step B (s_part_data, k) c = Some (spec_data k c)"
| "spec_step B (s_part_data_almost_boundary, k) c =
    (if c = LF then Some ([], s_part_data_boundary, 0)
     else Some (apfst ((#) (On_part_data [CR])) (spec_data k c)))"
| "spec_step B (s_part_data_boundary, k) c =
    (if B ! k \<noteq> c then Some (apfst ((#) (On_part_data ([CR, LF] @ take k B))) (spec_data k c))
     else if k + 1 = length B then Some ([On_part_data_end], s_part_data_almost_end, k + 1)
     else Some ([], s_part_data_boundary, k + 1))"
| "spec_step B (s_part_data_almost_end, k) c =
    (if c = ch CHR ''-'' then Some ([], s_part_data_final_hyphen, k)
     else if c = CR then Some ([], s_part_data_end, k) else None)"
| "spec_step B (s_part_data_final_hyphen, k) c =
    (if c = ch CHR ''-'' then Some ([On_body_end], s_end, k) else None)"
| "spec_step B (s_part_data_end, k) c =
    (if c = LF then Some ([On_part_data_begin], s_header_field_start, k) else None)"
| "spec_step B (s_end, k) c = Some ([], s_end, k)"
| "spec_step B (s_uninitialized, k) c = None"

fun spec_run :: "u_char list \<Rightarrow> spec_state \<Rightarrow> u_char list \<Rightarrow> (mp_event list \<times> spec_state) option" where
  "spec_run B s [] = Some ([], s)"
| "spec_run B s (c # cs) =
    (case spec_step B s c of None \<Rightarrow> None | Some (evs, s') \<Rightarrow> map_option (apfst ((@) evs)) (spec_run B s' cs))"

lemma spec_run_append:
  "spec_run B s (xs @ ys) =
    (case spec_run B s xs of None \<Rightarrow> None | Some (evs, s') \<Rightarrow> map_option (apfst ((@) evs)) (spec_run B s' ys))"
proof (induction xs arbitrary: s)
  case Nil
  show ?case by (cases "spec_run B s ys") auto
next
  case (Cons c xs)
  then show ?case by (auto split: option.split simp: option.map_comp o_def apfst_def map_prod_def intro!: option.map_cong)
qed

text \<open>
  How data is cut into events does not matter: adjacent pieces of the same kind are joined.
\<close>

fun join :: "mp_event \<Rightarrow> mp_event \<Rightarrow> mp_event option" where
  "join (On_header_field a) (On_header_field b) = Some (On_header_field (a @ b))"
| "join (On_header_value a) (On_header_value b) = Some (On_header_value (a @ b))"
| "join (On_part_data a) (On_part_data b) = Some (On_part_data (a @ b))"
| "join _ _ = None"

definition add_event :: "mp_event list \<Rightarrow> mp_event \<Rightarrow> mp_event list" where
  "add_event rs e =
    (if rs = [] then [e]
     else case join (last rs) e of None \<Rightarrow> rs @ [e] | Some e' \<Rightarrow> butlast rs @ [e'])"

definition joined :: "mp_event list \<Rightarrow> mp_event list" where
  "joined evs = foldl add_event [] evs"

lemma joined_Nil [simp]: "joined [] = []"
  by (simp add: joined_def)

lemma joined_snoc: "joined (evs @ [e]) = add_event (joined evs) e"
  by (simp add: joined_def)

lemma joined_append: "joined (xs @ ys) = foldl add_event (joined xs) ys"
  by (simp add: joined_def)

lemma joined_cong: "joined xs = joined ys \<Longrightarrow> joined (xs @ zs) = joined (ys @ zs)"
  by (simp add: joined_append)

lemma join_assoc: "join e e' = Some e'' \<Longrightarrow> join d e'' =
  (case join d e of None \<Rightarrow> None | Some x \<Rightarrow> join x e')"
  by (cases e; cases e'; cases d) auto

lemma join_twice: "join e e' = Some e'' \<Longrightarrow> join d e = Some x \<Longrightarrow> \<exists>y. join x e' = Some y"
  by (cases e; cases e'; cases d) auto

lemma add_event_join: "join e e' = Some e'' \<Longrightarrow> add_event (add_event rs e) e' = add_event rs e''"
  by (auto simp: add_event_def join_assoc split: option.split dest: join_twice)

lemma joined_join: "join e e' = Some e'' \<Longrightarrow> joined (xs @ [e, e'] @ ys) = joined (xs @ [e''] @ ys)"
  by (simp add: joined_append add_event_join)

section \<open>The parser refines its specification\<close>

definition never :: mp_callbacks where
  "never evs e = False"

text \<open>The bytes from the mark on that have not been handed on yet.\<close>

definition pending :: "u_char list \<Rightarrow> nat \<Rightarrow> nat \<Rightarrow> mp_state \<Rightarrow> mp_event list" where
  "pending buf i mark st =
    (if mark < i \<and> i < length buf then
       case st of
         s_header_field \<Rightarrow> [On_header_field (piece buf mark i)]
       | s_header_value \<Rightarrow> [On_header_value (piece buf mark i)]
       | s_part_data \<Rightarrow> [On_part_data (piece buf mark i)]
       | _ \<Rightarrow> []
     else [])"

definition sim :: "u_char list \<Rightarrow> u_char list \<Rightarrow> nat \<Rightarrow> nat \<Rightarrow> multipart_parser \<Rightarrow> mp_event list \<Rightarrow> spec_state
    \<Rightarrow> mp_event list \<Rightarrow> bool" where
  "sim B buf i mark p evs s aevs \<longleftrightarrow> mp_ok p \<and> p_multipart_boundary p = B \<and> s = (p_state p, p_index p)
     \<and> mark \<le> i \<and> i \<le> length buf \<and> joined (evs @ pending buf i mark (p_state p)) = joined aevs"

text \<open>A verdict that goes on to the next byte in agreement with a step of the specification.\<close>

definition agrees :: "u_char list \<Rightarrow> u_char list \<Rightarrow> nat \<Rightarrow> mp_event list \<Rightarrow> mp_verdict
    \<Rightarrow> mp_event list \<times> spec_state \<Rightarrow> bool" where
  "agrees B buf i aevs v es_s \<longleftrightarrow> (\<exists>mark p evs. v = Mp_next (i + 1) mark p evs
     \<and> sim B buf (i + 1) mark p evs (snd es_s) (aevs @ fst es_s))"

lemma joined_pending:
  assumes "joined (evs @ (if mark < i then [K (piece buf mark i)] else [])) = joined aevs" "mark \<le> i"
    and "\<And>a b. join (K a) (K b) = Some (K (a @ b))"
  shows "joined (evs @ [K (piece buf mark i @ x)]) = joined (aevs @ [K x])"
proof (cases "mark < i")
  case True
  then have "joined (evs @ [K (piece buf mark i)] @ [K x]) = joined (aevs @ [K x])"
    using joined_cong [OF assms(1), of "[K x]"] by simp
  then show ?thesis using joined_join [OF assms(3), of evs "piece buf mark i" x "[]"] by simp
next
  case False
  then show ?thesis using joined_cong [OF assms(1), of "[K x]"] assms(2) by simp
qed

lemma pending_other: "st \<notin> {s_header_field, s_header_value, s_part_data} \<Longrightarrow> pending buf i mark st = []"
  by (cases st) (auto simp: pending_def)

lemma pending_self [simp]: "pending buf i i st = []"
  by (simp add: pending_def)

lemma pending_end [simp]: "pending buf (length buf) mark st = []"
  by (simp add: pending_def)

lemma piece_next: "mark \<le> i \<Longrightarrow> i < length buf \<Longrightarrow> piece buf mark (i + 1) = piece buf mark i @ [buf ! i]"
  using piece_Suc [of mark i buf] by simp

lemma length_2: "1 < length xs \<Longrightarrow> \<exists>x y zs. xs = x # y # zs"
  by (cases xs; cases "tl xs") auto

lemma data_agrees:
  assumes "sim B buf i mark p evs s aevs" "p_state p = s_part_data" "i < length buf" "c = buf ! i"
  shows "agrees B buf i aevs (mp_do_part_data never buf i mark c p evs) (spec_data (p_index p) c)"
proof -
  have j: "joined (evs @ [On_part_data (piece buf mark i @ x)]) = joined (aevs @ [On_part_data x])" for x
    using assms by (intro joined_pending) (auto simp: sim_def pending_def split: if_splits)
  obtain x y zs where "p_lookbehind p = x # y # zs"
    using assms(1) length_2 [of "p_lookbehind p"] by (auto simp: sim_def mp_ok_def)
  then show ?thesis using assms j [of "[]"] j [of "[c]"] piece_next [of mark i buf]
    by (auto simp: agrees_def mp_do_part_data_def spec_data_def notify_def never_def sim_def mp_ok_def
        pending_def)
qed

lemma value_agrees:
  assumes "sim B buf i mark p evs s aevs" "p_state p = s_header_value" "i < length buf" "c = buf ! i"
  shows "agrees B buf i aevs (mp_do_header_value never buf i mark c p evs) (spec_value (p_index p) c)"
proof -
  have j: "joined (evs @ [On_header_value (piece buf mark i @ x)]) = joined (aevs @ [On_header_value x])" for x
    using assms by (intro joined_pending) (auto simp: sim_def pending_def split: if_splits)
  show ?thesis using assms j [of "[]"] j [of "[c]"] piece_next [of mark i buf]
    by (auto simp: agrees_def mp_do_header_value_def spec_value_def notify_def never_def sim_def mp_ok_def
        pending_def)
qed

lemma name_agrees:
  assumes "sim B buf i mark p evs s aevs" "p_state p = s_header_field" "i < length buf" "c = buf ! i"
    and "c \<noteq> CR" "spec_name (p_index p) c = Some r"
  shows "agrees B buf i aevs (mp_do_header_field never buf i mark c p evs) r"
proof -
  have j: "joined (evs @ [On_header_field (piece buf mark i @ x)]) = joined (aevs @ [On_header_field x])" for x
    using assms(1-4) by (intro joined_pending) (auto simp: sim_def pending_def split: if_splits)
  show ?thesis using assms j [of "[]"] j [of "[c]"] piece_next [of mark i buf]
    by (auto simp: agrees_def mp_do_header_field_def spec_name_def name_byte_def notify_def never_def sim_def mp_ok_def
        pending_def not_less split: if_splits)
qed

lemma boundary_agrees:
  assumes "sim B buf i mark p evs s aevs" "p_state p = s_start_boundary" "i < length buf"
    and "spec_boundary B (p_index p) c = Some r"
  shows "agrees B buf i aevs (mp_do_start_boundary never i mark c p evs) r"
  using assms
  by (auto simp: agrees_def mp_do_start_boundary_def spec_boundary_def notify_def never_def sim_def mp_ok_def
      boundary_at_def nth_append pending_other Let_def joined_snoc split: if_splits)

text \<open>The two states that give the byte back to \<^const>\<open>s_part_data\<close>.\<close>

lemma reread_sim:
  assumes "sim B buf i mark p evs s aevs" "p_state p \<notin> {s_header_field, s_header_value, s_part_data}"
  shows "sim B buf i i (p\<lparr>p_state := s_part_data\<rparr>) (evs @ [e]) (s_part_data, p_index p) (aevs @ [e])"
  using assms by (auto simp: sim_def mp_ok_def pending_other joined_snoc)

lemma agrees_Cons:
  "agrees B buf i (aevs @ [e]) v es_s \<Longrightarrow> agrees B buf i aevs v (apfst ((#) e) es_s)"
  by (simp add: agrees_def)

lemma boundary_match:
  assumes "sim B buf i mark p evs s aevs" "p_state p = s_part_data_boundary" "i < length buf" "B ! p_index p = c"
  shows "agrees B buf i aevs (mp_do_boundary never i mark c p evs)
    (if p_index p + 1 = length B then ([On_part_data_end], s_part_data_almost_end, p_index p + 1)
     else ([], s_part_data_boundary, p_index p + 1))"
  using assms boundary_at_less [of p "p_index p"]
    mp_do_boundary_ok [of p B never i mark c evs]
  by (auto simp: agrees_def sim_def mp_do_boundary_def Let_def notify_def never_def pending_other joined_snoc
      mp_ok_def)

text \<open>One byte: one round of the loop, or two when the byte is read again.\<close>

definition round :: "u_char list \<Rightarrow> nat \<Rightarrow> nat \<Rightarrow> multipart_parser \<Rightarrow> mp_event list \<Rightarrow> mp_verdict" where
  "round buf i mark p evs =
    (case mp_step never buf i mark p evs of
       Mp_next i' mark' p' evs' \<Rightarrow> if i' = i then mp_step never buf i mark' p' evs' else Mp_next i' mark' p' evs'
     | v \<Rightarrow> v)"

lemma round_once:
  "agrees B buf i aevs (mp_step never buf i mark p evs) r \<Longrightarrow> agrees B buf i aevs (round buf i mark p evs) r"
  by (auto simp: agrees_def round_def)

lemma round_again:
  assumes "sim B buf i mark p evs s aevs" "i < length buf"
    and "p_state p \<notin> {s_header_field, s_header_value, s_part_data}"
    and "mp_step never buf i mark p evs = Mp_next i i (p\<lparr>p_state := s_part_data\<rparr>) (evs @ [e])"
  shows "agrees B buf i aevs (round buf i mark p evs) (apfst ((#) e) (spec_data (p_index p) (buf ! i)))"
  using data_agrees [OF reread_sim [OF assms(1,3)] _ assms(2) refl, of e] assms(4)
  by (auto simp: round_def mp_step_def intro: agrees_Cons)

lemma round_almost_boundary:
  assumes "sim B buf i mark p evs s aevs" "i < length buf" "p_state p = s_part_data_almost_boundary"
    and "spec_step B s (buf ! i) = Some r"
  shows "agrees B buf i aevs (round buf i mark p evs) r"
proof (cases "buf ! i = LF")
  case True
  obtain x y zs where "p_lookbehind p = x # y # zs"
    using assms(1) length_2 [of "p_lookbehind p"] by (auto simp: sim_def mp_ok_def)
  then show ?thesis using True assms
    by (intro round_once) (auto simp: mp_step_def mp_do_almost_boundary_def agrees_def sim_def mp_ok_def pending_other)
next
  case False
  then have "agrees B buf i aevs (round buf i mark p evs)
    (apfst ((#) (On_part_data [CR])) (spec_data (p_index p) (buf ! i)))"
    using assms(1-3) by (intro round_again [OF assms(1,2)])
      (auto simp: mp_step_def mp_do_almost_boundary_def notify_def never_def sim_def mp_ok_def)
  then show ?thesis using assms False by (simp add: sim_def)
qed

lemma round_boundary:
  assumes "sim B buf i mark p evs s aevs" "i < length buf" "p_state p = s_part_data_boundary"
    and "spec_step B s (buf ! i) = Some r"
  shows "agrees B buf i aevs (round buf i mark p evs) r"
proof (cases "B ! p_index p = buf ! i")
  case True
  then show ?thesis using boundary_match [OF assms(1,3,2) True] assms(1,3,4)
    by (intro round_once) (auto simp: mp_step_def sim_def split: if_splits)
next
  case False
  have "boundary_at p (p_index p) = B ! p_index p"
    using assms(1,3) boundary_at_less [of p "p_index p"] by (auto simp: sim_def mp_ok_def)
  then have "agrees B buf i aevs (round buf i mark p evs)
    (apfst ((#) (On_part_data ([CR, LF] @ take (p_index p) B))) (spec_data (p_index p) (buf ! i)))"
    using assms(1-3) False by (intro round_again [OF assms(1,2)])
      (auto simp: mp_step_def mp_do_boundary_def notify_def never_def sim_def mp_ok_def)
  then show ?thesis using assms False by (simp add: sim_def)
qed

text \<open>The states that fall through set the mark and run the next state.\<close>

lemma enter_sim:
  assumes "sim B buf i mark p evs s aevs" "p_state p \<notin> {s_header_field, s_header_value, s_part_data}"
    and "st \<in> {s_header_field, s_header_value}"
  shows "sim B buf i i (p\<lparr>p_state := st\<rparr>) evs (st, p_index p) aevs"
  using assms by (auto simp: sim_def mp_ok_def pending_other)

lemma round_simple:
  assumes "sim B buf i mark p evs s aevs" "i < length buf"
    and "p_state p \<in> {s_uninitialized, s_headers_almost_done, s_header_value_almost_done, s_part_data_almost_end,
      s_part_data_end, s_part_data_final_hyphen, s_end}"
    and "spec_step B s (buf ! i) = Some r"
  shows "agrees B buf i aevs (round buf i mark p evs) r"
proof (rule round_once)
  show "agrees B buf i aevs (mp_step never buf i mark p evs) r"
    using assms by (auto simp: mp_step_def mp_expect_def mp_do_almost_end_def mp_do_final_hyphen_def
        mp_do_part_data_end_def notify_def never_def Let_def agrees_def sim_def mp_ok_def pending_other joined_snoc
        split: if_splits)
qed

lemma round_agrees:
  assumes "sim B buf i mark p evs s aevs" "i < length buf" "spec_step B s (buf ! i) = Some r"
  shows "agrees B buf i aevs (round buf i mark p evs) r"
proof -
  have s: "s = (p_state p, p_index p)" using assms(1) by (simp add: sim_def)
  show ?thesis
  proof (cases "p_state p")
    case s_start
    have "sim B buf i mark (p\<lparr>p_index := 0, p_state := s_start_boundary\<rparr>) evs (s_start_boundary, 0) aevs"
      using assms(1) s_start by (auto simp: sim_def mp_ok_def pending_other)
    from boundary_agrees [OF this _ assms(2)] show ?thesis using assms(3) s s_start
      by (intro round_once) (auto simp: mp_step_def)
  next
    case s_start_boundary
    then show ?thesis using boundary_agrees [OF assms(1) _ assms(2)] assms(3) s
      by (intro round_once) (auto simp: mp_step_def)
  next
    case s_header_field_start
    then show ?thesis
      using name_agrees [OF enter_sim [OF assms(1), of s_header_field] _ assms(2) refl] assms s
      by (intro round_once) (auto simp: mp_step_def mp_do_header_field_def agrees_def sim_def mp_ok_def pending_other
        split: if_splits)
  next
    case s_header_field
    then show ?thesis using name_agrees [OF assms(1) _ assms(2) refl] assms(3) s
      by (intro round_once) (auto simp: mp_step_def split: if_splits)
  next
    case s_header_value_start
    then show ?thesis
      using value_agrees [OF enter_sim [OF assms(1), of s_header_value] _ assms(2) refl] assms s
      by (intro round_once) (auto simp: mp_step_def agrees_def sim_def mp_ok_def pending_other split: if_splits)
  next
    case s_header_value
    then show ?thesis using value_agrees [OF assms(1) _ assms(2) refl] assms(3) s
      by (intro round_once) (auto simp: mp_step_def)
  next
    case s_part_data_start
    then show ?thesis
      using data_agrees [OF reread_sim [OF assms(1), of On_headers_complete] _ assms(2) refl] assms(3) s
      by (intro round_once) (auto simp: mp_step_def notify_def never_def intro: agrees_Cons)
  next
    case s_part_data
    then show ?thesis using data_agrees [OF assms(1) _ assms(2) refl] assms(3) s
      by (intro round_once) (auto simp: mp_step_def)
  qed (use round_almost_boundary [OF assms(1,2) _ assms(3)] round_boundary [OF assms(1,2) _ assms(3)]
      round_simple [OF assms(1,2) _ assms(3)] in simp_all)
qed

lemma mp_loop_round:
  assumes "i < length buf" "round buf i mark p evs = Mp_next (i + 1) mark' p' evs'"
  shows "mp_loop never buf i mark p evs = mp_loop never buf (i + 1) mark' p' evs'"
proof (cases "mp_step never buf i mark p evs")
  case (Mp_next i1 mark1 p1 evs1)
  then show ?thesis using assms
    by (subst mp_loop.simps, cases "i1 = i") (simp_all add: round_def mp_loop.simps [of never buf i mark1])
next
  case (Mp_return n p1 evs1)
  then show ?thesis using assms by (simp add: round_def)
qed

lemma mp_loop_refines:
  assumes "sim B buf i mark p evs s aevs" "spec_run B s (drop i buf) = Some (es, s')"
  shows "\<exists>p' evs'. mp_loop never buf i mark p evs = (length buf, p', evs') \<and> mp_ok p'
    \<and> p_multipart_boundary p' = B \<and> s' = (p_state p', p_index p') \<and> joined evs' = joined (aevs @ es)"
  using assms
proof (induction "length buf - i" arbitrary: i mark p evs s aevs es)
  case 0
  then have "i = length buf" by (simp add: sim_def)
  with 0 show ?case by (subst mp_loop.simps) (auto simp: sim_def)
next
  case (Suc n)
  then have i: "i < length buf" by simp
  then have d: "drop i buf = buf ! i # drop (i + 1) buf" by (simp add: Cons_nth_drop_Suc)
  obtain es1 s1 es2 where st: "spec_step B s (buf ! i) = Some (es1, s1)"
    "spec_run B s1 (drop (i + 1) buf) = Some (es2, s')" "es = es1 @ es2"
    using Suc.prems(2) by (auto simp: d split: option.splits)
  then obtain mark1 p1 evs1 where r: "round buf i mark p evs = Mp_next (i + 1) mark1 p1 evs1"
    "sim B buf (i + 1) mark1 p1 evs1 s1 (aevs @ es1)"
    using round_agrees [OF Suc.prems(1) i st(1)] by (auto simp: agrees_def)
  show ?case using Suc.hyps(1) [OF _ r(2) st(2)] Suc.hyps(2) i st(3) by (simp add: mp_loop_round [OF i r(1)])
qed

text \<open>Calls on the pieces of a body, one after the other, as long as they succeed.\<close>

fun execute_all :: "mp_callbacks \<Rightarrow> multipart_parser \<Rightarrow> u_char list list \<Rightarrow> mp_event list
    \<Rightarrow> (multipart_parser \<times> mp_event list) option" where
  "execute_all cb p [] evs = Some (p, evs)"
| "execute_all cb p (buf # bufs) evs =
    (case multipart_parser_execute cb p buf evs of (n, p', evs') \<Rightarrow>
       if n = length buf then execute_all cb p' bufs evs' else None)"

lemma execute_all_refines:
  assumes "mp_ok p" "p_multipart_boundary p = B" "joined evs = joined aevs"
    and "spec_run B (p_state p, p_index p) (concat bufs) = Some (es, s')"
  shows "\<exists>p' evs'. execute_all never p bufs evs = Some (p', evs') \<and> mp_ok p'
    \<and> s' = (p_state p', p_index p') \<and> joined evs' = joined (aevs @ es)"
  using assms
proof (induction bufs arbitrary: p evs aevs es)
  case Nil
  then show ?case by simp
next
  case (Cons buf bufs)
  then obtain es1 s1 es2 where r: "spec_run B (p_state p, p_index p) buf = Some (es1, s1)"
    "spec_run B s1 (concat bufs) = Some (es2, s')" "es = es1 @ es2"
    by (auto simp: spec_run_append split: option.splits)
  have "sim B buf 0 0 p evs (p_state p, p_index p) aevs" using Cons.prems by (simp add: sim_def)
  from mp_loop_refines [OF this, of es1 s1] r(1) obtain p1 evs1 where
    l: "multipart_parser_execute never p buf evs = (length buf, p1, evs1)" "mp_ok p1"
      "p_multipart_boundary p1 = B" "s1 = (p_state p1, p_index p1)" "joined evs1 = joined (aevs @ es1)"
    by (auto simp: multipart_parser_execute_def)
  with Cons.IH [OF l(2,3,5), of es2] r show ?case by auto
qed

lemma init_refines:
  assumes "spec_run B (s_start, 0) (concat bufs) = Some (es, s')" "B \<noteq> []"
  shows "\<exists>p evs. execute_all never (multipart_parser_init data garbage B) bufs [] = Some (p, evs)
    \<and> s' = (p_state p, p_index p) \<and> joined evs = joined es"
proof -
  let ?p = "multipart_parser_init data garbage B"
  have "mp_ok ?p" "p_multipart_boundary ?p = B" "(p_state ?p, p_index ?p) = (s_start, 0)"
    using assms(2) by (simp_all add: multipart_parser_init_def mp_ok_def)
  then show ?thesis using execute_all_refines [of ?p B "[]" "[]" bufs es s'] assms(1) by auto
qed

text \<open>
  C9: The parser refines a specification that has no buffers.  When the byte-wise specification accepts a
  body, the parser accepts it, in however many pieces it is passed: every call returns the length of
  its piece, the last state is the one of the specification, and, adjacent pieces of the same
  data joined, the events are those of the specification.
\<close>

theorem multipart_parser_refines:
  assumes "spec_run B (s_start, 0) (concat bufs) = Some (es, s')" "B \<noteq> []"
  shows "\<exists>p evs. execute_all never (multipart_parser_init data garbage B) bufs [] = Some (p, evs)
    \<and> s' = (p_state p, p_index p) \<and> joined evs = joined es"
  using assms by (rule init_refines)

lemma sample_spec_run:
  "spec_run (bytes ''x'') (s_start, 0) (concat [bytes ''x'' @ [CR], [LF] @ bytes ''a:b''])
    = Some ([On_part_data_begin, On_header_field (bytes ''a''), On_header_field [], On_header_value (bytes ''b'')],
        s_header_value, 0)"
  by (simp add: bytes_def spec_boundary_def spec_name_def spec_value_def name_byte_def c_tolower_def)

theorem multipart_parser_refines_witness:
  "\<exists>p evs. execute_all never (multipart_parser_init 0 [] (bytes ''x'')) [bytes ''x'' @ [CR], [LF] @ bytes ''a:b''] []
      = Some (p, evs)
    \<and> joined evs = [On_part_data_begin, On_header_field (bytes ''a''), On_header_value (bytes ''b'')]"
  using multipart_parser_refines [OF sample_spec_run, of 0 "[]"]
  by (auto simp: joined_def add_event_def bytes_def)

section \<open>Multipart bodies\<close>

text \<open>
  A part has header lines, names and values, and data.  The boundary stands before every part and,
  with two hyphens, after the last one.
\<close>

type_synonym part = "(u_char list \<times> u_char list) list \<times> u_char list"

definition CRLF :: "u_char list" where
  "CRLF = [CR, LF]"

fun header_bytes :: "u_char list \<times> u_char list \<Rightarrow> u_char list" where
  "header_bytes (n, v) = n @ bytes '': '' @ v @ CRLF"

fun part_bytes :: "part \<Rightarrow> u_char list" where
  "part_bytes (hs, d) = concat (map header_bytes hs) @ CRLF @ d"

fun parts_bytes :: "u_char list \<Rightarrow> u_char list \<Rightarrow> part list \<Rightarrow> u_char list" where
  "parts_bytes B epilogue [] = []"
| "parts_bytes B epilogue [q] = part_bytes q @ CRLF @ B @ bytes ''--'' @ epilogue"
| "parts_bytes B epilogue (q # q' # qs) = part_bytes q @ CRLF @ B @ CRLF @ parts_bytes B epilogue (q' # qs)"

definition multipart_body :: "u_char list \<Rightarrow> u_char list \<Rightarrow> part list \<Rightarrow> u_char list" where
  "multipart_body B epilogue qs = B @ CRLF @ parts_bytes B epilogue qs"

fun header_wf :: "u_char list \<times> u_char list \<Rightarrow> bool" where
  "header_wf (n, v) \<longleftrightarrow> n \<noteq> [] \<and> list_all name_byte n \<and> CR \<notin> set v \<and> (v = [] \<or> hd v \<noteq> ch CHR '' '')"

fun part_wf :: "u_char list \<Rightarrow> part \<Rightarrow> bool" where
  "part_wf B (hs, d) \<longleftrightarrow> list_all header_wf hs \<and> \<not> sublist (CRLF @ B) d"

fun header_events :: "u_char list \<times> u_char list \<Rightarrow> mp_event list" where
  "header_events (n, v) = [On_header_field n, On_header_value v]"

fun part_events :: "part \<Rightarrow> mp_event list" where
  "part_events (hs, d) = [On_part_data_begin] @ concat (map header_events hs)
     @ [On_headers_complete, On_part_data d, On_part_data_end]"

text \<open>A run of the specification, up to the joining of events.\<close>

definition runs_to :: "u_char list \<Rightarrow> spec_state \<Rightarrow> u_char list \<Rightarrow> mp_event list \<Rightarrow> mp_state \<Rightarrow> bool" where
  "runs_to B s w es st \<longleftrightarrow> (\<exists>es' k. spec_run B s w = Some (es', st, k) \<and> (\<forall>xs. joined (xs @ es') = joined (xs @ es)))"

lemma runs_toI: "spec_run B s w = Some (es, st, k) \<Longrightarrow> runs_to B s w es st"
  by (auto simp: runs_to_def)

lemma runs_to_append:
  assumes "runs_to B s w es st" "\<And>k. runs_to B (st, k) w' es' st'"
  shows "runs_to B s (w @ w') (es @ es') st'"
proof -
  obtain es1 k where 1: "spec_run B s w = Some (es1, st, k)" "\<And>xs. joined (xs @ es1) = joined (xs @ es)"
    using assms(1) by (auto simp: runs_to_def)
  obtain es2 k' where 2: "spec_run B (st, k) w' = Some (es2, st', k')"
    "\<And>xs. joined (xs @ es2) = joined (xs @ es')" using assms(2) [of k] by (auto simp: runs_to_def)
  have "joined (xs @ es1 @ es2) = joined (xs @ es @ es')" for xs
    using joined_cong [OF 1(2), of xs es2] 2(2) [of "xs @ es"] by simp
  then show ?thesis using 1(1) 2(1) by (auto simp: runs_to_def spec_run_append)
qed

lemma runs_to_join:
  assumes "runs_to B s w (e # e' # es) st" "join e e' = Some e''"
  shows "runs_to B s w (e'' # es) st"
  using assms joined_join [OF assms(2), of _ es] by (auto simp: runs_to_def)

lemma runs_to_Cons:
  assumes "spec_step B s c = Some (es, s')" "runs_to B s' w es' st"
  shows "runs_to B s (c # w) (es @ es') st"
proof -
  obtain es1 k where "spec_run B s' w = Some (es1, st, k)" "\<And>xs. joined (xs @ es1) = joined (xs @ es')"
    using assms(2) by (auto simp: runs_to_def)
  then have "spec_run B s (c # w) = Some (es @ es1, st, k)" "\<And>xs. joined (xs @ es @ es1) = joined (xs @ es @ es')"
    using assms(1) by simp_all (metis append.assoc)
  then show ?thesis by (auto simp: runs_to_def)
qed

subsection \<open>Boundary and headers\<close>

lemma run_start_boundary:
  "j \<le> length B \<Longrightarrow> spec_run B (s_start_boundary, j) (drop j B @ CRLF) = Some ([On_part_data_begin], s_header_field_start, 0)"
proof (induction "length B - j" arbitrary: j)
  case 0
  then show ?case by (simp add: CRLF_def spec_boundary_def)
next
  case (Suc n)
  then have j: "j < length B" and "drop j B = B ! j # drop (Suc j) B" by (simp_all add: Cons_nth_drop_Suc)
  then show ?case using Suc.hyps(1) [of "Suc j"] Suc.hyps(2) by (simp add: spec_boundary_def)
qed

lemma runs_to_start: "runs_to B (s_start, k) (B @ CRLF) [On_part_data_begin] s_header_field_start"
proof (rule runs_toI)
  have "spec_run B (s_start, k) (B @ CRLF) = spec_run B (s_start_boundary, 0) (B @ CRLF)"
    by (cases "B @ CRLF") (simp_all add: CRLF_def)
  then show "spec_run B (s_start, k) (B @ CRLF) = Some ([On_part_data_begin], s_header_field_start, 0)"
    using run_start_boundary [of 0 B] by simp
qed

lemma name_byte_not [simp]: "name_byte c \<Longrightarrow> c \<noteq> 13" "name_byte c \<Longrightarrow> c \<noteq> 0x3a"
  by (auto simp: name_byte_def c_tolower_def)

lemma runs_to_name:
  "list_all name_byte n \<Longrightarrow> st \<in> {s_header_field_start, s_header_field} \<Longrightarrow>
    runs_to B (st, k) (n @ bytes '':'') [On_header_field n] s_header_value_start"
proof (induction n arbitrary: st)
  case Nil
  then show ?case by (auto intro!: runs_toI simp: bytes_def spec_name_def)
next
  case (Cons c n)
  then have "runs_to B (st, k) (c # n @ bytes '':'') ([On_header_field [c]] @ [On_header_field n]) s_header_value_start"
    by (intro runs_to_Cons [where s' = "(s_header_field, k)"]) (auto simp: spec_name_def)
  then show ?case using runs_to_join by fastforce
qed

lemma runs_to_value:
  "CR \<notin> set v \<Longrightarrow> runs_to B (s_header_value, k) (v @ CRLF) [On_header_value v] s_header_field_start"
proof (induction v)
  case Nil
  show ?case by (rule runs_toI) (simp add: CRLF_def spec_value_def)
next
  case (Cons c v)
  then have "runs_to B (s_header_value, k) (c # v @ CRLF) ([On_header_value [c]] @ [On_header_value v]) s_header_field_start"
    by (intro runs_to_Cons [where s' = "(s_header_value, k)"]) (auto simp: spec_value_def)
  then show ?case using runs_to_join by fastforce
qed

lemma runs_to_value_start:
  assumes "CR \<notin> set v" "v = [] \<or> hd v \<noteq> ch CHR '' ''"
  shows "runs_to B (s_header_value_start, k) (bytes '' '' @ v @ CRLF) [On_header_value v] s_header_field_start"
proof -
  have same: "spec_run B (s_header_value_start, k) (v @ CRLF) = spec_run B (s_header_value, k) (v @ CRLF)"
    using assms(2) by (cases v) (simp_all add: CRLF_def)
  have "runs_to B (s_header_value_start, k) (ch CHR '' '' # v @ CRLF) ([] @ [On_header_value v]) s_header_field_start"
    using runs_to_value [OF assms(1), of B k] same
    by (intro runs_to_Cons [where s' = "(s_header_value_start, k)"]) (simp_all add: runs_to_def)
  then show ?thesis by (simp add: bytes_def)
qed

lemma runs_to_header:
  assumes "header_wf h"
  shows "runs_to B (s_header_field_start, k) (header_bytes h) (header_events h) s_header_field_start"
proof (cases h)
  case (Pair n v)
  have "runs_to B (s_header_field_start, k) ((n @ bytes '':'') @ (bytes '' '' @ v @ CRLF))
    ([On_header_field n] @ [On_header_value v]) s_header_field_start"
    using assms Pair by (intro runs_to_append [OF runs_to_name runs_to_value_start]) auto
  then show ?thesis using Pair by (simp add: bytes_def)
qed

lemma runs_to_Nil: "runs_to B (st, k) [] [] st"
  by (rule runs_toI) simp

lemma runs_to_headers:
  "list_all header_wf hs \<Longrightarrow>
    runs_to B (s_header_field_start, k) (concat (map header_bytes hs)) (concat (map header_events hs)) s_header_field_start"
  by (induction hs arbitrary: k) (auto intro: runs_to_Nil runs_to_append runs_to_header)

subsection \<open>Part data\<close>

text \<open>What has been read and may belong to the boundary.\<close>

fun held :: "u_char list \<Rightarrow> mp_state \<Rightarrow> nat \<Rightarrow> u_char list" where
  "held B s_part_data_almost_boundary k = [CR]"
| "held B s_part_data_boundary k = [CR, LF] @ take k B"
| "held B _ k = []"

text \<open>A byte that does not continue the boundary is read again as data.\<close>

lemma runs_to_reread:
  assumes "runs_to B (s_part_data, k) (c # w) (On_part_data x # es) st'"
    and "st = s_part_data_almost_boundary \<and> c \<noteq> LF \<or> st = s_part_data_boundary \<and> c \<noteq> B ! k"
  shows "runs_to B (st, k) (c # w) (On_part_data (held B st k @ x) # es) st'"
proof -
  obtain es' k' where r: "spec_run B (s_part_data, k) (c # w) = Some (es', st', k')"
    "\<And>xs. joined (xs @ es') = joined (xs @ On_part_data x # es)" using assms(1) by (auto simp: runs_to_def)
  have "spec_run B (st, k) (c # w) = Some (On_part_data (held B st k) # es', st', k')"
    using r(1) assms(2) by (cases "spec_data k c") auto
  moreover have "joined (xs @ On_part_data (held B st k) # es') = joined (xs @ On_part_data (held B st k @ x) # es)" for xs
    using r(2) [of "xs @ [On_part_data (held B st k)]"]
      joined_join [of "On_part_data (held B st k)" "On_part_data x" "On_part_data (held B st k @ x)" xs es] by simp
  ultimately show ?thesis by (auto simp: runs_to_def)
qed

lemma run_boundary:
  "j < length B \<Longrightarrow> spec_run B (s_part_data_boundary, j) (drop j B) = Some ([On_part_data_end], s_part_data_almost_end, length B)"
proof (induction "length B - j" arbitrary: j)
  case (Suc n)
  then have "drop j B = B ! j # drop (Suc j) B" by (simp add: Cons_nth_drop_Suc)
  then show ?case using Suc.hyps(1) [of "Suc j"] Suc by (cases "Suc j = length B") auto
qed simp

lemma runs_to_delimiter:
  assumes "B \<noteq> []"
  shows "runs_to B (s_part_data, k) (CRLF @ B) [On_part_data [], On_part_data_end] s_part_data_almost_end"
  using assms run_boundary [of 0 B] by (intro runs_toI) (simp add: CRLF_def spec_data_def)

lemma runs_to_data:
  assumes "B \<noteq> []" "CR \<notin> set B"
  shows "st \<in> {s_part_data, s_part_data_almost_boundary, s_part_data_boundary} \<Longrightarrow>
    (st = s_part_data_boundary \<Longrightarrow> k < length B) \<Longrightarrow> \<not> sublist (CRLF @ B) (held B st k @ d) \<Longrightarrow>
    runs_to B (st, k) (d @ CRLF @ B) [On_part_data (held B st k @ d), On_part_data_end] s_part_data_almost_end"
proof (induction d arbitrary: st k)
  case Nil
  have cr: "CR \<noteq> B ! k" if "k < length B" using assms(2) that by (metis nth_mem)
  have pd: "runs_to B (s_part_data, k) (CR # LF # B) [On_part_data [], On_part_data_end] s_part_data_almost_end"
    using runs_to_delimiter [OF assms(1), of k] by (simp add: CRLF_def)
  show ?case using Nil pd runs_to_reread [OF pd, of st] cr by (auto simp: CRLF_def)
next
  case (Cons c d)
  have shorter: "\<not> sublist (CRLF @ B) y" if "\<not> sublist (CRLF @ B) (x @ y)" for x y
    using that unfolding sublist_def by (metis append.assoc)
  have pd: "runs_to B (s_part_data, k) (c # d @ CRLF @ B) [On_part_data (c # d), On_part_data_end] s_part_data_almost_end"
    if "\<not> sublist (CRLF @ B) (c # d)" for k
  proof (cases "c = CR")
    case True
    then have "runs_to B (s_part_data, k) (c # d @ CRLF @ B)
      ([On_part_data []] @ [On_part_data (CR # d), On_part_data_end]) s_part_data_almost_end"
      using Cons.IH [of s_part_data_almost_boundary k] that
      by (intro runs_to_Cons [where s' = "(s_part_data_almost_boundary, k)"]) (auto simp: spec_data_def)
    then show ?thesis using True runs_to_join by fastforce
  next
    case False
    then have "runs_to B (s_part_data, k) (c # d @ CRLF @ B)
      ([On_part_data [c]] @ [On_part_data d, On_part_data_end]) s_part_data_almost_end"
      using Cons.IH [of s_part_data k] shorter [of "[c]" d] that
      by (intro runs_to_Cons [where s' = "(s_part_data, k)"]) (auto simp: spec_data_def)
    then show ?thesis using runs_to_join by fastforce
  qed
  have pd': "runs_to B (s_part_data, k) (c # d @ CRLF @ B) [On_part_data (c # d), On_part_data_end] s_part_data_almost_end"
    using pd shorter Cons.prems(3) by blast
  consider (data) "st = s_part_data"
    | (reread) "st = s_part_data_almost_boundary \<and> c \<noteq> LF \<or> st = s_part_data_boundary \<and> c \<noteq> B ! k"
    | (lf) "st = s_part_data_almost_boundary" "c = LF"
    | (same) "st = s_part_data_boundary" "c = B ! k" using Cons.prems(1) by blast
  then show ?case
  proof cases
    case data
    then show ?thesis using pd' by simp
  next
    case reread
    then show ?thesis using runs_to_reread [OF pd' reread] by simp
  next
    case lf
    then have "runs_to B (st, k) (c # d @ CRLF @ B) ([] @ [On_part_data (CR # LF # d), On_part_data_end])
      s_part_data_almost_end" using Cons.IH [of s_part_data_boundary 0] Cons.prems(3) assms(1)
      by (intro runs_to_Cons [where s' = "(s_part_data_boundary, 0)"]) auto
    then show ?thesis using lf by simp
  next
    case same
    then have k: "k < length B" using Cons.prems(2) by simp
    then have t: "take (Suc k) B = take k B @ [c]" using same by (simp add: take_Suc_conv_app_nth)
    have "k + 1 \<noteq> length B"
    proof
      assume "k + 1 = length B"
      then have "held B st k @ c # d = (CRLF @ B) @ d" using t same by (simp add: CRLF_def)
      then have "sublist (CRLF @ B) (held B st k @ c # d)" unfolding sublist_def by (metis append_Nil)
      then show False using Cons.prems(3) by simp
    qed
    then have "runs_to B (st, k) (c # d @ CRLF @ B)
      ([] @ [On_part_data (CR # LF # take (Suc k) B @ d), On_part_data_end]) s_part_data_almost_end"
      using Cons.IH [of s_part_data_boundary "Suc k"] Cons.prems(3) same k t
      by (intro runs_to_Cons [where s' = "(s_part_data_boundary, Suc k)"]) auto
    then show ?thesis using same t by simp
  qed
qed

lemma runs_to_part_data:
  assumes "B \<noteq> []" "CR \<notin> set B" "\<not> sublist (CRLF @ B) d"
  shows "runs_to B (s_part_data_start, k) (d @ CRLF @ B)
    [On_headers_complete, On_part_data d, On_part_data_end] s_part_data_almost_end"
proof -
  obtain es k' where r: "spec_run B (s_part_data, k) (d @ CRLF @ B) = Some (es, s_part_data_almost_end, k')"
    "\<And>xs. joined (xs @ es) = joined (xs @ [On_part_data d, On_part_data_end])"
    using runs_to_data [OF assms(1,2), of s_part_data k d] assms(3) by (auto simp: runs_to_def)
  obtain c w where w: "d @ CRLF @ B = c # w" by (cases "d @ CRLF @ B") (simp_all add: CRLF_def)
  have "spec_run B (s_part_data_start, k) (d @ CRLF @ B) = Some (On_headers_complete # es, s_part_data_almost_end, k')"
    using r(1) unfolding w by (cases "spec_data k c") auto
  moreover have "joined (xs @ On_headers_complete # es) =
    joined (xs @ [On_headers_complete, On_part_data d, On_part_data_end])" for xs
    using r(2) [of "xs @ [On_headers_complete]"] by simp
  ultimately show ?thesis by (auto simp: runs_to_def)
qed

lemma runs_to_part:
  assumes "B \<noteq> []" "CR \<notin> set B" "part_wf B q"
  shows "runs_to B (s_header_field_start, k) (part_bytes q @ CRLF @ B) (tl (part_events q)) s_part_data_almost_end"
proof (cases q)
  case (Pair hs d)
  have blank: "runs_to B (s_header_field_start, k) CRLF [] s_part_data_start" for k
    by (rule runs_toI) (simp add: CRLF_def)
  have "runs_to B (s_header_field_start, k) (concat (map header_bytes hs) @ CRLF @ (d @ CRLF @ B))
    (concat (map header_events hs) @ [] @ [On_headers_complete, On_part_data d, On_part_data_end])
    s_part_data_almost_end"
    using assms Pair
    by (intro runs_to_append [OF runs_to_headers] runs_to_append [OF blank] runs_to_part_data) auto
  then show ?thesis using Pair by simp
qed

lemma runs_to_epilogue: "runs_to B (s_end, k) w [] s_end"
proof (rule runs_toI)
  show "spec_run B (s_end, k) w = Some ([], s_end, k)" by (induction w) simp_all
qed

lemma runs_to_last: "runs_to B (s_part_data_almost_end, k) (bytes ''--'' @ w) [On_body_end] s_end"
proof -
  have "runs_to B (s_part_data_almost_end, k) (bytes ''--'') [On_body_end] s_end"
    by (rule runs_toI) (simp add: bytes_def)
  from runs_to_append [OF this runs_to_epilogue] show ?thesis by simp
qed

lemma runs_to_next: "runs_to B (s_part_data_almost_end, k) CRLF [On_part_data_begin] s_header_field_start"
  by (rule runs_toI) (simp add: CRLF_def)

lemma part_events_Cons: "part_events q = On_part_data_begin # tl (part_events q)"
  by (cases q) simp

lemma runs_to_parts:
  "B \<noteq> [] \<Longrightarrow> CR \<notin> set B \<Longrightarrow> list_all (part_wf B) qs \<Longrightarrow> qs \<noteq> [] \<Longrightarrow>
    runs_to B (s_header_field_start, k) (parts_bytes B epilogue qs)
      (tl (concat (map part_events qs)) @ [On_body_end]) s_end"
proof (induction B epilogue qs arbitrary: k rule: parts_bytes.induct)
  case (2 B epilogue q)
  have "runs_to B (s_header_field_start, k) ((part_bytes q @ CRLF @ B) @ bytes ''--'' @ epilogue)
    (tl (part_events q) @ [On_body_end]) s_end"
    using 2 by (intro runs_to_append [OF runs_to_part runs_to_last]) auto
  then show ?case by simp
next
  case (3 B epilogue q q' qs)
  have "runs_to B (s_header_field_start, k)
    ((part_bytes q @ CRLF @ B) @ CRLF @ parts_bytes B epilogue (q' # qs))
    (tl (part_events q) @ [On_part_data_begin] @ tl (concat (map part_events (q' # qs))) @ [On_body_end]) s_end"
    using 3 by (intro runs_to_append [OF runs_to_part] runs_to_append [OF runs_to_next]) auto
  moreover have "tl (concat (map part_events (q # q' # qs))) =
    tl (part_events q) @ [On_part_data_begin] @ tl (concat (map part_events (q' # qs)))"
    by (cases q; cases q') simp
  ultimately show ?case by (simp only: parts_bytes.simps append.assoc)
qed simp

text \<open>The events of a body are already joined.\<close>

lemma add_event_new: "rs = [] \<or> join (last rs) e = None \<Longrightarrow> add_event rs e = rs @ [e]"
  by (auto simp: add_event_def)

lemma foldl_header_events:
  "rs \<noteq> [] \<Longrightarrow> (\<forall>n. join (last rs) (On_header_field n) = None) \<Longrightarrow>
    foldl add_event rs (concat (map header_events hs)) = rs @ concat (map header_events hs)"
proof (induction hs arbitrary: rs)
  case (Cons h hs)
  then show ?case by (cases h) (simp add: add_event_new)
qed simp

lemma join_notify [simp]:
  "join e On_part_data_begin = None" "join e On_headers_complete = None"
  "join e On_part_data_end = None" "join e On_body_end = None"
  by (cases e; simp)+

lemma foldl_part_events: "foldl add_event rs (part_events q) = rs @ part_events q"
  by (cases q) (simp add: add_event_new foldl_header_events)

lemma foldl_body_events:
  "foldl add_event rs (concat (map part_events qs) @ [On_body_end]) = rs @ concat (map part_events qs) @ [On_body_end]"
  by (induction qs arbitrary: rs) (simp_all add: add_event_new foldl_part_events)

text \<open>
  C7: A multipart body is taken apart into its parts.  Let the boundary be non-empty and without a carriage return, and
  let no part's data contain a line break followed by the boundary.  However the body is cut into
  pieces, every call on a piece returns its length, the parser ends in its final state, whatever
  follows the body, and the callbacks get, in order, for each part its begin, the name
  and the value of each header, the end of the headers, the data and the end of the part, and at last
  the end of the body.
\<close>

theorem multipart_body_roundtrip:
  assumes "concat bufs = multipart_body B epilogue qs" "B \<noteq> []" "CR \<notin> set B" "qs \<noteq> []" "list_all (part_wf B) qs"
  shows "\<exists>p evs. execute_all never (multipart_parser_init data garbage B) bufs [] = Some (p, evs)
    \<and> p_state p = s_end \<and> joined evs = concat (map part_events qs) @ [On_body_end]"
proof -
  let ?evs = "concat (map part_events qs) @ [On_body_end]"
  have "runs_to B (s_start, 0) ((B @ CRLF) @ parts_bytes B epilogue qs)
    ([On_part_data_begin] @ tl (concat (map part_events qs)) @ [On_body_end]) s_end"
    using assms by (intro runs_to_append [OF runs_to_start runs_to_parts])
  moreover have "[On_part_data_begin] @ tl (concat (map part_events qs)) @ [On_body_end] = ?evs"
    using assms(4) part_events_Cons [of "hd qs"] by (cases qs) (auto simp flip: append_Cons)
  ultimately have "runs_to B (s_start, 0) (concat bufs) ?evs s_end"
    using assms(1) by (simp only: multipart_body_def append.assoc)
  then obtain es k where r: "spec_run B (s_start, 0) (concat bufs) = Some (es, s_end, k)" "joined es = joined ?evs"
    unfolding runs_to_def by (metis append_Nil)
  have "joined es = ?evs" using r(2) foldl_body_events [of "[]" qs] by (simp add: joined_def)
  then show ?thesis using init_refines [OF r(1) assms(2), of data garbage] by auto
qed

text \<open>An example: a body of two parts, cut in the middle of a boundary.\<close>

definition sample_parts :: "part list" where
  "sample_parts = [([(bytes ''A-b'', bytes ''v w'')], CRLF @ bytes ''--''), ([], [])]"

definition sample_body :: "u_char list" where
  "sample_body = multipart_body (bytes ''--x'') (bytes ''end'') sample_parts"

lemma sample_parts_wf: "list_all (part_wf (bytes ''--x'')) sample_parts"
proof -
  have "\<not> sublist (CRLF @ bytes ''--x'') (CRLF @ bytes ''--'')" "\<not> sublist (CRLF @ bytes ''--x'') []"
    by (auto dest!: sublist_length_le simp: CRLF_def bytes_def)
  then show ?thesis by (simp add: sample_parts_def bytes_def name_byte_def c_tolower_def)
qed

theorem multipart_body_roundtrip_witness:
  "\<exists>p evs. execute_all never (multipart_parser_init 0 [] (bytes ''--x''))
      [take 17 sample_body, drop 17 sample_body] [] = Some (p, evs)
    \<and> p_state p = s_end \<and> joined evs = concat (map part_events sample_parts) @ [On_body_end]"
  using multipart_body_roundtrip [of "[take 17 sample_body, drop 17 sample_body]" "bytes ''--x''" "bytes ''end''"
      sample_parts 0 "[]"] sample_parts_wf
  by (simp add: sample_body_def bytes_def sample_parts_def)

text \<open>
  The condition on the specification is needed: a header name that is not followed by a colon
  is dropped, unless a piece of the body ends in it.
\<close>

lemma name_without_colon:
  "map_option snd (execute_all never (multipart_parser_init 0 [] (bytes ''x'')) [bytes ''x'' @ CRLF @ bytes ''ab'' @ CRLF] []) =
     Some [On_part_data_begin]"
  "map_option snd (execute_all never (multipart_parser_init 0 [] (bytes ''x'')) [bytes ''x'' @ CRLF @ bytes ''a'', bytes ''b'' @ CRLF] []) =
     Some [On_part_data_begin, On_header_field (bytes ''a'')]"
  by code_simp+

end
