(* ===== verification/Code_Test.thy ===== *)
theory Code_Test
  imports Ngx_Str
begin

text \<open>
  The program \<^verbatim>\<open>code/test.c\<close>: \<^verbatim>\<open>hander\<close> removes from a string, in place, every character that was there before,
  and \<^verbatim>\<open>main\<close> prints what it leaves of one string.

  A string is the array that holds it, up to the first zero byte.  \<^const>\<open>None\<close> as a result of \<open>hander\<close> is \<^verbatim>\<open>NULL\<close>, which is
  returned for the empty string, whose array is not written.
\<close>

text \<open>The inner loop: the value of \<open>j\<close> at its end.\<close>

function hander_find :: "u_char list \<Rightarrow> nat \<Rightarrow> nat \<Rightarrow> nat \<Rightarrow> nat" where
  "hander_find mem i tail j = (if j < tail then if mem ! i = mem ! j then j else hander_find mem i tail (j + 1) else j)"
  by pat_completeness auto
termination by (relation "measure (\<lambda>(mem, i, tail, j). tail - j)") auto

declare hander_find.simps [simp del]

text \<open>The outer loop from \<open>i\<close> on.\<close>

function hander_loop :: "nat \<Rightarrow> u_char list \<Rightarrow> nat \<Rightarrow> nat \<Rightarrow> u_char list \<times> nat" where
  "hander_loop len mem tail i =
    (if i < len then
       if hander_find mem i tail 0 = tail then hander_loop len (mem[tail := mem ! i]) (tail + 1) (i + 1)
       else hander_loop len mem tail (i + 1)
     else (mem, tail))"
  by pat_completeness auto
termination by (relation "measure (\<lambda>(len, mem, tail, i). len - i)") auto

declare hander_loop.simps [simp del]

definition hander :: "u_char list \<Rightarrow> u_char list option" where
  "hander mem =
    (let len = length (cstr mem) in
     if len < 1 then None
     else case hander_loop len mem 1 1 of (mem, tail) \<Rightarrow> Some (mem[tail := 0]))"

definition main_str :: "u_char list" where
  "main_str = bytes ''aaabbbbcccabcd'' @ replicate 86 0"

definition main_output :: "u_char list option" where
  "main_output = map_option cstr (hander main_str)"

section \<open>What is left of a string\<close>

text \<open>The first occurrences of the elements of a list, in their order.\<close>

definition firsts :: "'a list \<Rightarrow> 'a list" where
  "firsts xs = rev (remdups (rev xs))"

lemma firsts_snoc: "firsts (xs @ [x]) = (if x \<in> set xs then firsts xs else firsts xs @ [x])"
  by (simp add: firsts_def)

lemma set_firsts [simp]: "set (firsts xs) = set xs"
  by (simp add: firsts_def)

lemma length_firsts: "length (firsts xs) \<le> length xs"
  using length_remdups_leq [of "rev xs"] by (simp add: firsts_def)

lemma distinct_firsts: "distinct (firsts xs)"
  by (simp add: firsts_def)

lemma cstr_append_0: "0 \<notin> set xs \<Longrightarrow> cstr (xs @ 0 # ys) = xs"
  by (induction xs) auto

lemma hander_find_eq: "j \<le> tail \<Longrightarrow> hander_find mem i tail j = tail \<longleftrightarrow> (\<forall>k. j \<le> k \<and> k < tail \<longrightarrow> mem ! k \<noteq> mem ! i)"
proof (induction mem i tail j rule: hander_find.induct)
  case (1 mem i tail j)
  show ?case
  proof (cases "j < tail \<and> mem ! i \<noteq> mem ! j")
    case True
    then have "(\<forall>k. j \<le> k \<and> k < tail \<longrightarrow> mem ! k \<noteq> mem ! i) \<longleftrightarrow> (\<forall>k. j + 1 \<le> k \<and> k < tail \<longrightarrow> mem ! k \<noteq> mem ! i)"
      by (metis Suc_eq_plus1 Suc_leD not_less_eq_eq order_antisym)
    then show ?thesis using True 1 by (subst hander_find.simps) simp
  next
    case False
    then show ?thesis using 1(2) by (subst hander_find.simps) auto
  qed
qed

text \<open>
  Before the round \<open>i\<close> the array has the first occurrences of the first \<open>i\<close> characters, and from \<open>i\<close> on it is unchanged.
\<close>

lemma hander_loop_spec:
  assumes "0 < i" "i \<le> n" "n \<le> length mem0" "length mem = length mem0" "drop i mem = drop i mem0"
    and "take tail mem = firsts (take i mem0)" "tail \<le> i" "length (firsts (take i mem0)) = tail"
  shows "case hander_loop n mem tail i of (mem', tail') \<Rightarrow> length mem' = length mem0 \<and> drop n mem' = drop n mem0
    \<and> take tail' mem' = firsts (take n mem0) \<and> tail' = length (firsts (take n mem0))"
  using assms
proof (induction n mem tail i rule: hander_loop.induct)
  case (1 n mem tail i)
  note p = 1(3-10)
  show ?case
  proof (cases "i < n")
    case True
    have i: "i < length mem0" "take (Suc i) mem0 = take i mem0 @ [mem0 ! i]" using True p(3) by (simp_all add: take_Suc_conv_app_nth)
    have at: "mem ! i = mem0 ! i" using nth_drop [of i mem 0] nth_drop [of i mem0 0] p(4,5) i(1) by simp
    have drop: "drop (Suc i) mem = drop (Suc i) mem0" using arg_cong [OF p(5), of tl] by (simp add: drop_Suc tl_drop)
    have "hander_find mem i tail 0 = tail \<longleftrightarrow> mem0 ! i \<notin> set (take tail mem)"
      using i(1) p(4,7) by (auto simp: hander_find_eq in_set_conv_nth at)
    then have new: "hander_find mem i tail 0 = tail \<longleftrightarrow> mem0 ! i \<notin> set (take i mem0)" using p(6) by simp
    show ?thesis
    proof (cases "hander_find mem i tail 0 = tail")
      case found: True
      have t: "take (tail + 1) (mem[tail := mem ! i]) = firsts (take (i + 1) mem0)"
        using found new i p(4,6,7) by (simp add: firsts_snoc take_Suc_conv_app_nth at)
      have len: "length (firsts (take (i + 1) mem0)) = tail + 1" using found new i p(8) by (simp add: firsts_snoc)
      have eq: "hander_loop n mem tail i = hander_loop n (mem[tail := mem ! i]) (tail + 1) (i + 1)"
        using True found by (subst hander_loop.simps) simp
      show ?thesis unfolding eq using True p(3,4,7) drop by (intro 1(1) [OF True found _ _ _ _ _ t _ len]) simp_all
    next
      case old: False
      have t: "firsts (take (i + 1) mem0) = firsts (take i mem0)" using old new i by (simp add: firsts_snoc)
      have eq: "hander_loop n mem tail i = hander_loop n mem tail (i + 1)" using True old by (subst hander_loop.simps) simp
      show ?thesis unfolding eq using True p drop t by (intro 1(2) [OF True old]) simp_all
    qed
  next
    case False
    then show ?thesis using p by (subst hander_loop.simps) simp
  qed
qed

text \<open>
  C40: for a string that is not empty \<^verbatim>\<open>hander\<close> returns its array, which then holds the first occurrences of the characters of the string in
  their order, each once; the array keeps its size and the bytes behind the string are not touched.  For the empty string the result is \<^verbatim>\<open>NULL\<close>.
  The length must fit an \<^verbatim>\<open>int\<close> and the array must have a zero byte.
\<close>

theorem hander_correct:
  assumes "0 \<in> set mem" "length (cstr mem) \<le> 2147483647"
  shows "case hander mem of
      None \<Rightarrow> cstr mem = []
    | Some mem' \<Rightarrow> cstr mem \<noteq> [] \<and> cstr mem' = firsts (cstr mem) \<and> distinct (cstr mem') \<and> set (cstr mem') = set (cstr mem)
        \<and> length mem' = length mem \<and> drop (length (cstr mem)) mem' = drop (length (cstr mem)) mem"
proof (cases "cstr mem = []")
  case True
  then show ?thesis by (simp add: hander_def)
next
  case False
  let ?n = "length (cstr mem)"
  obtain mem' tail where r: "hander_loop ?n mem 1 1 = (mem', tail)" by fastforce
  have mem: "take ?n mem = cstr mem" by (simp only: cstr_def takeWhile_eq_take [symmetric])
  have lt: "?n < length mem" using assms(1) by (induction mem) auto
  have nz: "0 \<notin> set (cstr mem)" by (auto simp: cstr_def dest: set_takeWhileD)
  have one: "take 1 mem = firsts (take 1 mem)" "length (firsts (take 1 mem)) = 1" using lt by (cases mem; simp add: firsts_def)+
  have "1 \<le> ?n" using False by (cases "cstr mem") simp_all
  then have "length mem' = length mem \<and> drop ?n mem' = drop ?n mem \<and> take tail mem' = firsts (cstr mem) \<and> tail = length (firsts (cstr mem))"
    using hander_loop_spec [of 1 ?n mem mem 1, unfolded r mem prod.case] lt one by (auto simp del: One_nat_def)
  then have m: "length mem' = length mem" "drop ?n mem' = drop ?n mem" "take tail mem' = firsts (cstr mem)" "tail \<le> ?n"
    using length_firsts [of "cstr mem"] by auto
  have "cstr (mem'[tail := 0]) = firsts (cstr mem)"
  proof -
    have "mem'[tail := 0] = firsts (cstr mem) @ 0 # drop (Suc tail) mem'" using m lt by (simp add: upd_conv_take_nth_drop flip: m(3))
    then show ?thesis using cstr_append_0 [of "firsts (cstr mem)"] nz by simp
  qed
  moreover have "drop ?n (mem'[tail := 0]) = drop ?n mem"
  proof (cases "tail = ?n")
    case True
    have "mem ! ?n = 0" using lt nth_length_takeWhile [of "\<lambda>c. c \<noteq> 0" mem] by (simp add: cstr_def)
    then have "mem' ! ?n = 0" using m(1,2) lt nth_drop [of ?n mem' 0] nth_drop [of ?n mem 0] by simp
    then show ?thesis using True m(2) by (metis list_update_id)
  next
    case False
    then show ?thesis using m(2,4) by simp
  qed
  ultimately show ?thesis using False r m(1) by (simp add: hander_def Let_def distinct_firsts)
qed

theorem hander_correct_witness: "main_output = Some (bytes ''abcd'')"
proof -
  have str: "cstr main_str = bytes ''aaabbbbcccabcd''" "0 \<in> set main_str" "firsts (bytes ''aaabbbbcccabcd'') = bytes ''abcd''"
    "bytes ''aaabbbbcccabcd'' \<noteq> []" "length (bytes ''aaabbbbcccabcd'') = 14" by code_simp+
  then have "length (cstr main_str) \<le> 2147483647" by simp
  then show ?thesis using hander_correct [of main_str] str by (auto simp: main_output_def split: option.splits)
qed

end
