(* ===== verification/Spec2Isabelle.thy ===== *)
theory Spec2Isabelle
  imports Ngx_Md5 Ngx_Sha1 Ngx_Crc32 Ngx_Base64 Ngx_Utf8 Ngx_Escape Ngx_Str Ngx_Printf Ngx_Parse Ngx_Time
    Ngx_Http_Request_Line_Correct Ngx_Http_Header_Correct Ngx_Http_Status Ngx_Http_Body Ngx_Http_Uri_Correct
    Ngx_Rwlock Ngx_Radix_Correct Ngx_Inet_Correct Ngx_Geo_Range Ngx_Geo_Cidr Ngx_Http_Args Ngx_Http_Range_Filter Wfrest_Multipart_Correct Code_Test
begin

text \<open>
  A model of C code of the repository, with proofs.  The repository holds the sources of nginx 1.25.0
  (\<^verbatim>\<open>nginx-1.25.0/src\<close>), the C++ web framework wfrest (\<^verbatim>\<open>wfrest-main\<close>), whose multipart parser is C code, and
  a small test program.  The development is about the parts that read and write data under rules of their own: the parsers
  of HTTP, the functions on strings, numbers, time and addresses, hashes, the lock and the radix tree in shared use, and the geo and range
  modules, which put several of them together.

  \<^bold>\<open>How the program works.\<close>  A connection gives nginx bytes in pieces.  \<^verbatim>\<open>ngx_http_parse_request_line\<close> and then
  \<^verbatim>\<open>ngx_http_parse_header_line\<close> read them from one buffer, returning \<^verbatim>\<open>NGX_AGAIN\<close> when the buffer ends, and leave positions into the buffer in the request;
  \<^verbatim>\<open>ngx_http_process_request_uri\<close> turns the target into a path and arguments with \<^verbatim>\<open>ngx_http_parse_complex_uri\<close>
  (unless the request line parser saw nothing special in it); a body with chunked coding goes through \<^verbatim>\<open>ngx_http_request_body_chunked_filter\<close> and
  \<^verbatim>\<open>ngx_http_parse_chunked\<close>; \<^verbatim>\<open>ngx_http_parse_status_line\<close> reads the first line of an upstream response.  On the way out, the range filter
  cuts the parts of the response that the client asked for.  wfrest hands the
  pieces of a multipart body to \<^verbatim>\<open>multipart_parser_execute\<close>, which calls back with the parts of it.  Variables such as those of a \<^verbatim>\<open>geo\<close> block
  look the client address up in structures that were built from the configuration.

  \<^bold>\<open>Theories, from the bottom up.\<close>

  \<^item> \<^verbatim>\<open>Ngx_Prelude\<close>: bytes, C characters, integer limits and return codes of the configured build (64-bit, little-endian,
    \<^verbatim>\<open>NGX_HAVE_NONALIGNED\<close>), general lemmas, \<^verbatim>\<open>named_theorems\<close> collections.
  \<^item> \<^verbatim>\<open>Ngx_Num\<close> (\<^verbatim>\<open>ngx_string.c\<close>: \<^verbatim>\<open>ngx_atoi\<close> to \<^verbatim>\<open>ngx_hextoi\<close>).  The decimal parsers share the locale \<^verbatim>\<open>decimal_parser\<close>: a result is
    the exact value, and an error is returned exactly for a text that is not a number or does not fit.
  \<^item> \<^verbatim>\<open>Ngx_Stream\<close>, \<^verbatim>\<open>Ngx_Md5\<close>, \<^verbatim>\<open>Ngx_Sha1\<close>: the buffering the two digests share is the locale \<^verbatim>\<open>block_hash\<close>; both digests equal the text of
    their standards for any split of the message.
  \<^item> \<^verbatim>\<open>Ngx_Crc32\<close>: both tables against the polynomial.  \<^verbatim>\<open>Ngx_Base64\<close>: both alphabets through the locale \<^verbatim>\<open>base64_tables\<close>, round trip.
  \<^item> \<^verbatim>\<open>Ngx_Utf8\<close>: the decoder and \<^verbatim>\<open>ngx_utf8_length\<close>.  \<^verbatim>\<open>Ngx_Escape\<close>: \<^verbatim>\<open>ngx_escape_uri\<close> with its tables, \<^verbatim>\<open>ngx_unescape_uri\<close>, HTML and JSON escaping; the
    locales \<^verbatim>\<open>two_pass_escaper\<close> (counting and writing agree) and \<^verbatim>\<open>decodable_escaper\<close> (round trip).
  \<^item> \<^verbatim>\<open>Ngx_Str\<close>: copies, searches, comparisons and \<^verbatim>\<open>ngx_sort\<close>; the locale \<^verbatim>\<open>comparator\<close> gives a linear order and from it that \<^verbatim>\<open>ngx_sort\<close> sorts and is
    stable.  \<^verbatim>\<open>Ngx_Printf\<close>: \<^verbatim>\<open>ngx_vslprintf\<close> with all conversions but \<^verbatim>\<open>%f\<close>, its bounds and the exact digits.
  \<^item> \<^verbatim>\<open>Ngx_Parse\<close>, \<^verbatim>\<open>Ngx_Time\<close>: configuration values; \<^verbatim>\<open>ngx_gmtime\<close> and the printing and reading of dates.
  \<^item> \<^verbatim>\<open>Ngx_Http_Machine\<close>: a parser is a step function on a memory and one byte, and the locale \<^verbatim>\<open>resumable\<close> shows once that cutting
    the input does not change the result.  \<^verbatim>\<open>Ngx_Http_Request\<close> has the record of the request; \<^verbatim>\<open>Ngx_Http_Method\<close>, \<^verbatim>\<open>Ngx_Http_Request_Line\<close>,
    \<^verbatim>\<open>Ngx_Http_Header\<close>, \<^verbatim>\<open>Ngx_Http_Status\<close>, \<^verbatim>\<open>Ngx_Http_Chunked\<close> and \<^verbatim>\<open>Ngx_Http_Uri\<close> have one definition per \<^verbatim>\<open>case\<close> of the switches of \<^verbatim>\<open>ngx_http_parse.c\<close>, and
    the theories with \<^verbatim>\<open>_Correct\<close> what an accepted text looks like.  \<^verbatim>\<open>Ngx_Http_Body\<close> puts the chunked parser into the loops of
    \<^verbatim>\<open>ngx_http_request_body.c\<close>.  \<^verbatim>\<open>Ngx_Http_Args\<close> looks values up in arguments and in header lines such as \<^verbatim>\<open>Cookie\<close>.
  \<^item> \<^verbatim>\<open>Ngx_Http_Range\<close>, \<^verbatim>\<open>Ngx_Http_Range_Filter\<close>: the module \<^verbatim>\<open>ngx_http_range_filter_module.c\<close>, from the header line \<^verbatim>\<open>Range\<close> to the bytes that are sent.  An accepted
    set of ranges lies in the body and is not longer than it; the response to a request for ranges has exactly their bytes and its length is the one that was
    announced; the texts fit the memory that was asked for, by what \<^verbatim>\<open>Ngx_Printf\<close> says of the output.
  \<^item> \<^verbatim>\<open>Wfrest_Multipart\<close>, \<^verbatim>\<open>Wfrest_Multipart_Correct\<close>: the parser with its look-behind buffer in a block of memory, that it stays inside of it, a
    refinement to a parser that works byte by byte without a buffer, and from it the round trip for any cutting of a body.
  \<^item> \<^verbatim>\<open>Ngx_Rwlock\<close>: the four functions of \<^verbatim>\<open>ngx_rwlock.c\<close> as atomic steps of processes on one shared word; safety over all interleavings.
  \<^item> \<^verbatim>\<open>Ngx_Radix\<close>, \<^verbatim>\<open>Ngx_Radix_Correct\<close>: the nodes are in a store and point to each other, with the allocator and its free list.  The invariant ties
    the store to a binary tree; insertion, deletion and search refine a table of prefixes, which is the locale \<^verbatim>\<open>prefix_table\<close>, interpreted for keys
    of 32 and of 128 bits.
  \<^item> \<^verbatim>\<open>Ngx_Inet\<close>, \<^verbatim>\<open>Ngx_Inet_Correct\<close>: addresses and networks as texts, bounds, exact grammar, round trips, matching.
  \<^item> \<^verbatim>\<open>Ngx_Geo_Range\<close>, \<^verbatim>\<open>Ngx_Geo_Cidr\<close>: the two kinds of \<^verbatim>\<open>geo\<close> block from the texts of its lines to the value of the variable.
    The second rests on \<^verbatim>\<open>Ngx_Inet\<close> and \<^verbatim>\<open>Ngx_Radix\<close>.
  \<^item> \<^verbatim>\<open>Code_Test\<close>: the program \<^verbatim>\<open>code/test.c\<close>, which removes repeated characters from a string.

  \<^bold>\<open>Conventions.\<close>  The functions keep their names.  A buffer is a list of bytes with positions, or a list alone where the
  code only walks through it; a pointer into a text is a position or the rest of the text; memory that is shared is a function from addresses.
  Return codes are the integers of the code, or sums where a result comes with them.  Reading or writing outside of a buffer and following
  \<^verbatim>\<open>NULL\<close> are values of their own (\<^verbatim>\<open>None\<close>, \<^verbatim>\<open>Outside\<close>, \<^verbatim>\<open>Conf_crash\<close>), so that their absence is a theorem.  Integers are words where the code shifts, masks or
  lets them wrap around, and numbers with the limits written out where it checks against limits.

  \<^bold>\<open>Loops.\<close>  Loops over a text are recursion on it.  Four loops have fuel: those of the chunked filter and of the discarding reader (one round per byte of the
  input and one more is shown to be enough), the pruning loop of a deletion in a radix tree (the length of the key is enough, because a node is not deeper), and
  the inner loop of the preallocation (\<^verbatim>\<open>2^level\<close> rounds, when the key wraps around to 0).  The others have a measure.  The lock has no fuel:
  it is a step relation, and from every state in which nobody holds the lock a process that runs alone gets it.

  \<^bold>\<open>The properties\<close> are the theorems whose text begins with C and a number.  Besides them: a deletion in a radix tree that has only a root
  and no parent to follow crashes; a multipart parser that is called again after a callback stopped it can leave its memory; \<^verbatim>\<open>ngx_http_parse_unsafe_uri\<close> misses a
  segment \<^verbatim>\<open>..\<close> before arguments; \<^verbatim>\<open>ngx_inet_addr\<close> reads empty octets.  These and smaller ones are stated as lemmas beside the definitions they concern.

  \<^bold>\<open>Not modelled.\<close>  Everything whose meaning is in system calls, other libraries or the order of events of the whole server: the event loop, sockets,
  processes and signals, TLS, files, the proxy and upstream code, HTTP/2, HTTP/3 and QUIC, the mail and stream servers, the resolver, logging, pools and slabs as
  allocators (an allocation is an oracle: it fails or gives memory that is not in use), the red-black tree and the containers, the configuration parser and the
  modules other than geo and the range filter.  Of the parts that are modelled: \<^verbatim>\<open>ngx_parse_url\<close> and the functions on socket addresses, the lookup of host names,
  \<^verbatim>\<open>%f\<close> of \<^verbatim>\<open>ngx_vslprintf\<close>, \<^verbatim>\<open>ngx_utf8_cpystrn\<close>, the cached times and time zones, reading a body from the connection, and of the geo module the included files and binary bases, the store of its values, and forwarded
  addresses.  The C++ code of wfrest is not modelled.
\<close>

end
